(* ===== verification/QPrelude.thy ===== *)
theory QPrelude
  imports Main "HOL-Library.Word" "HOL-Library.Monad_Syntax"
begin

text \<open>
  Shared vocabulary of the development: bytes, machine words, the byte-addressed
  memory of the C programs and the facts about it that the component theories use.

  A C program that touches an unmapped address has no defined continuation, so every
  access is a value of \<open>option\<close> and \<open>None\<close> is the fault. The option monad
  threads the state: \<open>m \<leftarrow> wr m p b\<close> is the store \<open>*p = b\<close>.
  Pointers are natural numbers below \<open>addr_limit\<close> (C leaves pointer arithmetic that
  leaves the address space undefined); address 0 is \<open>NULL\<close>.
\<close>

unbundle bit_operations_syntax

named_theorems mem_simps and step_simps

section \<open>Bytes, addresses, memory\<close>

type_synonym byte = "8 word"
type_synonym u32 = "32 word"
type_synonym u64 = "64 word"
type_synonym addr = nat
type_synonym memory = "addr \<rightharpoonup> byte"

definition addr_limit :: nat where
  "addr_limit = 2 ^ 64"

abbreviation (input) NULL :: addr where
  "NULL \<equiv> 0"

definition rd :: "memory \<Rightarrow> addr \<Rightarrow> byte option" where
  "rd m a = (if a < addr_limit then m a else None)"

definition wr :: "memory \<Rightarrow> addr \<Rightarrow> byte \<Rightarrow> memory option" where
  "wr m a b = (if rd m a = None then None else Some (m(a \<mapsto> b)))"

lemma unat_less_addr_limit: "unat (n :: u64) < addr_limit"
proof -
  have "unat n < 2 ^ LENGTH(64)" by (rule unsigned_less)
  then show ?thesis by (simp add: addr_limit_def)
qed

lemma rd_Some_limit: "rd m a = Some b \<Longrightarrow> a < addr_limit"
  by (simp add: rd_def split: if_splits)

lemma wr_Some_iff: "wr m a b = Some m' \<longleftrightarrow> rd m a \<noteq> None \<and> m' = m(a \<mapsto> b)"
  by (auto simp: wr_def)

lemma rd_upd [mem_simps]:
  "a < addr_limit \<Longrightarrow> rd (m(a \<mapsto> b)) x = (if x = a then Some b else rd m x)"
  by (simp add: rd_def)

lemma rd_wr: "wr m a b = Some m' \<Longrightarrow> rd m' x = (if x = a then Some b else rd m x)"
  by (auto simp: wr_def rd_def split: if_splits)

lemma wr_eq_None_iff [mem_simps]: "wr m a b = None \<longleftrightarrow> rd m a = None"
  by (simp add: wr_def)

section \<open>Blocks and C strings\<close>

fun bytes_at :: "memory \<Rightarrow> addr \<Rightarrow> byte list \<Rightarrow> bool" where
  "bytes_at m a [] \<longleftrightarrow> True"
| "bytes_at m a (b # bs) \<longleftrightarrow> rd m a = Some b \<and> bytes_at m (Suc a) bs"

fun cstr :: "memory \<Rightarrow> addr \<Rightarrow> byte list \<Rightarrow> bool" where
  "cstr m a [] \<longleftrightarrow> rd m a = Some 0"
| "cstr m a (c # cs) \<longleftrightarrow> c \<noteq> 0 \<and> rd m a = Some c \<and> cstr m (Suc a) cs"

definition mapped :: "memory \<Rightarrow> addr \<Rightarrow> nat \<Rightarrow> bool" where
  "mapped m a n \<longleftrightarrow> (\<forall>i<n. rd m (a + i) \<noteq> None)"

text \<open>\<open>blit m a bs\<close> is \<open>m\<close> with the block \<open>bs\<close> stored at \<open>a\<close>.\<close>

definition blit :: "memory \<Rightarrow> addr \<Rightarrow> byte list \<Rightarrow> memory" where
  "blit m a bs = (\<lambda>x. if a \<le> x \<and> x < a + length bs then Some (bs ! (x - a)) else m x)"

text \<open>The block of \<open>n\<close> bytes at \<open>a\<close>, if it is mapped.\<close>

fun fetch :: "memory \<Rightarrow> addr \<Rightarrow> nat \<Rightarrow> byte list option" where
  "fetch m a 0 = Some []"
| "fetch m a (Suc n) = do { b \<leftarrow> rd m a; bs \<leftarrow> fetch m (Suc a) n; Some (b # bs) }"

lemma bytes_at_nth: "bytes_at m a bs \<longleftrightarrow> (\<forall>i<length bs. rd m (a + i) = Some (bs ! i))"
proof (induction bs arbitrary: a)
  case (Cons b bs)
  show ?case
    unfolding bytes_at.simps Cons.IH
    by (auto simp: nth_Cons less_Suc_eq_0_disj)
qed simp

lemma bytes_at_append [mem_simps]:
  "bytes_at m a (xs @ ys) \<longleftrightarrow> bytes_at m a xs \<and> bytes_at m (a + length xs) ys"
  by (induction xs arbitrary: a) auto

lemma cstr_iff_bytes_at: "cstr m a s \<longleftrightarrow> bytes_at m a (s @ [0]) \<and> 0 \<notin> set s"
  by (induction s arbitrary: a) auto

lemma cstr_nonzero: "cstr m a s \<Longrightarrow> 0 \<notin> set s"
  by (simp add: cstr_iff_bytes_at)

lemma cstr_unique: "cstr m a s \<Longrightarrow> cstr m a t \<Longrightarrow> s = t"
proof (induction s arbitrary: a t)
  case Nil
  then show ?case by (cases t) auto
next
  case (Cons c s)
  then show ?case by (cases t) auto
qed

lemma bytes_at_mapped: "bytes_at m a bs \<Longrightarrow> mapped m a (length bs)"
  by (simp add: bytes_at_nth mapped_def)

lemma mapped_in_range:
  assumes "mapped m a n" and "a \<le> x" and "x < a + n"
  shows "rd m x \<noteq> None"
proof -
  have "rd m (a + (x - a)) \<noteq> None"
    using assms unfolding mapped_def by (metis add_diff_inverse_nat leD nat_add_left_cancel_less)
  with assms(2) show ?thesis by simp
qed

lemma mapped_0 [simp]: "mapped m a 0"
  by (simp add: mapped_def)

lemma mapped_Suc: "mapped m a (Suc n) \<longleftrightarrow> rd m a \<noteq> None \<and> mapped m (Suc a) n"
proof
  assume h: "mapped m a (Suc n)"
  have "rd m (Suc a + i) \<noteq> None" if "i < n" for i
    using h [unfolded mapped_def, rule_format, of "Suc i"] that by simp
  moreover have "rd m a \<noteq> None"
    using h [unfolded mapped_def, rule_format, of 0] by simp
  ultimately show "rd m a \<noteq> None \<and> mapped m (Suc a) n"
    by (simp add: mapped_def)
next
  assume "rd m a \<noteq> None \<and> mapped m (Suc a) n"
  then show "mapped m a (Suc n)"
    by (auto simp: mapped_def less_Suc_eq_0_disj)
qed

lemma mapped_fetch: "mapped m a n \<longleftrightarrow> (\<exists>bs. fetch m a n = Some bs)"
proof (induction n arbitrary: a)
  case (Suc n)
  then show ?case by (auto simp: mapped_Suc Option.bind_eq_Some_conv)
qed simp

lemma fetch_Some_iff: "fetch m a n = Some bs \<longleftrightarrow> bytes_at m a bs \<and> length bs = n"
proof (induction n arbitrary: a bs)
  case (Suc n)
  show ?case
    by (cases bs) (auto simp: Suc.IH Option.bind_eq_Some_conv)
qed auto

lemma mapped_mono: "mapped m a n \<Longrightarrow> k \<le> n \<Longrightarrow> mapped m a k"
  by (simp add: mapped_def)

lemma mapped_shift: "mapped m a (k + n) \<Longrightarrow> mapped m (a + k) n"
  by (auto simp: mapped_def add.assoc)

lemma rd_upd_mapped [mem_simps]:
  "rd m a = Some c \<Longrightarrow> rd (m(a \<mapsto> b)) x = (if x = a then Some b else rd m x)"
  by (rule rd_upd) (rule rd_Some_limit)

lemma mapped_join: "mapped m a k \<Longrightarrow> mapped m (a + k) n \<Longrightarrow> mapped m a (k + n)"
  by (induction k arbitrary: a) (simp_all add: mapped_Suc)

lemma mapped_add: "mapped m a (k + n) \<longleftrightarrow> mapped m a k \<and> mapped m (a + k) n"
  using mapped_join mapped_mono mapped_shift le_add1 by blast

lemma mapped_sub: "mapped m a n \<Longrightarrow> a \<le> b \<Longrightarrow> b + k \<le> a + n \<Longrightarrow> mapped m b k"
  using mapped_in_range [of m a n] by (simp add: mapped_def [of _ b])

lemma mapped_upd [mem_simps]: "rd m x \<noteq> None \<Longrightarrow> mapped (m(x \<mapsto> b)) a n \<longleftrightarrow> mapped m a n"
  by (auto simp: mapped_def rd_def split: if_splits)

section \<open>Blits\<close>

lemma blit_Nil [simp]: "blit m a [] = m"
  by (rule ext) (auto simp: blit_def)

lemma blit_Cons: "blit m a (b # bs) = blit (m(a \<mapsto> b)) (Suc a) bs"
proof
  fix x
  show "blit m a (b # bs) x = blit (m(a \<mapsto> b)) (Suc a) bs x"
    by (cases "x = a") (auto simp: blit_def nth_Cons' Suc_le_eq)
qed

lemma rd_blit:
  "mapped m a (length bs) \<Longrightarrow>
    rd (blit m a bs) x = (if a \<le> x \<and> x < a + length bs then Some (bs ! (x - a)) else rd m x)"
proof -
  assume h: "mapped m a (length bs)"
  have "x < addr_limit" if "a \<le> x" "x < a + length bs"
    using mapped_in_range [OF h that] by (auto simp: rd_def split: if_splits)
  then show ?thesis by (auto simp: rd_def blit_def)
qed

lemma bytes_at_blit: "mapped m a (length bs) \<Longrightarrow> bytes_at (blit m a bs) a bs"
  by (simp add: bytes_at_nth rd_blit)

lemma rd_blit_other:
  "mapped m a (length bs) \<Longrightarrow> x < a \<or> a + length bs \<le> x \<Longrightarrow> rd (blit m a bs) x = rd m x"
  by (auto simp: rd_blit)

lemma mapped_blit [mem_simps]:
  "mapped m a (length bs) \<Longrightarrow> mapped (blit m a bs) p n \<longleftrightarrow> mapped m p n"
proof -
  assume h: "mapped m a (length bs)"
  have "rd (blit m a bs) x \<noteq> None \<longleftrightarrow> rd m x \<noteq> None" for x
    using mapped_in_range [OF h] by (auto simp: rd_blit [OF h])
  then show ?thesis unfolding mapped_def by blast
qed

lemma bytes_at_frame:
  "bytes_at m p bs \<Longrightarrow> mapped m a (length cs) \<Longrightarrow>
    p + length bs \<le> a \<or> a + length cs \<le> p \<Longrightarrow> bytes_at (blit m a cs) p bs"
  by (auto simp: bytes_at_nth rd_blit)

section \<open>Multi-byte values (little endian)\<close>

text \<open>The low \<open>k\<close> bytes of a word, least significant first, and back.\<close>

fun le_bytes :: "nat \<Rightarrow> 'a::len word \<Rightarrow> byte list" where
  "le_bytes 0 w = []"
| "le_bytes (Suc k) w = ucast w # le_bytes k (drop_bit 8 w)"

fun le_word :: "byte list \<Rightarrow> 'a::len word" where
  "le_word [] = 0"
| "le_word (b # bs) = ucast b OR push_bit 8 (le_word bs)"

definition rd32 :: "memory \<Rightarrow> addr \<Rightarrow> u32 option" where
  "rd32 m a = do { bs \<leftarrow> fetch m a 4; Some (le_word bs) }"

definition rd64 :: "memory \<Rightarrow> addr \<Rightarrow> u64 option" where
  "rd64 m a = do { bs \<leftarrow> fetch m a 8; Some (le_word bs) }"

lemma length_le_bytes [simp]: "length (le_bytes k w) = k"
  by (induction k arbitrary: w) auto

lemma le_word_le_bytes:
  fixes w :: "'a::len word"
  shows "le_word (le_bytes k w) = take_bit (8 * k) w"
proof (induction k arbitrary: w)
  case (Suc k)
  show ?case
    unfolding le_bytes.simps le_word.simps Suc.IH
    by (rule bit_word_eqI) (auto simp: bit_simps)
qed simp

fun wr_bytes :: "memory \<Rightarrow> addr \<Rightarrow> byte list \<Rightarrow> memory option" where
  "wr_bytes m a [] = Some m"
| "wr_bytes m a (b # bs) = do { m \<leftarrow> wr m a b; wr_bytes m (Suc a) bs }"

lemma wr_bytes_blit: "mapped m a (length bs) \<Longrightarrow> wr_bytes m a bs = Some (blit m a bs)"
proof (induction bs arbitrary: m a)
  case (Cons b bs)
  then show ?case
    using mapped_upd [of m a b "Suc a" "length bs"]
    by (simp add: mapped_Suc wr_def blit_Cons)
qed simp

lemma wr_bytes_Some:
  "wr_bytes m a bs = Some m' \<Longrightarrow> mapped m a (length bs) \<and> m' = blit m a bs"
proof (induction bs arbitrary: m a)
  case (Cons b bs)
  from Cons.prems have r: "rd m a \<noteq> None" and w: "wr_bytes (m(a \<mapsto> b)) (Suc a) bs = Some m'"
    by (auto simp: Option.bind_eq_Some_conv wr_Some_iff)
  have "mapped (m(a \<mapsto> b)) (Suc a) (length bs) \<and> m' = blit (m(a \<mapsto> b)) (Suc a) bs"
    by (rule Cons.IH [OF w])
  with r show ?case
    using mapped_upd [OF r, of b "Suc a" "length bs"] by (simp add: mapped_Suc blit_Cons)
qed simp

section \<open>Compiler builtins and pointer arithmetic\<close>

text \<open>\<open>__builtin_memset\<close> and \<open>__builtin_memcpy\<close> as the C standard defines them
  (the copy reads its whole source first, which is memcpy's contract on disjoint blocks).\<close>

definition builtin_memset :: "memory \<Rightarrow> addr \<Rightarrow> byte \<Rightarrow> nat \<Rightarrow> memory option" where
  "builtin_memset m a c n = wr_bytes m a (replicate n c)"

definition builtin_memcpy :: "memory \<Rightarrow> addr \<Rightarrow> addr \<Rightarrow> nat \<Rightarrow> memory option" where
  "builtin_memcpy m d s n = do { bs \<leftarrow> fetch m s n; wr_bytes m d bs }"

text \<open>\<open>p - k\<close> on pointers: leaving the address space downwards is a fault.\<close>

definition ptr_minus :: "addr \<Rightarrow> nat \<Rightarrow> addr option" where
  "ptr_minus p k = (if k \<le> p then Some (p - k) else None)"

text \<open>Storing a 64-bit word, little endian, and reading it back.\<close>

definition wr64 :: "memory \<Rightarrow> addr \<Rightarrow> u64 \<Rightarrow> memory option" where
  "wr64 m a v = wr_bytes m a (le_bytes 8 v)"

definition wr32 :: "memory \<Rightarrow> addr \<Rightarrow> u32 \<Rightarrow> memory option" where
  "wr32 m a v = wr_bytes m a (le_bytes 4 v)"

lemma rd64_le_bytes: "bytes_at m a (le_bytes 8 v) \<Longrightarrow> rd64 m a = Some v"
proof -
  assume "bytes_at m a (le_bytes 8 v)"
  then have "fetch m a 8 = Some (le_bytes 8 v)"
    by (simp add: fetch_Some_iff)
  then show ?thesis
    by (simp add: rd64_def le_word_le_bytes take_bit_word_eq_self)
qed

lemma wr64_mapped: "mapped m a 8 \<Longrightarrow> wr64 m a v = Some (blit m a (le_bytes 8 v))"
  by (simp add: wr64_def wr_bytes_blit)

lemma wr64_Some_iff:
  "wr64 m a v = Some m' \<longleftrightarrow> mapped m a 8 \<and> m' = blit m a (le_bytes 8 v)"
  using wr_bytes_Some [of m a "le_bytes 8 v" m'] by (auto simp: wr64_mapped) (auto simp: wr64_def)

lemma rd64_wr64: "wr64 m a v = Some m' \<Longrightarrow> rd64 m' a = Some v"
  by (auto simp: wr64_Some_iff intro!: rd64_le_bytes bytes_at_blit)

lemma fetch_cong:
  "(\<And>i. i < n \<Longrightarrow> rd m (a + i) = rd m' (a + i)) \<Longrightarrow> fetch m a n = fetch m' a n"
proof (induction n arbitrary: a)
  case (Suc n)
  have "rd m a = rd m' a" using Suc.prems [of 0] by simp
  moreover have "fetch m (Suc a) n = fetch m' (Suc a) n"
    using Suc.prems [of "Suc i" for i] by (intro Suc.IH) simp
  ultimately show ?case by simp
qed simp

lemma rd64_blit_other:
  "mapped m a (length bs) \<Longrightarrow> p + 8 \<le> a \<or> a + length bs \<le> p \<Longrightarrow> rd64 (blit m a bs) p = rd64 m p"
  unfolding rd64_def by (subst fetch_cong [of 8 "blit m a bs" p m]) (auto simp: rd_blit)

lemma builtin_memset_iff:
  "builtin_memset m a c n = Some m' \<longleftrightarrow> mapped m a n \<and> m' = blit m a (replicate n c)"
  using wr_bytes_Some [of m a "replicate n c" m'] wr_bytes_blit [of m a "replicate n c"]
  by (auto simp: builtin_memset_def)

lemma builtin_memcpy_iff:
  "builtin_memcpy m d s n = Some m' \<longleftrightarrow>
    (\<exists>bs. bytes_at m s bs \<and> length bs = n \<and> mapped m d n \<and> m' = blit m d bs)"
proof
  assume "builtin_memcpy m d s n = Some m'"
  then obtain bs where bs: "bytes_at m s bs" "length bs = n" and w: "wr_bytes m d bs = Some m'"
    by (auto simp: builtin_memcpy_def Option.bind_eq_Some_conv fetch_Some_iff)
  from wr_bytes_Some [OF w] bs
  show "\<exists>bs. bytes_at m s bs \<and> length bs = n \<and> mapped m d n \<and> m' = blit m d bs"
    by auto
next
  assume "\<exists>bs. bytes_at m s bs \<and> length bs = n \<and> mapped m d n \<and> m' = blit m d bs"
  then obtain bs where bs: "bytes_at m s bs" "length bs = n" "mapped m d n" "m' = blit m d bs"
    by blast
  then have "fetch m s n = Some bs" by (simp add: fetch_Some_iff)
  with bs show "builtin_memcpy m d s n = Some m'"
    by (simp add: builtin_memcpy_def wr_bytes_blit)
qed

end
