(* ===== verification/QWorld.thy ===== *)
theory QWorld
  imports QPrelude
begin

text \<open>
  The state of a process that runs under QASan: \<open>libqasan/qasan.h\<close> (the actions that the
  injected runtime requests through the fake system call) and the handler of that system
  call in \<open>libafl_qemu/src/asan.rs\<close>. A call is recorded in \<open>qlog\<close>, oldest first;
  the two calls that steer the sanitizer also act on \<open>asan_on\<close>, the handler's enabled flag.
\<close>

section \<open>The fake system call\<close>

datatype qcall =
    CheckLoad addr u64
  | CheckStore addr u64
  | Poison addr u64 byte
  | UserPoison addr u64
  | UnPoison addr u64
  | IsPoison addr u64
  | Alloc addr addr
  | Dealloc addr
  | Enable
  | Disable
  | SwapState nat

definition QASAN_FAKESYS_NR :: nat where "QASAN_FAKESYS_NR = 0xa2a4"

text \<open>
  The action number and the three arguments of \<open>syscall(QASAN_FAKESYS_NR, ...)\<close>. The macro
  for user poisoning does not use its own action: it poisons with \<open>ASAN_USER\<close>.
\<close>

fun qcall_args :: "qcall \<Rightarrow> nat \<times> nat \<times> nat \<times> nat" where
  "qcall_args (CheckLoad p n) = (0, p, unat n, NULL)"
| "qcall_args (CheckStore p n) = (1, p, unat n, NULL)"
| "qcall_args (Poison p n b) = (2, p, unat n, unat b)"
| "qcall_args (UserPoison p n) = (2, p, unat n, 0xf7)"
| "qcall_args (UnPoison p n) = (4, p, unat n, NULL)"
| "qcall_args (IsPoison p n) = (5, p, unat n, NULL)"
| "qcall_args (Alloc p e) = (6, p, e, NULL)"
| "qcall_args (Dealloc p) = (7, p, NULL, NULL)"
| "qcall_args Enable = (8, NULL, NULL, NULL)"
| "qcall_args Disable = (9, NULL, NULL, NULL)"
| "qcall_args (SwapState st) = (10, st, NULL, NULL)"

definition ASAN_HEAP_LEFT_RZ :: byte where "ASAN_HEAP_LEFT_RZ = 0xfa"
definition ASAN_HEAP_RIGHT_RZ :: byte where "ASAN_HEAP_RIGHT_RZ = 0xfb"
definition ASAN_HEAP_FREED :: byte where "ASAN_HEAP_FREED = 0xfd"
definition QASAN_ENABLED :: nat where "QASAN_ENABLED = 0"
definition QASAN_DISABLED :: nat where "QASAN_DISABLED = 1"

section \<open>The process\<close>

text \<open>
  \<open>'b\<close> is the state of the backend allocator (libc's under glibc, dlmalloc elsewhere).
  The other fields are the static variables of \<open>malloc.c\<close>: the two quarantine pointers,
  its byte count and its lock, the index into the early allocation zone and the
  initialisation flag.
\<close>

record 'b qworld =
  mem :: memory
  qlog :: "qcall list"
  asan_on :: bool
  malloc_initialized :: bool
  tmp_zone_idx :: u32
  quarantine_top :: addr
  quarantine_end :: addr
  quarantine_bytes :: u64
  quarantine_lock :: bool
  backend :: 'b

text \<open>
  What the runtime is linked against: whether libc is glibc, where the early allocation zone
  lies, and the backend allocator, which is not part of this code under glibc.
\<close>

record 'b qenv =
  glibc :: bool
  tmp_alloc_zone :: addr
  backend_malloc :: "'b \<Rightarrow> memory \<Rightarrow> u64 \<Rightarrow> (addr \<times> 'b \<times> memory) option"
  backend_free :: "'b \<Rightarrow> memory \<Rightarrow> addr \<Rightarrow> ('b \<times> memory) option"

definition qsyscall :: "qcall \<Rightarrow> 'b qworld \<Rightarrow> 'b qworld" where
  "qsyscall c w = w\<lparr>qlog := qlog w @ [c]\<rparr>"

text \<open>
  The handler's answer to \<open>SwapState\<close>: it negates the flag, ignores the requested state
  and returns 0.
\<close>

definition qasan_swap :: "nat \<Rightarrow> 'b qworld \<Rightarrow> nat \<times> 'b qworld" where
  "qasan_swap st w = (0, (qsyscall (SwapState st) w)\<lparr>asan_on := \<not> asan_on w\<rparr>)"

definition qasan_load :: "addr \<Rightarrow> u64 \<Rightarrow> 'b qworld \<Rightarrow> 'b qworld" where
  "qasan_load p n = qsyscall (CheckLoad p n)"

definition qasan_store :: "addr \<Rightarrow> u64 \<Rightarrow> 'b qworld \<Rightarrow> 'b qworld" where
  "qasan_store p n = qsyscall (CheckStore p n)"

definition qasan_poison :: "addr \<Rightarrow> u64 \<Rightarrow> byte \<Rightarrow> 'b qworld \<Rightarrow> 'b qworld" where
  "qasan_poison p n b = qsyscall (Poison p n b)"

lemma qsyscall_fields [step_simps]:
  "mem (qsyscall c w) = mem w" "qlog (qsyscall c w) = qlog w @ [c]"
  "asan_on (qsyscall c w) = asan_on w"
  "malloc_initialized (qsyscall c w) = malloc_initialized w"
  "tmp_zone_idx (qsyscall c w) = tmp_zone_idx w"
  "quarantine_top (qsyscall c w) = quarantine_top w"
  "quarantine_end (qsyscall c w) = quarantine_end w"
  "quarantine_bytes (qsyscall c w) = quarantine_bytes w"
  "quarantine_lock (qsyscall c w) = quarantine_lock w"
  "backend (qsyscall c w) = backend w"
  by (simp_all add: qsyscall_def)

lemmas qasan_call_defs = qasan_load_def qasan_store_def qasan_poison_def

lemma qcall_args_inj_action: "fst (qcall_args c) \<le> 10"
  by (cases c) auto

section \<open>A concrete process\<close>

text \<open>
  A bump allocator and a process image with every byte mapped and zero: the concrete instance at
  which the properties that take an arbitrary backend are applied.
\<close>

definition bump_malloc :: "nat \<Rightarrow> memory \<Rightarrow> u64 \<Rightarrow> (addr \<times> nat \<times> memory) option" where
  "bump_malloc b m n = Some (b, b + 16 * ((unat n + 15) div 16), m)"

definition bump_free :: "nat \<Rightarrow> memory \<Rightarrow> addr \<Rightarrow> (nat \<times> memory) option" where
  "bump_free b m p = Some (b, m)"

definition bump_env :: "nat qenv" where
  "bump_env = \<lparr>glibc = True, tmp_alloc_zone = 1024, backend_malloc = bump_malloc,
     backend_free = bump_free\<rparr>"

definition fresh_world :: "nat qworld" where
  "fresh_world = \<lparr>mem = (\<lambda>_. Some 0), qlog = [], asan_on = True, malloc_initialized = True,
     tmp_zone_idx = 0, quarantine_top = NULL, quarantine_end = NULL, quarantine_bytes = 0,
     quarantine_lock = False, backend = 8192\<rparr>"

lemma mapped_total [simp]: "a + n \<le> addr_limit \<Longrightarrow> mapped (\<lambda>_. Some b) a n"
  by (auto simp: mapped_def rd_def)

end
