(* ===== verification/QMalloc.thy ===== *)
theory QMalloc
  imports QWorld
begin

text \<open>
  The redzone allocator of \<open>libqasan/malloc.c\<close>: every user block is preceded by a
  \<open>struct chunk_begin\<close> and followed by a right redzone, freed blocks go to a quarantine.
  Chunk fields live in the byte memory at the offsets of the C structs on a 64-bit target.
\<close>

section \<open>Layout\<close>

definition REDZONE_SIZE :: nat where "REDZONE_SIZE = 128"
definition QUARANTINE_MAX_BYTES :: u64 where "QUARANTINE_MAX_BYTES = 52428800"
definition ALLOC_ALIGN_SIZE :: u64 where "ALLOC_ALIGN_SIZE = 16"
definition TMP_ZONE_SIZE :: nat where "TMP_ZONE_SIZE = 4096"

text \<open>\<open>struct chunk_begin\<close>: offsets of its fields and its size.\<close>

definition off_requested_size :: nat where "off_requested_size = 0"
definition off_aligned_orig :: nat where "off_aligned_orig = 8"
definition off_next :: nat where "off_next = 16"
definition off_prev :: nat where "off_prev = 24"
definition off_redzone :: nat where "off_redzone = 32"
definition sizeof_chunk_begin :: nat where "sizeof_chunk_begin = 32 + REDZONE_SIZE"

text \<open>\<open>struct chunk_struct\<close>: a \<open>chunk_begin\<close>, the right redzone and the padding word.\<close>

definition sizeof_chunk_struct :: nat where
  "sizeof_chunk_struct = sizeof_chunk_begin + REDZONE_SIZE + 8"

lemmas layout_defs = REDZONE_SIZE_def sizeof_chunk_begin_def sizeof_chunk_struct_def
  off_requested_size_def off_aligned_orig_def off_next_def off_prev_def off_redzone_def

definition EINVAL :: int where "EINVAL = 22"
definition ENOMEM :: int where "ENOMEM = 12"

section \<open>Operations\<close>

definition libqasan_init_malloc :: "'b qworld \<Rightarrow> 'b qworld" where
  "libqasan_init_malloc w =
     (if malloc_initialized w then w
      else w\<lparr>quarantine_lock := False, malloc_initialized := True\<rparr>)"

text \<open>\<open>if (tmp->aligned_orig) backend_free(tmp->aligned_orig); else backend_free(tmp);\<close>\<close>

definition release_chunk :: "'b qenv \<Rightarrow> 'b qworld \<Rightarrow> addr \<Rightarrow> 'b qworld option" where
  "release_chunk E w p = do {
     orig \<leftarrow> rd64 (mem w) (p + off_aligned_orig);
     (b, m) \<leftarrow> backend_free E (backend w) (mem w) (if orig \<noteq> 0 then unat orig else p);
     Some (w\<lparr>backend := b, mem := m\<rparr>)
   }"

text \<open>
  The eviction loop. It has no bound of its own (it ends when enough bytes have been
  subtracted), so it is a partial function: \<open>None\<close> is a fault or a loop that never ends.
\<close>

partial_function (option) evict :: "'b qenv \<Rightarrow> 'b qworld \<Rightarrow> addr \<Rightarrow> 'b qworld option" where
  "evict E w ck = do {
     rs \<leftarrow> rd64 (mem w) (ck + off_requested_size);
     if rs + quarantine_bytes w \<ge> QUARANTINE_MAX_BYTES then do {
       let tmp = quarantine_end w;
       prv \<leftarrow> rd64 (mem w) (tmp + off_prev);
       trs \<leftarrow> rd64 (mem w) (tmp + off_requested_size);
       w \<leftarrow> release_chunk E (w\<lparr>quarantine_end := unat prv,
                                   quarantine_bytes := quarantine_bytes w - trs\<rparr>) tmp;
       evict E w ck
     } else Some w
   }"

definition quarantine_push :: "'b qenv \<Rightarrow> 'b qworld \<Rightarrow> addr \<Rightarrow> (bool \<times> 'b qworld) option" where
  "quarantine_push E w ck = do {
     rs \<leftarrow> rd64 (mem w) (ck + off_requested_size);
     if rs \<ge> QUARANTINE_MAX_BYTES then Some (False, w)
     else if quarantine_lock w then Some (False, w)
     else do {
       w \<leftarrow> evict E (w\<lparr>quarantine_lock := True\<rparr>) ck;
       m \<leftarrow> wr64 (mem w) (ck + off_next) (of_nat (quarantine_top w));
       m \<leftarrow> (if quarantine_top w \<noteq> NULL
              then wr64 m (quarantine_top w + off_prev) (of_nat ck) else Some m);
       Some (True, w\<lparr>mem := m, quarantine_top := ck, quarantine_lock := False\<rparr>)
     }
   }"

definition libqasan_malloc_usable_size :: "'b qworld \<Rightarrow> addr \<Rightarrow> (u64 \<times> 'b qworld) option" where
  "libqasan_malloc_usable_size w ptr = do {
     p \<leftarrow> ptr_minus ptr sizeof_chunk_begin;
     let w = qasan_load p (of_nat (sizeof_chunk_begin - REDZONE_SIZE)) w;
     rs \<leftarrow> rd64 (mem w) (p + off_requested_size);
     Some (rs, w)
   }"

text \<open>\<open>n & (ALLOC_ALIGN_SIZE - 1)\<close> and \<open>n & ~(ALLOC_ALIGN_SIZE - 1)\<close>.\<close>

definition unaligned_part :: "u64 \<Rightarrow> u64" where
  "unaligned_part n = n AND (ALLOC_ALIGN_SIZE - 1)"

definition aligned_part :: "u64 \<Rightarrow> u64" where
  "aligned_part n = n AND NOT (ALLOC_ALIGN_SIZE - 1)"

text \<open>
  The early allocation zone: \<open>r = &__tmp_alloc_zone[__tmp_alloc_zone_idx]\<close>, then the
  (signed 32-bit) index advances. The sum is computed in \<open>size_t\<close> and converted back.
\<close>

definition tmp_zone_ptr :: "'b qenv \<Rightarrow> 'b qworld \<Rightarrow> addr" where
  "tmp_zone_ptr E w = nat (int (tmp_alloc_zone E) + sint (tmp_zone_idx w))"

definition tmp_zone_advance :: "u64 \<Rightarrow> 'b qworld \<Rightarrow> 'b qworld" where
  "tmp_zone_advance n w = w\<lparr>tmp_zone_idx := ucast (scast (tmp_zone_idx w) + n)\<rparr>"

text \<open>\<open>p->requested_size = size; p->aligned_orig = NULL; p->next = p->prev = NULL;\<close>\<close>

definition init_chunk_begin :: "memory \<Rightarrow> addr \<Rightarrow> u64 \<Rightarrow> memory option" where
  "init_chunk_begin m p sz = do {
     m \<leftarrow> wr64 m (p + off_requested_size) sz;
     m \<leftarrow> wr64 m (p + off_aligned_orig) 0;
     m \<leftarrow> wr64 m (p + off_prev) 0;
     wr64 m (p + off_next) 0
   }"

definition malloc_right_redzone_len :: "u64 \<Rightarrow> u64" where
  "malloc_right_redzone_len sz =
     (if unaligned_part sz \<noteq> 0
      then aligned_part sz + 8 - sz + of_nat REDZONE_SIZE
      else of_nat REDZONE_SIZE)"

text \<open>\<open>__libqasan_malloc\<close> once the allocator is initialised.\<close>

definition malloc_body :: "'b qenv \<Rightarrow> 'b qworld \<Rightarrow> u64 \<Rightarrow> (addr \<times> 'b qworld) option" where
  "malloc_body E w sz = do {
     let (state, w) = qasan_swap QASAN_DISABLED w;
     (p, b, m) \<leftarrow> backend_malloc E (backend w) (mem w) (of_nat sizeof_chunk_struct + sz);
     let w = w\<lparr>backend := b, mem := m\<rparr>;
     let (_, w) = qasan_swap state w;
     if p = NULL then Some (NULL, w)
     else do {
       let w = qsyscall (UnPoison p (of_nat sizeof_chunk_struct + sz)) w;
       m \<leftarrow> init_chunk_begin (mem w) p sz;
       let w = w\<lparr>mem := m\<rparr>;
       let r = p + sizeof_chunk_begin;
       let w = qsyscall (Alloc r (r + unat sz)) w;
       let w = qasan_poison (p + off_redzone) (of_nat REDZONE_SIZE) ASAN_HEAP_LEFT_RZ w;
       let w = qasan_poison (r + unat sz) (malloc_right_redzone_len sz) ASAN_HEAP_RIGHT_RZ w;
       m \<leftarrow> builtin_memset (mem w) r 0xff (unat sz);
       Some (r, w\<lparr>mem := m\<rparr>)
     }
   }"

definition libqasan_malloc :: "'b qenv \<Rightarrow> 'b qworld \<Rightarrow> u64 \<Rightarrow> (addr \<times> 'b qworld) option" where
  "libqasan_malloc E w sz =
     (if \<not> malloc_initialized w then do {
        let w = libqasan_init_malloc w;
        if glibc E then do {
          let r = tmp_zone_ptr E w;
          Some (r, if unaligned_part sz \<noteq> 0
                   then tmp_zone_advance (aligned_part sz + ALLOC_ALIGN_SIZE) w
                   else tmp_zone_advance sz w)
        } else malloc_body E w sz
      } else malloc_body E w sz)"

definition in_tmp_zone :: "'b qenv \<Rightarrow> addr \<Rightarrow> bool" where
  "in_tmp_zone E ptr \<longleftrightarrow>
     glibc E \<and> tmp_alloc_zone E \<le> ptr \<and> ptr < tmp_alloc_zone E + TMP_ZONE_SIZE"

definition libqasan_free :: "'b qenv \<Rightarrow> 'b qworld \<Rightarrow> addr \<Rightarrow> 'b qworld option" where
  "libqasan_free E w ptr =
     (if ptr = NULL then Some w
      else if in_tmp_zone E ptr then Some w
      else do {
        p \<leftarrow> ptr_minus ptr sizeof_chunk_begin;
        let w = qasan_load p (of_nat (sizeof_chunk_begin - REDZONE_SIZE)) w;
        n \<leftarrow> rd64 (mem w) (p + off_requested_size);
        let w = qasan_store ptr n w;
        let (state, w) = qasan_swap QASAN_DISABLED w;
        (pushed, w) \<leftarrow> quarantine_push E w p;
        w \<leftarrow> (if pushed then Some w else release_chunk E w p);
        let (_, w) = qasan_swap state w;
        let n = (if unaligned_part n \<noteq> 0 then aligned_part n + ALLOC_ALIGN_SIZE else n);
        let w = qasan_poison ptr n ASAN_HEAP_FREED w;
        Some (qsyscall (Dealloc ptr) w)
      })"

definition libqasan_calloc :: "'b qenv \<Rightarrow> 'b qworld \<Rightarrow> u64 \<Rightarrow> u64 \<Rightarrow> (addr \<times> 'b qworld) option" where
  "libqasan_calloc E w nmemb sz = do {
     let sz = sz * nmemb;
     if glibc E \<and> \<not> malloc_initialized w
     then Some (tmp_zone_ptr E w, tmp_zone_advance sz w)
     else do {
       (p, w) \<leftarrow> libqasan_malloc E w sz;
       if p = NULL then Some (NULL, w)
       else do {
         m \<leftarrow> builtin_memset (mem w) p 0 (unat sz);
         Some (p, w\<lparr>mem := m\<rparr>)
       }
     }
   }"

definition libqasan_realloc :: "'b qenv \<Rightarrow> 'b qworld \<Rightarrow> addr \<Rightarrow> u64 \<Rightarrow> (addr \<times> 'b qworld) option" where
  "libqasan_realloc E w ptr sz = do {
     (p, w) \<leftarrow> libqasan_malloc E w sz;
     if p = NULL then Some (NULL, w)
     else if ptr = NULL then Some (p, w)
     else do {
       c \<leftarrow> ptr_minus ptr sizeof_chunk_begin;
       n \<leftarrow> rd64 (mem w) (c + off_requested_size);
       let n = (if sz < n then sz else n);
       m \<leftarrow> builtin_memcpy (mem w) p ptr (unat n);
       w \<leftarrow> libqasan_free E (w\<lparr>mem := m\<rparr>) ptr;
       Some (p, w)
     }
   }"

definition memalign_right_redzone_len :: "u64 \<Rightarrow> u64" where
  "memalign_right_redzone_len len =
     (if unaligned_part len \<noteq> 0
      then aligned_part len + ALLOC_ALIGN_SIZE - len + of_nat REDZONE_SIZE
      else of_nat REDZONE_SIZE)"

text \<open>
  \<open>data += align - ((uintptr_t)data % align)\<close>; a zero \<open>align\<close> divides by zero, which traps.
\<close>

definition align_data :: "addr \<Rightarrow> u64 \<Rightarrow> addr option" where
  "align_data data align =
     (if align = 0 then None else Some (data + (unat align - data mod unat align)))"

text \<open>\<open>p->requested_size = len; p->aligned_orig = orig;\<close>\<close>

definition init_aligned_chunk :: "memory \<Rightarrow> addr \<Rightarrow> u64 \<Rightarrow> addr \<Rightarrow> memory option" where
  "init_aligned_chunk m p len orig = do {
     m \<leftarrow> wr64 m (p + off_requested_size) len;
     wr64 m (p + off_aligned_orig) (of_nat orig)
   }"

text \<open>
  \<open>__libqasan_posix_memalign\<close>: the error code and, when \<open>*ptr\<close> is written, the pointer
  stored there.
\<close>

definition libqasan_posix_memalign ::
    "'b qenv \<Rightarrow> 'b qworld \<Rightarrow> u64 \<Rightarrow> u64 \<Rightarrow> (int \<times> addr option \<times> 'b qworld) option" where
  "libqasan_posix_memalign E w align len =
     (if align mod 2 \<noteq> 0 \<or> align mod 8 \<noteq> 0 then Some (EINVAL, None, w)
      else if len = 0 then Some (0, Some NULL, w)
      else do {
        let sz = len + align;
        let (state, w) = qasan_swap QASAN_DISABLED w;
        (orig, b, m) \<leftarrow> backend_malloc E (backend w) (mem w) (of_nat sizeof_chunk_struct + sz);
        let w = w\<lparr>backend := b, mem := m\<rparr>;
        let (_, w) = qasan_swap state w;
        if orig = NULL then Some (ENOMEM, None, w)
        else do {
          let w = qsyscall (UnPoison orig (of_nat sizeof_chunk_struct + sz)) w;
          data \<leftarrow> align_data (orig + sizeof_chunk_begin) align;
          let p = data - sizeof_chunk_begin;
          m \<leftarrow> init_aligned_chunk (mem w) p len orig;
          let w = w\<lparr>mem := m\<rparr>;
          let w = qsyscall (Alloc data (data + unat len)) w;
          let w = qasan_poison (p + off_redzone) (of_nat REDZONE_SIZE) ASAN_HEAP_LEFT_RZ w;
          let w = qasan_poison (data + unat len) (memalign_right_redzone_len len)
                    ASAN_HEAP_RIGHT_RZ w;
          m \<leftarrow> builtin_memset (mem w) data 0xff (unat len);
          Some (0, Some data, w\<lparr>mem := m\<rparr>)
        }
      })"

definition libqasan_memalign :: "'b qenv \<Rightarrow> 'b qworld \<Rightarrow> u64 \<Rightarrow> u64 \<Rightarrow> (addr \<times> 'b qworld) option" where
  "libqasan_memalign E w align len = do {
     (_, stored, w) \<leftarrow> libqasan_posix_memalign E w align len;
     Some (case stored of None \<Rightarrow> NULL | Some p \<Rightarrow> p, w)
   }"

text \<open>\<open>len % align\<close> traps on a zero \<open>align\<close>.\<close>

definition libqasan_aligned_alloc :: "'b qenv \<Rightarrow> 'b qworld \<Rightarrow> u64 \<Rightarrow> u64 \<Rightarrow> (addr \<times> 'b qworld) option" where
  "libqasan_aligned_alloc E w align len =
     (if align = 0 then None
      else if len mod align \<noteq> 0 then Some (NULL, w)
      else do {
        (_, stored, w) \<leftarrow> libqasan_posix_memalign E w align len;
        Some (case stored of None \<Rightarrow> NULL | Some p \<Rightarrow> p, w)
      })"

section \<open>The alignment arithmetic\<close>

lemma unaligned_part_mod: "unat (unaligned_part n) = unat n mod 16"
proof -
  have "unaligned_part n = take_bit 4 n"
    by (simp add: unaligned_part_def ALLOC_ALIGN_SIZE_def take_bit_eq_mask mask_eq_exp_minus_1)
  then show ?thesis by (simp add: unsigned_take_bit_eq) (simp add: take_bit_eq_mod)
qed

lemma aligned_part_sub: "aligned_part n = n - unaligned_part n"
proof -
  let ?k = "ALLOC_ALIGN_SIZE - 1"
  have "(n AND ?k) + (n AND NOT ?k) = (n AND ?k) OR (n AND NOT ?k)"
    by (rule disjunctive_add_eq_or) (auto simp: bit_eq_iff bit_simps)
  also have "\<dots> = n"
    by (auto simp: bit_eq_iff bit_simps)
  finally have "n = (n AND ?k) + (n AND NOT ?k)" ..
  then show ?thesis by (simp add: aligned_part_def unaligned_part_def algebra_simps)
qed

lemma unaligned_part_eq_0: "unaligned_part n = 0 \<longleftrightarrow> unat n mod 16 = 0"
  using unaligned_part_mod [of n] by (metis unat_eq_zero)

lemma unat_const_minus:
  fixes x c :: u64
  assumes "unat x \<le> unat c"
  shows "unat (c - x) = unat c - unat x"
  using assms by (simp add: unat_sub word_le_nat_alt)

text \<open>The right redzone of \<open>malloc\<close>: between 121 and 135 bytes on unaligned sizes, else 128.\<close>

lemma malloc_right_redzone_len_unat:
  "unat (malloc_right_redzone_len n) =
     (if unat n mod 16 = 0 then 128 else 136 - unat n mod 16)"
proof (cases "unat n mod 16 = 0")
  case False
  have "unat (unaligned_part n) \<le> 15"
    by (simp add: unaligned_part_mod)
  then have "unat (136 - unaligned_part n) = 136 - unat n mod 16"
    by (subst unat_const_minus) (simp_all add: unaligned_part_mod)
  moreover have "malloc_right_redzone_len n = 136 - unaligned_part n"
    using False
    by (simp add: malloc_right_redzone_len_def unaligned_part_eq_0 aligned_part_sub layout_defs)
  ultimately show ?thesis using False by simp
qed (simp add: malloc_right_redzone_len_def unaligned_part_eq_0 layout_defs)

lemma memalign_right_redzone_len_unat:
  "unat (memalign_right_redzone_len n) =
     (if unat n mod 16 = 0 then 128 else 144 - unat n mod 16)"
proof (cases "unat n mod 16 = 0")
  case False
  have "unat (unaligned_part n) \<le> 15"
    by (simp add: unaligned_part_mod)
  then have "unat (144 - unaligned_part n) = 144 - unat n mod 16"
    by (subst unat_const_minus) (simp_all add: unaligned_part_mod)
  moreover have "memalign_right_redzone_len n = 144 - unaligned_part n"
    using False
    by (simp add: memalign_right_redzone_len_def unaligned_part_eq_0 aligned_part_sub
        layout_defs ALLOC_ALIGN_SIZE_def)
  ultimately show ?thesis using False by simp
qed (simp add: memalign_right_redzone_len_def unaligned_part_eq_0 layout_defs)

section \<open>Chunk headers\<close>

lemma rd64_blit_same: "mapped m a 8 \<Longrightarrow> rd64 (blit m a (le_bytes 8 v)) a = Some v"
  by (intro rd64_le_bytes bytes_at_blit) simp

lemma rd64_blit_word:
  "mapped m a 8 \<Longrightarrow> p + 8 \<le> a \<or> a + 8 \<le> p \<Longrightarrow> rd64 (blit m a (le_bytes 8 v)) p = rd64 m p"
  by (simp add: rd64_blit_other)

lemma rd_blit_word:
  "mapped m a 8 \<Longrightarrow> x < a \<or> a + 8 \<le> x \<Longrightarrow> rd (blit m a (le_bytes 8 v)) x = rd m x"
  by (rule rd_blit_other) simp_all

lemma mapped_blit_word:
  "mapped m a 8 \<Longrightarrow> mapped (blit m a (le_bytes 8 v)) p n \<longleftrightarrow> mapped m p n"
  by (rule mapped_blit) simp

lemmas header_simps = rd64_blit_same rd64_blit_word mapped_blit_word wr64_mapped

section \<open>What malloc does\<close>

definition malloc_header :: "memory \<Rightarrow> addr \<Rightarrow> u64 \<Rightarrow> memory" where
  "malloc_header m p n =
     blit (blit (blit (blit m p (le_bytes 8 n)) (p + 8) (le_bytes 8 (0::u64)))
       (p + 24) (le_bytes 8 (0::u64))) (p + 16) (le_bytes 8 (0::u64))"

definition malloc_log :: "addr \<Rightarrow> u64 \<Rightarrow> qcall list" where
  "malloc_log p n =
     [SwapState 1, SwapState 0, UnPoison p (296 + n), Alloc (p + 160) (p + 160 + unat n),
      Poison (p + 32) 128 ASAN_HEAP_LEFT_RZ,
      Poison (p + 160 + unat n) (malloc_right_redzone_len n) ASAN_HEAP_RIGHT_RZ]"

lemma malloc_header_mapped:
  assumes "mapped m p 32"
  shows "mapped (malloc_header m p n) q k \<longleftrightarrow> mapped m q k"
proof -
  have "mapped m p 8" "mapped m (p + 8) 8" "mapped m (p + 16) 8" "mapped m (p + 24) 8"
    using assms by (auto intro: mapped_sub)
  then show ?thesis by (simp add: malloc_header_def mapped_blit_word)
qed

lemma malloc_header_reads:
  assumes "mapped m p 32"
  shows "rd64 (malloc_header m p n) p = Some n"
    and "rd64 (malloc_header m p n) (p + 8) = Some 0"
    and "rd64 (malloc_header m p n) (p + 16) = Some 0"
    and "rd64 (malloc_header m p n) (p + 24) = Some 0"
    and "x < p \<or> p + 32 \<le> x \<Longrightarrow> rd (malloc_header m p n) x = rd m x"
proof -
  have mm: "mapped m p 8" "mapped m (p + 8) 8" "mapped m (p + 16) 8" "mapped m (p + 24) 8"
    using assms by (auto intro: mapped_sub)
  note simps = malloc_header_def mapped_blit_word rd64_blit_same rd64_blit_word
  show "rd64 (malloc_header m p n) p = Some n" using mm by (simp add: simps)
  show "rd64 (malloc_header m p n) (p + 8) = Some 0" using mm by (simp add: simps)
  show "rd64 (malloc_header m p n) (p + 16) = Some 0" using mm by (simp add: simps)
  show "rd64 (malloc_header m p n) (p + 24) = Some 0" using mm by (simp add: simps)
  show "rd (malloc_header m p n) x = rd m x" if "x < p \<or> p + 32 \<le> x"
    using mm that by (auto simp: malloc_header_def mapped_blit_word rd_blit_word)
qed

lemma init_chunk_begin_eq:
  "init_chunk_begin m p n = (if mapped m p 32 then Some (malloc_header m p n) else None)"
proof (cases "mapped m p 32")
  case True
  then have "mapped m p 8" "mapped m (p + 8) 8" "mapped m (p + 16) 8" "mapped m (p + 24) 8"
    by (auto intro: mapped_sub)
  with True show ?thesis
    by (simp add: init_chunk_begin_def malloc_header_def header_simps layout_defs)
next
  case False
  have "init_chunk_begin m p n \<noteq> Some m'" for m'
  proof
    assume "init_chunk_begin m p n = Some m'"
    then have "mapped m p 8" "mapped m (p + 8) 8" "mapped m (p + 24) 8" "mapped m (p + 16) 8"
      by (auto simp: init_chunk_begin_def Option.bind_eq_Some_conv wr64_Some_iff mapped_blit_word
          layout_defs)
    then have "mapped m p (8 + (8 + (8 + 8)))"
      by (simp only: mapped_add) (simp add: add.commute)
    with False show False by simp
  qed
  with False show ?thesis by auto
qed

lemma malloc_body_Some_iff:
  "malloc_body E w n = Some (r, w') \<longleftrightarrow>
     (\<exists>p b m. backend_malloc E (backend w) (mem w) (296 + n) = Some (p, b, m) \<and>
       (if p = 0 then r = 0 \<and> w' = w\<lparr>qlog := qlog w @ [SwapState 1, SwapState 0],
                                        backend := b, mem := m\<rparr>
        else mapped m p 32 \<and> mapped m (p + 160) (unat n) \<and> r = p + 160 \<and>
          w' = w\<lparr>qlog := qlog w @ malloc_log p n, backend := b,
                  mem := blit (malloc_header m p n) (p + 160) (replicate (unat n) 0xff)\<rparr>))"
  (is "?L \<longleftrightarrow> ?R")
proof (cases "backend_malloc E (backend w) (mem w) (296 + n)")
  case None
  then show ?thesis by (simp add: malloc_body_def layout_defs qasan_swap_def step_simps)
next
  case (Some t)
  obtain p b m where t: "t = (p, b, m)" by (cases t)
  show ?thesis
    by (auto simp: malloc_body_def Some t layout_defs qasan_swap_def step_simps Let_def
      init_chunk_begin_eq Option.bind_eq_Some_conv builtin_memset_iff malloc_header_mapped
      qasan_call_defs qsyscall_def malloc_log_def QASAN_DISABLED_def add.assoc split: if_splits)
qed

lemma malloc_body_block:
  assumes "malloc_body E w n = Some (r, w')" and "r \<noteq> 0"
  shows "160 < r" and "mapped (mem w') (r - 160) 32"
    and "rd64 (mem w') (r - 160) = Some n" and "rd64 (mem w') (r - 160 + 8) = Some 0"
    and "bytes_at (mem w') r (replicate (unat n) 0xff)"
proof -
  from assms obtain p m where p: "p \<noteq> 0" "mapped m p 32" "mapped m (p + 160) (unat n)"
    "r = p + 160"
    and w': "mem w' = blit (malloc_header m p n) (p + 160) (replicate (unat n) 0xff)"
    by (auto simp: malloc_body_Some_iff split: if_splits)
  have pay: "mapped (malloc_header m p n) (p + 160) (length (replicate (unat n) (0xff::byte)))"
    using p by (simp add: malloc_header_mapped)
  show "160 < r" using p by simp
  show "mapped (mem w') (r - 160) 32"
    using p pay by (simp add: w' mapped_blit malloc_header_mapped)
  show "rd64 (mem w') (r - 160) = Some n"
    using p pay by (simp add: w' rd64_blit_other malloc_header_reads)
  show "rd64 (mem w') (r - 160 + 8) = Some 0"
    using p pay by (simp add: w' rd64_blit_other malloc_header_reads)
  show "bytes_at (mem w') r (replicate (unat n) 0xff)"
    using bytes_at_blit [OF pay] by (simp add: w' p)
qed

lemma usable_size_eq:
  "160 \<le> r \<Longrightarrow> rd64 (mem w) (r - 160) = Some n \<Longrightarrow>
    libqasan_malloc_usable_size w r = Some (n, qasan_load (r - 160) 32 w)"
  by (simp add: libqasan_malloc_usable_size_def ptr_minus_def layout_defs qasan_call_defs step_simps)

section \<open>The quarantine\<close>

lemma evict_done:
  assumes "rd64 (mem w) ck = Some rs" and "rs + quarantine_bytes w < QUARANTINE_MAX_BYTES"
  shows "evict E w ck = Some w"
  using assms by (subst evict.simps) (simp add: layout_defs not_le [symmetric] del: not_le)

text \<open>With no bytes accounted for, a push never evicts: it links the chunk in front.\<close>

definition quarantine_link :: "'b qworld \<Rightarrow> addr \<Rightarrow> memory option" where
  "quarantine_link w ck = do {
     m \<leftarrow> wr64 (mem w) (ck + 16) (of_nat (quarantine_top w));
     if quarantine_top w \<noteq> NULL then wr64 m (quarantine_top w + 24) (of_nat ck) else Some m
   }"

lemma quarantine_push_unaccounted:
  assumes "quarantine_bytes w = 0"
  shows "quarantine_push E w ck = do {
     rs \<leftarrow> rd64 (mem w) ck;
     if rs \<ge> QUARANTINE_MAX_BYTES \<or> quarantine_lock w then Some (False, w)
     else do {
       m \<leftarrow> quarantine_link w ck;
       Some (True, w\<lparr>mem := m, quarantine_top := ck, quarantine_lock := False\<rparr>)
     }
   }"
proof (cases "rd64 (mem w) ck")
  case (Some rs)
  have "evict E (w\<lparr>quarantine_lock := True\<rparr>) ck = Some (w\<lparr>quarantine_lock := True\<rparr>)"
    if "rs < QUARANTINE_MAX_BYTES"
    using assms Some that by (intro evict_done [where rs = rs]) auto
  then show ?thesis
    by (auto simp: quarantine_push_def Some layout_defs quarantine_link_def not_le
        split: Option.bind_split)
qed (simp add: quarantine_push_def layout_defs)

section \<open>Runs of the allocator\<close>

text \<open>
  A step is one call of the allocator's interface, or the program writing its memory in any
  way it likes between two calls (use after free and header corruption included).
\<close>

inductive alloc_step :: "'b qenv \<Rightarrow> 'b qworld \<Rightarrow> 'b qworld \<Rightarrow> bool" for E where
  malloc: "libqasan_malloc E w n = Some (r, w') \<Longrightarrow> alloc_step E w w'"
| free: "libqasan_free E w p = Some w' \<Longrightarrow> alloc_step E w w'"
| calloc: "libqasan_calloc E w k n = Some (r, w') \<Longrightarrow> alloc_step E w w'"
| realloc: "libqasan_realloc E w p n = Some (r, w') \<Longrightarrow> alloc_step E w w'"
| memalign: "libqasan_posix_memalign E w a n = Some (e, st, w') \<Longrightarrow> alloc_step E w w'"
| usable: "libqasan_malloc_usable_size w p = Some (n, w') \<Longrightarrow> alloc_step E w w'"
| program: "alloc_step E w (w\<lparr>mem := m\<rparr>)"

inductive alloc_reachable :: "'b qenv \<Rightarrow> 'b qworld \<Rightarrow> 'b qworld \<Rightarrow> bool" for E w\<^sub>0 where
  start: "alloc_reachable E w\<^sub>0 w\<^sub>0"
| step: "alloc_reachable E w\<^sub>0 w \<Longrightarrow> alloc_step E w w' \<Longrightarrow> alloc_reachable E w\<^sub>0 w'"

definition alloc_inv :: "bool \<Rightarrow> 'b qworld \<Rightarrow> bool" where
  "alloc_inv a w \<longleftrightarrow> quarantine_bytes w = 0 \<and> \<not> quarantine_lock w \<and> asan_on w = a"

lemma alloc_inv_simps [step_simps]:
  "alloc_inv a (w\<lparr>mem := m\<rparr>) = alloc_inv a w"
  "alloc_inv a (qsyscall c w) = alloc_inv a w"
  "alloc_inv a (w\<lparr>backend := b\<rparr>) = alloc_inv a w"
  "alloc_inv a (tmp_zone_advance k w) = alloc_inv a w"
  "alloc_inv a (w\<lparr>qlog := l\<rparr>) = alloc_inv a w"
  by (simp_all add: alloc_inv_def step_simps tmp_zone_advance_def)

lemma malloc_body_inv: "malloc_body E w n = Some (r, w') \<Longrightarrow> alloc_inv a w \<Longrightarrow> alloc_inv a w'"
  by (auto simp: malloc_body_Some_iff step_simps split: if_splits)

lemma libqasan_malloc_inv:
  "libqasan_malloc E w n = Some (r, w') \<Longrightarrow> alloc_inv a w \<Longrightarrow> alloc_inv a w'"
proof -
  assume m: "libqasan_malloc E w n = Some (r, w')" and i: "alloc_inv a w"
  have "alloc_inv a (libqasan_init_malloc w)"
    using i by (simp add: libqasan_init_malloc_def alloc_inv_def)
  with m i show ?thesis
    by (auto simp: libqasan_malloc_def step_simps Let_def dest: malloc_body_inv split: if_splits)
qed

lemma release_chunk_fields:
  assumes "release_chunk E w p = Some w'"
  shows "\<exists>b m. w' = w\<lparr>backend := b, mem := m\<rparr>"
  using assms by (auto simp: release_chunk_def Option.bind_eq_Some_conv)

lemma quarantine_push_inv:
  assumes "quarantine_push E w ck = Some (ok, w')" and "alloc_inv a w"
  shows "alloc_inv a w'" and "backend w' = backend w" and "qlog w' = qlog w"
  using assms
  by (auto simp: quarantine_push_unaccounted alloc_inv_def Option.bind_eq_Some_conv split: if_splits)

text \<open>The world as the quarantine sees it inside \<open>free\<close>, and what \<open>free\<close> does after it.\<close>

definition free_enter :: "addr \<Rightarrow> addr \<Rightarrow> u64 \<Rightarrow> 'b qworld \<Rightarrow> 'b qworld" where
  "free_enter ptr c n w = w\<lparr>qlog := qlog w @ [CheckLoad c 32, CheckStore ptr n, SwapState 1],
                             asan_on := \<not> asan_on w\<rparr>"

definition freed_len :: "u64 \<Rightarrow> u64" where
  "freed_len n = (if unaligned_part n \<noteq> 0 then aligned_part n + ALLOC_ALIGN_SIZE else n)"

definition free_leave :: "addr \<Rightarrow> u64 \<Rightarrow> 'b qworld \<Rightarrow> 'b qworld" where
  "free_leave ptr n w = w\<lparr>asan_on := \<not> asan_on w,
     qlog := qlog w @ [SwapState 0, Poison ptr (freed_len n) ASAN_HEAP_FREED, Dealloc ptr]\<rparr>"

lemma libqasan_free_eq:
  assumes "p \<noteq> 0" and "\<not> in_tmp_zone E p"
  shows "libqasan_free E w p = do {
      c \<leftarrow> ptr_minus p 160;
      n \<leftarrow> rd64 (mem w) c;
      (pushed, w) \<leftarrow> quarantine_push E (free_enter p c n w) c;
      w \<leftarrow> (if pushed then Some w else release_chunk E w c);
      Some (free_leave p n w)
    }"
  using assms
  by (simp add: libqasan_free_def layout_defs qasan_call_defs qasan_swap_def qsyscall_def Let_def
      free_enter_def free_leave_def freed_len_def QASAN_DISABLED_def cong: if_cong)

lemma free_enter_simps [step_simps]:
  "alloc_inv (\<not> a) (free_enter p c n w) = alloc_inv a w"
  "mem (free_enter p c n w) = mem w" "backend (free_enter p c n w) = backend w"
  "quarantine_top (free_enter p c n w) = quarantine_top w"
  "quarantine_bytes (free_enter p c n w) = quarantine_bytes w"
  "quarantine_lock (free_enter p c n w) = quarantine_lock w"
  "alloc_inv a (free_leave p n w) = alloc_inv (\<not> a) w"
  "mem (free_leave p n w) = mem w" "backend (free_leave p n w) = backend w"
  "quarantine_top (free_leave p n w) = quarantine_top w"
  by (auto simp: free_enter_def free_leave_def alloc_inv_def)

lemma quarantine_link_enter [step_simps]:
  "quarantine_link (free_enter p c n w) ck = quarantine_link w ck"
  by (simp add: quarantine_link_def step_simps cong: if_cong)

lemma libqasan_free_inv:
  assumes f: "libqasan_free E w p = Some w'" and i: "alloc_inv a w"
  shows "alloc_inv a w'"
proof (cases "p = NULL \<or> in_tmp_zone E p")
  case True
  with f i show ?thesis by (auto simp: libqasan_free_def split: if_splits)
next
  case False
  with f obtain c n pushed w1 w2 where
    push: "quarantine_push E (free_enter p c n w) c = Some (pushed, w1)"
    and rel: "(if pushed then Some w1 else release_chunk E w1 c) = Some w2"
    and w': "w' = free_leave p n w2"
    by (auto simp: libqasan_free_eq Option.bind_eq_Some_conv)
  have "alloc_inv (\<not> a) w1"
    by (rule quarantine_push_inv(1) [OF push]) (simp add: step_simps i)
  with rel have "alloc_inv (\<not> a) w2"
    using release_chunk_fields [of E w1 c w2] by (cases pushed) (auto simp: step_simps)
  with w' show ?thesis by (simp add: step_simps)
qed

lemma libqasan_calloc_inv:
  "libqasan_calloc E w k n = Some (r, w') \<Longrightarrow> alloc_inv a w \<Longrightarrow> alloc_inv a w'"
  by (auto simp: libqasan_calloc_def Option.bind_eq_Some_conv Let_def step_simps
      dest: libqasan_malloc_inv split: if_splits)

lemma libqasan_realloc_inv:
  assumes "libqasan_realloc E w p n = Some (r, w')" and "alloc_inv a w"
  shows "alloc_inv a w'"
proof -
  from assms(1) obtain q w1 where m: "libqasan_malloc E w n = Some (q, w1)"
    and rest: "w' = w1 \<or> (\<exists>m. libqasan_free E (w1\<lparr>mem := m\<rparr>) p = Some w')"
    by (auto simp: libqasan_realloc_def Option.bind_eq_Some_conv Let_def split: if_splits)
  have w1: "alloc_inv a w1"
    by (rule libqasan_malloc_inv [OF m assms(2)])
  from rest show ?thesis
  proof
    assume "\<exists>m. libqasan_free E (w1\<lparr>mem := m\<rparr>) p = Some w'"
    then obtain m where "libqasan_free E (w1\<lparr>mem := m\<rparr>) p = Some w'" ..
    then show ?thesis by (rule libqasan_free_inv) (simp add: step_simps w1)
  qed (simp add: w1)
qed

lemma libqasan_posix_memalign_inv:
  "libqasan_posix_memalign E w al n = Some (e, st, w') \<Longrightarrow> alloc_inv a w \<Longrightarrow> alloc_inv a w'"
  by (auto simp: libqasan_posix_memalign_def Option.bind_eq_Some_conv Let_def qasan_swap_def
      qasan_call_defs alloc_inv_def step_simps split: if_splits)

lemma alloc_step_inv: "alloc_step E w w' \<Longrightarrow> alloc_inv a w \<Longrightarrow> alloc_inv a w'"
proof (induction rule: alloc_step.induct)
  case (usable w p n w')
  then show ?case
    by (auto simp: libqasan_malloc_usable_size_def Option.bind_eq_Some_conv qasan_call_defs step_simps)
qed (auto simp: step_simps intro: libqasan_malloc_inv libqasan_free_inv libqasan_calloc_inv
    libqasan_realloc_inv libqasan_posix_memalign_inv)

lemma alloc_reachable_inv: "alloc_reachable E w\<^sub>0 w \<Longrightarrow> alloc_inv a w\<^sub>0 \<Longrightarrow> alloc_inv a w"
  by (induction rule: alloc_reachable.induct) (auto intro: alloc_step_inv)

text \<open>A freed block below the limit is linked into the quarantine and stays there.\<close>

lemma free_quarantines:
  assumes f: "libqasan_free E w p = Some w'" and i: "alloc_inv a w"
    and p: "p \<noteq> 0" "\<not> in_tmp_zone E p"
    and n: "rd64 (mem w) (p - 160) = Some n" "n < QUARANTINE_MAX_BYTES"
  shows "160 \<le> p" and "quarantine_top w' = p - 160" and "backend w' = backend w"
    and "quarantine_link w (p - 160) = Some (mem w')"
proof -
  from f p obtain c n' pushed w1 w2 where c: "ptr_minus p 160 = Some c"
    and n': "rd64 (mem w) c = Some n'"
    and push: "quarantine_push E (free_enter p c n' w) c = Some (pushed, w1)"
    and rel: "(if pushed then Some w1 else release_chunk E w1 c) = Some w2"
    and w': "w' = free_leave p n' w2"
    by (auto simp: libqasan_free_eq Option.bind_eq_Some_conv)
  from c have cp: "160 \<le> p" "c = p - 160"
    by (auto simp: ptr_minus_def split: if_splits)
  show "160 \<le> p" by (rule cp)
  have "quarantine_bytes w = 0" "\<not> quarantine_lock w" "n' = n"
    using i n n' by (auto simp: alloc_inv_def cp)
  with push n obtain m where m: "quarantine_link w c = Some m" "pushed"
    and w1: "w1 = (free_enter p c n w)\<lparr>mem := m, quarantine_top := c, quarantine_lock := False\<rparr>"
    by (auto simp: quarantine_push_unaccounted step_simps n' not_le
        Option.bind_eq_Some_conv split: if_splits)
  have w2: "w2 = (free_enter p c n w)\<lparr>mem := m, quarantine_top := c, quarantine_lock := False\<rparr>"
    using rel m w1 by simp
  show "quarantine_top w' = p - 160" by (simp add: w' w2 step_simps cp)
  show "backend w' = backend w" by (simp add: w' w2 step_simps)
  show "quarantine_link w (p - 160) = Some (mem w')" using m by (simp add: w' w2 step_simps cp)
qed

section \<open>The quarantine as a list of chunks\<close>

text \<open>
  The abstract quarantine is the list of its chunks, most recently freed first; the code keeps it
  as the \<open>next\<close> chain from \<open>quarantine_top\<close>. Chunks are \<open>apart\<close> when
  their linked headers do not overlap.
\<close>

fun qchain :: "memory \<Rightarrow> addr \<Rightarrow> addr list \<Rightarrow> bool" where
  "qchain m p [] \<longleftrightarrow> p = NULL"
| "qchain m p (c # cs) \<longleftrightarrow> p = c \<and> c \<noteq> NULL \<and> c < addr_limit \<and>
     (case rd64 m (c + 16) of None \<Rightarrow> False | Some n \<Rightarrow> qchain m (unat n) cs)"

definition apart :: "addr list \<Rightarrow> bool" where
  "apart cs \<longleftrightarrow> sorted_wrt (\<lambda>a b. a + 32 \<le> b \<or> b + 32 \<le> a) cs"

lemma qchain_frame:
  "qchain m p cs \<Longrightarrow> (\<And>c. c \<in> set cs \<Longrightarrow> rd64 m' (c + 16) = rd64 m (c + 16)) \<Longrightarrow> qchain m' p cs"
  by (induction cs arbitrary: p) (auto split: option.splits)

lemma unat_of_nat_addr: "p < addr_limit \<Longrightarrow> unat (of_nat p :: u64) = p"
  by (simp add: addr_limit_def unat_of_nat take_bit_eq_mod)

lemma quarantine_link_refines:
  assumes chain: "qchain (mem w) (quarantine_top w) cs"
    and apart: "apart (ck # cs)" and ck: "ck \<noteq> 0" "ck < addr_limit"
    and link: "quarantine_link w ck = Some m"
  shows "qchain m ck (ck # cs)"
proof -
  let ?t = "quarantine_top w" and ?m1 = "blit (mem w) (ck + 16) (le_bytes 8 (of_nat (quarantine_top w) :: u64))"
  have m1: "mapped (mem w) (ck + 16) 8"
    using link by (auto simp: quarantine_link_def Option.bind_eq_Some_conv wr64_Some_iff)
  have t: "?t < addr_limit"
    using chain by (cases cs) (auto simp: addr_limit_def)
  have ck1: "rd64 ?m1 (ck + 16) = Some (of_nat ?t)"
    using m1 by (simp add: rd64_blit_same)
  have cs1: "rd64 ?m1 (c + 16) = rd64 (mem w) (c + 16)" if "c \<in> set cs" for c
    using that apart m1 by (auto simp: apart_def rd64_blit_word)
  show ?thesis
  proof (cases cs)
    case Nil
    with chain have "?t = 0" by simp
    with link m1 have "m = ?m1"
      by (auto simp: quarantine_link_def Option.bind_eq_Some_conv wr64_Some_iff)
    with ck ck1 Nil \<open>?t = 0\<close> show ?thesis by simp
  next
    case (Cons c cs')
    with chain have tc: "?t = c" "c \<noteq> 0" by auto
    with link m1 have m2: "mapped ?m1 (c + 24) 8" and m: "m = blit ?m1 (c + 24) (le_bytes 8 (of_nat ck :: u64))"
      by (auto simp: quarantine_link_def Option.bind_eq_Some_conv wr64_Some_iff)
    have away: "rd64 m (d + 16) = rd64 ?m1 (d + 16)" if "d \<in> set (ck # cs)" for d
      using that apart m2 Cons by (auto simp: m apart_def rd64_blit_word)
    have "qchain m ?t cs"
      using chain cs1 away by (intro qchain_frame [OF chain]) simp
    with ck ck1 away [of ck] t show ?thesis by (simp add: unat_of_nat_addr)
  qed
qed

section \<open>What the aligned allocator does\<close>

definition memalign_header :: "memory \<Rightarrow> addr \<Rightarrow> addr \<Rightarrow> u64 \<Rightarrow> memory" where
  "memalign_header m p orig len =
     blit (blit m p (le_bytes 8 len)) (p + 8) (le_bytes 8 (of_nat orig :: u64))"

lemma init_aligned_chunk_eq:
  "init_aligned_chunk m p len orig =
     (if mapped m p 16 then Some (memalign_header m p orig len) else None)"
proof (cases "mapped m p 16")
  case True
  then have "mapped m p 8" "mapped m (p + 8) 8"
    by (auto intro: mapped_sub)
  with True show ?thesis
    by (simp add: init_aligned_chunk_def memalign_header_def header_simps layout_defs)
next
  case False
  have "init_aligned_chunk m p len orig \<noteq> Some m'" for m'
    using False mapped_add [of m p 8 8]
    by (auto simp: init_aligned_chunk_def Option.bind_eq_Some_conv wr64_Some_iff mapped_blit_word
        layout_defs)
  with False show ?thesis by auto
qed

lemma memalign_header_reads:
  assumes "mapped m p 16"
  shows "rd64 (memalign_header m p orig n) p = Some n"
    and "rd64 (memalign_header m p orig n) (p + 8) = Some (of_nat orig)"
    and "mapped (memalign_header m p orig n) q k \<longleftrightarrow> mapped m q k"
proof -
  have mm: "mapped m p 8" "mapped m (p + 8) 8"
    using assms by (auto intro: mapped_sub)
  then show "rd64 (memalign_header m p orig n) p = Some n"
    "rd64 (memalign_header m p orig n) (p + 8) = Some (of_nat orig)"
    "mapped (memalign_header m p orig n) q k \<longleftrightarrow> mapped m q k"
    by (simp_all add: memalign_header_def header_simps)
qed

definition memalign_log :: "addr \<Rightarrow> u64 \<Rightarrow> addr \<Rightarrow> u64 \<Rightarrow> qcall list" where
  "memalign_log orig al data n =
     [SwapState 1, SwapState 0, UnPoison orig (296 + (n + al)), Alloc data (data + unat n),
      Poison (data - 160 + 32) 128 ASAN_HEAP_LEFT_RZ,
      Poison (data + unat n) (memalign_right_redzone_len n) ASAN_HEAP_RIGHT_RZ]"

lemma posix_memalign_Some:
  assumes "libqasan_posix_memalign E w al n = Some (e, st, w')"
    and "al mod 2 = 0" "al mod 8 = 0" "n \<noteq> 0" "e = 0"
  shows "\<exists>orig b m data. backend_malloc E (backend w) (mem w) (296 + (n + al)) = Some (orig, b, m) \<and>
    orig \<noteq> 0 \<and> al \<noteq> 0 \<and> data = orig + 160 + (unat al - (orig + 160) mod unat al) \<and>
    st = Some data \<and> mapped m (data - 160) 16 \<and> mapped m data (unat n) \<and>
    w' = w\<lparr>qlog := qlog w @ memalign_log orig al data n, backend := b,
            mem := blit (memalign_header m (data - 160) orig n) data (replicate (unat n) 0xff)\<rparr>"
proof -
  from assms obtain orig b m where
    bm: "backend_malloc E (backend w) (mem w) (296 + (n + al)) = Some (orig, b, m)"
    by (auto simp: libqasan_posix_memalign_def Option.bind_eq_Some_conv Let_def layout_defs
        qasan_swap_def step_simps)
  have o: "orig \<noteq> 0"
  proof
    assume "orig = 0"
    with assms bm show False
      by (auto simp: libqasan_posix_memalign_def Let_def layout_defs qasan_swap_def step_simps
          ENOMEM_def)
  qed
  have al: "al \<noteq> 0"
  proof
    assume "al = 0"
    with assms bm o show False
      by (auto simp: libqasan_posix_memalign_def Let_def layout_defs qasan_swap_def step_simps
          align_data_def)
  qed
  show ?thesis
    using assms bm o al
    by (auto simp: libqasan_posix_memalign_def Let_def layout_defs qasan_swap_def step_simps
        align_data_def init_aligned_chunk_eq qasan_call_defs builtin_memset_iff memalign_header_reads
        memalign_log_def qsyscall_def QASAN_DISABLED_def Option.bind_eq_Some_conv split: if_splits)
qed

section \<open>Frames\<close>

lemma quarantine_link_frame:
  assumes "quarantine_link w ck = Some m" and "x < ck + 16 \<or> ck + 24 \<le> x"
    and "quarantine_top w = 0 \<or> x < quarantine_top w + 24 \<or> quarantine_top w + 32 \<le> x"
  shows "rd m x = rd (mem w) x"
  using assms
  by (auto simp: quarantine_link_def Option.bind_eq_Some_conv wr64_Some_iff rd_blit_word
      split: if_splits)

lemma bytes_at_cong:
  "bytes_at m a bs \<Longrightarrow> (\<And>x. a \<le> x \<Longrightarrow> x < a + length bs \<Longrightarrow> rd m' x = rd m x) \<Longrightarrow> bytes_at m' a bs"
  by (simp add: bytes_at_nth)

lemma bytes_at_blit_prefix:
  assumes "bytes_at m a cs" and "length bs \<le> length cs"
  shows "bytes_at (blit m a bs) a (bs @ drop (length bs) cs)"
proof -
  have mp: "mapped m a (length bs)"
    using bytes_at_mapped [OF assms(1)] assms(2) by (rule mapped_mono)
  show ?thesis
    using assms by (auto simp: bytes_at_nth rd_blit [OF mp] nth_append)
qed

lemma malloc_body_frame:
  assumes "malloc_body E w n = Some (r, w')"
    and "backend_malloc E (backend w) (mem w) (296 + n) = Some (q, b, m)" and "q \<noteq> 0"
    and "x < q \<or> q + 160 + unat n \<le> x"
  shows "rd (mem w') x = rd m x"
proof -
  from assms have mp: "mapped m q 32" "mapped m (q + 160) (unat n)"
    and w': "mem w' = blit (malloc_header m q n) (q + 160) (replicate (unat n) 0xff)"
    by (auto simp: malloc_body_Some_iff)
  have "rd (mem w') x = rd (malloc_header m q n) x"
    using assms(4) mp by (auto simp: w' malloc_header_mapped intro!: rd_blit_other)
  also have "\<dots> = rd m x"
    using assms(4) mp by (auto intro!: malloc_header_reads(5))
  finally show ?thesis .
qed

lemma free_defined:
  assumes "p \<noteq> 0" "\<not> in_tmp_zone E p" "160 \<le> p" "alloc_inv a w" "quarantine_top w = 0"
    and "rd64 (mem w) (p - 160) = Some n" "n < QUARANTINE_MAX_BYTES" "mapped (mem w) (p - 160) 32"
  shows "\<exists>w'. libqasan_free E w p = Some w'"
proof -
  have "mapped (mem w) (p - 160 + 16) 8"
    using assms(8) by (rule mapped_sub) simp_all
  then have "quarantine_link w (p - 160) \<noteq> None"
    using assms(5) by (simp add: quarantine_link_def wr64_mapped)
  then obtain m where "quarantine_link w (p - 160) = Some m" by blast
  then show ?thesis
    using assms
    by (auto simp: libqasan_free_eq ptr_minus_def quarantine_push_unaccounted step_simps
        alloc_inv_def not_le)
qed

section \<open>Properties\<close>

text \<open>C1. A non-null result of \<open>__libqasan_malloc\<close> on an initialised allocator is
  a block of the requested size: \<open>malloc_usable_size\<close> returns exactly the request, the payload is
  filled with 0xff, and the calls made to the sanitizer allocate \<open>[r, r + size)\<close>, poison the 128
  bytes before it and between 121 and 135 bytes after it, all inside the chunk of
  \<open>size + 296\<close> bytes obtained from the backend.\<close>

theorem malloc_block:
  assumes "malloc_initialized w" and "libqasan_malloc E w n = Some (r, w')" and "r \<noteq> 0"
  shows "\<exists>rz. libqasan_malloc_usable_size w' r = Some (n, qasan_load (r - 160) 32 w') \<and>
    bytes_at (mem w') r (replicate (unat n) 0xff) \<and>
    qlog w' = qlog w @ [SwapState 1, SwapState 0, UnPoison (r - 160) (296 + n),
      Alloc r (r + unat n), Poison (r - 128) 128 ASAN_HEAP_LEFT_RZ,
      Poison (r + unat n) rz ASAN_HEAP_RIGHT_RZ] \<and>
    121 \<le> unat rz \<and> unat rz \<le> 135 \<and> r + unat n + unat rz \<le> (r - 160) + (unat n + 296)"
proof -
  from assms have body: "malloc_body E w n = Some (r, w')"
    by (simp add: libqasan_malloc_def)
  note blk = malloc_body_block [OF body assms(3)]
  have "qlog w' = qlog w @ malloc_log (r - 160) n"
    using body assms(3) by (auto simp: malloc_body_Some_iff split: if_splits)
  moreover have "121 \<le> unat (malloc_right_redzone_len n) \<and> unat (malloc_right_redzone_len n) \<le> 135"
    using mod_less_divisor [of 16 "unat n"] by (auto simp: malloc_right_redzone_len_unat)
  ultimately show ?thesis
    using blk by (intro exI [of _ "malloc_right_redzone_len n"])
      (auto simp: usable_size_eq malloc_log_def)
qed

text \<open>C6. Freeing a block below the 50 MB limit pushes its chunk on the
  quarantine: if the chain from \<open>quarantine_top\<close> represents the list \<open>cs\<close>, it represents
  \<open>chunk # cs\<close> afterwards.\<close>

theorem quarantine_refines_list:
  assumes "alloc_inv a w" and "libqasan_free E w p = Some w'"
    and "p \<noteq> 0" and "\<not> in_tmp_zone E p" and "160 < p" and "p < addr_limit"
    and "rd64 (mem w) (p - 160) = Some n" and "n < QUARANTINE_MAX_BYTES"
    and "qchain (mem w) (quarantine_top w) cs" and "apart ((p - 160) # cs)"
  shows "qchain (mem w') (quarantine_top w') ((p - 160) # cs)"
  using free_quarantines [OF assms(2,1,3,4,7,8)] assms(5,6,9,10)
  by (simp del: qchain.simps add: quarantine_link_refines)

text \<open>C33. No eviction ever happens: from a fresh allocator, through
  any sequence of calls and program writes, the byte count of the quarantine stays 0, so a freed
  block below the limit is kept for ever and the backend allocator is not even called.\<close>

theorem quarantine_limit_never_enforced:
  assumes "alloc_reachable E w\<^sub>0 w" and "quarantine_bytes w\<^sub>0 = 0" and "\<not> quarantine_lock w\<^sub>0"
    and "libqasan_free E w p = Some w'" and "p \<noteq> 0" and "\<not> in_tmp_zone E p"
    and "rd64 (mem w) (p - 160) = Some n" and "n < QUARANTINE_MAX_BYTES"
  shows "quarantine_bytes w' = 0 \<and> quarantine_top w' = p - 160 \<and> backend w' = backend w"
proof -
  have inv: "alloc_inv (asan_on w\<^sub>0) w"
    by (rule alloc_reachable_inv [OF assms(1)]) (simp add: alloc_inv_def assms)
  show ?thesis
    using free_quarantines [OF assms(4) inv assms(5-8)] libqasan_free_inv [OF assms(4) inv]
    by (simp add: alloc_inv_def)
qed

text \<open>C18. Every allocator call leaves the sanitizer switched on or off as
  it found it, whatever the program does to its memory between the calls.\<close>

theorem sanitizer_state_restored:
  assumes "alloc_reachable E w\<^sub>0 w" and "quarantine_bytes w\<^sub>0 = 0" and "\<not> quarantine_lock w\<^sub>0"
  shows "asan_on w = asan_on w\<^sub>0"
proof -
  have "alloc_inv (asan_on w\<^sub>0) w"
    by (rule alloc_reachable_inv [OF assms(1)]) (simp add: alloc_inv_def assms)
  then show ?thesis by (simp add: alloc_inv_def)
qed

lemma posix_memalign_stored:
  "libqasan_posix_memalign E w al n = Some (e, Some p, w') \<Longrightarrow> e = 0"
  by (auto simp: libqasan_posix_memalign_def Let_def qasan_swap_def Option.bind_eq_Some_conv
      split: if_splits)

lemma memalign_chunk:
  assumes "libqasan_posix_memalign E w al n = Some (0, Some data, w')" and "n \<noteq> 0"
  shows "al \<noteq> 0 \<and> data mod unat al = 0 \<and> 160 < data \<and>
    libqasan_malloc_usable_size w' data = Some (n, qasan_load (data - 160) 32 w') \<and>
    bytes_at (mem w') data (replicate (unat n) 0xff)"
proof -
  have "al mod 2 = 0" "al mod 8 = 0"
    using assms by (auto simp: libqasan_posix_memalign_def EINVAL_def split: if_splits)
  from posix_memalign_Some [OF assms(1) this assms(2) refl] obtain orig b m where
    o: "orig \<noteq> 0" and al: "al \<noteq> 0" and d: "data = orig + 160 + (unat al - (orig + 160) mod unat al)"
    and mp: "mapped m (data - 160) 16" "mapped m data (unat n)"
    and w': "mem w' = blit (memalign_header m (data - 160) orig n) data (replicate (unat n) 0xff)"
    by auto
  have "(orig + 160) mod unat al \<le> unat al"
    using al by (simp add: unat_gt_0 mod_le_divisor)
  then have "data + (orig + 160) mod unat al = orig + 160 + unat al"
    by (simp add: d)
  moreover have "orig + 160 = (orig + 160) div unat al * unat al + (orig + 160) mod unat al"
    by simp
  ultimately have "data = (orig + 160) div unat al * unat al + unat al"
    by linarith
  then have dm: "data mod unat al = 0" by simp
  have big: "160 < data" using o d by simp
  have pay: "mapped (memalign_header m (data - 160) orig n) data (length (replicate (unat n) (0xff::byte)))"
    using mp by (simp add: memalign_header_reads)
  have "rd64 (mem w') (data - 160) = Some n"
    using mp big rd64_blit_other [OF pay, of "data - 160"]
    by (simp add: w' memalign_header_reads)
  moreover have "bytes_at (mem w') data (replicate (unat n) 0xff)"
    using bytes_at_blit [OF pay] by (simp add: w')
  ultimately show ?thesis
    using al dm big by (simp add: usable_size_eq)
qed

text \<open>C34. A successful \<open>__libqasan_posix_memalign\<close> of a non-zero length stores a
  pointer that is a multiple of the alignment, with a readable header that gives the requested
  length back and the payload filled with 0xff.\<close>

theorem memalign_block:
  assumes "libqasan_posix_memalign E w al n = Some (0, Some data, w')" and "n \<noteq> 0"
  shows "al \<noteq> 0 \<and> data mod unat al = 0 \<and> 160 < data \<and>
    libqasan_malloc_usable_size w' data = Some (n, qasan_load (data - 160) 32 w') \<and>
    bytes_at (mem w') data (replicate (unat n) 0xff)"
  using assms by (rule memalign_chunk)

text \<open>C35. The right redzone of an aligned block can leave its chunk: with
  alignment 16, a 16-aligned backend and a length that is 1 to 7 modulo 16, the bytes poisoned after
  the block reach past the end of the memory obtained from the backend.\<close>

theorem memalign_redzone_overrun:
  assumes "libqasan_posix_memalign E w 16 n = Some (0, Some data, w')"
    and "backend_malloc E (backend w) (mem w) (296 + (n + 16)) = Some (orig, b, m)"
    and "orig mod 16 = 0" and "n \<noteq> 0" and "unat n < 2 ^ 63"
    and "1 \<le> unat n mod 16" and "unat n mod 16 \<le> 7"
  shows "\<exists>rz. Poison (data + unat n) rz ASAN_HEAP_RIGHT_RZ \<in> set (qlog w') \<and>
    orig + unat (296 + (n + 16)) < data + unat n + unat rz"
proof -
  have al: "(16::u64) mod 2 = 0" "(16::u64) mod 8 = 0" by simp_all
  from posix_memalign_Some [OF assms(1) al assms(4) refl] assms(2) have
    d: "data = orig + 160 + (16 - (orig + 160) mod 16)"
    and log: "qlog w' = qlog w @ memalign_log orig 16 data n"
    by auto
  have "(orig + 160) mod 16 = 0" using assms(3) by presburger
  with d have d': "data = orig + 176" by simp
  have sz: "unat (312 + n) = unat n + 312"
    using assms(5) by (simp add: unat_word_ariths)
  show ?thesis
    using assms(6,7)
    by (intro exI [of _ "memalign_right_redzone_len n"])
      (auto simp: log memalign_log_def memalign_right_redzone_len_unat sz d')
qed

text \<open>An alignment of 0 passes the argument check and then
  divides by zero, unless the backend is out of memory.\<close>

theorem memalign_zero_alignment_traps:
  assumes "n \<noteq> 0" and "backend_malloc E (backend w) (mem w) (296 + n) = Some (orig, b, m)"
    and "orig \<noteq> 0"
  shows "libqasan_posix_memalign E w 0 n = None"
  using assms
  by (simp add: libqasan_posix_memalign_def Let_def layout_defs qasan_swap_def step_simps align_data_def)

lemma calloc_block_aux:
  assumes "malloc_initialized w" and "libqasan_calloc E w k n = Some (r, w')" and "r \<noteq> 0"
  shows "160 < r \<and> rd64 (mem w') (r - 160) = Some (n * k) \<and>
    bytes_at (mem w') r (replicate (unat (n * k)) 0)"
proof -
  from assms obtain w1 where body: "malloc_body E w (n * k) = Some (r, w1)"
    and mp: "mapped (mem w1) r (unat (n * k))"
    and w': "mem w' = blit (mem w1) r (replicate (unat (n * k)) 0)"
    by (auto simp: libqasan_calloc_def libqasan_malloc_def Let_def Option.bind_eq_Some_conv
        builtin_memset_iff split: if_splits)
  from malloc_body_block [OF body assms(3)] mp show ?thesis
    using bytes_at_blit [of "mem w1" r "replicate (unat (n * k)) 0"] by (simp add: w' rd64_blit_other)
qed

text \<open>\<open>__libqasan_calloc\<close> returns a zeroed block whose size is the product of
  its arguments modulo \<open>2 ^ 64\<close>.\<close>

theorem calloc_block:
  assumes "malloc_initialized w" and "libqasan_calloc E w k n = Some (r, w')" and "r \<noteq> 0"
  shows "libqasan_malloc_usable_size w' r = Some (n * k, qasan_load (r - 160) 32 w') \<and>
    bytes_at (mem w') r (replicate (unat (n * k)) 0)"
  using calloc_block_aux [OF assms] by (simp add: usable_size_eq)

text \<open>The product is not checked: when it does not fit in a
  \<open>size_t\<close>, the block returned is smaller than the request.\<close>

theorem calloc_overflow_undersized:
  assumes "malloc_initialized w" and "libqasan_calloc E w k n = Some (r, w')" and "r \<noteq> 0"
    and "2 ^ 64 \<le> unat k * unat n"
  shows "\<exists>sz w''. libqasan_malloc_usable_size w' r = Some (sz, w'') \<and> unat sz < unat k * unat n"
proof -
  have "unat (n * k) < 2 ^ 64"
    using unsigned_less [of "n * k", where ?'a = nat] by simp
  with assms(4) have "unat (n * k) < unat k * unat n" by linarith
  with calloc_block_aux [OF assms(1-3)] show ?thesis by (simp add: usable_size_eq)
qed

text \<open>Under glibc the first allocation is served from the 4096-byte early
  zone whatever its size: a larger request is answered with a pointer into the zone.\<close>

theorem early_malloc_unchecked:
  assumes "\<not> malloc_initialized w" and "glibc E" and "tmp_zone_idx w = 0"
    and "TMP_ZONE_SIZE < unat n"
  shows "\<exists>r w'. libqasan_malloc E w n = Some (r, w') \<and> r = tmp_alloc_zone E \<and>
    malloc_initialized w' \<and> tmp_alloc_zone E + TMP_ZONE_SIZE < r + unat n"
  using assms
  by (simp add: libqasan_malloc_def Let_def tmp_zone_ptr_def libqasan_init_malloc_def
      tmp_zone_advance_def)

text \<open>C17. \<open>__libqasan_realloc\<close> moves the block: the new one starts with the
  common prefix of the old contents and is filled with 0xff after it, provided the backend returns
  memory apart from the old block and from the chunk at the top of the quarantine.\<close>

theorem realloc_preserves:
  assumes init: "malloc_initialized w" and re: "libqasan_realloc E w p n = Some (r, w')" "r \<noteq> 0"
    and p: "p \<noteq> 0" "\<not> in_tmp_zone E p" "160 \<le> p" and inv: "alloc_inv a w"
    and old: "rd64 (mem w) (p - 160) = Some old" "old < QUARANTINE_MAX_BYTES"
    and bs: "bytes_at (mem w) p bs" "length bs = unat old"
    and bm: "backend_malloc E (backend w) (mem w) (296 + n) = Some (q, b, m)"
    and keep: "\<And>x. p - 160 \<le> x \<Longrightarrow> x < p + unat old \<Longrightarrow> rd m x = rd (mem w) x"
    and disj: "p + unat old \<le> q \<or> q + 296 + unat n \<le> p - 160"
    and top: "quarantine_top w = 0 \<or> quarantine_top w + 32 \<le> q \<or> q + 296 + unat n \<le> quarantine_top w"
  shows "bytes_at (mem w') r
    (take (min (unat n) (unat old)) bs @ replicate (unat n - unat old) 0xff)"
proof -
  define k where "k = (if n < old then n else old)"
  have k: "unat k = min (unat n) (unat old)"
    by (auto simp: k_def word_less_nat_alt)
  from init re p obtain w1 where body: "malloc_body E w n = Some (r, w1)"
    by (auto simp: libqasan_realloc_def libqasan_malloc_def Option.bind_eq_Some_conv split: if_splits)
  from body re(2) bm have q: "q \<noteq> 0" "r = q + 160" and qt: "quarantine_top w1 = quarantine_top w"
    by (auto simp: malloc_body_Some_iff split: if_splits)
  have keep1: "rd (mem w1) x = rd (mem w) x" if "p - 160 \<le> x" "x < p + unat old" for x
  proof -
    have "x < q \<or> q + 160 + unat n \<le> x" using that disj by linarith
    then show ?thesis using malloc_body_frame [OF body bm q(1)] keep [OF that] by simp
  qed
  have old1: "rd64 (mem w1) (p - 160) = Some old"
    using old keep1 fetch_cong [of 8 "mem w1" "p - 160" "mem w"] p(3)
    by (auto simp: rd64_def)
  have bs1: "bytes_at (mem w1) p bs"
    by (rule bytes_at_cong [OF bs(1)]) (auto simp: keep1 bs(2))
  from init re p body old1 obtain cs m2 where cs: "bytes_at (mem w1) p cs" "length cs = unat k"
    and m2: "m2 = blit (mem w1) r cs" and fr: "libqasan_free E (w1\<lparr>mem := m2\<rparr>) p = Some w'"
    by (auto simp: libqasan_realloc_def libqasan_malloc_def ptr_minus_def layout_defs Let_def
        builtin_memcpy_iff k_def Option.bind_eq_Some_conv split: if_splits)
  have "cs = take (unat k) bs"
    using cs bs1 bs(2) k by (intro nth_equalityI) (auto simp: bytes_at_nth)
  then have pre: "bytes_at m2 r (take (unat k) bs @ replicate (unat n - unat k) 0xff)"
    using bytes_at_blit_prefix [OF malloc_body_block(5) [OF body re(2)], of cs] cs(2) k
    by (simp add: m2)
  have mp2: "mapped (mem w1) r (length cs)"
    using mapped_mono [OF bytes_at_mapped [OF malloc_body_block(5) [OF body re(2)]], of "length cs"]
      cs(2) k by simp
  have old2: "rd64 m2 (p - 160) = Some old"
    using old1 disj p(3) cs(2) k rd64_blit_other [OF mp2, of "p - 160"]
    by (simp add: m2 q(2)) linarith
  have inv1: "alloc_inv a (w1\<lparr>mem := m2\<rparr>)"
    using malloc_body_inv [OF body inv] by (simp add: step_simps)
  have link: "quarantine_link (w1\<lparr>mem := m2\<rparr>) (p - 160) = Some (mem w')"
    using free_quarantines(4) [OF fr inv1 p(1,2)] old2 old(2) by simp
  have "rd (mem w') x = rd m2 x" if "r \<le> x" "x < r + unat n" for x
    using quarantine_link_frame [OF link, of x] that q(2) disj top p(3) qt by simp linarith
  then have "bytes_at (mem w') r (take (unat k) bs @ replicate (unat n - unat k) 0xff)"
    using k bs(2) by (intro bytes_at_cong [OF pre]) auto
  then show ?thesis using k by (simp add: min_def split: if_splits)
qed

section \<open>Witnesses\<close>

lemma bump_malloc_succeeds:
  assumes "unat n \<le> 65536"
  shows "\<exists>w'. libqasan_malloc bump_env fresh_world n = Some (8352, w')"
  using assms
  by (auto simp: libqasan_malloc_def malloc_body_Some_iff bump_env_def fresh_world_def
      bump_malloc_def addr_limit_def)

theorem malloc_block_witness:
  "\<exists>r w'. libqasan_malloc bump_env fresh_world 3 = Some (r, w') \<and>
     libqasan_malloc_usable_size w' r = Some (3, qasan_load (r - 160) 32 w')"
proof -
  obtain w' where m: "libqasan_malloc bump_env fresh_world 3 = Some (8352, w')"
    using bump_malloc_succeeds [of 3] by auto
  have "malloc_initialized fresh_world" by (simp add: fresh_world_def)
  from malloc_block [OF this m] m show ?thesis by auto
qed

text \<open>The example process after one allocation, and after freeing it.\<close>

lemma bump_after_malloc:
  assumes "libqasan_malloc bump_env fresh_world n = Some (r, w)" and "unat n \<le> 65536"
  shows "r = 8352" and "alloc_inv True w" and "quarantine_top w = 0" and "malloc_initialized w"
    and "rd64 (mem w) 8192 = Some n" and "mapped (mem w) 8192 32"
    and "backend w = 8192 + 16 * ((unat (296 + n) + 15) div 16)"
    and "a \<le> addr_limit \<Longrightarrow> a + k \<le> addr_limit \<Longrightarrow> mapped (mem w) a k"
proof -
  from assms have body: "malloc_body bump_env fresh_world n = Some (r, w)"
    by (simp add: libqasan_malloc_def fresh_world_def)
  from body show "r = 8352" "alloc_inv True w" "quarantine_top w = 0" "malloc_initialized w"
    "backend w = 8192 + 16 * ((unat (296 + n) + 15) div 16)"
    by (auto simp: malloc_body_Some_iff bump_env_def fresh_world_def bump_malloc_def alloc_inv_def)
  then show "rd64 (mem w) 8192 = Some n" "mapped (mem w) 8192 32"
    using malloc_body_block [OF body] by auto
  show "mapped (mem w) a k" if "a \<le> addr_limit" "a + k \<le> addr_limit"
    using body that
    by (auto simp: malloc_body_Some_iff bump_env_def fresh_world_def bump_malloc_def
        malloc_header_mapped mapped_blit)
qed

lemma not_in_bump_zone [simp]: "2000000 < p \<or> 5120 \<le> p \<Longrightarrow> \<not> in_tmp_zone bump_env p"
  by (auto simp: in_tmp_zone_def bump_env_def TMP_ZONE_SIZE_def)

theorem quarantine_refines_list_witness:
  "\<exists>w w'. libqasan_malloc bump_env fresh_world 3 = Some (8352, w) \<and>
     libqasan_free bump_env w 8352 = Some w' \<and> qchain (mem w') (quarantine_top w') [8192]"
proof -
  obtain w where m: "libqasan_malloc bump_env fresh_world 3 = Some (8352, w)"
    using bump_malloc_succeeds [of 3] by auto
  note w = bump_after_malloc [OF m, simplified]
  have z: "\<not> in_tmp_zone bump_env 8352" by simp
  have "\<exists>w'. libqasan_free bump_env w 8352 = Some w'"
    by (rule free_defined [where a = True and n = 3]) (simp_all add: w QUARANTINE_MAX_BYTES_def)
  then obtain w' where f: "libqasan_free bump_env w 8352 = Some w'" ..
  have "qchain (mem w') (quarantine_top w') [8352 - 160]"
    by (rule quarantine_refines_list [OF w(2) f _ z, where n = 3])
      (simp_all add: w QUARANTINE_MAX_BYTES_def addr_limit_def apart_def)
  with m f show ?thesis by auto
qed

theorem quarantine_limit_never_enforced_witness:
  "\<exists>w w'. alloc_reachable bump_env fresh_world w \<and> libqasan_free bump_env w 8352 = Some w' \<and>
     quarantine_bytes w' = 0 \<and> quarantine_top w' = 8192 \<and> backend w' = backend w"
proof -
  obtain w where m: "libqasan_malloc bump_env fresh_world 3 = Some (8352, w)"
    using bump_malloc_succeeds [of 3] by auto
  note w = bump_after_malloc [OF m, simplified]
  have z: "\<not> in_tmp_zone bump_env 8352" by simp
  have "\<exists>w'. libqasan_free bump_env w 8352 = Some w'"
    by (rule free_defined [where a = True and n = 3]) (simp_all add: w QUARANTINE_MAX_BYTES_def)
  then obtain w' where f: "libqasan_free bump_env w 8352 = Some w'" ..
  have r: "alloc_reachable bump_env fresh_world w"
    by (rule alloc_reachable.step [OF alloc_reachable.start alloc_step.malloc [OF m]])
  have "quarantine_bytes w' = 0 \<and> quarantine_top w' = 8352 - 160 \<and> backend w' = backend w"
    by (rule quarantine_limit_never_enforced [OF r _ _ f _ z, where n = 3])
      (simp_all add: w QUARANTINE_MAX_BYTES_def fresh_world_def)
  with r f show ?thesis by auto
qed

theorem sanitizer_state_restored_witness:
  "\<exists>w. alloc_reachable bump_env fresh_world w \<and> w \<noteq> fresh_world \<and> asan_on w"
proof -
  obtain w where m: "libqasan_malloc bump_env fresh_world 3 = Some (8352, w)"
    using bump_malloc_succeeds [of 3] by auto
  have r: "alloc_reachable bump_env fresh_world w"
    by (rule alloc_reachable.step [OF alloc_reachable.start alloc_step.malloc [OF m]])
  have "asan_on w = asan_on fresh_world"
    by (rule sanitizer_state_restored [OF r]) (simp_all add: fresh_world_def)
  moreover have "backend w \<noteq> backend fresh_world"
    using bump_after_malloc(7) [OF m] by (simp add: fresh_world_def)
  ultimately show ?thesis using r by (auto simp: fresh_world_def)
qed

lemma bump_memalign_succeeds:
  assumes "n \<noteq> 0" and "unat n \<le> 65536"
  shows "\<exists>w'. libqasan_posix_memalign bump_env fresh_world 16 n = Some (0, Some 8368, w')"
  using assms
  by (auto simp: libqasan_posix_memalign_def Let_def layout_defs qasan_swap_def step_simps
      qasan_call_defs align_data_def bump_env_def fresh_world_def bump_malloc_def
      init_aligned_chunk_eq addr_limit_def builtin_memset_def wr_bytes_blit memalign_header_reads)

theorem memalign_block_witness:
  "\<exists>w'. libqasan_posix_memalign bump_env fresh_world 16 5 = Some (0, Some 8368, w') \<and>
     libqasan_malloc_usable_size w' 8368 = Some (5, qasan_load 8208 32 w')"
proof -
  obtain w' where m: "libqasan_posix_memalign bump_env fresh_world 16 5 = Some (0, Some 8368, w')"
    using bump_memalign_succeeds [of 5] by auto
  from memalign_block [OF m] m show ?thesis by auto
qed

theorem memalign_redzone_overrun_witness:
  "\<exists>w' rz. libqasan_posix_memalign bump_env fresh_world 16 17 = Some (0, Some 8368, w') \<and>
     Poison (8368 + 17) rz ASAN_HEAP_RIGHT_RZ \<in> set (qlog w') \<and>
     8192 + unat (296 + (17 + 16 :: u64)) < 8368 + 17 + unat rz"
proof -
  obtain w' where m: "libqasan_posix_memalign bump_env fresh_world 16 17 = Some (0, Some 8368, w')"
    using bump_memalign_succeeds [of 17] by auto
  have b: "backend_malloc bump_env (backend fresh_world) (mem fresh_world) (296 + (17 + 16)) =
    Some (8192, 8192 + 16 * ((unat (296 + (17 + 16) :: u64) + 15) div 16), mem fresh_world)"
    by (simp add: bump_env_def bump_malloc_def fresh_world_def)
  from memalign_redzone_overrun [OF m b] m show ?thesis by auto
qed

theorem memalign_zero_alignment_traps_witness:
  "libqasan_posix_memalign bump_env fresh_world 0 5 = None"
proof -
  have b: "backend_malloc bump_env (backend fresh_world) (mem fresh_world) (296 + 5) =
    Some (8192, 8192 + 16 * ((unat (296 + 5 :: u64) + 15) div 16), mem fresh_world)"
    by (simp add: bump_env_def bump_malloc_def fresh_world_def)
  show ?thesis by (rule memalign_zero_alignment_traps [OF _ b]) simp_all
qed

lemma bump_calloc_succeeds:
  assumes "unat (n * k) \<le> 65536"
  shows "\<exists>w'. libqasan_calloc bump_env fresh_world k n = Some (8352, w')"
proof -
  obtain w where m: "libqasan_malloc bump_env fresh_world (n * k) = Some (8352, w)"
    using bump_malloc_succeeds [OF assms] by auto
  have "mapped (mem w) 8352 (unat (n * k))"
    using assms by (intro bump_after_malloc(8) [OF m assms]) (auto simp: addr_limit_def)
  with m show ?thesis
    by (simp add: libqasan_calloc_def Let_def fresh_world_def builtin_memset_def wr_bytes_blit)
qed

theorem calloc_block_witness:
  "\<exists>w'. libqasan_calloc bump_env fresh_world 4 3 = Some (8352, w') \<and>
     libqasan_malloc_usable_size w' 8352 = Some (12, qasan_load 8192 32 w')"
proof -
  obtain w' where m: "libqasan_calloc bump_env fresh_world 4 3 = Some (8352, w')"
    using bump_calloc_succeeds [of 3 4] by auto
  have "malloc_initialized fresh_world" by (simp add: fresh_world_def)
  from calloc_block [OF this m] m show ?thesis by auto
qed

theorem calloc_overflow_undersized_witness:
  "\<exists>w' sz w''. libqasan_calloc bump_env fresh_world (2 ^ 32) (2 ^ 32) = Some (8352, w') \<and>
     libqasan_malloc_usable_size w' 8352 = Some (sz, w'') \<and> unat sz < 2 ^ 64"
proof -
  have "(2 ^ 32 :: u64) * 2 ^ 32 = 0" by simp
  then obtain w' where m: "libqasan_calloc bump_env fresh_world (2 ^ 32) (2 ^ 32) = Some (8352, w')"
    using bump_calloc_succeeds [of "2 ^ 32" "2 ^ 32"] by auto
  have i: "malloc_initialized fresh_world" by (simp add: fresh_world_def)
  have "2 ^ 64 \<le> unat (2 ^ 32 :: u64) * unat (2 ^ 32 :: u64)" by simp
  from calloc_overflow_undersized [OF i m _ this] m show ?thesis by auto
qed

theorem early_malloc_unchecked_witness:
  "\<exists>r w'. libqasan_malloc bump_env (fresh_world\<lparr>malloc_initialized := False\<rparr>) 5000 = Some (r, w') \<and>
     r = 1024 \<and> 1024 + TMP_ZONE_SIZE < r + 5000"
proof -
  have "\<exists>r w'. libqasan_malloc bump_env (fresh_world\<lparr>malloc_initialized := False\<rparr>) 5000 = Some (r, w') \<and>
    r = tmp_alloc_zone bump_env \<and> malloc_initialized w' \<and>
    tmp_alloc_zone bump_env + TMP_ZONE_SIZE < r + unat (5000 :: u64)"
    by (rule early_malloc_unchecked)
      (simp_all add: bump_env_def fresh_world_def TMP_ZONE_SIZE_def)
  then show ?thesis by (auto simp: bump_env_def)
qed

theorem realloc_preserves_witness:
  "\<exists>w r w'. libqasan_malloc bump_env fresh_world 2 = Some (8352, w) \<and>
     libqasan_realloc bump_env w 8352 3 = Some (r, w') \<and> bytes_at (mem w') r [0xff, 0xff, 0xff]"
proof -
  obtain w where m: "libqasan_malloc bump_env fresh_world 2 = Some (8352, w)"
    using bump_malloc_succeeds [of 2] by auto
  note w = bump_after_malloc [OF m, simplified]
  have init: "malloc_initialized fresh_world" by (simp add: fresh_world_def)
  have r2: "replicate 2 (0xff :: byte) = [0xff, 0xff]" by (simp add: eval_nat_numeral)
  have r3: "replicate 3 (0xff :: byte) = [0xff, 0xff, 0xff]" by (simp add: eval_nat_numeral)
  from malloc_body_block(5) [of bump_env fresh_world 2 8352 w] m init
  have bs: "bytes_at (mem w) 8352 [0xff, 0xff]"
    by (simp add: libqasan_malloc_def r2)
  have bk: "backend w = 8496" using w(7) by simp
  have b: "backend_malloc bump_env (backend w) (mem w) (296 + 3) = Some (8496, 8800, mem w)"
    by (simp add: bump_env_def bump_malloc_def bk)
  have tot: "mapped (mem w) a k" if "a + k \<le> addr_limit" for a k
    using w(8) [of a k] that by (simp add: addr_limit_def)
  have "\<exists>w1. malloc_body bump_env w 3 = Some (8656, w1) \<and> mem w1 =
      blit (malloc_header (mem w) 8496 3) 8656 [0xff, 0xff, 0xff] \<and> quarantine_top w1 = 0"
    using tot [of 8496 32] tot [of 8656 3] b
    by (simp add: malloc_body_Some_iff bk addr_limit_def w(3) r3)
  then obtain w1 where w1: "malloc_body bump_env w 3 = Some (8656, w1)"
    and mw1: "mem w1 = blit (malloc_header (mem w) 8496 3) 8656 [0xff, 0xff, 0xff]"
    and q1: "quarantine_top w1 = 0" by auto
  have tot1: "mapped (mem w1) a k" if "a + k \<le> addr_limit" for a k
    using tot that by (simp add: mw1 mapped_blit malloc_header_mapped addr_limit_def)
  have keep: "rd (mem w1) x = rd (mem w) x" if "x < 8496" for x
    using malloc_body_frame [OF w1 b, of x] that by simp
  have rs: "rd64 (mem w1) 8192 = Some 2"
    using w(5) fetch_cong [of 8 "mem w1" 8192 "mem w"] keep by (simp add: rd64_def)
  obtain m2 where m2: "builtin_memcpy (mem w1) 8656 8352 2 = Some m2"
    and tot2: "\<And>a k. a + k \<le> addr_limit \<Longrightarrow> mapped m2 a k"
    and rs2: "rd64 m2 8192 = Some 2"
  proof -
    obtain cs where cs: "fetch (mem w1) 8352 2 = Some cs"
      using tot1 [of 8352 2] by (auto simp: mapped_fetch addr_limit_def)
    then have l: "length cs = 2" by (simp add: fetch_Some_iff)
    have mp: "mapped (mem w1) 8656 (length cs)"
      using tot1 [of 8656 2] by (simp add: l addr_limit_def)
    show thesis
      by (rule that [of "blit (mem w1) 8656 cs"])
        (use mp cs l tot1 rs in \<open>simp_all add: builtin_memcpy_def wr_bytes_blit mapped_blit rd64_blit_other\<close>)
  qed
  have "\<exists>w'. libqasan_free bump_env (w1\<lparr>mem := m2\<rparr>) 8352 = Some w'"
    by (rule free_defined [where a = True and n = 2])
      (use w(2) malloc_body_inv [OF w1] tot2 in
        \<open>simp_all add: step_simps q1 rs2 QUARANTINE_MAX_BYTES_def addr_limit_def\<close>)
  then obtain w' where f: "libqasan_free bump_env (w1\<lparr>mem := m2\<rparr>) 8352 = Some w'" ..
  have re: "libqasan_realloc bump_env w 8352 3 = Some (8656, w')"
    using w1 rs m2 f w(4)
    by (simp add: libqasan_realloc_def libqasan_malloc_def ptr_minus_def layout_defs Let_def)
  have z: "\<not> in_tmp_zone bump_env 8352" by simp
  have "bytes_at (mem w') 8656 (take (min (unat (3::u64)) (unat (2::u64))) [0xff, 0xff]
      @ replicate (unat (3::u64) - unat (2::u64)) 0xff)"
    by (rule realloc_preserves [OF w(4) re _ _ z _ w(2) _ _ bs _ b])
      (simp_all add: w QUARANTINE_MAX_BYTES_def)
  then show ?thesis using m re by auto
qed

end
