(* ===== verification/QString.thy ===== *)
theory QString
  imports QMalloc "HOL-Library.Sublist"
begin

text \<open>
  The libc replacements of \<open>libqasan/string.c\<close>, on byte memory. A \<open>size_t\<close> is a 64-bit
  word, a \<open>char\<close> is read as the \<open>unsigned char\<close> the code converts it to, a
  \<open>wchar_t\<close> is a signed 32-bit integer in four little-endian bytes. Scans that stop at a
  terminator end because no byte is mapped at or above \<open>addr_limit\<close>: a missing terminator is
  a fault (\<open>None\<close>), not a loop. Each routine is then related to a function on byte lists.
\<close>

section \<open>Copying and filling\<close>

fun memcpy_loop :: "memory \<Rightarrow> addr \<Rightarrow> addr \<Rightarrow> nat \<Rightarrow> memory option" where
  "memcpy_loop m d s 0 = Some m"
| "memcpy_loop m d s (Suc n) = do {
     b \<leftarrow> rd m s;
     m \<leftarrow> wr m d b;
     memcpy_loop m (Suc d) (Suc s) n
   }"

definition libqasan_memcpy :: "memory \<Rightarrow> addr \<Rightarrow> addr \<Rightarrow> u64 \<Rightarrow> (addr \<times> memory) option" where
  "libqasan_memcpy m dest src n =
     (if n = 0 then Some (dest, m)
      else do { m \<leftarrow> memcpy_loop m dest src (unat n); Some (dest, m) })"

definition libqasan_memmove ::
    "'b qenv \<Rightarrow> 'b qworld \<Rightarrow> addr \<Rightarrow> addr \<Rightarrow> u64 \<Rightarrow> (addr \<times> 'b qworld) option" where
  "libqasan_memmove E w dest src n =
     (if n = 0 then Some (dest, w)
      else if \<not> (src \<le> dest + unat n \<and> dest \<le> src + unat n) then do {
        (r, m) \<leftarrow> libqasan_memcpy (mem w) dest src n;
        Some (r, w\<lparr>mem := m\<rparr>)
      } else do {
        (d, w) \<leftarrow> libqasan_malloc E w n;
        (_, m) \<leftarrow> libqasan_memcpy (mem w) d src n;
        (_, m) \<leftarrow> libqasan_memcpy m dest d n;
        w \<leftarrow> libqasan_free E (w\<lparr>mem := m\<rparr>) d;
        Some (dest, w)
      })"

fun memset_loop :: "memory \<Rightarrow> addr \<Rightarrow> byte \<Rightarrow> nat \<Rightarrow> memory option" where
  "memset_loop m b c 0 = Some m"
| "memset_loop m b c (Suc n) = do { m \<leftarrow> wr m b c; memset_loop m (Suc b) c n }"

definition libqasan_memset :: "memory \<Rightarrow> addr \<Rightarrow> u32 \<Rightarrow> u64 \<Rightarrow> (addr \<times> memory) option" where
  "libqasan_memset m s c n = do { m \<leftarrow> memset_loop m s (ucast c) (unat n); Some (s, m) }"

section \<open>Searching blocks\<close>

function memchr_from :: "memory \<Rightarrow> addr \<Rightarrow> byte \<Rightarrow> nat \<Rightarrow> nat \<Rightarrow> addr option" where
  "memchr_from m s c i n =
     (if i < n then do {
        b \<leftarrow> rd m (s + i);
        if b = c then Some (s + i) else memchr_from m s c (Suc i) n
      } else Some NULL)"
  by pat_completeness auto
termination by (relation "measure (\<lambda>(m, s, c, i, n). n - i)") auto

definition libqasan_memchr :: "memory \<Rightarrow> addr \<Rightarrow> u32 \<Rightarrow> u64 \<Rightarrow> addr option" where
  "libqasan_memchr m s c n = memchr_from m s (ucast c) 0 (unat n)"

text \<open>The index is a \<open>long\<close> that starts at \<open>n\<close> itself and runs down to 0.\<close>

function memrchr_from :: "memory \<Rightarrow> addr \<Rightarrow> byte \<Rightarrow> int \<Rightarrow> addr option" where
  "memrchr_from m s c i =
     (if 0 \<le> i then do {
        b \<leftarrow> rd m (s + nat i);
        if b = c then Some (s + nat i) else memrchr_from m s c (i - 1)
      } else Some NULL)"
  by pat_completeness auto
termination by (relation "measure (\<lambda>(m, s, c, i). nat (i + 1))") auto

definition libqasan_memrchr :: "memory \<Rightarrow> addr \<Rightarrow> u32 \<Rightarrow> u64 \<Rightarrow> addr option" where
  "libqasan_memrchr m s c n = memrchr_from m s (ucast c) (sint n)"

section \<open>String length\<close>

text \<open>\<open>while (*(i++));\<close> returns the pointer one past the terminator.\<close>

function strlen_scan :: "memory \<Rightarrow> addr \<Rightarrow> addr option" where
  "strlen_scan m i = do { b \<leftarrow> rd m i; if b = 0 then Some (Suc i) else strlen_scan m (Suc i) }"
  by pat_completeness auto
termination by (relation "measure (\<lambda>(m, i). addr_limit - i)") (auto dest: rd_Some_limit)

definition libqasan_strlen :: "memory \<Rightarrow> addr \<Rightarrow> u64 option" where
  "libqasan_strlen m s = do { i \<leftarrow> strlen_scan m s; Some (of_nat (i - s - 1)) }"

fun strnlen_loop :: "memory \<Rightarrow> addr \<Rightarrow> nat \<Rightarrow> u64 \<Rightarrow> u64 option" where
  "strnlen_loop m s 0 r = Some r"
| "strnlen_loop m s (Suc len) r = do {
     b \<leftarrow> rd m s;
     if b = 0 then Some r else strnlen_loop m (Suc s) len (r + 1)
   }"

definition libqasan_strnlen :: "memory \<Rightarrow> addr \<Rightarrow> u64 \<Rightarrow> u64 option" where
  "libqasan_strnlen m s len = strnlen_loop m s (unat len) 0"

section \<open>Comparison\<close>

text \<open>\<open>tolower\<close> of the C locale, on the value as an \<open>unsigned char\<close>.\<close>

definition tolower :: "byte \<Rightarrow> byte" where
  "tolower c = (if 0x41 \<le> c \<and> c \<le> 0x5a then c + 0x20 else c)"

definition byte_diff :: "byte \<Rightarrow> byte \<Rightarrow> int" where
  "byte_diff c1 c2 = int (unat c1) - int (unat c2)"

text \<open>
  \<open>strcmp\<close> and \<open>strcasecmp\<close> are the same loop over characters read through \<open>f\<close>, the
  identity or \<open>tolower\<close>; likewise the bounded pair and the two substring searches.
\<close>

function strcmp_loop :: "(byte \<Rightarrow> byte) \<Rightarrow> memory \<Rightarrow> addr \<Rightarrow> addr \<Rightarrow> int option" where
  "strcmp_loop f m str1 str2 = do {
     b1 \<leftarrow> rd m str1;
     b2 \<leftarrow> rd m str2;
     let c1 = f b1; c2 = f b2 in
     if c1 \<noteq> c2 then Some (byte_diff c1 c2)
     else if c1 = 0 then Some 0
     else strcmp_loop f m (Suc str1) (Suc str2)
   }"
  by pat_completeness auto
termination by (relation "measure (\<lambda>(f, m, p, q). addr_limit - p)") (auto dest: rd_Some_limit)

definition libqasan_strcmp :: "memory \<Rightarrow> addr \<Rightarrow> addr \<Rightarrow> int option" where
  "libqasan_strcmp = strcmp_loop id"

definition libqasan_strcasecmp :: "memory \<Rightarrow> addr \<Rightarrow> addr \<Rightarrow> int option" where
  "libqasan_strcasecmp = strcmp_loop tolower"

fun strncmp_loop :: "(byte \<Rightarrow> byte) \<Rightarrow> memory \<Rightarrow> addr \<Rightarrow> addr \<Rightarrow> nat \<Rightarrow> int option" where
  "strncmp_loop f m str1 str2 0 = Some 0"
| "strncmp_loop f m str1 str2 (Suc len) = do {
     b1 \<leftarrow> rd m str1;
     b2 \<leftarrow> rd m str2;
     let c1 = f b1; c2 = f b2 in
     if c1 \<noteq> c2 then Some (byte_diff c1 c2)
     else if c1 = 0 then Some 0
     else strncmp_loop f m (Suc str1) (Suc str2) len
   }"

definition libqasan_strncmp :: "memory \<Rightarrow> addr \<Rightarrow> addr \<Rightarrow> u64 \<Rightarrow> int option" where
  "libqasan_strncmp m str1 str2 len = strncmp_loop id m str1 str2 (unat len)"

definition libqasan_strncasecmp :: "memory \<Rightarrow> addr \<Rightarrow> addr \<Rightarrow> u64 \<Rightarrow> int option" where
  "libqasan_strncasecmp m str1 str2 len = strncmp_loop tolower m str1 str2 (unat len)"

fun memcmp_loop :: "memory \<Rightarrow> addr \<Rightarrow> addr \<Rightarrow> nat \<Rightarrow> int option" where
  "memcmp_loop m p q 0 = Some 0"
| "memcmp_loop m p q (Suc len) = do {
     c1 \<leftarrow> rd m p;
     c2 \<leftarrow> rd m q;
     if c1 \<noteq> c2 then Some (if c2 < c1 then 1 else -1)
     else memcmp_loop m (Suc p) (Suc q) len
   }"

definition libqasan_memcmp :: "memory \<Rightarrow> addr \<Rightarrow> addr \<Rightarrow> u64 \<Rightarrow> int option" where
  "libqasan_memcmp m mem1 mem2 len = memcmp_loop m mem1 mem2 (unat len)"

fun bcmp_loop :: "memory \<Rightarrow> addr \<Rightarrow> addr \<Rightarrow> nat \<Rightarrow> int option" where
  "bcmp_loop m p q 0 = Some 0"
| "bcmp_loop m p q (Suc len) = do {
     c1 \<leftarrow> rd m p;
     c2 \<leftarrow> rd m q;
     if c1 XOR c2 \<noteq> 0 then Some 1 else bcmp_loop m (Suc p) (Suc q) len
   }"

definition libqasan_bcmp :: "memory \<Rightarrow> addr \<Rightarrow> addr \<Rightarrow> u64 \<Rightarrow> int option" where
  "libqasan_bcmp m mem1 mem2 len = bcmp_loop m mem1 mem2 (unat len)"

section \<open>Searching strings\<close>

text \<open>\<open>while (*n && *h && *n == *h) { n++; h++; }\<close>: the final \<open>n\<close>.\<close>

function strstr_match :: "(byte \<Rightarrow> byte) \<Rightarrow> memory \<Rightarrow> addr \<Rightarrow> addr \<Rightarrow> addr option" where
  "strstr_match f m n h = do {
     a \<leftarrow> rd m n;
     if a = 0 then Some n
     else do {
       b \<leftarrow> rd m h;
       if b \<noteq> 0 \<and> f a = f b then strstr_match f m (Suc n) (Suc h) else Some n
     }
   }"
  by pat_completeness auto
termination by (relation "measure (\<lambda>(f, m, n, h). addr_limit - n)") (auto dest: rd_Some_limit)

function strstr_loop :: "(byte \<Rightarrow> byte) \<Rightarrow> memory \<Rightarrow> addr \<Rightarrow> addr \<Rightarrow> addr option" where
  "strstr_loop f m haystack needle = do {
     n \<leftarrow> strstr_match f m needle haystack;
     a \<leftarrow> rd m n;
     if a = 0 then Some haystack
     else do {
       b \<leftarrow> rd m haystack;
       if b \<noteq> 0 then strstr_loop f m (Suc haystack) needle else Some NULL
     }
   }"
  by pat_completeness auto
termination by (relation "measure (\<lambda>(f, m, h, n). addr_limit - h)") (auto dest: rd_Some_limit)

definition libqasan_strstr :: "memory \<Rightarrow> addr \<Rightarrow> addr \<Rightarrow> addr option" where
  "libqasan_strstr = strstr_loop id"

definition libqasan_strcasestr :: "memory \<Rightarrow> addr \<Rightarrow> addr \<Rightarrow> addr option" where
  "libqasan_strcasestr = strstr_loop tolower"

function strchr_loop :: "memory \<Rightarrow> addr \<Rightarrow> byte \<Rightarrow> addr option" where
  "strchr_loop m s c = do {
     b \<leftarrow> rd m s;
     if b = c then Some s
     else if b = 0 then Some NULL
     else strchr_loop m (Suc s) c
   }"
  by pat_completeness auto
termination by (relation "measure (\<lambda>(m, s, c). addr_limit - s)") (auto dest: rd_Some_limit)

definition libqasan_strchr :: "memory \<Rightarrow> addr \<Rightarrow> u32 \<Rightarrow> addr option" where
  "libqasan_strchr m s c = strchr_loop m s (ucast c)"

function strrchr_loop :: "memory \<Rightarrow> addr \<Rightarrow> byte \<Rightarrow> addr \<Rightarrow> addr option" where
  "strrchr_loop m s c r = do {
     b \<leftarrow> rd m s;
     let r = (if b = c then s else r) in
     if b \<noteq> 0 then strrchr_loop m (Suc s) c r else Some r
   }"
  by pat_completeness auto
termination by (relation "measure (\<lambda>(m, s, c, r). addr_limit - s)") (auto dest: rd_Some_limit)

definition libqasan_strrchr :: "memory \<Rightarrow> addr \<Rightarrow> u32 \<Rightarrow> addr option" where
  "libqasan_strrchr m s c = strrchr_loop m s (ucast c) NULL"

section \<open>Wide strings\<close>

definition sizeof_wchar :: nat where "sizeof_wchar = 4"

definition rdw :: "memory \<Rightarrow> addr \<Rightarrow> nat \<Rightarrow> u32 option" where
  "rdw m s i = rd32 m (s + sizeof_wchar * i)"

lemma rdw_limit: "rdw m s i = Some v \<Longrightarrow> s + 4 * i < addr_limit"
  by (auto simp: rdw_def rd32_def sizeof_wchar_def eval_nat_numeral Option.bind_eq_Some_conv
      dest!: rd_Some_limit)

function wcslen_loop :: "memory \<Rightarrow> addr \<Rightarrow> nat \<Rightarrow> nat option" where
  "wcslen_loop m s len = do {
     a \<leftarrow> rdw m s len;
     if a = 0 then Some len else do {
       b \<leftarrow> rdw m s (len + 1);
       if b = 0 then Some (len + 1) else do {
         c \<leftarrow> rdw m s (len + 2);
         if c = 0 then Some (len + 2) else do {
           d \<leftarrow> rdw m s (len + 3);
           if d = 0 then Some (len + 3) else wcslen_loop m s (len + 4)
         }
       }
     }
   }"
  by pat_completeness auto
termination
  by (relation "measure (\<lambda>(m, s, len). addr_limit - (s + 4 * len))") (auto dest!: rdw_limit)

definition libqasan_wcslen :: "memory \<Rightarrow> addr \<Rightarrow> u64 option" where
  "libqasan_wcslen m s = do { n \<leftarrow> wcslen_loop m s 0; Some (of_nat n) }"

function wcscpy_loop :: "memory \<Rightarrow> addr \<Rightarrow> addr \<Rightarrow> memory option" where
  "wcscpy_loop m d s = do {
     v \<leftarrow> rdw m s 0;
     m \<leftarrow> wr32 m d v;
     if v = 0 then Some m else wcscpy_loop m (d + sizeof_wchar) (s + sizeof_wchar)
   }"
  by pat_completeness auto
termination
  by (relation "measure (\<lambda>(m, d, s). addr_limit - s)") (auto simp: sizeof_wchar_def dest!: rdw_limit)

definition libqasan_wcscpy :: "memory \<Rightarrow> addr \<Rightarrow> addr \<Rightarrow> (addr \<times> memory) option" where
  "libqasan_wcscpy m d s = do { m \<leftarrow> wcscpy_loop m d s; Some (d, m) }"

function libqasan_wcscmp :: "memory \<Rightarrow> addr \<Rightarrow> addr \<Rightarrow> int option" where
  "libqasan_wcscmp m s1 s2 = do {
     c1 \<leftarrow> rdw m s1 0;
     c2 \<leftarrow> rdw m s2 0;
     if c2 = 0 then Some (sint c1)
     else if c1 = c2 then libqasan_wcscmp m (s1 + sizeof_wchar) (s2 + sizeof_wchar)
     else Some (if sint c1 < sint c2 then -1 else 1)
   }"
  by pat_completeness auto
termination
  by (relation "measure (\<lambda>(m, s1, s2). addr_limit - s1)") (auto simp: sizeof_wchar_def dest!: rdw_limit)

declare memchr_from.simps [simp del] memrchr_from.simps [simp del] strlen_scan.simps [simp del]
  strcmp_loop.simps [simp del] strstr_match.simps [simp del] strstr_loop.simps [simp del]
  strchr_loop.simps [simp del] strrchr_loop.simps [simp del] wcslen_loop.simps [simp del]
  wcscpy_loop.simps [simp del] libqasan_wcscmp.simps [simp del]

section \<open>What the routines compute, on lists\<close>

text \<open>The sign of a lexicographic comparison.\<close>

definition lex_sign :: "'a::linorder list \<Rightarrow> 'a list \<Rightarrow> int" where
  "lex_sign s t = (if s = t then 0 else if ord_class.lexordp s t then -1 else 1)"

text \<open>The first position at which \<open>t\<close> occurs in \<open>s\<close>, the last one of an element.\<close>

definition first_at :: "'a list \<Rightarrow> 'a list \<Rightarrow> nat option" where
  "first_at t s = find (\<lambda>i. prefix t (drop i s)) [0..<Suc (length s)]"

definition last_at :: "'a \<Rightarrow> 'a list \<Rightarrow> nat option" where
  "last_at c s = find (\<lambda>i. s ! i = c) (rev [0..<length s])"

text \<open>A search result as the code returns it.\<close>

definition found_ptr :: "addr \<Rightarrow> nat option \<Rightarrow> addr" where
  "found_ptr p r = (case r of None \<Rightarrow> NULL | Some i \<Rightarrow> p + i)"

fun list_diff :: "byte list \<Rightarrow> byte list \<Rightarrow> int" where
  "list_diff [] [] = 0"
| "list_diff [] (c # t) = byte_diff 0 c"
| "list_diff (c # s) [] = byte_diff c 0"
| "list_diff (a # s) (b # t) = (if a = b then list_diff s t else byte_diff a b)"

lemma found_ptr_simps [simp]: "found_ptr p None = NULL" "found_ptr p (Some i) = p + i"
  by (simp_all add: found_ptr_def)

lemma found_ptr_Suc: "found_ptr (Suc p) r = found_ptr p (map_option Suc r)"
  by (cases r) simp_all

lemma find_map_upt: "find P (map Suc xs) = map_option Suc (find (P \<circ> Suc) xs)"
  by (induction xs) auto

lemma first_at_Nil [simp]: "first_at t [] = (if t = [] then Some 0 else None)"
  by (simp add: first_at_def)

lemma first_at_Cons:
  "first_at t (c # s) = (if prefix t (c # s) then Some 0 else map_option Suc (first_at t s))"
proof -
  have "[0..<Suc (length (c # s))] = 0 # map Suc [0..<Suc (length s)]"
    by (simp add: upt_conv_Cons map_Suc_upt del: upt_Suc)
  then show ?thesis
    by (simp add: first_at_def find_map_upt comp_def del: upt_Suc)
qed

lemma first_at_single [simp]:
  "first_at [a] (c # s) = (if c = a then Some 0 else map_option Suc (first_at [a] s))"
  by (auto simp: first_at_Cons)

lemma first_at_iff:
  "first_at t s = Some i \<longleftrightarrow>
     i \<le> length s \<and> prefix t (drop i s) \<and> (\<forall>j<i. \<not> prefix t (drop j s))"
  by (auto simp: first_at_def find_Some_iff less_Suc_eq_le simp del: upt_Suc)

lemma last_at_snoc [simp]: "last_at c (s @ [b]) = (if b = c then Some (length s) else last_at c s)"
proof -
  have "find (\<lambda>i. (s @ [b]) ! i = c) (rev [0..<length s]) = find (\<lambda>i. s ! i = c) (rev [0..<length s])"
    by (rule find_cong) (auto simp: nth_append)
  then show ?thesis by (simp add: last_at_def nth_append)
qed

lemma last_at_Nil [simp]: "last_at c [] = None"
  by (simp add: last_at_def)

lemma last_at_Cons:
  "last_at c (b # s) =
     (case last_at c s of None \<Rightarrow> if b = c then Some 0 else None | Some i \<Rightarrow> Some (Suc i))"
proof (induction s rule: rev_induct)
  case Nil
  show ?case using last_at_snoc [of c "[]" b] by simp
next
  case (snoc x s)
  show ?case using last_at_snoc [of c "b # s" x] by (simp add: snoc.IH split: option.splits)
qed

lemma lex_sign_Cons [simp]:
  "lex_sign (a # s) (b # t) = (if a = b then lex_sign s t else if a < b then -1 else 1)"
  by (auto simp: lex_sign_def)

lemma lex_sign_Nil [simp]:
  "lex_sign [] [] = 0" "lex_sign [] (a # s) = -1" "lex_sign (a # s) [] = 1"
  by (simp_all add: lex_sign_def)

lemma byte_diff_sgn: "sgn (byte_diff a b) = (if a = b then 0 else if a < b then -1 else 1)"
  by (auto simp: byte_diff_def sgn_if word_less_def word_uint_eq_iff)

lemma list_diff_sign: "0 \<notin> set s \<Longrightarrow> 0 \<notin> set t \<Longrightarrow> sgn (list_diff s t) = lex_sign s t"
proof (induction s t rule: list_diff.induct)
  case (2 c t)
  then show ?case by (auto simp: lex_sign_def byte_diff_sgn word_gt_0)
next
  case (3 c s)
  then show ?case by (auto simp: lex_sign_def byte_diff_sgn word_gt_0 not_less)
next
  case (4 a s b t)
  then show ?case by (auto simp: lex_sign_def byte_diff_sgn)
qed (simp add: lex_sign_def)

section \<open>Comparison and substring search, for any character folding\<close>

locale char_fold =
  fixes fold_char :: "byte \<Rightarrow> byte"
  assumes fold_zero: "fold_char c = 0 \<longleftrightarrow> c = 0"
begin

lemma fold_simps [simp]: "fold_char 0 = 0" "0 = fold_char c \<longleftrightarrow> c = 0" "fold_char c = 0 \<longleftrightarrow> c = 0"
  using fold_zero by metis+

lemma fold_nonzero: "0 \<notin> set s \<Longrightarrow> 0 \<notin> set (map fold_char s)"
  by (auto simp: fold_zero)

lemma strcmp_list:
  "cstr m p s \<Longrightarrow> cstr m q t \<Longrightarrow>
    strcmp_loop fold_char m p q = Some (list_diff (map fold_char s) (map fold_char t))"
proof (induction s arbitrary: p q t)
  case Nil
  then show ?case
    by (cases t; subst strcmp_loop.simps) (auto simp: fold_zero Let_def)
next
  case (Cons c s)
  then show ?case
    by (cases t; subst strcmp_loop.simps) (auto simp: fold_zero Let_def)
qed

lemma strncmp_list:
  "cstr m p s \<Longrightarrow> cstr m q t \<Longrightarrow>
    strncmp_loop fold_char m p q n = Some (list_diff (map fold_char (take n s)) (map fold_char (take n t)))"
proof (induction n arbitrary: p q s t)
  case (Suc n)
  then show ?case
    by (cases s; cases t) (auto simp: fold_zero Let_def)
qed simp

lemma strcmp_sign:
  assumes "cstr m p s" "cstr m q t"
  shows "map_option sgn (strcmp_loop fold_char m p q) =
    Some (lex_sign (map fold_char s) (map fold_char t))"
  using strcmp_list [OF assms] list_diff_sign fold_nonzero assms [THEN cstr_nonzero] by simp

lemma strncmp_sign:
  assumes "cstr m p s" "cstr m q t"
  shows "map_option sgn (strncmp_loop fold_char m p q n) =
    Some (lex_sign (map fold_char (take n s)) (map fold_char (take n t)))"
proof -
  have "0 \<notin> set (take n s)" "0 \<notin> set (take n t)"
    using assms [THEN cstr_nonzero] by (meson in_set_takeD)+
  then show ?thesis
    using strncmp_list [OF assms, of n] list_diff_sign fold_nonzero by simp
qed

text \<open>The inner loop stops at the terminator of the needle exactly on a prefix.\<close>

lemma strstr_match_list:
  "cstr m n t \<Longrightarrow> cstr m h s \<Longrightarrow>
    \<exists>k\<le>length t. strstr_match fold_char m n h = Some (n + k) \<and>
      (k = length t \<longleftrightarrow> prefix (map fold_char t) (map fold_char s))"
proof (induction t arbitrary: n h s)
  case Nil
  then show ?case by (subst strstr_match.simps) simp
next
  case (Cons a t)
  show ?case
  proof (cases s)
    case Nil
    with Cons.prems show ?thesis by (subst strstr_match.simps) auto
  next
    case (Cons b s')
    then have b: "rd m h = Some b" "b \<noteq> 0" "cstr m (Suc h) s'" using Cons.prems by auto
    from Cons.IH [of "Suc n" "Suc h" s'] Cons.prems b obtain k where k: "k \<le> length t"
      "strstr_match fold_char m (Suc n) (Suc h) = Some (Suc n + k)"
      "k = length t \<longleftrightarrow> prefix (map fold_char t) (map fold_char s')" by auto
    show ?thesis
    proof (cases "fold_char a = fold_char b")
      case True
      with k b Cons.prems Cons show ?thesis
        by (intro exI [of _ "Suc k"], subst strstr_match.simps) auto
    next
      case False
      with b Cons.prems Cons show ?thesis
        by (intro exI [of _ 0], subst strstr_match.simps) auto
    qed
  qed
qed

lemma strstr_list:
  assumes "cstr m n t"
  shows "cstr m h s \<Longrightarrow>
    strstr_loop fold_char m h n = Some (found_ptr h (first_at (map fold_char t) (map fold_char s)))"
proof (induction s arbitrary: h)
  case Nil
  from strstr_match_list [OF assms Nil] obtain k where k: "k \<le> length t"
    "strstr_match fold_char m n h = Some (n + k)" "k = length t \<longleftrightarrow> t = []" by auto
  have "rd m (n + k) = Some ((t @ [0]) ! k)"
    using assms k(1) by (simp add: cstr_iff_bytes_at bytes_at_nth)
  moreover have "(t @ [0]) ! k = 0 \<longleftrightarrow> k = length t"
    using k(1) cstr_nonzero [OF assms] by (auto simp: nth_append in_set_conv_nth)
  ultimately show ?case
    using Nil k by (subst strstr_loop.simps) auto
next
  case (Cons c s)
  from strstr_match_list [OF assms Cons.prems] obtain k where k: "k \<le> length t"
    "strstr_match fold_char m n h = Some (n + k)"
    "k = length t \<longleftrightarrow> prefix (map fold_char t) (map fold_char (c # s))" by auto
  have "rd m (n + k) = Some ((t @ [0]) ! k)"
    using assms k(1) by (simp add: cstr_iff_bytes_at bytes_at_nth)
  moreover have "(t @ [0]) ! k = 0 \<longleftrightarrow> k = length t"
    using k(1) cstr_nonzero [OF assms] by (auto simp: nth_append in_set_conv_nth)
  ultimately show ?case
    using Cons k by (subst strstr_loop.simps) (auto simp: first_at_Cons found_ptr_Suc)
qed

end

text \<open>The two foldings of the code.\<close>

lemma tolower_zero: "tolower c = 0 \<longleftrightarrow> c = 0"
proof -
  have "c + 0x20 \<noteq> 0" if "c \<le> 0x5a"
  proof
    assume "c + 0x20 = 0"
    then have "(unat c + 32) mod 256 = 0"
      using unat_word_ariths(1) [of c "0x20"] by simp
    with that show False by (simp add: word_le_nat_alt)
  qed
  then show ?thesis by (auto simp: tolower_def)
qed

interpretation exact: char_fold id
  by unfold_locales simp

interpretation nocase: char_fold tolower
  by unfold_locales (rule tolower_zero)

section \<open>Blocks\<close>

lemma bytes_at_upd_other:
  "bytes_at m p bs \<Longrightarrow> rd m x \<noteq> None \<Longrightarrow> x < p \<or> p + length bs \<le> x \<Longrightarrow> bytes_at (m(x \<mapsto> b)) p bs"
  by (auto simp: bytes_at_nth mem_simps)

lemma memcpy_loop_forward:
  "bytes_at m s bs \<Longrightarrow> length bs = n \<Longrightarrow> mapped m d n \<Longrightarrow> d \<le> s \<or> s + n \<le> d \<Longrightarrow>
    memcpy_loop m d s n = Some (blit m d bs)"
proof (induction n arbitrary: m d s bs)
  case (Suc n)
  then obtain b cs where bs: "bs = b # cs" "length cs = n" by (cases bs) auto
  with Suc.prems have d: "rd m d \<noteq> None" "mapped (m(d \<mapsto> b)) (Suc d) n"
    by (auto simp: mapped_Suc mem_simps)
  have r: "bytes_at (m(d \<mapsto> b)) (Suc s) cs"
    using Suc.prems bs d by (intro bytes_at_upd_other) auto
  have "memcpy_loop (m(d \<mapsto> b)) (Suc d) (Suc s) n = Some (blit (m(d \<mapsto> b)) (Suc d) cs)"
    by (rule Suc.IH [OF r bs(2) d(2)]) (use Suc.prems in auto)
  with Suc.prems bs d show ?case
    by (auto simp: wr_def blit_Cons)
qed simp

lemma memcpy_loop_mapped:
  "memcpy_loop m d s n = Some m' \<Longrightarrow> mapped m d n \<and> mapped m s n"
proof (induction n arbitrary: m d s)
  case (Suc n)
  from Suc.prems obtain b where b: "rd m s = Some b" "rd m d \<noteq> None"
    and l: "memcpy_loop (m(d \<mapsto> b)) (Suc d) (Suc s) n = Some m'"
    by (auto simp: Option.bind_eq_Some_conv wr_Some_iff)
  have "mapped (m(d \<mapsto> b)) (Suc d) n \<and> mapped (m(d \<mapsto> b)) (Suc s) n"
    by (rule Suc.IH [OF l])
  with b show ?case
    using mapped_upd [OF b(2)] by (simp add: mapped_Suc)
qed simp

lemma libqasan_memcpy_forward:
  assumes "bytes_at m s bs" "length bs = unat n" "mapped m d (unat n)" "d \<le> s \<or> s + unat n \<le> d"
  shows "libqasan_memcpy m d s n = Some (d, blit m d bs)"
  using memcpy_loop_forward [OF assms] assms(2) by (auto simp: libqasan_memcpy_def)

lemma libqasan_memcpy_Some:
  assumes "libqasan_memcpy m d s n = Some (r, m')" "bytes_at m s bs" "length bs = unat n"
    and "d \<le> s \<or> s + unat n \<le> d"
  shows "r = d \<and> m' = blit m d bs \<and> mapped m d (unat n)"
proof (cases "n = 0")
  case False
  with assms(1) obtain m'' where "memcpy_loop m d s (unat n) = Some m''"
    by (auto simp: libqasan_memcpy_def Option.bind_eq_Some_conv)
  from memcpy_loop_mapped [OF this] have "mapped m d (unat n)" ..
  with libqasan_memcpy_forward [OF assms(2,3) this assms(4)] assms(1) show ?thesis by simp
qed (use assms in \<open>auto simp: libqasan_memcpy_def\<close>)

lemma memset_loop_eq: "memset_loop m s c n = builtin_memset m s c n"
  unfolding builtin_memset_def by (induction n arbitrary: m s) auto

lemma libqasan_memset_iff:
  "libqasan_memset m s c n = Some (r, m') \<longleftrightarrow>
    r = s \<and> mapped m s (unat n) \<and> m' = blit m s (replicate (unat n) (ucast c))"
  by (auto simp: libqasan_memset_def memset_loop_eq Option.bind_eq_Some_conv builtin_memset_iff)

lemma memchr_from_list:
  "bytes_at m (s + i) bs \<Longrightarrow> n = i + length bs \<Longrightarrow>
    memchr_from m s c i n = Some (found_ptr (s + i) (first_at [c] bs))"
proof (induction bs arbitrary: i)
  case Nil
  then show ?case by (subst memchr_from.simps) simp
next
  case (Cons b bs)
  then show ?case
    using Cons.IH [of "Suc i"] found_ptr_Suc [of "s + i" "first_at [c] bs"]
    by (subst memchr_from.simps) simp
qed

lemma memrchr_from_list:
  "bytes_at m s bs \<Longrightarrow> memrchr_from m s c (int (length bs) - 1) = Some (found_ptr s (last_at c bs))"
proof (induction bs rule: rev_induct)
  case Nil
  show ?case by (subst memrchr_from.simps) simp
next
  case (snoc b bs)
  then show ?case
    by (subst memrchr_from.simps) (simp add: mem_simps)
qed

lemma memcmp_loop_list:
  "bytes_at m p xs \<Longrightarrow> bytes_at m q ys \<Longrightarrow> length xs = n \<Longrightarrow> length ys = n \<Longrightarrow>
    memcmp_loop m p q n = Some (lex_sign xs ys)"
proof (induction n arbitrary: p q xs ys)
  case (Suc n)
  then show ?case by (cases xs; cases ys) (auto simp: lex_sign_def)
qed (simp add: lex_sign_def)

lemma bcmp_loop_list:
  "bytes_at m p xs \<Longrightarrow> bytes_at m q ys \<Longrightarrow> length xs = n \<Longrightarrow> length ys = n \<Longrightarrow>
    bcmp_loop m p q n = Some (if xs = ys then 0 else 1)"
proof (induction n arbitrary: p q xs ys)
  case (Suc n)
  have "a XOR b = 0 \<longleftrightarrow> a = b" for a b :: byte
    by (auto simp: bit_eq_iff bit_simps)
  with Suc show ?case by (cases xs; cases ys) auto
qed simp

section \<open>Strings\<close>

lemma strlen_scan_list: "cstr m s bs \<Longrightarrow> strlen_scan m s = Some (Suc (s + length bs))"
proof (induction bs arbitrary: s)
  case Nil
  then show ?case by (subst strlen_scan.simps) simp
next
  case (Cons b bs)
  then show ?case by (subst strlen_scan.simps) simp
qed

lemma libqasan_strlen_list: "cstr m s bs \<Longrightarrow> libqasan_strlen m s = Some (of_nat (length bs))"
  by (simp add: libqasan_strlen_def strlen_scan_list)

lemma strlen_scan_cstr: "strlen_scan m s = Some i \<Longrightarrow> \<exists>bs. cstr m s bs \<and> i = Suc (s + length bs)"
proof (induction m s rule: strlen_scan.induct)
  case (1 m s)
  from 1(2) obtain b where b: "rd m s = Some b"
    by (subst (asm) strlen_scan.simps) (auto simp: Option.bind_eq_Some_conv)
  show ?case
  proof (cases "b = 0")
    case True
    with b 1(2) show ?thesis
      by (intro exI [of _ "[]"], subst (asm) strlen_scan.simps) auto
  next
    case False
    with b 1(2) have "strlen_scan m (Suc s) = Some i"
      by (subst (asm) strlen_scan.simps) simp
    with 1(1) [OF b False] obtain bs where "cstr m (Suc s) bs" "i = Suc (Suc s + length bs)"
      by blast
    with b False show ?thesis by (intro exI [of _ "b # bs"]) simp
  qed
qed

lemma cstr_length: "cstr m s bs \<Longrightarrow> s + length bs < addr_limit"
proof -
  assume "cstr m s bs"
  then have "rd m (s + length bs) = Some 0"
    by (simp add: cstr_iff_bytes_at bytes_at_append)
  then show ?thesis by (rule rd_Some_limit)
qed

lemma strnlen_loop_list:
  "cstr m s bs \<Longrightarrow> strnlen_loop m s n r = Some (r + of_nat (min n (length bs)))"
proof (induction n arbitrary: s bs r)
  case (Suc n)
  then show ?case by (cases bs) (auto simp: add_ac)
qed simp

lemma strchr_loop_list:
  "cstr m s bs \<Longrightarrow> strchr_loop m s c = Some (found_ptr s (first_at [c] (bs @ [0])))"
proof (induction bs arbitrary: s)
  case Nil
  then show ?case by (subst strchr_loop.simps) simp
next
  case (Cons b bs)
  then show ?case by (subst strchr_loop.simps) (simp add: found_ptr_Suc)
qed

lemma strrchr_loop_list:
  "cstr m s bs \<Longrightarrow> strrchr_loop m s c r =
    Some (case last_at c (bs @ [0]) of None \<Rightarrow> r | Some i \<Rightarrow> s + i)"
proof (induction bs arbitrary: s r)
  case Nil
  then show ?case
    using last_at_snoc [of c "[]" 0] by (subst strrchr_loop.simps) simp
next
  case (Cons b bs)
  then show ?case
    by (subst strrchr_loop.simps) (simp add: last_at_Cons del: last_at_snoc split: option.split)
qed

lemma sint_small: "unat n < 2 ^ 63 \<Longrightarrow> sint (n :: u64) = int (unat n)"
proof -
  assume "unat n < 2 ^ 63"
  then have "int (unat n) < 2 ^ 63" by (metis of_nat_less_iff of_nat_numeral of_nat_power)
  then have "signed_take_bit 63 (uint n) = uint n"
    by (intro signed_take_bit_int_eq_self) (simp_all add: order_trans [OF _ uint_ge_0])
  then show "sint n = int (unat n)" by (simp add: sint_uint)
qed

section \<open>Wide strings as lists\<close>

fun wcstr :: "memory \<Rightarrow> addr \<Rightarrow> u32 list \<Rightarrow> bool" where
  "wcstr m a [] \<longleftrightarrow> rd32 m a = Some 0"
| "wcstr m a (c # cs) \<longleftrightarrow> c \<noteq> 0 \<and> rd32 m a = Some c \<and> wcstr m (a + 4) cs"

definition wide_bytes :: "u32 list \<Rightarrow> byte list" where
  "wide_bytes ws = concat (map (le_bytes 4) ws)"

lemma wide_bytes_simps [simp]:
  "wide_bytes [] = []" "wide_bytes (c # cs) = le_bytes 4 c @ wide_bytes cs"
  "length (wide_bytes cs) = 4 * length cs"
proof -
  show "length (wide_bytes cs) = 4 * length cs" by (induction cs) (simp_all add: wide_bytes_def)
qed (simp_all add: wide_bytes_def)

lemma rdw_eq: "rdw m s i = rd32 m (s + 4 * i)"
  by (simp add: rdw_def sizeof_wchar_def)

lemma rd32_le_bytes: "bytes_at m a (le_bytes 4 v) \<Longrightarrow> rd32 m a = Some v"
proof -
  assume "bytes_at m a (le_bytes 4 v)"
  then have "fetch m a 4 = Some (le_bytes 4 v)" by (simp add: fetch_Some_iff)
  then show ?thesis by (simp add: rd32_def le_word_le_bytes take_bit_word_eq_self)
qed

lemma wr32_Some_iff: "wr32 m a v = Some m' \<longleftrightarrow> mapped m a 4 \<and> m' = blit m a (le_bytes 4 v)"
  using wr_bytes_Some [of m a "le_bytes 4 v" m'] wr_bytes_blit [of m a "le_bytes 4 v"]
  by (auto simp: wr32_def)

lemma wr32_mapped: "mapped m a 4 \<Longrightarrow> wr32 m a v = Some (blit m a (le_bytes 4 v))"
  by (simp add: wr32_Some_iff)

lemma rd32_blit_other:
  "mapped m a (length bs) \<Longrightarrow> p + 4 \<le> a \<or> a + length bs \<le> p \<Longrightarrow> rd32 (blit m a bs) p = rd32 m p"
  unfolding rd32_def by (subst fetch_cong [of 4 "blit m a bs" p m]) (auto simp: rd_blit)

lemma wcstr_bytes: "bytes_at m a (wide_bytes (ws @ [0])) \<Longrightarrow> 0 \<notin> set ws \<Longrightarrow> wcstr m a ws"
  by (induction ws arbitrary: a) (auto simp: bytes_at_append rd32_le_bytes simp flip: append_assoc)

lemma wcstr_nonzero: "wcstr m a ws \<Longrightarrow> 0 \<notin> set ws"
  by (induction ws arbitrary: a) auto

lemma wcstr_frame:
  "wcstr m p ws \<Longrightarrow> mapped m a (length bs) \<Longrightarrow> a + length bs \<le> p \<or> p + 4 * Suc (length ws) \<le> a \<Longrightarrow>
    wcstr (blit m a bs) p ws"
  by (induction ws arbitrary: p) (auto simp: rd32_blit_other)

lemma blit_append: "blit m a (xs @ ys) = blit (blit m a xs) (a + length xs) ys"
  by (induction xs arbitrary: m a) (simp_all add: blit_Cons)

lemma wcslen_loop_list: "wcstr m (s + 4 * len) ws \<Longrightarrow> wcslen_loop m s len = Some (len + length ws)"
proof (induction ws arbitrary: len rule: length_induct)
  case (1 ws)
  have IH: "wcslen_loop m s (len + 4) = Some (len + 4 + length us)"
    if "ws = a # b # c # d # us" "wcstr m (s + 4 * (len + 4)) us" for a b c d us
    using 1(1) [rule_format, of us "len + 4"] that by simp
  show ?case
  proof (cases "\<exists>a b c d us. ws = a # b # c # d # us")
    case True
    then obtain a b c d us where ws: "ws = a # b # c # d # us" by blast
    then show ?thesis
      using 1(2) IH [OF ws] by (subst wcslen_loop.simps) (simp add: rdw_eq add_ac)
  next
    case False
    then consider "ws = []" | a where "ws = [a]" | a b where "ws = [a, b]" | a b c where "ws = [a, b, c]"
      by (metis remdups_adj.cases)
    then show ?thesis
      using 1(2) by cases (subst wcslen_loop.simps, simp add: rdw_eq add_ac)+
  qed
qed

lemma wcscpy_loop_list:
  "wcstr m s ws \<Longrightarrow> mapped m d (4 * Suc (length ws)) \<Longrightarrow>
    d + 4 * Suc (length ws) \<le> s \<or> s + 4 * Suc (length ws) \<le> d \<Longrightarrow>
    wcscpy_loop m d s = Some (blit m d (wide_bytes (ws @ [0])))"
proof (induction ws arbitrary: m d s)
  case Nil
  then have "mapped m d 4" by simp
  with Nil show ?case
    by (subst wcscpy_loop.simps) (simp add: rdw_eq wr32_mapped)
next
  case (Cons c ws)
  let ?m = "blit m d (le_bytes 4 c)"
  have md: "mapped m d 4" using Cons.prems(2) by (rule mapped_mono) simp
  then have mp: "mapped ?m (d + 4) (4 * Suc (length ws))"
    using mapped_sub [OF Cons.prems(2), of "d + 4" "4 * Suc (length ws)"] by (simp add: mapped_blit)
  have "wcstr ?m (s + 4) ws"
    by (rule wcstr_frame) (use Cons.prems md in auto)
  from Cons.IH [OF this mp] Cons.prems(3)
  have "wcscpy_loop ?m (d + 4) (s + 4) = Some (blit ?m (d + 4) (wide_bytes (ws @ [0])))"
    by auto
  with Cons.prems md show ?case
    by (subst wcscpy_loop.simps) (simp add: rdw_eq wr32_mapped sizeof_wchar_def blit_append)
qed

lemma sint_inject: "sint (a :: u32) = sint b \<longleftrightarrow> a = b"
  by (auto intro: signed_word_eqI)

lemma sgn_sint: "c \<noteq> 0 \<Longrightarrow> sgn (sint (c :: u32)) = (if sint c < 0 then -1 else 1)"
  by (auto simp: sgn_if signed_eq_0_iff)

lemma wcscmp_list:
  "wcstr m p s \<Longrightarrow> wcstr m q t \<Longrightarrow>
    map_option sgn (libqasan_wcscmp m p q) = Some (lex_sign (map sint (s @ [0])) (map sint (t @ [0])))"
proof (induction s arbitrary: p q t)
  case Nil
  then show ?case
    by (cases t; subst libqasan_wcscmp.simps) (auto simp: rdw_eq signed_eq_0_iff)
next
  case (Cons c s)
  then show ?case
    by (cases t; subst libqasan_wcscmp.simps)
      (auto simp: rdw_eq sizeof_wchar_def sint_inject signed_eq_0_iff sgn_sint)
qed

section \<open>Properties\<close>

text \<open>\<open>__libqasan_strlen\<close> returns exactly the number of bytes before the
  first zero byte, and faults exactly when no zero byte is reached through mapped memory.\<close>

theorem strlen_exact:
  "libqasan_strlen m s = Some n \<longleftrightarrow> (\<exists>bs. cstr m s bs \<and> n = of_nat (length bs))"
  by (auto simp: libqasan_strlen_def libqasan_strlen_list strlen_scan_list Option.bind_eq_Some_conv
      dest!: strlen_scan_cstr)

text \<open>C30. The four string comparisons return a value whose sign is that of the
  lexicographic comparison of the strings: as they are, lower-cased, and cut to \<open>n\<close> bytes for the
  bounded variants.\<close>

theorem strcmp_orders:
  assumes "cstr m p s" and "cstr m q t"
  shows "map_option sgn (libqasan_strcmp m p q) = Some (lex_sign s t) \<and>
    map_option sgn (libqasan_strcasecmp m p q) = Some (lex_sign (map tolower s) (map tolower t)) \<and>
    map_option sgn (libqasan_strncmp m p q n) =
      Some (lex_sign (take (unat n) s) (take (unat n) t)) \<and>
    map_option sgn (libqasan_strncasecmp m p q n) =
      Some (lex_sign (map tolower (take (unat n) s)) (map tolower (take (unat n) t)))"
  using exact.strcmp_sign [OF assms] nocase.strcmp_sign [OF assms]
    exact.strncmp_sign [OF assms, of "unat n"] nocase.strncmp_sign [OF assms, of "unat n"]
  by (simp_all add: libqasan_strcmp_def libqasan_strcasecmp_def libqasan_strncmp_def
      libqasan_strncasecmp_def)

text \<open>C31. \<open>strstr\<close> and \<open>strcasestr\<close> return a pointer to the first
  position at which the needle is a prefix of the rest of the haystack, up to case for the second,
  and NULL when there is none.\<close>

theorem strstr_first_occurrence:
  assumes "cstr m h s" and "cstr m n t"
  shows "libqasan_strstr m h n = Some (found_ptr h (first_at t s)) \<and>
    libqasan_strcasestr m h n = Some (found_ptr h (first_at (map tolower t) (map tolower s)))"
  using exact.strstr_list [OF assms(2,1)] nocase.strstr_list [OF assms(2,1)]
  by (simp add: libqasan_strstr_def libqasan_strcasestr_def)

text \<open>\<open>strchr\<close> returns the first and \<open>strrchr\<close> the last position of the
  character, the terminator being a position of the character 0.\<close>

theorem strchr_ends:
  assumes "cstr m s bs"
  shows "libqasan_strchr m s c = Some (found_ptr s (first_at [ucast c] (bs @ [0]))) \<and>
    libqasan_strrchr m s c = Some (found_ptr s (last_at (ucast c) (bs @ [0])))"
  using strchr_loop_list [OF assms] strrchr_loop_list [OF assms]
  by (simp add: libqasan_strchr_def libqasan_strrchr_def found_ptr_def)

text \<open>\<open>memrchr\<close> starts at index \<open>n\<close>: it reads the byte after the
  block, faults when that byte is not mapped and returns a pointer to it, outside the block, when it
  is the character sought.\<close>

theorem memrchr_reads_past_end:
  assumes "bytes_at m s bs" and "length bs = unat n" and "unat n < 2 ^ 63"
  shows "libqasan_memrchr m s c n =
    (case rd m (s + unat n) of
       None \<Rightarrow> None
     | Some b \<Rightarrow> Some (if b = ucast c then s + unat n else found_ptr s (last_at (ucast c) bs)))"
proof -
  have "sint n = int (unat n)"
    by (rule sint_small) (rule assms(3))
  then have "libqasan_memrchr m s c n = memrchr_from m s (ucast c) (int (length bs))"
    by (simp add: libqasan_memrchr_def assms(2))
  also have "\<dots> = do {
      b \<leftarrow> rd m (s + length bs);
      if b = ucast c then Some (s + length bs) else memrchr_from m s (ucast c) (int (length bs) - 1)
    }"
    by (subst memrchr_from.simps) (simp cong: if_cong)
  finally show ?thesis
    using memrchr_from_list [OF assms(1), of "ucast c"] by (simp add: assms(2) split: option.split)
qed

text \<open>The unrolled \<open>wcslen\<close> returns the number of characters before
  the terminator, and \<open>wcscmp\<close> has the sign of the comparison of the characters, terminators
  included, as signed integers.\<close>

theorem wide_string_functions:
  assumes "wcstr m p s" and "wcstr m q t"
  shows "libqasan_wcslen m p = Some (of_nat (length s)) \<and>
    map_option sgn (libqasan_wcscmp m p q) = Some (lex_sign (map sint (s @ [0])) (map sint (t @ [0])))"
  using wcslen_loop_list [of m p 0 s] wcscmp_list [OF assms] assms by (simp add: libqasan_wcslen_def)

text \<open>C26. \<open>memmove\<close> stores the old contents of the source at the destination
  however the two blocks overlap, provided the backend gives its temporary block memory apart from
  both of them and leaves them alone.\<close>

theorem memmove_moves:
  assumes mv: "libqasan_memmove E w d s n = Some (r, w')"
    and init: "malloc_initialized w" and inv: "alloc_inv a w" and n: "n < QUARANTINE_MAX_BYTES"
    and bs: "bytes_at (mem w) s bs" "length bs = unat n"
    and bm: "backend_malloc E (backend w) (mem w) (296 + n) = Some (q, b, m)" "q \<noteq> 0"
    and keep: "\<And>x. s \<le> x \<Longrightarrow> x < s + unat n \<Longrightarrow> rd m x = rd (mem w) x"
    and src: "s + unat n \<le> q \<or> q + 296 + unat n \<le> s"
    and dst: "d + unat n \<le> q \<or> q + 296 + unat n \<le> d"
    and top: "quarantine_top w = 0 \<or> quarantine_top w + 32 \<le> d \<or> d + unat n \<le> quarantine_top w"
    and zone: "\<not> in_tmp_zone E (q + 160)"
  shows "r = d \<and> bytes_at (mem w') d bs"
proof (cases "n = 0 \<or> \<not> (s \<le> d + unat n \<and> d \<le> s + unat n)")
  case True
  then show ?thesis
  proof
    assume "n = 0"
    with mv bs show ?thesis by (simp add: libqasan_memmove_def)
  next
    assume apart: "\<not> (s \<le> d + unat n \<and> d \<le> s + unat n)"
    show ?thesis
    proof (cases "n = 0")
      case False
      with mv apart obtain m' where mc: "libqasan_memcpy (mem w) d s n = Some (r, m')"
        and w': "w' = w\<lparr>mem := m'\<rparr>"
        by (auto simp: libqasan_memmove_def Option.bind_eq_Some_conv split: if_splits)
      from libqasan_memcpy_Some [OF mc bs] apart
      show ?thesis by (auto simp: w' bs(2) intro!: bytes_at_blit)
    qed (use mv bs in \<open>simp add: libqasan_memmove_def\<close>)
  qed
next
  case False
  with mv init obtain c w1 m1 m2 where body: "malloc_body E w n = Some (c, w1)"
    and c1: "\<exists>r. libqasan_memcpy (mem w1) c s n = Some (r, m1)"
    and c2: "\<exists>r. libqasan_memcpy m1 d c n = Some (r, m2)"
    and fr: "libqasan_free E (w1\<lparr>mem := m2\<rparr>) c = Some w'" and r: "r = d"
    by (auto simp: libqasan_memmove_def libqasan_malloc_def Option.bind_eq_Some_conv split: if_splits)
  have c: "c = q + 160" and qt: "quarantine_top w1 = quarantine_top w"
    using body bm by (auto simp: malloc_body_Some_iff)
  have bs1: "bytes_at (mem w1) s bs"
    using malloc_body_frame [OF body bm] keep src bs(2) by (intro bytes_at_cong [OF bs(1)]) auto
  from c1 libqasan_memcpy_Some [OF _ bs1 bs(2), of c] src c
  have m1: "m1 = blit (mem w1) c bs" and mp1: "mapped (mem w1) c (length bs)"
    by (auto simp: bs(2))
  have "bytes_at m1 c bs" by (simp add: m1 bytes_at_blit mp1)
  from c2 libqasan_memcpy_Some [OF _ this bs(2), of d] dst c
  have m2: "m2 = blit m1 d bs" and mp2: "mapped m1 d (length bs)"
    by (auto simp: bs(2))
  have "q + 8 \<le> d \<or> d + length bs \<le> q" using dst bs(2) by auto
  then have "rd64 m2 q = rd64 m1 q" unfolding m2 by (rule rd64_blit_other [OF mp2])
  also have "\<dots> = rd64 (mem w1) q" unfolding m1 by (rule rd64_blit_other [OF mp1]) (simp add: c)
  finally have hd: "rd64 m2 (c - 160) = Some n"
    using malloc_body_block(3) [OF body] c by simp
  have i1: "alloc_inv a (w1\<lparr>mem := m2\<rparr>)"
    using malloc_body_inv [OF body inv] by (simp add: step_simps)
  have cz: "c \<noteq> 0" "\<not> in_tmp_zone E c" using zone c by simp_all
  have link: "quarantine_link (w1\<lparr>mem := m2\<rparr>) (c - 160) = Some (mem w')"
    by (rule free_quarantines(4) [OF fr i1 cz _ n]) (simp add: hd)
  have far: "x < q + 16 \<or> q + 24 \<le> x" "quarantine_top w = 0 \<or> x < quarantine_top w + 24 \<or>
      quarantine_top w + 32 \<le> x" if "d \<le> x" "x < d + unat n" for x
    using that dst top by linarith+
  have "rd (mem w') x = rd m2 x" if "d \<le> x" "x < d + unat n" for x
    using quarantine_link_frame [OF link, of x] far [OF that] by (simp add: c qt)
  then have "bytes_at (mem w') d bs"
    using bytes_at_cong [OF bytes_at_blit [OF mp2], of "mem w'"] bs(2) by (simp add: m2)
  with r show ?thesis ..
qed

section \<open>Witnesses\<close>

text \<open>The text \<open>xaBab\<close> at 4096, the text \<open>aB\<close> at 8192, zeros elsewhere.\<close>

definition demo_mem :: memory where
  "demo_mem = (\<lambda>x. if x = 4096 then Some 0x78 else if x = 4097 then Some 0x61
     else if x = 4098 then Some 0x42 else if x = 4099 then Some 0x61
     else if x = 4100 then Some 0x62 else if x = 8192 then Some 0x61
     else if x = 8193 then Some 0x42 else Some 0)"

lemma demo_strings:
  "cstr demo_mem 4096 [0x78, 0x61, 0x42, 0x61, 0x62]" "cstr demo_mem 8192 [0x61, 0x42]"
  by (simp_all add: demo_mem_def rd_def addr_limit_def)

theorem strcmp_orders_witness:
  "map_option sgn (libqasan_strcmp demo_mem 4096 8192) = Some 1 \<and>
   map_option sgn (libqasan_strncasecmp demo_mem 4099 8192 2) = Some 0"
proof -
  have "cstr demo_mem 4099 [0x61, 0x62]"
    by (simp add: demo_mem_def rd_def addr_limit_def)
  from strcmp_orders [OF this demo_strings(2), of 2] strcmp_orders [OF demo_strings]
  show ?thesis by (simp add: tolower_def)
qed

theorem strstr_first_occurrence_witness:
  "libqasan_strstr demo_mem 4096 8192 = Some 4097 \<and> libqasan_strstr demo_mem 4099 8192 = Some NULL \<and>
   libqasan_strcasestr demo_mem 4099 8192 = Some 4099"
proof -
  have "cstr demo_mem 4099 [0x61, 0x62]"
    by (simp add: demo_mem_def rd_def addr_limit_def)
  from strstr_first_occurrence [OF this demo_strings(2)] strstr_first_occurrence [OF demo_strings]
  show ?thesis by (simp add: tolower_def first_at_Cons)
qed

theorem strchr_ends_witness:
  "libqasan_strchr demo_mem 4096 0x61 = Some 4097 \<and> libqasan_strrchr demo_mem 4096 0x61 = Some 4099 \<and>
   libqasan_strrchr demo_mem 4096 0 = Some 4101"
  using strchr_ends [OF demo_strings(1), where c = "0x61"] strchr_ends [OF demo_strings(1), where c = 0]
  by (simp add: last_at_Cons)

theorem memrchr_reads_past_end_witness:
  "libqasan_memrchr demo_mem 8192 0 2 = Some (8192 + 2)"
proof -
  have "bytes_at demo_mem 8192 [0x61, 0x42]" "rd demo_mem (8192 + 2) = Some 0"
    by (simp_all add: demo_mem_def rd_def addr_limit_def)
  with memrchr_reads_past_end [of demo_mem 8192 "[0x61, 0x42]" 2 0] show ?thesis by simp
qed

theorem wide_string_functions_witness:
  "libqasan_wcslen demo_mem 8192 = Some 1 \<and> libqasan_wcslen demo_mem 5000 = Some 0 \<and>
   map_option sgn (libqasan_wcscmp demo_mem 5000 8192) = Some (-1)"
proof -
  have f: "fetch demo_mem 8192 4 = Some [0x61, 0x42, 0, 0]" "fetch demo_mem 8196 4 = Some [0, 0, 0, 0]"
    "fetch demo_mem 5000 4 = Some [0, 0, 0, 0]"
    by (simp_all add: fetch_Some_iff demo_mem_def rd_def addr_limit_def)
  have "wcstr demo_mem 5000 []" "wcstr demo_mem 8192 [0x4261]"
    using f by (simp_all add: rd32_def push_bit_eq_mult)
  from wide_string_functions [OF this] wide_string_functions [OF this(2,1)]
  show ?thesis by simp
qed

text \<open>An overlapping \<open>memmove\<close> of three bytes with the bump allocator.\<close>

lemma bump_memmove:
  assumes w: "malloc_initialized w" "alloc_inv a w" "quarantine_top w = NULL" "backend w = 8192"
    and tot: "\<And>a k. 0 < a \<Longrightarrow> a + k \<le> addr_limit \<Longrightarrow> mapped (mem w) a k"
    and bs: "bytes_at (mem w) 4096 bs" "length bs = 3"
  shows "\<exists>w'. libqasan_memmove bump_env w 4097 4096 3 = Some (4097, w')"
proof -
  have b: "backend_malloc bump_env (backend w) (mem w) (296 + 3) = Some (8192, 8496, mem w)"
    using w(4) by (simp add: bump_env_def bump_malloc_def)
  have "\<exists>w1. malloc_body bump_env w 3 = Some (8352, w1) \<and> quarantine_top w1 = 0 \<and>
      mem w1 = blit (malloc_header (mem w) 8192 3) 8352 (replicate 3 0xff)"
    using tot [of 8192 32] tot [of 8352 3] b w(3)
    by (simp add: malloc_body_Some_iff addr_limit_def)
  then obtain w1 where body: "malloc_body bump_env w 3 = Some (8352, w1)" and q1: "quarantine_top w1 = 0"
    and w1: "mem w1 = blit (malloc_header (mem w) 8192 3) 8352 (replicate 3 0xff)" by auto
  have tot1: "mapped (mem w1) a k" if "0 < a" "a + k \<le> addr_limit" for a k
    using tot that by (simp add: w1 mapped_blit malloc_header_mapped addr_limit_def)
  have bs1: "bytes_at (mem w1) 4096 bs"
    by (rule bytes_at_cong [OF bs(1)]) (use malloc_body_frame [OF body b] bs(2) in auto)
  define m1 where "m1 = blit (mem w1) 8352 bs"
  define m2 where "m2 = blit m1 4097 bs"
  have mp1: "mapped (mem w1) 8352 (length bs)" and mp2: "mapped m1 4097 (length bs)"
    using tot1 by (simp_all add: m1_def mapped_blit addr_limit_def bs(2))
  have c1: "libqasan_memcpy (mem w1) 8352 4096 3 = Some (8352, m1)"
    unfolding m1_def by (rule libqasan_memcpy_forward [OF bs1]) (use mp1 bs(2) in simp_all)
  have c2: "libqasan_memcpy m1 4097 8352 3 = Some (4097, m2)"
    unfolding m2_def by (rule libqasan_memcpy_forward) (use bytes_at_blit [OF mp1] mp2 bs(2) in \<open>simp_all add: m1_def\<close>)
  have "rd64 m2 8192 = Some 3"
    using malloc_body_block(3) [OF body] mp1 mp2 bs(2)
    by (simp add: m2_def rd64_blit_other) (simp add: m1_def rd64_blit_other)
  then have "\<exists>w'. libqasan_free bump_env (w1\<lparr>mem := m2\<rparr>) 8352 = Some w'"
    using malloc_body_inv [OF body w(2)] tot1 mp1 mp2 q1
    by (intro free_defined [where a = a and n = 3])
      (simp_all add: step_simps QUARANTINE_MAX_BYTES_def m2_def m1_def mapped_blit addr_limit_def)
  then obtain w' where "libqasan_free bump_env (w1\<lparr>mem := m2\<rparr>) 8352 = Some w'" ..
  then show ?thesis
    using body c1 c2 w(1) by (simp add: libqasan_memmove_def libqasan_malloc_def)
qed

theorem memmove_moves_witness:
  "\<exists>w'. libqasan_memmove bump_env (fresh_world\<lparr>mem := demo_mem\<rparr>) 4097 4096 3 = Some (4097, w') \<and>
     bytes_at (mem w') 4097 [0x78, 0x61, 0x42]"
proof -
  let ?w = "fresh_world\<lparr>mem := demo_mem\<rparr>" and ?bs = "[0x78, 0x61, 0x42] :: byte list"
  have b: "backend_malloc bump_env (backend ?w) (mem ?w) (296 + 3) = Some (8192, 8496, mem ?w)"
    by (simp add: bump_env_def bump_malloc_def fresh_world_def)
  have inv: "alloc_inv True ?w" by (simp add: alloc_inv_def fresh_world_def)
  have bs: "bytes_at demo_mem 4096 ?bs" by (simp add: demo_mem_def rd_def addr_limit_def)
  have "\<exists>w'. libqasan_memmove bump_env ?w 4097 4096 3 = Some (4097, w')"
    by (rule bump_memmove [OF _ inv, of ?bs]) (use bs in \<open>auto simp: fresh_world_def mapped_def demo_mem_def rd_def\<close>)
  then obtain w' where mv: "libqasan_memmove bump_env ?w 4097 4096 3 = Some (4097, w')" ..
  have "4097 = (4097::nat) \<and> bytes_at (mem w') 4097 ?bs"
    by (rule memmove_moves [OF mv _ inv _ _ _ b])
      (simp_all add: bs fresh_world_def QUARANTINE_MAX_BYTES_def del: bytes_at.simps)
  with mv show ?thesis by blast
qed

end
