(* ===== verification/QHooks.thy ===== *)
theory QHooks
  imports QString
begin

text \<open>
  The libc functions that \<open>libqasan/hooks.c\<close> interposes (here with the suffix \<open>_hook\<close>):
  each asks the sanitizer to check the memory it is about to use, then calls the replacement. The
  debug prints are compiled out. System calls, \<open>sysconf\<close>, \<open>sizeof(FILE)\<close> and the libc
  functions behind \<open>__lq_libc_*\<close> are arguments of the hooks that use them.
\<close>

section \<open>System calls and stdio\<close>

definition write_hook ::
    "(memory \<Rightarrow> int \<Rightarrow> addr \<Rightarrow> u64 \<Rightarrow> int option) \<Rightarrow> 'b qworld \<Rightarrow> int \<Rightarrow> addr \<Rightarrow> u64 \<Rightarrow>
     (int \<times> 'b qworld) option" where
  "write_hook sys_write w fd buf count = do {
     let w = qasan_load buf count w;
     r \<leftarrow> sys_write (mem w) fd buf count;
     Some (r, w)
   }"

definition read_hook ::
    "(memory \<Rightarrow> int \<Rightarrow> addr \<Rightarrow> u64 \<Rightarrow> (int \<times> memory) option) \<Rightarrow> 'b qworld \<Rightarrow> int \<Rightarrow> addr \<Rightarrow> u64 \<Rightarrow>
     (int \<times> 'b qworld) option" where
  "read_hook sys_read w fd buf count = do {
     let w = qasan_store buf count w;
     (r, m) \<leftarrow> sys_read (mem w) fd buf count;
     Some (r, w\<lparr>mem := m\<rparr>)
   }"

text \<open>The \<open>int\<close> size of \<open>fgets\<close> is sign-extended to the length that is checked.\<close>

definition fgets_hook ::
    "(memory \<Rightarrow> addr \<Rightarrow> u32 \<Rightarrow> addr \<Rightarrow> (addr \<times> memory) option) \<Rightarrow> u64 \<Rightarrow> 'b qworld \<Rightarrow> addr \<Rightarrow> u32 \<Rightarrow>
     addr \<Rightarrow> (addr \<times> 'b qworld) option" where
  "fgets_hook libc_fgets sizeof_FILE w s sz stream = do {
     let w = qasan_store s (scast sz) w;
     let w = qasan_load stream sizeof_FILE w;
     (r, m) \<leftarrow> libc_fgets (mem w) s sz stream;
     Some (r, w\<lparr>mem := m\<rparr>)
   }"

definition ato_hook :: "(memory \<Rightarrow> addr \<Rightarrow> int option) \<Rightarrow> 'b qworld \<Rightarrow> addr \<Rightarrow> (int \<times> 'b qworld) option" where
  "ato_hook libc_ato w nptr = do {
     l \<leftarrow> libqasan_strlen (mem w) nptr;
     let w = qasan_load nptr (l + 1) w;
     r \<leftarrow> libc_ato (mem w) nptr;
     Some (r, w)
   }"

section \<open>The allocator\<close>

definition malloc_usable_size_hook :: "'b qworld \<Rightarrow> addr \<Rightarrow> (u64 \<times> 'b qworld) option" where
  "malloc_usable_size_hook = libqasan_malloc_usable_size"

definition malloc_hook :: "'b qenv \<Rightarrow> 'b qworld \<Rightarrow> u64 \<Rightarrow> (addr \<times> 'b qworld) option" where
  "malloc_hook = libqasan_malloc"

definition calloc_hook :: "'b qenv \<Rightarrow> 'b qworld \<Rightarrow> u64 \<Rightarrow> u64 \<Rightarrow> (addr \<times> 'b qworld) option" where
  "calloc_hook = libqasan_calloc"

definition realloc_hook :: "'b qenv \<Rightarrow> 'b qworld \<Rightarrow> addr \<Rightarrow> u64 \<Rightarrow> (addr \<times> 'b qworld) option" where
  "realloc_hook = libqasan_realloc"

definition posix_memalign_hook ::
    "'b qenv \<Rightarrow> 'b qworld \<Rightarrow> addr \<Rightarrow> u64 \<Rightarrow> u64 \<Rightarrow> (int \<times> 'b qworld) option" where
  "posix_memalign_hook E w memptr alignment sz = do {
     (r, stored, w) \<leftarrow> libqasan_posix_memalign E w alignment sz;
     case stored of
       None \<Rightarrow> Some (r, w)
     | Some p \<Rightarrow> do { m \<leftarrow> wr64 (mem w) memptr (of_nat p); Some (r, w\<lparr>mem := m\<rparr>) }
   }"

definition memalign_hook :: "'b qenv \<Rightarrow> 'b qworld \<Rightarrow> u64 \<Rightarrow> u64 \<Rightarrow> (addr \<times> 'b qworld) option" where
  "memalign_hook = libqasan_memalign"

definition aligned_alloc_hook :: "'b qenv \<Rightarrow> 'b qworld \<Rightarrow> u64 \<Rightarrow> u64 \<Rightarrow> (addr \<times> 'b qworld) option" where
  "aligned_alloc_hook = libqasan_aligned_alloc"

definition valloc_hook :: "u64 \<Rightarrow> 'b qenv \<Rightarrow> 'b qworld \<Rightarrow> u64 \<Rightarrow> (addr \<times> 'b qworld) option" where
  "valloc_hook page_size E w sz = libqasan_memalign E w page_size sz"

definition pvalloc_hook :: "u64 \<Rightarrow> 'b qenv \<Rightarrow> 'b qworld \<Rightarrow> u64 \<Rightarrow> (addr \<times> 'b qworld) option" where
  "pvalloc_hook page_size E w sz =
     (let sz = (sz AND (page_size - 1)) + page_size
      in libqasan_memalign E w page_size sz)"

definition free_hook :: "'b qenv \<Rightarrow> 'b qworld \<Rightarrow> addr \<Rightarrow> 'b qworld option" where
  "free_hook = libqasan_free"

section \<open>Memory blocks\<close>

definition memcmp_hook :: "'b qworld \<Rightarrow> addr \<Rightarrow> addr \<Rightarrow> u64 \<Rightarrow> (int \<times> 'b qworld) option" where
  "memcmp_hook w s1 s2 n = do {
     let w = qasan_load s1 n w;
     let w = qasan_load s2 n w;
     r \<leftarrow> libqasan_memcmp (mem w) s1 s2 n;
     Some (r, w)
   }"





definition memchr_hook :: "'b qworld \<Rightarrow> addr \<Rightarrow> u32 \<Rightarrow> u64 \<Rightarrow> (addr \<times> 'b qworld) option" where
  "memchr_hook w s c n = do {
     r \<leftarrow> libqasan_memchr (mem w) s c n;
     let w = (if r = NULL then qasan_load s n w else qasan_load s (of_nat (r - s)) w);
     Some (r, w)
   }"

definition memrchr_hook :: "'b qworld \<Rightarrow> addr \<Rightarrow> u32 \<Rightarrow> u64 \<Rightarrow> (addr \<times> 'b qworld) option" where
  "memrchr_hook w s c n = do {
     let w = qasan_load s n w;
     r \<leftarrow> libqasan_memrchr (mem w) s c n;
     Some (r, w)
   }"

text \<open>
  \<open>__libqasan_memmem\<close> of \<open>string.c\<close> calls the interposed \<open>memchr\<close> and
  \<open>memcmp\<close>, so its inner calls are checked too.
\<close>

function memmem_loop :: "'b qworld \<Rightarrow> addr \<Rightarrow> addr \<Rightarrow> addr \<Rightarrow> u64 \<Rightarrow> (addr \<times> 'b qworld) option" where
  "memmem_loop w h end_h n needle_len = do {
     a \<leftarrow> rd (mem w) h;
     b \<leftarrow> rd (mem w) n;
     (found, w) \<leftarrow> (if a = b then do {
         (r, w) \<leftarrow> memcmp_hook w h n needle_len;
         Some (r = 0, w)
       } else Some (False, w));
     if found then Some (h, w)
     else if Suc h \<le> end_h then memmem_loop w (Suc h) end_h n needle_len
     else Some (NULL, w)
   }"
  by pat_completeness auto
termination by (relation "measure (\<lambda>(w, h, end_h, n, len). Suc end_h - h)") auto

definition libqasan_memmem ::
    "'b qworld \<Rightarrow> addr \<Rightarrow> u64 \<Rightarrow> addr \<Rightarrow> u64 \<Rightarrow> (addr \<times> 'b qworld) option" where
  "libqasan_memmem w haystack haystack_len needle needle_len =
     (if haystack_len < needle_len then Some (NULL, w)
      else if needle_len = 0 then Some (haystack, w)
      else if needle_len = 1 then do {
        c \<leftarrow> rd (mem w) needle;
        memchr_hook w haystack (scast c) haystack_len
      } else memmem_loop w haystack (haystack + unat (haystack_len - needle_len)) needle needle_len)"

definition memmem_hook ::
    "'b qworld \<Rightarrow> addr \<Rightarrow> u64 \<Rightarrow> addr \<Rightarrow> u64 \<Rightarrow> (addr \<times> 'b qworld) option" where
  "memmem_hook w haystack haystacklen needle needlelen = do {
     let w = qasan_load haystack haystacklen w;
     let w = qasan_load needle needlelen w;
     libqasan_memmem w haystack haystacklen needle needlelen
   }"



definition bcmp_hook :: "'b qworld \<Rightarrow> addr \<Rightarrow> addr \<Rightarrow> u64 \<Rightarrow> (int \<times> 'b qworld) option" where
  "bcmp_hook w s1 s2 n = do {
     let w = qasan_load s1 n w;
     let w = qasan_load s2 n w;
     r \<leftarrow> libqasan_bcmp (mem w) s1 s2 n;
     Some (r, w)
   }"

section \<open>Strings\<close>

definition strchr_hook :: "'b qworld \<Rightarrow> addr \<Rightarrow> u32 \<Rightarrow> (addr \<times> 'b qworld) option" where
  "strchr_hook w s c = do {
     l \<leftarrow> libqasan_strlen (mem w) s;
     let w = qasan_load s (l + 1) w;
     r \<leftarrow> libqasan_strchr (mem w) s c;
     Some (r, w)
   }"

definition strrchr_hook :: "'b qworld \<Rightarrow> addr \<Rightarrow> u32 \<Rightarrow> (addr \<times> 'b qworld) option" where
  "strrchr_hook w s c = do {
     l \<leftarrow> libqasan_strlen (mem w) s;
     let w = qasan_load s (l + 1) w;
     r \<leftarrow> libqasan_strrchr (mem w) s c;
     Some (r, w)
   }"

definition strcasecmp_hook :: "'b qworld \<Rightarrow> addr \<Rightarrow> addr \<Rightarrow> (int \<times> 'b qworld) option" where
  "strcasecmp_hook w s1 s2 = do {
     l1 \<leftarrow> libqasan_strlen (mem w) s1;
     let w = qasan_load s1 (l1 + 1) w;
     l2 \<leftarrow> libqasan_strlen (mem w) s2;
     let w = qasan_load s2 (l2 + 1) w;
     r \<leftarrow> libqasan_strcasecmp (mem w) s1 s2;
     Some (r, w)
   }"

definition strncasecmp_hook :: "'b qworld \<Rightarrow> addr \<Rightarrow> addr \<Rightarrow> u64 \<Rightarrow> (int \<times> 'b qworld) option" where
  "strncasecmp_hook w s1 s2 n = do {
     l1 \<leftarrow> libqasan_strnlen (mem w) s1 n;
     let w = qasan_load s1 l1 w;
     l2 \<leftarrow> libqasan_strnlen (mem w) s2 n;
     let w = qasan_load s2 l2 w;
     r \<leftarrow> libqasan_strncasecmp (mem w) s1 s2 n;
     Some (r, w)
   }"

definition strcat_hook :: "'b qworld \<Rightarrow> addr \<Rightarrow> addr \<Rightarrow> (addr \<times> 'b qworld) option" where
  "strcat_hook w dest src = do {
     l2 \<leftarrow> libqasan_strlen (mem w) src;
     let w = qasan_load src (l2 + 1) w;
     l1 \<leftarrow> libqasan_strlen (mem w) dest;
     let w = qasan_store dest (l1 + l2 + 1) w;
     (_, m) \<leftarrow> libqasan_memcpy (mem w) (dest + unat l1) src l2;
     m \<leftarrow> wr m (dest + unat (l1 + l2)) 0;
     Some (dest, w\<lparr>mem := m\<rparr>)
   }"

definition strcmp_hook :: "'b qworld \<Rightarrow> addr \<Rightarrow> addr \<Rightarrow> (int \<times> 'b qworld) option" where
  "strcmp_hook w s1 s2 = do {
     l1 \<leftarrow> libqasan_strlen (mem w) s1;
     let w = qasan_load s1 (l1 + 1) w;
     l2 \<leftarrow> libqasan_strlen (mem w) s2;
     let w = qasan_load s2 (l2 + 1) w;
     r \<leftarrow> libqasan_strcmp (mem w) s1 s2;
     Some (r, w)
   }"

definition strncmp_hook :: "'b qworld \<Rightarrow> addr \<Rightarrow> addr \<Rightarrow> u64 \<Rightarrow> (int \<times> 'b qworld) option" where
  "strncmp_hook w s1 s2 n = do {
     l1 \<leftarrow> libqasan_strnlen (mem w) s1 n;
     let w = qasan_load s1 l1 w;
     l2 \<leftarrow> libqasan_strnlen (mem w) s2 n;
     let w = qasan_load s2 l2 w;
     r \<leftarrow> libqasan_strncmp (mem w) s1 s2 n;
     Some (r, w)
   }"


definition strncpy_hook :: "'b qworld \<Rightarrow> addr \<Rightarrow> addr \<Rightarrow> u64 \<Rightarrow> (addr \<times> 'b qworld) option" where
  "strncpy_hook w dest src n = do {
     l \<leftarrow> libqasan_strnlen (mem w) src n;
     let w = qasan_store dest n w;
     if l < n then do {
       let w = qasan_load src (l + 1) w;
       (r, m) \<leftarrow> libqasan_memcpy (mem w) dest src (l + 1);
       Some (r, w\<lparr>mem := m\<rparr>)
     } else do {
       let w = qasan_load src n w;
       (r, m) \<leftarrow> libqasan_memcpy (mem w) dest src n;
       Some (r, w\<lparr>mem := m\<rparr>)
     }
   }"



definition strlen_hook :: "'b qworld \<Rightarrow> addr \<Rightarrow> (u64 \<times> 'b qworld) option" where
  "strlen_hook w s = do {
     r \<leftarrow> libqasan_strlen (mem w) s;
     Some (r, qasan_load s (r + 1) w)
   }"

definition strnlen_hook :: "'b qworld \<Rightarrow> addr \<Rightarrow> u64 \<Rightarrow> (u64 \<times> 'b qworld) option" where
  "strnlen_hook w s n = do {
     r \<leftarrow> libqasan_strnlen (mem w) s n;
     Some (r, qasan_load s r w)
   }"

definition strstr_hook :: "'b qworld \<Rightarrow> addr \<Rightarrow> addr \<Rightarrow> (addr \<times> 'b qworld) option" where
  "strstr_hook w haystack needle = do {
     l \<leftarrow> libqasan_strlen (mem w) haystack;
     let w = qasan_load haystack (l + 1) w;
     l \<leftarrow> libqasan_strlen (mem w) needle;
     let w = qasan_load needle (l + 1) w;
     r \<leftarrow> libqasan_strstr (mem w) haystack needle;
     Some (r, w)
   }"

definition strcasestr_hook :: "'b qworld \<Rightarrow> addr \<Rightarrow> addr \<Rightarrow> (addr \<times> 'b qworld) option" where
  "strcasestr_hook w haystack needle = do {
     l \<leftarrow> libqasan_strlen (mem w) haystack;
     let w = qasan_load haystack (l + 1) w;
     l \<leftarrow> libqasan_strlen (mem w) needle;
     let w = qasan_load needle (l + 1) w;
     r \<leftarrow> libqasan_strcasestr (mem w) haystack needle;
     Some (r, w)
   }"

section \<open>Wide strings\<close>

definition wchar_size :: u64 where "wchar_size = of_nat sizeof_wchar"

definition wcslen_hook :: "'b qworld \<Rightarrow> addr \<Rightarrow> (u64 \<times> 'b qworld) option" where
  "wcslen_hook w s = do {
     r \<leftarrow> libqasan_wcslen (mem w) s;
     Some (r, qasan_load s (wchar_size * (r + 1)) w)
   }"


definition wcscmp_hook :: "'b qworld \<Rightarrow> addr \<Rightarrow> addr \<Rightarrow> (int \<times> 'b qworld) option" where
  "wcscmp_hook w s1 s2 = do {
     l1 \<leftarrow> libqasan_wcslen (mem w) s1;
     let w = qasan_load s1 (wchar_size * (l1 + 1)) w;
     l2 \<leftarrow> libqasan_wcslen (mem w) s2;
     let w = qasan_load s2 (wchar_size * (l2 + 1)) w;
     r \<leftarrow> libqasan_wcscmp (mem w) s1 s2;
     Some (r, w)
   }"

declare memmem_loop.simps [simp del]

section \<open>What the sanitizer was asked to check\<close>

fun load_covers :: "qcall \<Rightarrow> addr \<Rightarrow> bool" where
  "load_covers (CheckLoad p n) x \<longleftrightarrow> p \<le> x \<and> x < p + unat n"
| "load_covers _ x \<longleftrightarrow> False"

fun store_covers :: "qcall \<Rightarrow> addr \<Rightarrow> bool" where
  "store_covers (CheckStore p n) x \<longleftrightarrow> p \<le> x \<and> x < p + unat n"
| "store_covers _ x \<longleftrightarrow> False"

definition load_checked :: "qcall list \<Rightarrow> addr \<Rightarrow> bool" where
  "load_checked L x \<longleftrightarrow> (\<exists>c\<in>set L. load_covers c x)"

definition store_checked :: "qcall list \<Rightarrow> addr \<Rightarrow> bool" where
  "store_checked L x \<longleftrightarrow> (\<exists>c\<in>set L. store_covers c x)"

lemma checked_simps [simp]:
  "load_checked [] x \<longleftrightarrow> False" "load_checked (c # L) x \<longleftrightarrow> load_covers c x \<or> load_checked L x"
  "store_checked [] x \<longleftrightarrow> False" "store_checked (c # L) x \<longleftrightarrow> store_covers c x \<or> store_checked L x"
  by (auto simp: load_checked_def store_checked_def)

text \<open>The calls that a run from \<open>w\<close> to \<open>w'\<close> has added to the log.\<close>

definition new_calls :: "'b qworld \<Rightarrow> 'b qworld \<Rightarrow> qcall list" where
  "new_calls w w' = drop (length (qlog w)) (qlog w')"

lemma new_calls_append: "qlog w' = qlog w @ L \<Longrightarrow> new_calls w w' = L"
  by (simp add: new_calls_def)

lemmas hook_simps = qasan_call_defs step_simps

section \<open>Stores\<close>




























section \<open>Loads\<close>

text \<open>The interposed functions that only read, as one function of the call.\<close>

datatype query =
    Q_memcmp addr addr u64
  | Q_bcmp addr addr u64
  | Q_memchr addr u32 u64
  | Q_memrchr addr u32 u64
  | Q_memmem addr u64 addr u64
  | Q_strlen addr
  | Q_strnlen addr u64
  | Q_strchr addr u32
  | Q_strrchr addr u32
  | Q_strcmp addr addr
  | Q_strcasecmp addr addr
  | Q_strncmp addr addr u64
  | Q_strncasecmp addr addr u64
  | Q_strstr addr addr
  | Q_strcasestr addr addr
  | Q_wcslen addr
  | Q_wcscmp addr addr

fun run_query :: "query \<Rightarrow> 'b qworld \<Rightarrow> (int \<times> 'b qworld) option" where
  "run_query (Q_memcmp p q n) w = memcmp_hook w p q n"
| "run_query (Q_bcmp p q n) w = bcmp_hook w p q n"
| "run_query (Q_memchr p c n) w = map_option (map_prod int id) (memchr_hook w p c n)"
| "run_query (Q_memrchr p c n) w = map_option (map_prod int id) (memrchr_hook w p c n)"
| "run_query (Q_memmem p k q n) w = map_option (map_prod int id) (memmem_hook w p k q n)"
| "run_query (Q_strlen p) w = map_option (map_prod uint id) (strlen_hook w p)"
| "run_query (Q_strnlen p n) w = map_option (map_prod uint id) (strnlen_hook w p n)"
| "run_query (Q_strchr p c) w = map_option (map_prod int id) (strchr_hook w p c)"
| "run_query (Q_strrchr p c) w = map_option (map_prod int id) (strrchr_hook w p c)"
| "run_query (Q_strcmp p q) w = strcmp_hook w p q"
| "run_query (Q_strcasecmp p q) w = strcasecmp_hook w p q"
| "run_query (Q_strncmp p q n) w = strncmp_hook w p q n"
| "run_query (Q_strncasecmp p q n) w = strncasecmp_hook w p q n"
| "run_query (Q_strstr p q) w = map_option (map_prod int id) (strstr_hook w p q)"
| "run_query (Q_strcasestr p q) w = map_option (map_prod int id) (strcasestr_hook w p q)"
| "run_query (Q_wcslen p) w = map_option (map_prod uint id) (wcslen_hook w p)"
| "run_query (Q_wcscmp p q) w = wcscmp_hook w p q"

text \<open>
  Five of them ask for a check of fewer bytes than they read: the character that \<open>memchr\<close>
  finds, the byte at index \<open>n\<close> where \<open>memrchr\<close> begins, and the terminators that
  \<open>strnlen\<close>, \<open>strncmp\<close> and \<open>strncasecmp\<close> meet. Each lies right behind a checked range.
\<close>

fun looks_past :: "query \<Rightarrow> bool" where
  "looks_past (Q_memchr p c n) \<longleftrightarrow> True"
| "looks_past (Q_memrchr p c n) \<longleftrightarrow> True"
| "looks_past (Q_strnlen p n) \<longleftrightarrow> True"
| "looks_past (Q_strncmp p q n) \<longleftrightarrow> True"
| "looks_past (Q_strncasecmp p q n) \<longleftrightarrow> True"
| "looks_past _ \<longleftrightarrow> False"

definition load_end :: "qcall list \<Rightarrow> addr \<Rightarrow> bool" where
  "load_end L x \<longleftrightarrow> (\<exists>p n. CheckLoad p n \<in> set L \<and> x = p + unat n)"

lemma load_end_simps [simp]:
  "load_end [] x \<longleftrightarrow> False" "load_end (CheckLoad p n # L) x \<longleftrightarrow> x = p + unat n \<or> load_end L x"
  by (auto simp: load_end_def)

abbreviation checked_or_end :: "qcall list \<Rightarrow> addr \<Rightarrow> bool" where
  "checked_or_end L x \<equiv> load_checked L x \<or> load_end L x"

text \<open>
  A run from \<open>w\<close> to \<open>w'\<close> has the same outcome in every memory that agrees on the bytes
  that \<open>C\<close> picks for the calls of the run.
\<close>

definition loads_ok ::
    "(qcall list \<Rightarrow> addr \<Rightarrow> bool) \<Rightarrow> ('b qworld \<Rightarrow> ('r \<times> 'b qworld) option) \<Rightarrow> 'b qworld \<Rightarrow> bool" where
  "loads_ok C f w \<longleftrightarrow> (\<forall>r w' m. f w = Some (r, w') \<longrightarrow>
     (\<forall>x. C (new_calls w w') x \<longrightarrow> rd m x = rd (mem w) x) \<longrightarrow>
     (\<exists>w''. f (w\<lparr>mem := m\<rparr>) = Some (r, w'')))"

lemma loads_okI:
  assumes "\<And>r w' m. f w = Some (r, w') \<Longrightarrow>
    (\<And>x. C (new_calls w w') x \<Longrightarrow> rd m x = rd (mem w) x) \<Longrightarrow>
    \<exists>w''. f (w\<lparr>mem := m\<rparr>) = Some (r, w'')"
  shows "loads_ok C f w"
  using assms by (auto simp: loads_ok_def)

lemma loads_ok_map:
  assumes "loads_ok C f w"
  shows "loads_ok C (\<lambda>w. map_option (map_prod g id) (f w)) w"
  unfolding loads_ok_def
proof (intro allI impI)
  fix r w' m
  assume "map_option (map_prod g id) (f w) = Some (r, w')"
    and eq: "\<forall>x. C (new_calls w w') x \<longrightarrow> rd m x = rd (mem w) x"
  then obtain r0 where r0: "f w = Some (r0, w')" "r = g r0" by auto
  with assms eq obtain w'' where "f (w\<lparr>mem := m\<rparr>) = Some (r0, w'')"
    unfolding loads_ok_def by blast
  with r0 show "\<exists>w''. map_option (map_prod g id) (f (w\<lparr>mem := m\<rparr>)) = Some (r, w'')" by simp
qed

text \<open>A hook that computes from memory and logs calls that depend on what it computed.\<close>

lemma logged_loads:
  assumes h: "\<And>w. h w = do { y \<leftarrow> f (mem w); Some (g y, w\<lparr>qlog := qlog w @ L y\<rparr>) }"
    and f: "\<And>y m. f (mem w) = Some y \<Longrightarrow> (\<And>x. C (L y) x \<Longrightarrow> rd m x = rd (mem w) x) \<Longrightarrow> f m = Some y"
  shows "loads_ok C h w"
proof (rule loads_okI)
  fix r w' m
  assume r: "h w = Some (r, w')" and eq: "\<And>x. C (new_calls w w') x \<Longrightarrow> rd m x = rd (mem w) x"
  from r obtain y where y: "f (mem w) = Some y" "r = g y" and w': "qlog w' = qlog w @ L y"
    by (auto simp: h Option.bind_eq_Some_conv)
  have "f m = Some y" by (rule f [OF y(1)]) (rule eq, simp add: new_calls_append [OF w'])
  then show "\<exists>w''. h (w\<lparr>mem := m\<rparr>) = Some (r, w'')" by (simp add: h y(2))
qed

lemma memcmp_loop_cong:
  "(\<And>x. p \<le> x \<and> x < p + n \<or> q \<le> x \<and> x < q + n \<Longrightarrow> rd m x = rd m' x) \<Longrightarrow>
    memcmp_loop m p q n = memcmp_loop m' p q n"
proof (induction n arbitrary: p q)
  case (Suc n)
  have "memcmp_loop m (Suc p) (Suc q) n = memcmp_loop m' (Suc p) (Suc q) n"
    by (rule Suc.IH) (use Suc.prems in auto)
  moreover have "rd m p = rd m' p" "rd m q = rd m' q" using Suc.prems by auto
  ultimately show ?case by (simp cong: if_cong)
qed simp

lemma bcmp_loop_cong:
  "(\<And>x. p \<le> x \<and> x < p + n \<or> q \<le> x \<and> x < q + n \<Longrightarrow> rd m x = rd m' x) \<Longrightarrow>
    bcmp_loop m p q n = bcmp_loop m' p q n"
proof (induction n arbitrary: p q)
  case (Suc n)
  have "bcmp_loop m (Suc p) (Suc q) n = bcmp_loop m' (Suc p) (Suc q) n"
    by (rule Suc.IH) (use Suc.prems in auto)
  moreover have "rd m p = rd m' p" "rd m q = rd m' q" using Suc.prems by auto
  ultimately show ?case by (simp cong: if_cong)
qed simp

text \<open>When NULL is not mapped, the checked length of a string is its length and terminator.\<close>

lemma strlen_checked:
  assumes l: "libqasan_strlen m s = Some l" and z: "rd m NULL = None"
  obtains bs where "cstr m s bs" "unat (l + 1) = Suc (length bs)" "l = of_nat (length bs)"
proof -
  from l obtain bs where bs: "cstr m s bs" "l = of_nat (length bs)"
    by (auto simp: strlen_exact)
  have "0 < s" using bs(1) z by (cases s; cases bs) auto
  then have "Suc (length bs) < addr_limit" using cstr_length [OF bs(1)] by simp
  then have "unat (l + 1) = Suc (length bs)"
    using unat_of_nat_addr [of "Suc (length bs)"] by (simp add: bs(2) add.commute)
  with bs that show thesis by blast
qed

lemma cstr_cong:
  "cstr m s bs \<Longrightarrow> (\<And>x. s \<le> x \<Longrightarrow> x < s + Suc (length bs) \<Longrightarrow> rd m' x = rd m x) \<Longrightarrow> cstr m' s bs"
  unfolding cstr_iff_bytes_at using bytes_at_cong [of m s "bs @ [0]" m'] by simp

lemma wcstr_cong:
  "wcstr m s ws \<Longrightarrow> (\<And>x. s \<le> x \<Longrightarrow> x < s + 4 * Suc (length ws) \<Longrightarrow> rd m' x = rd m x) \<Longrightarrow>
    wcstr m' s ws"
proof (induction ws arbitrary: s)
  case Nil
  then show ?case using fetch_cong [of 4 m' s m] by (simp add: rd32_def)
next
  case (Cons c ws)
  then show ?case using fetch_cong [of 4 m' s m] by (simp add: rd32_def)
qed

lemma wcslen_loop_wcstr:
  "wcslen_loop m s len = Some n \<Longrightarrow> \<exists>ws. wcstr m (s + 4 * len) ws \<and> n = len + length ws"
proof (induction m s len rule: wcslen_loop.induct)
  case (1 m s len)
  have step: "\<exists>ws. wcstr m (s + 4 * k) ws \<and> n = k + length ws"
    if "rdw m s k = Some v" "v \<noteq> 0" "\<exists>ws. wcstr m (s + 4 * Suc k) ws \<and> n = Suc k + length ws" for k v
  proof -
    from that(3) obtain ws where "wcstr m (s + 4 * Suc k) ws" "n = Suc k + length ws" by blast
    with that(1,2) show ?thesis by (intro exI [of _ "v # ws"]) (simp add: rdw_eq add_ac)
  qed
  have stop: "\<exists>ws. wcstr m (s + 4 * k) ws \<and> k = k + length ws" if "rdw m s k = Some 0" for k
    using that by (intro exI [of _ "[]"]) (simp add: rdw_eq)
  from 1(2) obtain a where a: "rdw m s len = Some a"
    by (subst (asm) wcslen_loop.simps) (auto simp: Option.bind_eq_Some_conv)
  show ?case
  proof (cases "a = 0")
    case True
    with 1(2) a stop [of len] show ?thesis by (subst (asm) wcslen_loop.simps) auto
  next
    case a0: False
    with 1(2) a obtain b where b: "rdw m s (len + 1) = Some b"
      by (subst (asm) wcslen_loop.simps) (auto simp: Option.bind_eq_Some_conv)
    show ?thesis
    proof (rule step [OF a a0], cases "b = 0")
      case True
      with 1(2) a a0 b stop [of "len + 1"] show "\<exists>ws. wcstr m (s + 4 * Suc len) ws \<and> n = Suc len + length ws"
        by (subst (asm) wcslen_loop.simps) auto
    next
      case b0: False
      with 1(2) a a0 b obtain c where c: "rdw m s (len + 2) = Some c"
        by (subst (asm) wcslen_loop.simps) (auto simp: Option.bind_eq_Some_conv)
      have b': "rdw m s (Suc len) = Some b" using b by simp
      show "\<exists>ws. wcstr m (s + 4 * Suc len) ws \<and> n = Suc len + length ws"
      proof (rule step [OF b' b0], cases "c = 0")
        case True
        with 1(2) a a0 b b0 c stop [of "len + 2"]
        show "\<exists>ws. wcstr m (s + 4 * Suc (Suc len)) ws \<and> n = Suc (Suc len) + length ws"
          by (subst (asm) wcslen_loop.simps) auto
      next
        case c0: False
        with 1(2) a a0 b b0 c obtain d where d: "rdw m s (len + 3) = Some d"
          by (subst (asm) wcslen_loop.simps) (auto simp: Option.bind_eq_Some_conv)
        have c': "rdw m s (Suc (Suc len)) = Some c" using c by (simp add: numeral_2_eq_2)
        have d': "rdw m s (Suc (Suc (Suc len))) = Some d" using d by (simp add: numeral_3_eq_3)
        show "\<exists>ws. wcstr m (s + 4 * Suc (Suc len)) ws \<and> n = Suc (Suc len) + length ws"
        proof (rule step [OF c' c0], cases "d = 0")
          case True
          with 1(2) a a0 b b0 c c0 d stop [of "len + 3"]
          show "\<exists>ws. wcstr m (s + 4 * Suc (Suc (Suc len))) ws \<and> n = Suc (Suc (Suc len)) + length ws"
            by (subst (asm) wcslen_loop.simps) (auto simp: numeral_3_eq_3)
        next
          case d0: False
          with 1(2) a a0 b b0 c c0 d have r: "wcslen_loop m s (len + 4) = Some n"
            by (subst (asm) wcslen_loop.simps) simp
          show "\<exists>ws. wcstr m (s + 4 * Suc (Suc (Suc len))) ws \<and> n = Suc (Suc (Suc len)) + length ws"
            using 1(1) [OF a a0 b b0 c c0 d d0 r] by (intro step [OF d' d0]) (simp add: eval_nat_numeral)
        qed
      qed
    qed
  qed
qed

lemma wcstr_end: "wcstr m s ws \<Longrightarrow> rd32 m (s + 4 * length ws) = Some 0"
proof (induction ws arbitrary: s)
  case (Cons c ws)
  then show ?case using Cons.IH [of "s + 4"] by (simp add: add_ac)
qed simp

lemma wcslen_checked:
  assumes l: "libqasan_wcslen m s = Some l" and z: "rd m NULL = None"
  obtains ws where "wcstr m s ws" "unat (4 * (l + 1)) = 4 * Suc (length ws)" "l = of_nat (length ws)"
proof -
  from l obtain ws where ws: "wcstr m s ws" "l = of_nat (length ws)"
    by (auto simp: libqasan_wcslen_def Option.bind_eq_Some_conv dest!: wcslen_loop_wcstr)
  from wcstr_end [OF ws(1)] have lim: "s + 4 * length ws + 3 < addr_limit"
    by (auto simp: rd32_def eval_nat_numeral Option.bind_eq_Some_conv dest!: rd_Some_limit)
  have "rd m s \<noteq> None"
    using ws(1) by (cases ws) (auto simp: rd32_def eval_nat_numeral Option.bind_eq_Some_conv)
  then have "0 < s" using z by (cases s) auto
  with lim have "4 * Suc (length ws) < addr_limit" by simp
  then have "unat (4 * (l + 1)) = 4 * Suc (length ws)"
    using unat_of_nat_addr [of "4 * Suc (length ws)"] by (simp add: ws(2) algebra_simps)
  with ws that show thesis by blast
qed

text \<open>Two strings, or two wide strings, whose checked bytes keep their values are the same.\<close>

lemma strings_checked:
  assumes "libqasan_strlen (mem w) p = Some l1" "libqasan_strlen (mem w) q = Some l2"
    and z: "rd (mem w) NULL = None"
    and "\<And>x. load_checked [CheckLoad p (l1 + 1), CheckLoad q (l2 + 1)] x \<Longrightarrow> rd m x = rd (mem w) x"
  obtains s t where "cstr (mem w) p s" "cstr m p s" "cstr (mem w) q t" "cstr m q t"
    "l1 = of_nat (length s)" "l2 = of_nat (length t)"
proof -
  obtain s where s: "cstr (mem w) p s" "unat (l1 + 1) = Suc (length s)" "l1 = of_nat (length s)"
    by (rule strlen_checked [OF assms(1) z])
  obtain t where t: "cstr (mem w) q t" "unat (l2 + 1) = Suc (length t)" "l2 = of_nat (length t)"
    by (rule strlen_checked [OF assms(2) z])
  have "cstr m p s" by (rule cstr_cong [OF s(1)]) (simp add: assms(4) s(2))
  moreover have "cstr m q t" by (rule cstr_cong [OF t(1)]) (simp add: assms(4) t(2))
  ultimately show thesis using that s t by blast
qed

lemma wide_checked:
  assumes "libqasan_wcslen (mem w) p = Some l1" "libqasan_wcslen (mem w) q = Some l2"
    and z: "rd (mem w) NULL = None"
    and "\<And>x. load_checked [CheckLoad p (4 * (l1 + 1)), CheckLoad q (4 * (l2 + 1))] x \<Longrightarrow>
      rd m x = rd (mem w) x"
  obtains s t where "wcstr (mem w) p s" "wcstr m p s" "wcstr (mem w) q t" "wcstr m q t"
    "l1 = of_nat (length s)" "l2 = of_nat (length t)"
proof -
  obtain s where s: "wcstr (mem w) p s" "unat (4 * (l1 + 1)) = 4 * Suc (length s)"
      "l1 = of_nat (length s)"
    by (rule wcslen_checked [OF assms(1) z])
  obtain t where t: "wcstr (mem w) q t" "unat (4 * (l2 + 1)) = 4 * Suc (length t)"
      "l2 = of_nat (length t)"
    by (rule wcslen_checked [OF assms(2) z])
  have "rd m x = rd (mem w) x" if "p \<le> x" "x < p + 4 * Suc (length s)" for x
    by (rule assms(4)) (simp only: checked_simps load_covers.simps s(2) that simp_thms)
  then have "wcstr m p s" by (rule wcstr_cong [OF s(1)])
  moreover have "rd m x = rd (mem w) x" if "q \<le> x" "x < q + 4 * Suc (length t)" for x
    by (rule assms(4)) (simp only: checked_simps load_covers.simps t(2) that simp_thms)
  then have "wcstr m q t" by (rule wcstr_cong [OF t(1)])
  ultimately show thesis using that s t by blast
qed

text \<open>The calls of the string hooks after their checks, as one pattern.\<close>

definition string_pair_hook ::
    "(memory \<Rightarrow> addr \<Rightarrow> addr \<Rightarrow> 'r option) \<Rightarrow> 'b qworld \<Rightarrow> addr \<Rightarrow> addr \<Rightarrow> ('r \<times> 'b qworld) option" where
  "string_pair_hook f w p q = do {
     l1 \<leftarrow> libqasan_strlen (mem w) p;
     l2 \<leftarrow> libqasan_strlen (mem w) q;
     r \<leftarrow> f (mem w) p q;
     Some (r, w\<lparr>qlog := qlog w @ [CheckLoad p (l1 + 1), CheckLoad q (l2 + 1)]\<rparr>)
   }"

lemma string_pair_loads:
  assumes z: "rd (mem w) NULL = None"
    and f: "\<And>m m' s t. cstr m p s \<Longrightarrow> cstr m' p s \<Longrightarrow> cstr m q t \<Longrightarrow> cstr m' q t \<Longrightarrow> f m p q = f m' p q"
  shows "loads_ok load_checked (\<lambda>w. string_pair_hook f w p q) w"
proof (rule loads_okI)
  fix r w' m
  assume h: "string_pair_hook f w p q = Some (r, w')"
    and eq: "\<And>x. load_checked (new_calls w w') x \<Longrightarrow> rd m x = rd (mem w) x"
  from h obtain l1 l2 where l: "libqasan_strlen (mem w) p = Some l1" "libqasan_strlen (mem w) q = Some l2"
    and r: "f (mem w) p q = Some r" and w': "qlog w' = qlog w @ [CheckLoad p (l1 + 1), CheckLoad q (l2 + 1)]"
    by (auto simp: string_pair_hook_def Option.bind_eq_Some_conv)
  have eq': "rd m x = rd (mem w) x"
    if "load_checked [CheckLoad p (l1 + 1), CheckLoad q (l2 + 1)] x" for x
    using eq [of x] that unfolding new_calls_append [OF w'] .
  obtain s t where "cstr (mem w) p s" "cstr m p s" "cstr (mem w) q t" "cstr m q t"
    by (rule strings_checked [OF l z eq'])
  with f [of "mem w" s m t] r have "f m p q = Some r" "libqasan_strlen m p \<noteq> None" "libqasan_strlen m q \<noteq> None"
    by (auto simp: libqasan_strlen_list)
  then show "\<exists>w''. string_pair_hook f (w\<lparr>mem := m\<rparr>) p q = Some (r, w'')"
    by (auto simp: string_pair_hook_def)
qed

lemma string_pair_hooks:
  "strcmp_hook w p q = string_pair_hook libqasan_strcmp w p q"
  "strcasecmp_hook w p q = string_pair_hook libqasan_strcasecmp w p q"
  "strstr_hook w p q = string_pair_hook libqasan_strstr w p q"
  "strcasestr_hook w p q = string_pair_hook libqasan_strcasestr w p q"
  by (simp_all add: string_pair_hook_def strcmp_hook_def strcasecmp_hook_def strstr_hook_def
      strcasestr_hook_def hook_simps qsyscall_def)

lemma block_pair_loads:
  assumes f: "\<And>m m'. (\<And>x. p \<le> x \<and> x < p + unat n \<or> q \<le> x \<and> x < q + unat n \<Longrightarrow> rd m x = rd m' x) \<Longrightarrow>
      f m = f m'"
    and h: "\<And>w. h w = do { r \<leftarrow> f (mem w);
      Some (r, w\<lparr>qlog := qlog w @ [CheckLoad p n, CheckLoad q n]\<rparr>) }"
  shows "loads_ok load_checked h w"
proof (rule loads_okI)
  fix r w' m
  assume r: "h w = Some (r, w')" and eq: "\<And>x. load_checked (new_calls w w') x \<Longrightarrow> rd m x = rd (mem w) x"
  from r have w': "qlog w' = qlog w @ [CheckLoad p n, CheckLoad q n]" "f (mem w) = Some r"
    by (auto simp: h Option.bind_eq_Some_conv)
  have "f m = f (mem w)" by (rule f) (rule eq, simp add: new_calls_append [OF w'(1)])
  with w'(2) show "\<exists>w''. h (w\<lparr>mem := m\<rparr>) = Some (r, w'')" by (simp add: h)
qed

lemma string_loads:
  assumes z: "rd (mem w) NULL = None"
    and f: "\<And>m m' s. cstr m p s \<Longrightarrow> cstr m' p s \<Longrightarrow> f m = f m'"
    and h: "\<And>w. h w = do { l \<leftarrow> libqasan_strlen (mem w) p; r \<leftarrow> f (mem w);
      Some (r, w\<lparr>qlog := qlog w @ [CheckLoad p (l + 1)]\<rparr>) }"
  shows "loads_ok load_checked h w"
proof (rule loads_okI)
  fix r w' m
  assume r: "h w = Some (r, w')" and eq: "\<And>x. load_checked (new_calls w w') x \<Longrightarrow> rd m x = rd (mem w) x"
  from r obtain l where l: "libqasan_strlen (mem w) p = Some l" "f (mem w) = Some r"
    and w': "qlog w' = qlog w @ [CheckLoad p (l + 1)]"
    by (auto simp: h Option.bind_eq_Some_conv)
  obtain s where s: "cstr (mem w) p s" "unat (l + 1) = Suc (length s)"
    by (rule strlen_checked [OF l(1) z])
  have "cstr m p s"
    by (rule cstr_cong [OF s(1)]) (rule eq, simp add: new_calls_append [OF w'] s(2))
  then have "f m = Some r" "libqasan_strlen m p \<noteq> None"
    using f [OF s(1)] l(2) by (auto simp: libqasan_strlen_list)
  then show "\<exists>w''. h (w\<lparr>mem := m\<rparr>) = Some (r, w'')" by (auto simp: h)
qed

lemma strlen_hook_loads: "rd (mem w) NULL = None \<Longrightarrow> loads_ok load_checked (\<lambda>w. strlen_hook w p) w"
  by (rule string_loads [where p = p and f = "\<lambda>m. libqasan_strlen m p"])
    (auto simp: libqasan_strlen_list strlen_hook_def hook_simps qsyscall_def split: Option.bind_split)

lemma strchr_hook_loads: "rd (mem w) NULL = None \<Longrightarrow> loads_ok load_checked (\<lambda>w. strchr_hook w p c) w"
  by (rule string_loads [where p = p and f = "\<lambda>m. libqasan_strchr m p c"])
    (simp_all add: libqasan_strchr_def strchr_loop_list strchr_hook_def hook_simps qsyscall_def)

lemma strrchr_hook_loads: "rd (mem w) NULL = None \<Longrightarrow> loads_ok load_checked (\<lambda>w. strrchr_hook w p c) w"
  by (rule string_loads [where p = p and f = "\<lambda>m. libqasan_strrchr m p c"])
    (simp_all add: libqasan_strrchr_def strrchr_loop_list strrchr_hook_def hook_simps qsyscall_def)

lemma wcscmp_cong:
  "wcstr m p s \<Longrightarrow> wcstr m q t \<Longrightarrow> wcstr m' p s \<Longrightarrow> wcstr m' q t \<Longrightarrow>
    libqasan_wcscmp m p q = libqasan_wcscmp m' p q"
proof (induction s arbitrary: p q t)
  case Nil
  then show ?case
    by (cases t; subst (1 2) libqasan_wcscmp.simps) (auto simp: rdw_eq)
next
  case (Cons c s)
  then show ?case
    by (cases t; subst (1 2) libqasan_wcscmp.simps) (auto simp: rdw_eq sizeof_wchar_def)
qed

lemma wcslen_hook_loads:
  assumes z: "rd (mem w) NULL = None"
  shows "loads_ok load_checked (\<lambda>w. wcslen_hook w p) w"
proof (rule loads_okI)
  fix r w' m
  assume r: "wcslen_hook w p = Some (r, w')"
    and eq: "\<And>x. load_checked (new_calls w w') x \<Longrightarrow> rd m x = rd (mem w) x"
  from r have l: "libqasan_wcslen (mem w) p = Some r" and w': "qlog w' = qlog w @ [CheckLoad p (4 * (r + 1))]"
    by (auto simp: wcslen_hook_def hook_simps wchar_size_def sizeof_wchar_def Option.bind_eq_Some_conv)
  have eq': "rd m x = rd (mem w) x"
    if "load_checked [CheckLoad p (4 * (r + 1)), CheckLoad p (4 * (r + 1))] x" for x
    using eq [of x] that unfolding new_calls_append [OF w'] by auto
  obtain s where "wcstr (mem w) p s" "wcstr m p s" "r = of_nat (length s)"
    by (rule wide_checked [OF l l z eq'])
  then show "\<exists>w''. wcslen_hook (w\<lparr>mem := m\<rparr>) p = Some (r, w'')"
    using wcslen_loop_list [of m p 0 s] by (simp add: wcslen_hook_def libqasan_wcslen_def)
qed

lemma wcscmp_hook_loads:
  assumes z: "rd (mem w) NULL = None"
  shows "loads_ok load_checked (\<lambda>w. wcscmp_hook w p q) w"
proof (rule loads_okI)
  fix r w' m
  assume r: "wcscmp_hook w p q = Some (r, w')"
    and eq: "\<And>x. load_checked (new_calls w w') x \<Longrightarrow> rd m x = rd (mem w) x"
  from r obtain l1 l2 where l: "libqasan_wcslen (mem w) p = Some l1" "libqasan_wcslen (mem w) q = Some l2"
    and c: "libqasan_wcscmp (mem w) p q = Some r"
    and w': "qlog w' = qlog w @ [CheckLoad p (4 * (l1 + 1)), CheckLoad q (4 * (l2 + 1))]"
    by (auto simp: wcscmp_hook_def hook_simps wchar_size_def sizeof_wchar_def Option.bind_eq_Some_conv)
  have eq': "rd m x = rd (mem w) x"
    if "load_checked [CheckLoad p (4 * (l1 + 1)), CheckLoad q (4 * (l2 + 1))] x" for x
    using eq [of x] that unfolding new_calls_append [OF w'] .
  obtain s t where st: "wcstr (mem w) p s" "wcstr m p s" "wcstr (mem w) q t" "wcstr m q t"
    by (rule wide_checked [OF l z eq'])
  have "libqasan_wcscmp m p q = Some r"
    using wcscmp_cong [OF st(1,3,2,4)] c by simp
  then show "\<exists>w''. wcscmp_hook (w\<lparr>mem := m\<rparr>) p q = Some (r, w'')"
    using wcslen_loop_list [of m p 0 s] wcslen_loop_list [of m q 0 t] st
    by (simp add: wcscmp_hook_def libqasan_wcslen_def hook_simps)
qed

text \<open>The searches and the bounded functions.\<close>

lemma memchr_from_range:
  "memchr_from m s c i n = Some r \<Longrightarrow> r = NULL \<or> s + i \<le> r \<and> r < s + n \<and> r < addr_limit"
proof (induction m s c i n rule: memchr_from.induct)
  case (1 m s c i n)
  show ?case
  proof (cases "i < n")
    case True
    with 1(2) obtain b where b: "rd m (s + i) = Some b"
      and r: "(if b = c then Some (s + i) else memchr_from m s c (Suc i) n) = Some r"
      by (subst (asm) memchr_from.simps) (auto simp: Option.bind_eq_Some_conv)
    show ?thesis
    proof (cases "b = c")
      case False
      with r 1(1) [OF True b] show ?thesis by auto
    qed (use True r rd_Some_limit [OF b] in auto)
  next
    case False
    with 1(2) show ?thesis by (subst (asm) memchr_from.simps) simp
  qed
qed

lemma memchr_from_cong:
  "memchr_from m s c i n = Some r \<Longrightarrow>
    (\<And>x. s + i \<le> x \<Longrightarrow> (if r = NULL then x < s + n else x \<le> r) \<Longrightarrow> rd m' x = rd m x) \<Longrightarrow>
    memchr_from m' s c i n = Some r"
proof (induction m s c i n rule: memchr_from.induct)
  case (1 m s c i n)
  show ?case
  proof (cases "i < n")
    case True
    with 1(2) obtain b where b: "rd m (s + i) = Some b"
      and r: "(if b = c then Some (s + i) else memchr_from m s c (Suc i) n) = Some r"
      by (subst (asm) memchr_from.simps) (auto simp: Option.bind_eq_Some_conv)
    have "rd m' (s + i) = rd m (s + i)"
      by (rule 1(3)) (use True memchr_from_range [OF 1(2)] in auto)
    moreover have "memchr_from m' s c (Suc i) n = Some r" if "b \<noteq> c"
      by (rule 1(1) [OF True b that]) (use r that 1(3) in auto)
    ultimately show ?thesis using True b r by (subst memchr_from.simps) auto
  next
    case False
    with 1(2) show ?thesis by (subst (asm) memchr_from.simps, subst memchr_from.simps) simp
  qed
qed

lemma memchr_hook_loads: "loads_ok checked_or_end (\<lambda>w. memchr_hook w s c n) w"
proof (rule logged_loads [where f = "\<lambda>m. libqasan_memchr m s c n" and g = id
      and L = "\<lambda>r. [CheckLoad s (if r = NULL then n else of_nat (r - s))]"])
  fix r m
  assume r: "libqasan_memchr (mem w) s c n = Some r"
    and eq: "\<And>x. checked_or_end [CheckLoad s (if r = NULL then n else of_nat (r - s))] x \<Longrightarrow>
      rd m x = rd (mem w) x"
  define k where "k = (if r = NULL then n else of_nat (r - s))"
  have k: "s + unat k = (if r = NULL then s + unat n else r)"
  proof (cases "r = NULL")
    case False
    then have "s \<le> r" "r - s < addr_limit"
      using memchr_from_range [of "mem w" s "ucast c" 0 "unat n" r] r by (auto simp: libqasan_memchr_def)
    then show ?thesis using False unat_of_nat_addr [of "r - s"] unfolding k_def by simp
  qed (simp add: k_def)
  have "rd m x = rd (mem w) x" if "s \<le> x" "if r = NULL then x < s + unat n else x \<le> r" for x
  proof (rule eq [folded k_def])
    have "x \<le> s + unat k" using that(2) k by (cases "r = NULL") simp_all
    with that(1) show "checked_or_end [CheckLoad s k] x" unfolding checked_simps load_end_simps by simp linarith
  qed
  then show "libqasan_memchr m s c n = Some r"
    unfolding libqasan_memchr_def by (intro memchr_from_cong [OF r [unfolded libqasan_memchr_def]]) simp_all
qed (auto simp: memchr_hook_def hook_simps qsyscall_def split: Option.bind_split)

lemma memrchr_from_cong:
  "(\<And>x. s \<le> x \<Longrightarrow> x \<le> s + nat i \<Longrightarrow> rd m' x = rd m x) \<Longrightarrow> memrchr_from m' s c i = memrchr_from m s c i"
proof (induction m s c i rule: memrchr_from.induct)
  case (1 m s c i)
  show ?case
  proof (cases "0 \<le> i")
    case True
    have "rd m' (s + nat i) = rd m (s + nat i)" by (rule 1(2)) simp_all
    moreover have "memrchr_from m' s c (i - 1) = memrchr_from m s c (i - 1)"
      if "rd m (s + nat i) = Some b" "b \<noteq> c" for b
      by (rule 1(1) [OF True that]) (use 1(2) in auto)
    ultimately show ?thesis
      using True by (subst (1 2) memrchr_from.simps) (auto split: Option.bind_split)
  qed (subst (1 2) memrchr_from.simps, simp)
qed

lemma nat_sint_le: "nat (sint (n :: u64)) \<le> unat n"
proof (cases "0 \<le> sint n")
  case True
  have "sint n \<le> uint n" using sint_uint [of n] True
    by (simp add: signed_take_bit_eq_if_positive signed_take_bit_eq_if_negative
        take_bit_int_less_eq_self_iff split: if_splits)
  then show ?thesis by (simp add: nat_le_iff)
qed simp

lemma memrchr_hook_loads: "loads_ok checked_or_end (\<lambda>w. memrchr_hook w s c n) w"
proof (rule logged_loads [where f = "\<lambda>m. libqasan_memrchr m s c n" and g = id and L = "\<lambda>r. [CheckLoad s n]"])
  fix r m
  assume r: "libqasan_memrchr (mem w) s c n = Some r"
    and eq: "\<And>x. checked_or_end [CheckLoad s n] x \<Longrightarrow> rd m x = rd (mem w) x"
  have "rd m x = rd (mem w) x" if "s \<le> x" "x \<le> s + nat (sint n)" for x
    by (rule eq) (use that nat_sint_le [of n] in auto)
  then have "libqasan_memrchr m s c n = libqasan_memrchr (mem w) s c n"
    unfolding libqasan_memrchr_def by (rule memrchr_from_cong)
  with r show "libqasan_memrchr m s c n = Some r" by simp
qed (simp add: memrchr_hook_def hook_simps qsyscall_def)

lemma strnlen_loop_iff:
  "strnlen_loop m s n r = Some l \<longleftrightarrow> (\<exists>k\<le>n. l = r + of_nat k \<and>
     (\<forall>i<k. \<exists>b. rd m (s + i) = Some b \<and> b \<noteq> 0) \<and> (k < n \<longrightarrow> rd m (s + k) = Some 0))"
  (is "_ \<longleftrightarrow> (\<exists>k\<le>n. ?P m s n r k)")
proof (induction n arbitrary: s r)
  case (Suc n)
  have "(\<exists>k\<le>Suc n. ?P m s (Suc n) r k) \<longleftrightarrow>
      (\<exists>b. rd m s = Some b \<and> (if b = 0 then l = r else \<exists>k\<le>n. ?P m (Suc s) n (r + 1) k))"
    (is "?L \<longleftrightarrow> ?R")
  proof
    assume ?L
    then obtain k where k: "k \<le> Suc n" "?P m s (Suc n) r k" by blast
    show ?R
    proof (cases k)
      case (Suc j)
      with k have "?P m (Suc s) n (r + 1) j" by (auto simp: add_ac)
      moreover from k Suc obtain b where "rd m s = Some b" "b \<noteq> 0" by force
      ultimately show ?thesis using k(1) Suc by auto
    qed (use k in auto)
  next
    assume ?R
    then obtain b where b: "rd m s = Some b" and
      c: "if b = 0 then l = r else \<exists>k\<le>n. ?P m (Suc s) n (r + 1) k" by blast
    show ?L
    proof (cases "b = 0")
      case True
      with b c show ?thesis by (intro exI [of _ 0]) simp
    next
      case False
      with c obtain k where k: "k \<le> n" "?P m (Suc s) n (r + 1) k" by auto
      with False b have "?P m s (Suc n) r (Suc k)" by (auto simp: less_Suc_eq_0_disj add_ac)
      with k(1) show ?thesis by (intro exI [of _ "Suc k"]) simp
    qed
  qed
  moreover have "strnlen_loop m s (Suc n) r = Some l \<longleftrightarrow> ?R"
    by (auto simp: Suc.IH Option.bind_eq_Some_conv split: if_splits)
  ultimately show ?case by simp
qed auto

lemma strnlen_range:
  assumes "libqasan_strnlen m s n = Some l"
  shows "unat l \<le> unat n" and "unat l < unat n \<Longrightarrow> rd m (s + unat l) = Some 0"
    and "(\<And>x. s \<le> x \<Longrightarrow> x \<le> s + unat l \<Longrightarrow> rd m' x = rd m x) \<Longrightarrow> libqasan_strnlen m' s n = Some l"
proof -
  from assms obtain k where k: "k \<le> unat n" "l = of_nat k"
    and b: "\<forall>i<k. \<exists>b. rd m (s + i) = Some b \<and> b \<noteq> 0" and z: "k < unat n \<longrightarrow> rd m (s + k) = Some 0"
    by (auto simp: libqasan_strnlen_def strnlen_loop_iff)
  have u: "unat l = k" using k unat_less_addr_limit [of n] by (simp add: unat_of_nat_addr)
  show "unat l \<le> unat n" "unat l < unat n \<Longrightarrow> rd m (s + unat l) = Some 0" using k z u by auto
  assume eq: "\<And>x. s \<le> x \<Longrightarrow> x \<le> s + unat l \<Longrightarrow> rd m' x = rd m x"
  have "rd m' (s + i) = rd m (s + i)" if "i \<le> k" for i by (rule eq) (use that u in auto)
  with k b z show "libqasan_strnlen m' s n = Some l"
    unfolding libqasan_strnlen_def strnlen_loop_iff by (intro exI [of _ k]) auto
qed

lemma strnlen_hook_loads: "loads_ok checked_or_end (\<lambda>w. strnlen_hook w s n) w"
proof (rule logged_loads [where f = "\<lambda>m. libqasan_strnlen m s n" and g = id and L = "\<lambda>r. [CheckLoad s r]"])
  fix r m
  assume r: "libqasan_strnlen (mem w) s n = Some r"
    and eq: "\<And>x. checked_or_end [CheckLoad s r] x \<Longrightarrow> rd m x = rd (mem w) x"
  show "libqasan_strnlen m s n = Some r"
    by (rule strnlen_range(3) [OF r]) (rule eq, auto)
qed (simp add: strnlen_hook_def hook_simps qsyscall_def)

context char_fold begin

lemma strncmp_loop_cong:
  "(k < n \<longrightarrow> rd m (p + k) = Some 0) \<Longrightarrow> (j < n \<longrightarrow> rd m (q + j) = Some 0) \<Longrightarrow>
    (\<And>x. p \<le> x \<and> x \<le> p + k \<or> q \<le> x \<and> x \<le> q + j \<Longrightarrow> rd m' x = rd m x) \<Longrightarrow>
    strncmp_loop fold_char m' p q n = strncmp_loop fold_char m p q n"
proof (induction n arbitrary: p q k j)
  case (Suc n)
  have e: "rd m' p = rd m p" "rd m' q = rd m q" using Suc.prems(3) by auto
  have step: "strncmp_loop fold_char m' (Suc p) (Suc q) n = strncmp_loop fold_char m (Suc p) (Suc q) n"
    if "rd m p = Some b" "rd m q = Some c" "fold_char b = fold_char c" "fold_char b \<noteq> 0" for b c
  proof -
    have "b \<noteq> 0" "c \<noteq> 0" using that(3,4) by auto
    with that(1,2) Suc.prems(1,2) obtain k' j' where "k = Suc k'" "j = Suc j'"
      by (cases k; cases j) auto
    with Suc.prems show ?thesis by (intro Suc.IH [where k = k' and j = j']) auto
  qed
  show ?case
  proof (cases "rd m p")
    case b: (Some b)
    show ?thesis
    proof (cases "rd m q")
      case (Some c)
      with step [OF b] b show ?thesis by (simp add: e Let_def)
    qed (simp add: b e)
  qed (simp add: e)
qed simp

end

text \<open>The two bounded comparisons, as one pattern.\<close>

definition bounded_pair_hook ::
    "(memory \<Rightarrow> addr \<Rightarrow> addr \<Rightarrow> u64 \<Rightarrow> int option) \<Rightarrow> 'b qworld \<Rightarrow> addr \<Rightarrow> addr \<Rightarrow> u64 \<Rightarrow>
     (int \<times> 'b qworld) option" where
  "bounded_pair_hook f w p q n = do {
     l1 \<leftarrow> libqasan_strnlen (mem w) p n;
     l2 \<leftarrow> libqasan_strnlen (mem w) q n;
     r \<leftarrow> f (mem w) p q n;
     Some (r, w\<lparr>qlog := qlog w @ [CheckLoad p l1, CheckLoad q l2]\<rparr>)
   }"

lemma bounded_pair_hooks:
  "strncmp_hook w p q n = bounded_pair_hook libqasan_strncmp w p q n"
  "strncasecmp_hook w p q n = bounded_pair_hook libqasan_strncasecmp w p q n"
  by (simp_all add: bounded_pair_hook_def strncmp_hook_def strncasecmp_hook_def hook_simps qsyscall_def)

lemma bounded_pair_loads:
  assumes f: "\<And>m m' k j. (k < unat n \<longrightarrow> rd m (p + k) = Some 0) \<Longrightarrow> (j < unat n \<longrightarrow> rd m (q + j) = Some 0) \<Longrightarrow>
    (\<And>x. p \<le> x \<and> x \<le> p + k \<or> q \<le> x \<and> x \<le> q + j \<Longrightarrow> rd m' x = rd m x) \<Longrightarrow> f m' p q n = f m p q n"
  shows "loads_ok checked_or_end (\<lambda>w. bounded_pair_hook f w p q n) w"
proof (rule logged_loads [where g = "\<lambda>(l1, l2, r). r" and L = "\<lambda>(l1, l2, r). [CheckLoad p l1, CheckLoad q l2]"
      and f = "\<lambda>m. do { l1 \<leftarrow> libqasan_strnlen m p n; l2 \<leftarrow> libqasan_strnlen m q n; r \<leftarrow> f m p q n;
        Some (l1, l2, r) }"])
  fix y m
  assume "do { l1 \<leftarrow> libqasan_strnlen (mem w) p n; l2 \<leftarrow> libqasan_strnlen (mem w) q n;
      r \<leftarrow> f (mem w) p q n; Some (l1, l2, r) } = Some y"
    and eq: "\<And>x. checked_or_end (case y of (l1, l2, r) \<Rightarrow> [CheckLoad p l1, CheckLoad q l2]) x \<Longrightarrow>
      rd m x = rd (mem w) x"
  then obtain l1 l2 r where l1: "libqasan_strnlen (mem w) p n = Some l1"
    and l2: "libqasan_strnlen (mem w) q n = Some l2" and r: "f (mem w) p q n = Some r" and y: "y = (l1, l2, r)"
    by (auto simp: Option.bind_eq_Some_conv)
  have eq': "rd m x = rd (mem w) x"
    if "p \<le> x \<and> x \<le> p + unat l1 \<or> q \<le> x \<and> x \<le> q + unat l2" for x
    by (rule eq) (use that in \<open>auto simp: y\<close>)
  have "libqasan_strnlen m p n = Some l1" "libqasan_strnlen m q n = Some l2"
    by (rule strnlen_range(3) [OF l1], rule eq', simp) (rule strnlen_range(3) [OF l2], rule eq', simp)
  moreover have "f m p q n = f (mem w) p q n"
    by (rule f [where k = "unat l1" and j = "unat l2"])
      (use strnlen_range(2) [OF l1] strnlen_range(2) [OF l2] eq' in auto)
  ultimately show "do { l1 \<leftarrow> libqasan_strnlen m p n; l2 \<leftarrow> libqasan_strnlen m q n;
      r \<leftarrow> f m p q n; Some (l1, l2, r) } = Some y"
    using r y by simp
qed (simp add: bounded_pair_hook_def)

text \<open>\<open>memmem\<close> reads inside the two ranges that it asks to check first.\<close>

lemma memmem_loop_log:
  "memmem_loop w h e q nl = Some (r, w') \<Longrightarrow> \<exists>L. qlog w' = qlog w @ L"
proof (induction w h e q nl rule: memmem_loop.induct)
  case (1 w h e q nl)
  from 1(2) obtain a b f v where a: "rd (mem w) h = Some a" "rd (mem w) q = Some b"
    and v: "(if a = b then do { (r, w) \<leftarrow> memcmp_hook w h q nl; Some (r = 0, w) } else Some (False, w)) = Some (f, v)"
    and r: "(if f then Some (h, v) else if Suc h \<le> e then memmem_loop v (Suc h) e q nl else Some (NULL, v)) =
      Some (r, w')"
    by (subst (asm) memmem_loop.simps) (auto simp: Option.bind_eq_Some_conv)
  obtain L where L: "qlog v = qlog w @ L"
    using v by (auto simp: memcmp_hook_def hook_simps Option.bind_eq_Some_conv split: if_splits)
  show ?case
  proof (cases "f \<or> \<not> Suc h \<le> e")
    case False
    with r have "memmem_loop v (Suc h) e q nl = Some (r, w')" by simp
    from 1(1) [OF a v refl _ _ this] False L show ?thesis by auto
  qed (use r L in \<open>auto split: if_splits\<close>)
qed

lemma memmem_loop_cong:
  assumes "memmem_loop w h e q nl = Some (r, w')" and "h \<le> e" and "nl \<noteq> 0"
    and "\<And>x. h \<le> x \<and> x < e + unat nl \<or> q \<le> x \<and> x < q + unat nl \<Longrightarrow> rd (mem w2) x = rd (mem w) x"
  shows "\<exists>w''. memmem_loop w2 h e q nl = Some (r, w'')"
  using assms
proof (induction w h e q nl arbitrary: w2 rule: memmem_loop.induct)
  case (1 w h e q nl)
  have n: "0 < unat nl" using 1(4) by (simp add: unat_gt_0)
  from 1(2) obtain a b f v where a: "rd (mem w) h = Some a" "rd (mem w) q = Some b"
    and v: "(if a = b then do { (r, w) \<leftarrow> memcmp_hook w h q nl; Some (r = 0, w) } else Some (False, w)) = Some (f, v)"
    and r: "(if f then Some (h, v) else if Suc h \<le> e then memmem_loop v (Suc h) e q nl else Some (NULL, v)) =
      Some (r, w')"
    by (subst (asm) memmem_loop.simps) (auto simp: Option.bind_eq_Some_conv)
  have a2: "rd (mem w2) h = Some a" "rd (mem w2) q = Some b"
    using 1(5) [of h] 1(5) [of q] 1(3) n a by auto
  have "memcmp_loop (mem w2) h q (unat nl) = memcmp_loop (mem w) h q (unat nl)"
    by (rule memcmp_loop_cong) (use 1(3,5) in auto)
  then have "\<exists>v2. (if a = b then do { (r, w) \<leftarrow> memcmp_hook w2 h q nl; Some (r = 0, w) } else Some (False, w2)) =
      Some (f, v2) \<and> mem v2 = mem w2" and mv: "mem v = mem w"
    using v by (auto simp: memcmp_hook_def libqasan_memcmp_def hook_simps Option.bind_eq_Some_conv split: if_splits)
  then obtain v2 where v2: "(if a = b then do { (r, w) \<leftarrow> memcmp_hook w2 h q nl; Some (r = 0, w) }
      else Some (False, w2)) = Some (f, v2)" "mem v2 = mem w2" by blast
  have "memmem_loop w2 h e q nl =
      (if f then Some (h, v2) else if Suc h \<le> e then memmem_loop v2 (Suc h) e q nl else Some (NULL, v2))"
    using a2 v2(1) by (subst memmem_loop.simps) simp
  moreover have "\<exists>w''. memmem_loop v2 (Suc h) e q nl = Some (r, w'')" if "\<not> f" "Suc h \<le> e"
  proof (rule 1(1) [OF a v refl that _ that(2) 1(4)])
    show "memmem_loop v (Suc h) e q nl = Some (r, w')" using r that by simp
    show "rd (mem v2) x = rd (mem v) x" if "Suc h \<le> x \<and> x < e + unat nl \<or> q \<le> x \<and> x < q + unat nl" for x
      unfolding v2(2) mv by (rule 1(5)) (use that in auto)
  qed
  ultimately show ?case using r by (auto split: if_splits)
qed

lemma memmem_hook_loads: "loads_ok load_checked (\<lambda>w. memmem_hook w h hl q nl) w"
proof (rule loads_okI)
  fix r w' m
  let ?L = "\<lambda>w. qasan_load q nl (qasan_load h hl w)"
  assume run: "memmem_hook w h hl q nl = Some (r, w')"
    and eq: "\<And>x. load_checked (new_calls w w') x \<Longrightarrow> rd m x = rd (mem w) x"
  from run have f: "libqasan_memmem (?L w) h hl q nl = Some (r, w')" by (simp add: memmem_hook_def)
  have "\<exists>L. qlog w' = qlog (?L w) @ L"
    using f by (auto simp: libqasan_memmem_def memchr_hook_def hook_simps Option.bind_eq_Some_conv
        dest!: memmem_loop_log split: if_splits)
  then obtain L where "qlog w' = qlog w @ CheckLoad h hl # CheckLoad q nl # L"
    by (auto simp: hook_simps)
  note L = new_calls_append [OF this]
  have eq': "rd m x = rd (mem w) x" if "h \<le> x \<and> x < h + unat hl \<or> q \<le> x \<and> x < q + unat nl" for x
    by (rule eq) (use that in \<open>auto simp: L\<close>)
  have mems: "mem (?L w) = mem w" "mem (?L (w\<lparr>mem := m\<rparr>)) = m" by (simp_all add: hook_simps)
  consider "hl < nl" | "nl \<le> hl" "nl = 0" | "nl \<le> hl" "nl = 1" | "nl \<le> hl" "nl \<noteq> 0" "nl \<noteq> 1"
    by (meson not_le)
  then have "\<exists>w''. libqasan_memmem (?L (w\<lparr>mem := m\<rparr>)) h hl q nl = Some (r, w'')"
  proof cases
    case 3
    have nl: "\<not> hl < nl" "nl \<noteq> 0" using 3(1) by (simp only: not_less) (simp add: 3(2))
    from f [unfolded libqasan_memmem_def if_not_P [OF nl(1)] if_not_P [OF nl(2)] if_P [OF 3(2)]] obtain c where c: "rd (mem w) q = Some c" and mc: "libqasan_memchr (mem w) h (scast c) hl = Some r"
      by (auto simp: memchr_hook_def hook_simps Option.bind_eq_Some_conv)
    have "rd m q = Some c" using eq' [of q] c 3 by simp
    moreover have "libqasan_memchr m h (scast c) hl = Some r"
      unfolding libqasan_memchr_def
    proof (rule memchr_from_cong [OF mc [unfolded libqasan_memchr_def]])
      fix x assume "h + 0 \<le> x" "if r = NULL then x < h + unat hl else x \<le> r"
      with memchr_from_range [OF mc [unfolded libqasan_memchr_def]] show "rd m x = rd (mem w) x"
        by (intro eq') (auto split: if_splits)
    qed
    ultimately show ?thesis
      unfolding libqasan_memmem_def if_not_P [OF nl(1)] if_not_P [OF nl(2)] if_P [OF 3(2)]
      by (simp add: memchr_hook_def hook_simps)
  next
    case 4
    have nl: "\<not> hl < nl" using 4(1) by (simp only: not_less)
    note unf = libqasan_memmem_def if_not_P [OF nl] if_not_P [OF 4(2)] if_not_P [OF 4(3)]
    from f have l: "memmem_loop (?L w) h (h + unat (hl - nl)) q nl = Some (r, w')"
      unfolding unf .
    have "unat (hl - nl) + unat nl = unat hl" using 4(1) by (simp add: unat_sub word_le_nat_alt)
    then have "\<exists>w''. memmem_loop (?L (w\<lparr>mem := m\<rparr>)) h (h + unat (hl - nl)) q nl = Some (r, w'')"
      by (intro memmem_loop_cong [OF l]) (use 4 eq' in \<open>auto simp: mems\<close>)
    then show ?thesis unfolding unf .
  qed (use f in \<open>auto simp: libqasan_memmem_def\<close>)
  then show "\<exists>w''. memmem_hook (w\<lparr>mem := m\<rparr>) h hl q nl = Some (r, w'')"
    by (simp add: memmem_hook_def)
qed

lemma query_loads:
  assumes z: "rd (mem w) NULL = None"
  shows "loads_ok (\<lambda>L x. load_checked L x \<or> looks_past qu \<and> load_end L x) (run_query qu) w"
proof (cases qu)
  case (Q_memcmp p q n)
  have "loads_ok load_checked (\<lambda>w. memcmp_hook w p q n) w"
    by (rule block_pair_loads [where p = p and q = q and n = n and f = "\<lambda>m. libqasan_memcmp m p q n"])
      (auto simp: libqasan_memcmp_def memcmp_hook_def hook_simps qsyscall_def intro!: memcmp_loop_cong)
  then show ?thesis by (simp add: Q_memcmp loads_ok_def)
next
  case (Q_bcmp p q n)
  have "loads_ok load_checked (\<lambda>w. bcmp_hook w p q n) w"
    by (rule block_pair_loads [where p = p and q = q and n = n and f = "\<lambda>m. libqasan_bcmp m p q n"])
      (auto simp: libqasan_bcmp_def bcmp_hook_def hook_simps qsyscall_def intro!: bcmp_loop_cong)
  then show ?thesis by (simp add: Q_bcmp loads_ok_def)
next
  case (Q_memchr p c n)
  show ?thesis using loads_ok_map [OF memchr_hook_loads [of p c n w], of int] by (simp add: Q_memchr loads_ok_def)
next
  case (Q_memrchr p c n)
  show ?thesis using loads_ok_map [OF memrchr_hook_loads [of p c n w], of int] by (simp add: Q_memrchr loads_ok_def)
next
  case (Q_memmem p k q n)
  show ?thesis using loads_ok_map [OF memmem_hook_loads [of p k q n w], of int] by (simp add: Q_memmem loads_ok_def)
next
  case (Q_strnlen p n)
  show ?thesis using loads_ok_map [OF strnlen_hook_loads [of p n w], of uint] by (simp add: Q_strnlen loads_ok_def)
next
  case (Q_strncmp p q n)
  have "loads_ok checked_or_end (\<lambda>w. strncmp_hook w p q n) w" unfolding bounded_pair_hooks
    by (rule bounded_pair_loads) (unfold libqasan_strncmp_def, rule exact.strncmp_loop_cong)
  then show ?thesis by (simp add: Q_strncmp loads_ok_def)
next
  case (Q_strncasecmp p q n)
  have "loads_ok checked_or_end (\<lambda>w. strncasecmp_hook w p q n) w" unfolding bounded_pair_hooks
    by (rule bounded_pair_loads) (unfold libqasan_strncasecmp_def, rule nocase.strncmp_loop_cong)
  then show ?thesis by (simp add: Q_strncasecmp loads_ok_def)
next
  case (Q_strlen p)
  show ?thesis using loads_ok_map [OF strlen_hook_loads [OF z, of p], of uint] by (simp add: Q_strlen loads_ok_def)
next
  case (Q_strchr p c)
  show ?thesis using loads_ok_map [OF strchr_hook_loads [OF z, of p c], of int] by (simp add: Q_strchr loads_ok_def)
next
  case (Q_strrchr p c)
  show ?thesis using loads_ok_map [OF strrchr_hook_loads [OF z, of p c], of int] by (simp add: Q_strrchr loads_ok_def)
next
  case (Q_strcmp p q)
  have "loads_ok load_checked (\<lambda>w. strcmp_hook w p q) w" unfolding string_pair_hooks
    by (rule string_pair_loads [OF z]) (simp add: libqasan_strcmp_def exact.strcmp_list)
  then show ?thesis by (simp add: Q_strcmp loads_ok_def)
next
  case (Q_strcasecmp p q)
  have "loads_ok load_checked (\<lambda>w. strcasecmp_hook w p q) w" unfolding string_pair_hooks
    by (rule string_pair_loads [OF z]) (simp add: libqasan_strcasecmp_def nocase.strcmp_list)
  then show ?thesis by (simp add: Q_strcasecmp loads_ok_def)
next
  case (Q_strstr p q)
  have "loads_ok load_checked (\<lambda>w. strstr_hook w p q) w" unfolding string_pair_hooks
    by (rule string_pair_loads [OF z]) (simp add: libqasan_strstr_def exact.strstr_list)
  from loads_ok_map [OF this, of int] show ?thesis by (simp add: Q_strstr loads_ok_def)
next
  case (Q_strcasestr p q)
  have "loads_ok load_checked (\<lambda>w. strcasestr_hook w p q) w" unfolding string_pair_hooks
    by (rule string_pair_loads [OF z]) (simp add: libqasan_strcasestr_def nocase.strstr_list)
  from loads_ok_map [OF this, of int] show ?thesis by (simp add: Q_strcasestr loads_ok_def)
next
  case (Q_wcslen p)
  show ?thesis using loads_ok_map [OF wcslen_hook_loads [OF z, of p], of uint] by (simp add: Q_wcslen loads_ok_def)
next
  case (Q_wcscmp p q)
  show ?thesis using wcscmp_hook_loads [OF z, of p q] by (simp add: Q_wcscmp loads_ok_def)
qed

section \<open>Searching and copying\<close>

lemma memcmp_hook_mem: "memcmp_hook w p q n = Some (r, w') \<Longrightarrow> mem w' = mem w"
  by (auto simp: memcmp_hook_def hook_simps Option.bind_eq_Some_conv)

lemma memcmp_hook_list:
  assumes "bytes_at (mem w) p xs" "bytes_at (mem w) q ys" "length xs = unat n" "length ys = unat n"
  shows "\<exists>w'. memcmp_hook w p q n = Some (lex_sign xs ys, w') \<and> mem w' = mem w"
  using memcmp_loop_list [OF assms] by (simp add: memcmp_hook_def libqasan_memcmp_def hook_simps)

lemma lex_sign_eq_0: "lex_sign s t = 0 \<longleftrightarrow> s = t"
  by (simp add: lex_sign_def)

lemma first_at_short: "length s < length t \<Longrightarrow> first_at t s = None"
  by (induction s) (auto simp: first_at_Cons dest: prefix_length_le)

lemma memmem_loop_list:
  assumes ys: "bytes_at (mem w) q ys" "length ys = unat nl" "ys \<noteq> []"
  shows "bytes_at (mem w) h zs \<Longrightarrow> length ys \<le> length zs \<Longrightarrow>
    \<exists>w'. memmem_loop w h (h + (length zs - length ys)) q nl = Some (found_ptr h (first_at ys zs), w')"
  using ys(1)
proof (induction zs arbitrary: w h)
  case Nil
  with ys(3) show ?case by simp
next
  case (Cons c zs)
  obtain b ys' where b: "ys = b # ys'" using ys(3) by (cases ys) auto
  have "\<exists>w1. (if c = b then do {
         (r, w) \<leftarrow> memcmp_hook w h q nl;
         Some (r = 0, w)
       } else Some (False, w)) = Some (prefix ys (c # zs), w1) \<and> mem w1 = mem w"
  proof (cases "c = b")
    case True
    let ?xs = "take (length ys) (c # zs)"
    have "bytes_at (mem w) h ?xs"
      using Cons.prems(1,2) by (auto simp: bytes_at_nth)
    from memcmp_hook_list [OF this Cons.prems(3), of nl] Cons.prems(2) ys(2) obtain w1 where
      w1: "memcmp_hook w h q nl = Some (lex_sign ?xs ys, w1)" "mem w1 = mem w" by auto
    have "?xs = ys \<longleftrightarrow> prefix ys (c # zs)"
      using Cons.prems(2) by (metis append_take_drop_id prefixI take_is_prefix append_eq_conv_conj prefixE)
    with w1 True show ?thesis by (simp add: lex_sign_eq_0)
  qed (simp add: b)
  then obtain w1 where w1: "(if c = b then do {
         (r, w) \<leftarrow> memcmp_hook w h q nl;
         Some (r = 0, w)
       } else Some (False, w)) = Some (prefix ys (c # zs), w1)" "mem w1 = mem w" by blast
  define e where "e = h + (length (c # zs) - length ys)"
  have unf: "memmem_loop w h e q nl =
      (if prefix ys (c # zs) then Some (h, w1)
       else if Suc h \<le> e then memmem_loop w1 (Suc h) e q nl else Some (NULL, w1))"
    using Cons.prems(1,3) w1(1) by (subst memmem_loop.simps) (simp add: b cong: if_cong)
  have "\<exists>w'. memmem_loop w h e q nl = Some (found_ptr h (first_at ys (c # zs)), w')"
  proof (cases "prefix ys (c # zs)")
    case True
    then show ?thesis by (simp add: unf first_at_Cons)
  next
    case False
    show ?thesis
    proof (cases "length ys \<le> length zs")
      case True
      have e: "e = Suc h + (length zs - length ys)"
        using True by (simp add: e_def)
      have "\<exists>w'. memmem_loop w1 (Suc h) e q nl = Some (found_ptr (Suc h) (first_at ys zs), w')"
        unfolding e by (rule Cons.IH) (use Cons.prems True w1(2) in auto)
      moreover have "Suc h \<le> e" by (simp add: e)
      ultimately show ?thesis
        using False by (simp add: unf first_at_Cons found_ptr_Suc)
    next
      case short: False
      then have "\<not> Suc h \<le> e" by (simp add: e_def)
      with False short show ?thesis
        by (simp add: unf first_at_Cons first_at_short)
    qed
  qed
  then show ?case by (simp add: e_def)
qed

lemma memchr_hook_list:
  assumes "bytes_at (mem w) s bs" "length bs = unat n"
  shows "\<exists>w'. memchr_hook w s c n = Some (found_ptr s (first_at [ucast c] bs), w')"
  using memchr_from_list [of "mem w" s 0 bs "unat n" "ucast c"] assms
  by (simp add: memchr_hook_def libqasan_memchr_def)

section \<open>Properties\<close>


text \<open>C20. The result of an interposed comparison, search or length function depends
  only on bytes whose load it asked the sanitizer to check, and for \<open>memchr\<close>, \<open>memrchr\<close>,
  \<open>strnlen\<close>, \<open>strncmp\<close> and \<open>strncasecmp\<close> also on the byte right behind a checked range:
  in any memory that agrees with the process on those bytes, the call returns the same value.\<close>

theorem loads_checked:
  assumes "rd (mem w) NULL = None" and "run_query qu w = Some (r, w')"
    and "\<And>x. load_checked (new_calls w w') x \<or> looks_past qu \<and> load_end (new_calls w w') x \<Longrightarrow>
      rd m x = rd (mem w) x"
  shows "\<exists>w''. run_query qu (w\<lparr>mem := m\<rparr>) = Some (r, w'')"
  using query_loads [OF assms(1), of qu] assms(2,3) unfolding loads_ok_def by blast

text \<open>The byte behind the range matters: when \<open>memchr\<close> finds the character, it asks for a check
  of the bytes before it only, after it has read the byte itself.\<close>

theorem memchr_found_byte_unchecked:
  assumes "memchr_hook w s c n = Some (r, w')" and "r \<noteq> NULL"
    and "bytes_at (mem w) s bs" and "length bs = unat n"
  shows "rd (mem w) r = Some (ucast c) \<and> new_calls w w' = [CheckLoad s (of_nat (r - s))] \<and>
    \<not> load_checked (new_calls w w') r"
proof -
  from memchr_hook_list [OF assms(3,4), of c] assms(1)
  have r: "r = found_ptr s (first_at [ucast c] bs)" by simp
  with assms(2) obtain i where i: "first_at [ucast c] bs = Some i" "r = s + i"
    by (cases "first_at [ucast c] bs") auto
  then obtain zs where "drop i bs = ucast c # zs" by (auto simp: first_at_iff prefix_def)
  then have ib: "i < length bs" "bs ! i = ucast c"
    by (auto simp: nth_via_drop intro: ccontr)
  have n: "new_calls w w' = [CheckLoad s (of_nat (r - s))]"
    using assms(1,2) by (auto simp: memchr_hook_def hook_simps Option.bind_eq_Some_conv
        intro!: new_calls_append)
  have "unat (of_nat i :: u64) = i"
    using ib(1) assms(4) unat_less_addr_limit [of n] by (intro unat_of_nat_addr) simp
  then show ?thesis
    using n ib i assms(3) by (simp add: bytes_at_nth)
qed

text \<open>C32. \<open>memmem\<close> returns the first position at which the needle
  occurs in the haystack and NULL when it does not, whatever their lengths.\<close>

theorem memmem_first_occurrence:
  assumes "bytes_at (mem w) h xs" and "length xs = unat hl"
    and "bytes_at (mem w) n ys" and "length ys = unat nl"
  shows "\<exists>w'. memmem_hook w h hl n nl = Some (found_ptr h (first_at ys xs), w')"
proof -
  let ?w = "qasan_load n nl (qasan_load h hl w)"
  have b: "bytes_at (mem ?w) h xs" "bytes_at (mem ?w) n ys"
    using assms by (simp_all add: hook_simps)
  consider "hl < nl" | "nl \<le> hl" "nl = 0" | "nl \<le> hl" "nl = 1" | "nl \<le> hl" "nl \<noteq> 0" "nl \<noteq> 1"
    by (meson not_le)
  then have "\<exists>w'. libqasan_memmem ?w h hl n nl = Some (found_ptr h (first_at ys xs), w')"
  proof cases
    case 1
    then have "length xs < length ys" using assms by (simp add: word_less_nat_alt)
    with 1 show ?thesis by (simp add: libqasan_memmem_def first_at_short)
  next
    case 2
    then have "ys = []" using assms(4) by simp
    moreover have "first_at [] xs = Some 0" by (cases xs) (simp_all add: first_at_Cons)
    ultimately show ?thesis using 2 by (simp add: libqasan_memmem_def)
  next
    case 3
    then obtain c where c: "ys = [c]" using assms(4) by (cases ys) auto
    have "ucast (scast c :: u32) = c"
      by (rule bit_word_eqI) (simp add: bit_simps)
    with 3 c b(2) memchr_hook_list [OF b(1) assms(2), of "scast c"] show ?thesis
      by (auto simp: libqasan_memmem_def)
  next
    case 4
    then have ys: "ys \<noteq> []" "length ys \<le> length xs"
      using assms by (auto simp: word_le_nat_alt unat_eq_zero)
    have "unat (hl - nl) = length xs - length ys"
      using 4(1) assms by (simp add: unat_sub word_le_nat_alt)
    with 4 memmem_loop_list [OF b(2) assms(4) ys(1) b(1) ys(2)] show ?thesis
      by (auto simp: libqasan_memmem_def not_less)
  qed
  then show ?thesis by (simp add: memmem_hook_def)
qed

text \<open>On separate buffers \<open>strcat\<close> leaves the concatenation of the two strings
  at the destination and returns it.\<close>

theorem strcat_appends:
  assumes "strcat_hook w d s = Some (r, w')" and "rd (mem w) NULL = None"
    and "cstr (mem w) d as" and "cstr (mem w) s bs"
    and "d + length as + length bs < s \<or> s + length bs < d"
  shows "r = d \<and> cstr (mem w') d (as @ bs)"
proof -
  let ?m = "mem w" and ?a = "of_nat (length as) :: u64" and ?b = "of_nat (length bs) :: u64"
  have ua: "unat ?a = length as" and ub: "unat ?b = length bs"
    using cstr_length [OF assms(3)] cstr_length [OF assms(4)] by (simp_all add: unat_of_nat_addr)
  from assms(1,3,4) obtain m m' r' where c: "libqasan_memcpy ?m (d + length as) s ?b = Some (r', m)"
    and wr: "wr m (d + unat (?a + ?b)) 0 = Some m'" and w': "mem w' = m'" and r: "r = d"
    by (auto simp: strcat_hook_def libqasan_strlen_list hook_simps Option.bind_eq_Some_conv ua)
  have sb: "bytes_at ?m s bs" and as: "bytes_at ?m d as"
    using assms(3,4) by (simp_all add: cstr_iff_bytes_at bytes_at_append)
  from libqasan_memcpy_Some [OF c sb] ub assms(5)
  have m: "m = blit ?m (d + length as) bs" and mp: "mapped ?m (d + length as) (length bs)"
    by auto
  have b1: "bytes_at m d (as @ bs)"
    using bytes_at_blit [OF mp] bytes_at_frame [OF as mp] by (simp add: m bytes_at_append)
  have "0 < d" using assms(2,3) by (cases d; cases as) auto
  moreover have "d + length as + length bs \<le> addr_limit"
  proof (cases "length bs")
    case (Suc k)
    then have "rd ?m (d + length as + k) \<noteq> None" using mp by (simp add: mapped_def)
    then show ?thesis using Suc by (auto simp: rd_def split: if_splits)
  qed (use cstr_length [OF assms(3)] in simp)
  ultimately have "unat (?a + ?b) = length (as @ bs)"
    using unat_of_nat_addr [of "length as + length bs"] by simp
  then have at: "rd m' x = (if x = d + length (as @ bs) then Some 0 else rd m x)" for x
    using rd_wr [OF wr] by simp
  have "bytes_at m' d (as @ bs)"
    by (rule bytes_at_cong [OF b1]) (use at in auto)
  then have "bytes_at m' d ((as @ bs) @ [0])"
    using at [of "d + length (as @ bs)"] by (simp only: bytes_at_append) simp
  then show ?thesis
    using r w' cstr_nonzero [OF assms(3)] cstr_nonzero [OF assms(4)] by (simp add: cstr_iff_bytes_at)
qed

text \<open>When the source is shorter than the limit, \<open>strncpy\<close> copies it with
  its terminator and leaves the rest of the destination as it was, where the C standard asks for zero
  padding up to \<open>n\<close>; the sanitizer is told that all \<open>n\<close> bytes are stored.\<close>

theorem strncpy_does_not_pad:
  assumes "strncpy_hook w d s n = Some (r, w')" and "cstr (mem w) s bs"
    and "length bs < unat n" and "d + length bs < s \<or> s + length bs < d"
  shows "r = d \<and> cstr (mem w') d bs \<and> CheckStore d n \<in> set (new_calls w w') \<and>
    (\<forall>x. d + length bs < x \<longrightarrow> rd (mem w') x = rd (mem w) x)"
proof -
  let ?l = "of_nat (length bs) :: u64"
  have l: "length bs < addr_limit"
    using cstr_length [OF assms(2)] by simp
  then have ul: "unat ?l = length bs" by (rule unat_of_nat_addr)
  then have lt: "?l < n" using assms(3) by (simp add: word_less_nat_alt)
  have "unat (?l + 1) = Suc (length bs)"
    using unat_of_nat_addr [of "Suc (length bs)"] assms(3) unat_less_addr_limit [of n]
    by (simp add: add.commute)
  moreover from strnlen_loop_list [OF assms(2), of "unat n" 0] assms(3)
  have "libqasan_strnlen (mem w) s n = Some ?l"
    by (simp add: libqasan_strnlen_def)
  with assms(1) lt obtain m where c: "libqasan_memcpy (mem w) d s (?l + 1) = Some (r, m)"
    and w': "mem w' = m" "qlog w' = qlog w @ [CheckStore d n, CheckLoad s (?l + 1)]"
    by (auto simp: strncpy_hook_def hook_simps Let_def Option.bind_eq_Some_conv)
  moreover have "bytes_at (mem w) s (bs @ [0])" using assms(2) by (simp add: cstr_iff_bytes_at)
  ultimately have "r = d" and m: "m = blit (mem w) d (bs @ [0])" and mp: "mapped (mem w) d (length (bs @ [0]))"
    using libqasan_memcpy_Some [OF c, of "bs @ [0]"] assms(4) by auto
  moreover have "rd m x = rd (mem w) x" if "d + length bs < x" for x
    using that mp by (simp only: m, intro rd_blit_other) simp_all
  ultimately show ?thesis
    using w' bytes_at_blit [OF mp] cstr_nonzero [OF assms(2)]
    by (simp add: new_calls_append cstr_iff_bytes_at)
qed

text \<open>\<open>pvalloc\<close> masks its size with \<open>page_size - 1\<close> instead of rounding
  it up: from two pages on, the block it returns is smaller than the request.\<close>

theorem pvalloc_undersized:
  assumes "pvalloc_hook 4096 E w n = Some (p, w')" and "p \<noteq> NULL" and "8192 \<le> n"
  shows "\<exists>sz w''. libqasan_malloc_usable_size w' p = Some (sz, w'') \<and> sz < n"
proof -
  let ?n = "(n AND 4095) + 4096"
  have "n AND 4095 = take_bit 12 n"
    by (simp add: take_bit_eq_mask mask_eq_exp_minus_1)
  then have "unat (n AND 4095) < 4096"
    using take_bit_nat_less_exp [of 12 "unat n"] by (simp add: unsigned_take_bit_eq)
  then have un: "unat ?n = unat (n AND 4095) + 4096" "unat ?n < 8192"
    by (simp_all add: unat_word_ariths)
  from assms(1,2) obtain e where "libqasan_posix_memalign E w 4096 ?n = Some (e, Some p, w')"
    by (auto simp: pvalloc_hook_def libqasan_memalign_def Option.bind_eq_Some_conv split: option.splits)
  moreover from un(1) have n0: "?n \<noteq> 0" by auto
  ultimately have "libqasan_posix_memalign E w 4096 ?n = Some (0, Some p, w')"
    using posix_memalign_stored by metis
  from memalign_chunk [OF this n0] show ?thesis
    using un(2) assms(3) by (auto simp: word_less_nat_alt word_le_nat_alt)
qed

section \<open>Witnesses\<close>

text \<open>The texts of \<open>demo_mem\<close> in a process whose page zero is not mapped.\<close>

definition demo_world :: "nat qworld" where
  "demo_world = fresh_world\<lparr>mem := (\<lambda>x. if x = 0 then None else demo_mem x)\<rparr>"

lemma demo_world_simps [simp]:
  "mem demo_world = (\<lambda>x. if x = 0 then None else demo_mem x)" "qlog demo_world = []"
  by (simp_all add: demo_world_def fresh_world_def)

lemma demo_world_rd: "rd (mem demo_world) x = (if x = 0 then None else rd demo_mem x)"
  by (simp add: rd_def)

lemma demo_world_mapped: "0 < a \<Longrightarrow> a + k \<le> addr_limit \<Longrightarrow> mapped (mem demo_world) a k"
  by (auto simp: mapped_def demo_mem_def rd_def)

lemma demo_world_strings:
  "cstr (mem demo_world) 4096 [0x78, 0x61, 0x42, 0x61, 0x62]" "cstr (mem demo_world) 8192 [0x61, 0x42]"
  by (simp_all add: demo_mem_def rd_def addr_limit_def)

lemma demo_world_blocks:
  "bytes_at (mem demo_world) 4096 [0x78, 0x61, 0x42, 0x61, 0x62]"
  "bytes_at (mem demo_world) 8192 [0x61, 0x42]"
  by (simp_all add: demo_mem_def rd_def addr_limit_def)

lemma demo_NULL: "rd (mem demo_world) NULL = None"
  by (simp add: rd_def)


theorem loads_checked_witness:
  "\<exists>w''. run_query (Q_strlen 8192) (demo_world\<lparr>mem := (\<lambda>x. if x = 0 then None else
      if x = 9000 then Some 7 else demo_mem x)\<rparr>) = Some (2, w'')"
proof -
  have q: "run_query (Q_strlen 8192) demo_world = Some (2, qasan_load 8192 3 demo_world)"
    using libqasan_strlen_list [OF demo_world_strings(2)]
    by (simp add: strlen_hook_def)
  have n: "new_calls demo_world (qasan_load 8192 3 demo_world) = [CheckLoad 8192 3]"
    by (rule new_calls_append) (simp add: hook_simps)
  show ?thesis
    by (rule loads_checked [OF demo_NULL q]) (simp add: n, simp add: rd_def)
qed

theorem memchr_found_byte_unchecked_witness:
  "\<exists>w'. memchr_hook demo_world 4096 0x42 5 = Some (4098, w') \<and>
     new_calls demo_world w' = [CheckLoad 4096 2] \<and> \<not> load_checked (new_calls demo_world w') 4098"
proof -
  have l: "length [0x78, 0x61, 0x42, 0x61, 0x62 :: byte] = unat (5 :: u64)" by simp
  from memchr_hook_list [OF demo_world_blocks(1) l, of "0x42"] obtain w' where
    m: "memchr_hook demo_world 4096 0x42 5 = Some (4098, w')" by auto
  from memchr_found_byte_unchecked [OF m _ demo_world_blocks(1) l] m show ?thesis by auto
qed

theorem memmem_first_occurrence_witness:
  "\<exists>w'. memmem_hook demo_world 4096 5 8192 2 = Some (4097, w')"
  using memmem_first_occurrence [OF demo_world_blocks(1) _ demo_world_blocks(2), of 5 2]
  by (simp add: first_at_Cons)

theorem strcat_appends_witness:
  "\<exists>w'. strcat_hook demo_world 4096 8192 = Some (4096, w') \<and>
     cstr (mem w') 4096 [0x78, 0x61, 0x42, 0x61, 0x62, 0x61, 0x42]"
proof -
  have mp: "mapped (mem demo_world) 4101 2"
    by (rule demo_world_mapped) (simp_all add: addr_limit_def)
  then have c: "libqasan_memcpy (mem demo_world) 4101 8192 2 = Some (4101, blit (mem demo_world) 4101 [0x61, 0x42])"
    by (intro libqasan_memcpy_forward demo_world_blocks) simp_all
  have "rd (blit (mem demo_world) 4101 [0x61, 0x42]) 4103 \<noteq> None"
    using mp by (simp add: rd_blit numeral_2_eq_2) (simp add: rd_def addr_limit_def demo_mem_def)
  then have "\<exists>m'. wr (blit (mem demo_world) 4101 [0x61, 0x42]) 4103 0 = Some m'"
    by (simp add: wr_def)
  then obtain w' where s: "strcat_hook demo_world 4096 8192 = Some (4096, w')"
    using c libqasan_strlen_list [OF demo_world_strings(1)] libqasan_strlen_list [OF demo_world_strings(2)]
    by (auto simp: strcat_hook_def hook_simps)
  from strcat_appends [OF s demo_NULL demo_world_strings] s show ?thesis by auto
qed

theorem strncpy_does_not_pad_witness:
  "\<exists>w'. strncpy_hook demo_world 4096 8192 5 = Some (4096, w') \<and>
     cstr (mem w') 4096 [0x61, 0x42] \<and> rd (mem w') 4099 = Some 0x61"
proof -
  have "mapped (mem demo_world) 4096 3"
    by (rule demo_world_mapped) (simp_all add: addr_limit_def)
  moreover have "bytes_at (mem demo_world) 8192 [0x61, 0x42, 0]"
    by (simp add: demo_mem_def rd_def addr_limit_def)
  ultimately have "libqasan_memcpy (mem demo_world) 4096 8192 3 =
      Some (4096, blit (mem demo_world) 4096 [0x61, 0x42, 0])"
    by (intro libqasan_memcpy_forward) simp_all
  moreover have "libqasan_strnlen (mem demo_world) 8192 5 = Some 2"
    using strnlen_loop_list [OF demo_world_strings(2), of 5 0] by (simp add: libqasan_strnlen_def)
  ultimately obtain w' where s: "strncpy_hook demo_world 4096 8192 5 = Some (4096, w')"
    by (auto simp: strncpy_hook_def hook_simps Let_def)
  have "rd (mem demo_world) 4099 = Some 0x61"
    by (simp add: demo_mem_def rd_def addr_limit_def)
  with strncpy_does_not_pad [OF s demo_world_strings(2)] s show ?thesis by auto
qed

theorem pvalloc_undersized_witness:
  "\<exists>w' sz w''. pvalloc_hook 4096 bump_env fresh_world 8192 = Some (12288, w') \<and>
     libqasan_malloc_usable_size w' 12288 = Some (sz, w'') \<and> sz < 8192"
proof -
  have "\<exists>w'. libqasan_posix_memalign bump_env fresh_world 4096 4096 = Some (0, Some 12288, w')"
    by (auto simp: libqasan_posix_memalign_def Let_def layout_defs qasan_swap_def step_simps
      qasan_call_defs align_data_def bump_env_def fresh_world_def bump_malloc_def
      init_aligned_chunk_eq addr_limit_def builtin_memset_def wr_bytes_blit memalign_header_reads)
  then obtain w' where m: "pvalloc_hook 4096 bump_env fresh_world 8192 = Some (12288, w')"
    by (auto simp: pvalloc_hook_def libqasan_memalign_def)
  from pvalloc_undersized [OF m] m show ?thesis by auto
qed

end
