(* ===== verification/QPatch.thy ===== *)
theory QPatch
  imports QHooks
begin

text \<open>
  Runtime patching of libc (\<open>libqasan/patch.c\<close>): the jump stubs written over the libc
  routines, one per target, the search of \<open>/proc/self/maps\<close> for the executable mapping of
  libc and \<open>__libqasan_hotpatch\<close>. The stubs are judged by what the processor does with them:
  a step function per target decodes exactly the instructions that the stubs use.
\<close>

section \<open>The stubs\<close>

text \<open>\<open>mov rax, dest; jmp rax\<close>\<close>

definition patch_jump_x86_64 :: "memory \<Rightarrow> addr \<Rightarrow> u64 \<Rightarrow> (addr \<times> memory) option" where
  "patch_jump_x86_64 m a dest = do {
     m \<leftarrow> wr m a 0x48;
     m \<leftarrow> wr m (a + 1) 0xb8;
     m \<leftarrow> wr64 m (a + 2) dest;
     m \<leftarrow> wr m (a + 10) 0xff;
     m \<leftarrow> wr m (a + 11) 0xe0;
     Some (a + 12, m)
   }"

text \<open>\<open>mov eax, dest; jmp eax\<close>\<close>

definition patch_jump_i386 :: "memory \<Rightarrow> addr \<Rightarrow> u32 \<Rightarrow> (addr \<times> memory) option" where
  "patch_jump_i386 m a dest = do {
     m \<leftarrow> wr m a 0xb8;
     m \<leftarrow> wr32 m (a + 1) dest;
     m \<leftarrow> wr m (a + 5) 0xff;
     m \<leftarrow> wr m (a + 6) 0xe0;
     Some (a + 7, m)
   }"

text \<open>\<open>ldr r12, OFF; add pc, pc, r12; OFF: .word dest\<close>\<close>

definition patch_jump_arm :: "memory \<Rightarrow> addr \<Rightarrow> u32 \<Rightarrow> (addr \<times> memory) option" where
  "patch_jump_arm m a dest = do {
     m \<leftarrow> wr m a 0x0;
     m \<leftarrow> wr m (a + 1) 0xc0;
     m \<leftarrow> wr m (a + 2) 0x9f;
     m \<leftarrow> wr m (a + 3) 0xe5;
     m \<leftarrow> wr m (a + 4) 0xc;
     m \<leftarrow> wr m (a + 5) 0xf0;
     m \<leftarrow> wr m (a + 6) 0x8f;
     m \<leftarrow> wr m (a + 7) 0xe0;
     m \<leftarrow> wr32 m (a + 8) dest;
     Some (a + 12, m)
   }"

text \<open>\<open>ldr x16, OFF; br x16; OFF: .dword dest\<close>\<close>

definition patch_jump_aarch64 :: "memory \<Rightarrow> addr \<Rightarrow> u64 \<Rightarrow> (addr \<times> memory) option" where
  "patch_jump_aarch64 m a dest = do {
     m \<leftarrow> wr m a 0x50;
     m \<leftarrow> wr m (a + 1) 0x0;
     m \<leftarrow> wr m (a + 2) 0x0;
     m \<leftarrow> wr m (a + 3) 0x58;
     m \<leftarrow> wr m (a + 4) 0x0;
     m \<leftarrow> wr m (a + 5) 0x2;
     m \<leftarrow> wr m (a + 6) 0x1f;
     m \<leftarrow> wr m (a + 7) 0xd6;
     m \<leftarrow> wr64 m (a + 8) dest;
     Some (a + 16, m)
   }"

section \<open>The processors\<close>

text \<open>
  One step from a program counter and the scratch register. x86: \<open>REX.W B8\<close> (or
  \<open>B8\<close>) loads an immediate, \<open>FF E0\<close> jumps to it. A32 reads its program counter as
  the instruction's address plus 8; A64 literal loads and branches use the instruction's own address.
\<close>

definition x86_64_step :: "memory \<Rightarrow> addr \<times> u64 \<Rightarrow> (addr \<times> u64) option" where
  "x86_64_step m s = (case s of (pc, rax) \<Rightarrow> do {
     op \<leftarrow> fetch m pc 2;
     if op = [0x48, 0xb8] then do { v \<leftarrow> rd64 m (pc + 2); Some (pc + 10, v) }
     else if op = [0xff, 0xe0] then Some (unat rax, rax)
     else None
   })"

definition i386_step :: "memory \<Rightarrow> addr \<times> u32 \<Rightarrow> (addr \<times> u32) option" where
  "i386_step m s = (case s of (pc, eax) \<Rightarrow> do {
     op \<leftarrow> rd m pc;
     if op = 0xb8 then do { v \<leftarrow> rd32 m (pc + 1); Some (pc + 5, v) }
     else do {
       modrm \<leftarrow> rd m (pc + 1);
       if op = 0xff \<and> modrm = 0xe0 then Some (unat eax, eax) else None
     }
   })"

definition arm_step :: "memory \<Rightarrow> addr \<times> u32 \<Rightarrow> (addr \<times> u32) option" where
  "arm_step m s = (case s of (pc, r12) \<Rightarrow> do {
     op \<leftarrow> fetch m pc 4;
     if op = [0x00, 0xc0, 0x9f, 0xe5] then do { v \<leftarrow> rd32 m (pc + 8); Some (pc + 4, v) }
     else if op = [0x0c, 0xf0, 0x8f, 0xe0] then Some (unat (of_nat (pc + 8) + r12), r12)
     else None
   })"

definition aarch64_step :: "memory \<Rightarrow> addr \<times> u64 \<Rightarrow> (addr \<times> u64) option" where
  "aarch64_step m s = (case s of (pc, x16) \<Rightarrow> do {
     op \<leftarrow> fetch m pc 4;
     if op = [0x50, 0x00, 0x00, 0x58] then do { v \<leftarrow> rd64 m (pc + 8); Some (pc + 4, v) }
     else if op = [0x00, 0x02, 0x1f, 0xd6] then Some (unat x16, x16)
     else None
   })"

text \<open>Two steps from the start of a stub, whatever the scratch register holds, reach \<open>dest\<close>.\<close>

definition lands ::
    "(memory \<Rightarrow> addr \<times> 'r \<Rightarrow> (addr \<times> 'r) option) \<Rightarrow> memory \<Rightarrow> addr \<Rightarrow> addr \<Rightarrow> bool" where
  "lands step m a dest \<longleftrightarrow>
     (\<forall>r. \<exists>s r'. step m (a, r) = Some s \<and> step m s = Some (dest, r'))"

section \<open>A stub is a block of bytes\<close>

lemma wr_eq_wr_bytes: "wr m a b = wr_bytes m a [b]"
  by simp

lemma wr_bytes_append:
  "wr_bytes m a (xs @ ys) = do { m \<leftarrow> wr_bytes m a xs; wr_bytes m (a + length xs) ys }"
  by (induction xs arbitrary: m a) auto

definition stub_x86_64 :: "u64 \<Rightarrow> byte list" where
  "stub_x86_64 d = [0x48, 0xb8] @ le_bytes 8 d @ [0xff, 0xe0]"

definition stub_i386 :: "u32 \<Rightarrow> byte list" where
  "stub_i386 d = [0xb8] @ le_bytes 4 d @ [0xff, 0xe0]"

definition stub_arm :: "u32 \<Rightarrow> byte list" where
  "stub_arm d = [0x00, 0xc0, 0x9f, 0xe5, 0x0c, 0xf0, 0x8f, 0xe0] @ le_bytes 4 d"

definition stub_aarch64 :: "u64 \<Rightarrow> byte list" where
  "stub_aarch64 d = [0x50, 0x00, 0x00, 0x58, 0x00, 0x02, 0x1f, 0xd6] @ le_bytes 8 d"

lemmas stub_defs = stub_x86_64_def stub_i386_def stub_arm_def stub_aarch64_def

lemma stub_lengths [simp]:
  "length (stub_x86_64 d) = 12" "length (stub_i386 e) = 7" "length (stub_arm e) = 12"
  "length (stub_aarch64 d) = 16"
  by (simp_all add: stub_defs)

lemma patch_jump_x86_64_eq:
  "patch_jump_x86_64 m a d = map_option (Pair (a + 12)) (wr_bytes m a (stub_x86_64 d))"
  unfolding patch_jump_x86_64_def stub_x86_64_def wr64_def wr_bytes_append
  by (auto simp: wr_bytes_append add_ac split: Option.bind_split)

lemma patch_jump_i386_eq:
  "patch_jump_i386 m a d = map_option (Pair (a + 7)) (wr_bytes m a (stub_i386 d))"
  unfolding patch_jump_i386_def stub_i386_def wr32_def wr_bytes_append
  by (auto simp: wr_bytes_append add_ac split: Option.bind_split)

lemma patch_jump_arm_eq:
  "patch_jump_arm m a d = map_option (Pair (a + 12)) (wr_bytes m a (stub_arm d))"
  unfolding patch_jump_arm_def stub_arm_def wr32_def wr_bytes_append
  by (auto simp: wr_bytes_append add_ac eval_nat_numeral split: Option.bind_split)

lemma patch_jump_aarch64_eq:
  "patch_jump_aarch64 m a d = map_option (Pair (a + 16)) (wr_bytes m a (stub_aarch64 d))"
  unfolding patch_jump_aarch64_def stub_aarch64_def wr64_def wr_bytes_append
  by (auto simp: wr_bytes_append add_ac eval_nat_numeral split: Option.bind_split)

lemma bytes_at_fetch: "bytes_at m a (xs @ ys) \<Longrightarrow> n = length xs \<Longrightarrow> fetch m a n = Some xs"
  by (simp add: fetch_Some_iff bytes_at_append)

lemma stub_x86_64_lands:
  assumes "bytes_at m a (stub_x86_64 d)"
  shows "lands x86_64_step m a (unat d)"
proof -
  have f: "fetch m a 2 = Some [0x48, 0xb8]" "fetch m (a + 10) 2 = Some [0xff, 0xe0]"
    "rd64 m (a + 2) = Some d"
    using assms by (simp_all add: stub_x86_64_def bytes_at_append fetch_Some_iff rd64_le_bytes add_ac)
  then show ?thesis by (simp add: lands_def x86_64_step_def)
qed

lemma stub_i386_lands:
  assumes "bytes_at m a (stub_i386 d)"
  shows "lands i386_step m a (unat d)"
proof -
  have f: "rd m a = Some 0xb8" "rd m (a + 5) = Some 0xff" "rd m (a + 6) = Some 0xe0"
    "rd32 m (a + 1) = Some d"
    using assms by (simp_all add: stub_i386_def bytes_at_append fetch_Some_iff rd32_le_bytes add_ac)
  moreover have "(0xff :: byte) \<noteq> 0xb8" by simp
  ultimately show ?thesis by (simp add: lands_def i386_step_def add.commute)
qed

lemma stub_aarch64_lands:
  assumes "bytes_at m a (stub_aarch64 d)"
  shows "lands aarch64_step m a (unat d)"
proof -
  have f: "fetch m a 4 = Some [0x50, 0, 0, 0x58]" "fetch m (a + 4) 4 = Some [0, 2, 0x1f, 0xd6]"
    "rd64 m (a + 8) = Some d"
    using assms by (simp_all add: stub_aarch64_def bytes_at_append fetch_Some_iff rd64_le_bytes eval_nat_numeral)
  then show ?thesis by (simp add: lands_def aarch64_step_def)
qed

text \<open>The A32 stub adds the program counter to an absolute address.\<close>

lemma stub_arm_lands:
  assumes "bytes_at m a (stub_arm d)"
  shows "lands arm_step m a (unat (of_nat (a + 12) + d))"
proof -
  have f: "fetch m a 4 = Some [0, 0xc0, 0x9f, 0xe5]" "fetch m (a + 4) 4 = Some [0xc, 0xf0, 0x8f, 0xe0]"
    "rd32 m (a + 8) = Some d"
    using assms by (simp_all add: stub_arm_def bytes_at_append fetch_Some_iff rd32_le_bytes eval_nat_numeral)
  then show ?thesis by (simp add: lands_def arm_step_def add.commute [of 12])
qed

section \<open>Hot-patching\<close>

text \<open>One line of \<open>/proc/self/maps\<close> as \<open>sscanf\<close> returns it.\<close>

record map_line =
  nfields :: int
  map_min :: addr
  map_max :: addr
  flag_r :: byte
  flag_w :: byte
  flag_x :: byte
  path :: "byte list"

definition bytes_of :: "string \<Rightarrow> byte list" where
  "bytes_of s = map of_char s"

definition PROT_READ :: nat where "PROT_READ = 1"
definition PROT_WRITE :: nat where "PROT_WRITE = 2"
definition PROT_EXEC :: nat where "PROT_EXEC = 4"

text \<open>
  The surroundings: the lines of the map (\<open>None\<close> when it cannot be opened), whether
  \<open>mprotect\<close> succeeds, the addresses of libc's symbols (\<open>NULL\<close> for an absent one) and of
  the interposed functions. The state holds the static variables and the calls of \<open>mprotect\<close>.
\<close>

record 'd libc_env =
  maps :: "map_line list option"
  mprotect_ok :: "addr \<Rightarrow> nat \<Rightarrow> nat \<Rightarrow> bool"
  libc_sym :: "string \<Rightarrow> addr"
  hook_addr :: "string \<Rightarrow> 'd"

record patch_state =
  pmem :: memory
  libc_start :: addr
  libc_end :: addr
  libc_perms :: nat
  prot_log :: "(addr \<times> nat \<times> nat) list"

text \<open>\<open>%512s\<close> stores up to 513 bytes in a buffer of 512: a longer path overruns the stack.\<close>

fun find_libc_loop :: "map_line list \<Rightarrow> patch_state \<Rightarrow> patch_state option" where
  "find_libc_loop [] st = Some st"
| "find_libc_loop (l # ls) st =
     (if 512 \<le> length (path l) then None
      else if nfields l < 10 \<or> 11 < nfields l then find_libc_loop ls st
      else if flag_x l = of_char (CHR ''x'') \<and>
          (first_at (bytes_of ''/libc.so'') (path l) \<noteq> None \<or>
           first_at (bytes_of ''/libc-'') (path l) \<noteq> None)
      then Some (st\<lparr>libc_start := map_min l, libc_end := map_max l,
        libc_perms := (let p = PROT_EXEC;
          p = (if flag_w l = of_char (CHR ''w'') then p OR PROT_WRITE else p) in
          if flag_r l = of_char (CHR ''r'') then p OR PROT_READ else p)\<rparr>)
      else find_libc_loop ls st)"

definition find_libc :: "'d libc_env \<Rightarrow> patch_state \<Rightarrow> patch_state option" where
  "find_libc E st = (case maps E of None \<Rightarrow> Some st | Some ls \<Rightarrow> find_libc_loop ls st)"

definition hotpatch_fn :: "'d libc_env \<Rightarrow> string \<Rightarrow> (addr \<times> 'd) list" where
  "hotpatch_fn E f = (if libc_sym E f \<noteq> NULL then [(libc_sym E f, hook_addr E f)] else [])"

text \<open>The patches in the order in which the code makes them.\<close>

definition hotpatch_targets :: "'d libc_env \<Rightarrow> (addr \<times> 'd) list" where
  "hotpatch_targets E =
     concat (map (hotpatch_fn E) [''memcmp'', ''memmove'']) @
     (if libc_sym E ''memcpy'' \<noteq> NULL \<and> libc_sym E ''memmove'' \<noteq> libc_sym E ''memcpy''
      then [(libc_sym E ''memcpy'', hook_addr E ''memcpy'')] else []) @
     concat (map (hotpatch_fn E)
       [''memchr'', ''memrchr'', ''memmem'', ''bzero'', ''explicit_bzero'', ''mempcpy'', ''bcmp'',
        ''strchr'', ''strrchr'', ''strcasecmp'', ''strncasecmp'', ''strcat'', ''strcmp'',
        ''strncmp'', ''strcpy'', ''strncpy'', ''stpcpy'', ''strdup'', ''strlen'', ''strnlen'',
        ''strstr'', ''strcasestr'', ''wcslen'', ''wcscpy'', ''wcscmp''])"

fun patch_all ::
    "(memory \<Rightarrow> addr \<Rightarrow> 'd \<Rightarrow> (addr \<times> memory) option) \<Rightarrow> (addr \<times> 'd) list \<Rightarrow> memory \<Rightarrow>
     memory option" where
  "patch_all patch [] m = Some m"
| "patch_all patch ((a, d) # ps) m = do { (_, m) \<leftarrow> patch m a d; patch_all patch ps m }"

definition hotpatch ::
    "(memory \<Rightarrow> addr \<Rightarrow> 'd \<Rightarrow> (addr \<times> memory) option) \<Rightarrow> 'd libc_env \<Rightarrow> patch_state \<Rightarrow>
     patch_state option" where
  "hotpatch patch E st = do {
     st \<leftarrow> find_libc E st;
     let start = libc_start st; len = libc_end st - libc_start st in
     if start = NULL then Some st
     else do {
       let st = st\<lparr>prot_log := prot_log st @ [(start, len, PROT_READ OR PROT_WRITE OR PROT_EXEC)]\<rparr>;
       if \<not> mprotect_ok E start len (PROT_READ OR PROT_WRITE OR PROT_EXEC) then Some st
       else do {
         m \<leftarrow> patch_all patch (hotpatch_targets E) (pmem st);
         Some (st\<lparr>pmem := m, prot_log := prot_log st @ [(start, len, libc_perms st)]\<rparr>)
       }
     }
   }"

section \<open>What a target has to provide\<close>

locale jump_stub =
  fixes patch :: "memory \<Rightarrow> addr \<Rightarrow> 'd \<Rightarrow> (addr \<times> memory) option"
    and stub :: "'d \<Rightarrow> byte list"
    and stub_len :: nat
    and target :: "'d \<Rightarrow> addr"
    and cpu :: "memory \<Rightarrow> addr \<times> 'r \<Rightarrow> (addr \<times> 'r) option"
  assumes patch_stub: "patch m a d = map_option (Pair (a + stub_len)) (wr_bytes m a (stub d))"
    and stub_length: "length (stub d) = stub_len"
    and stub_lands: "bytes_at m a (stub d) \<Longrightarrow> lands cpu m a (target d)"
begin

lemma patch_Some:
  assumes "patch m a d = Some (r, m')"
  shows "r = a + stub_len" and "bytes_at m' a (stub d)"
    and "x < a \<or> a + stub_len \<le> x \<Longrightarrow> rd m' x = rd m x"
proof -
  from assms have w: "wr_bytes m a (stub d) = Some m'" and "r = a + stub_len"
    by (auto simp: patch_stub)
  then show "r = a + stub_len" by simp
  from wr_bytes_Some [OF w] show "bytes_at m' a (stub d)"
    by (auto intro: bytes_at_blit)
  from wr_bytes_Some [OF w] show "rd m' x = rd m x" if "x < a \<or> a + stub_len \<le> x"
    using that by (auto simp: stub_length intro: rd_blit_other)
qed

lemma patch_all_frame:
  assumes "patch_all patch ps m = Some m'" and "\<forall>(b, e)\<in>set ps. x < b \<or> b + stub_len \<le> x"
  shows "rd m' x = rd m x"
  using assms
proof (induction ps arbitrary: m)
  case (Cons p ps)
  obtain b e where p: "p = (b, e)" by (cases p)
  with Cons.prems obtain r m1 where m1: "patch m b e = Some (r, m1)"
    and l: "patch_all patch ps m1 = Some m'"
    by (auto simp: Option.bind_eq_Some_conv)
  have "rd m' x = rd m1 x" by (rule Cons.IH [OF l]) (use Cons.prems(2) in simp)
  also have "\<dots> = rd m x" using patch_Some(3) [OF m1, of x] Cons.prems(2) p by simp
  finally show ?case .
qed simp

text \<open>Of the patches that touch a place, the last one decides where it jumps.\<close>

lemma patch_all_lands:
  assumes "patch_all patch (xs @ (a, d) # ys) m = Some m'"
    and "\<forall>(b, e)\<in>set ys. b + stub_len \<le> a \<or> a + stub_len \<le> b"
  shows "lands cpu m' a (target d)"
  using assms(1)
proof (induction xs arbitrary: m)
  case Nil
  then obtain r m1 where m1: "patch m a d = Some (r, m1)" and l: "patch_all patch ys m1 = Some m'"
    by (auto simp: Option.bind_eq_Some_conv)
  have "rd m' x = rd m1 x" if "a \<le> x" "x < a + stub_len" for x
    by (rule patch_all_frame [OF l]) (use assms(2) that in fastforce)
  then have "bytes_at m' a (stub d)"
    using bytes_at_cong [OF patch_Some(2) [OF m1]] by (simp add: stub_length)
  then show ?case by (rule stub_lands)
next
  case (Cons x xs)
  then show ?case by (cases x) (auto simp: Option.bind_eq_Some_conv)
qed

lemma hotpatch_lands:
  assumes "hotpatch patch E st = Some st'" and "find_libc E st = Some st1"
    and "libc_start st1 \<noteq> NULL"
    and "mprotect_ok E (libc_start st1) (libc_end st1 - libc_start st1)
      (PROT_READ OR PROT_WRITE OR PROT_EXEC)"
    and "hotpatch_targets E = xs @ (a, d) # ys"
    and "\<forall>(b, e)\<in>set ys. b + stub_len \<le> a \<or> a + stub_len \<le> b"
  shows "lands cpu (pmem st') a (target d) \<and>
    last (prot_log st') = (libc_start st1, libc_end st1 - libc_start st1, libc_perms st1)"
proof -
  from assms(1-5) obtain m' where "patch_all patch (xs @ (a, d) # ys) (pmem st1) = Some m'"
    and "pmem st' = m'"
    and "last (prot_log st') = (libc_start st1, libc_end st1 - libc_start st1, libc_perms st1)"
    by (auto simp: hotpatch_def Let_def Option.bind_eq_Some_conv)
  with patch_all_lands [of xs a d ys "pmem st1" m'] assms(6) show ?thesis by simp
qed

end

interpretation x86_64: jump_stub patch_jump_x86_64 stub_x86_64 12 unat x86_64_step
  by unfold_locales (simp_all add: patch_jump_x86_64_eq stub_x86_64_lands)

interpretation i386: jump_stub patch_jump_i386 stub_i386 7 unat i386_step
  by unfold_locales (simp_all add: patch_jump_i386_eq stub_i386_lands)

interpretation aarch64: jump_stub patch_jump_aarch64 stub_aarch64 16 unat aarch64_step
  by unfold_locales (simp_all add: patch_jump_aarch64_eq stub_aarch64_lands)

section \<open>Properties\<close>

lemma lands_unique: "lands step m a x \<Longrightarrow> lands step m a y \<Longrightarrow> x = y"
  by (auto simp: lands_def) (metis option.inject prod.inject)

text \<open>C25. On x86-64, once libc's mapping is found and made writable, executing a
  patched routine from its first byte reaches the interposed function, for every patch that no later
  patch overlaps (of the patches at one address, the last one counts); the mapping is then given the
  permissions read from the map.\<close>

theorem hotpatch_redirects:
  assumes "hotpatch patch_jump_x86_64 E st = Some st'" and "find_libc E st = Some st1"
    and "libc_start st1 \<noteq> NULL"
    and "mprotect_ok E (libc_start st1) (libc_end st1 - libc_start st1)
      (PROT_READ OR PROT_WRITE OR PROT_EXEC)"
    and "hotpatch_targets E = xs @ (a, d) # ys"
    and "\<forall>(b, e)\<in>set ys. b + 12 \<le> a \<or> a + 12 \<le> b"
  shows "lands x86_64_step (pmem st') a (unat d) \<and>
    last (prot_log st') = (libc_start st1, libc_end st1 - libc_start st1, libc_perms st1)"
  using assms by (rule x86_64.hotpatch_lands)

text \<open>On 32-bit ARM the stub adds the program counter to the absolute address it
  loads: execution reaches \<open>dest + addr + 12\<close>, which is not \<open>dest\<close> unless that offset
  is 0 modulo \<open>2 ^ 32\<close>.\<close>

theorem arm_stub_misses:
  assumes "patch_jump_arm m a d = Some (r, m')"
  shows "lands arm_step m' a (unat (of_nat (a + 12) + d)) \<and>
    (lands arm_step m' a (unat d) \<longleftrightarrow> of_nat (a + 12) = (0 :: u32))"
proof -
  from assms have "wr_bytes m a (stub_arm d) = Some m'"
    by (auto simp: patch_jump_arm_eq)
  from wr_bytes_Some [OF this] have "bytes_at m' a (stub_arm d)"
    by (auto intro: bytes_at_blit)
  then have l: "lands arm_step m' a (unat (of_nat (a + 12) + d))" by (rule stub_arm_lands)
  moreover have "of_nat (a + 12) + d = d \<longleftrightarrow> of_nat (a + 12) = (0 :: u32)"
    by (simp only: add_cancel_left_left)
  ultimately show ?thesis
    using lands_unique [OF l, of "unat d"] by (metis word_unat_eq_iff)
qed

section \<open>Witnesses\<close>

lemma first_at_self: "first_at t t = Some 0"
  by (cases t) (simp_all add: first_at_Cons)

definition demo_libc :: "u64 libc_env" where
  "demo_libc = \<lparr>maps = Some [\<lparr>nfields = 11, map_min = 8192, map_max = 16384, flag_r = of_char (CHR ''r''),
     flag_w = 0, flag_x = of_char (CHR ''x''), path = bytes_of ''/libc.so''\<rparr>],
     mprotect_ok = (\<lambda>_ _ _. True), libc_sym = (\<lambda>f. if f = ''strlen'' then 8192 else 0),
     hook_addr = (\<lambda>_. 0x4000)\<rparr>"

definition demo_patch_state :: patch_state where
  "demo_patch_state = \<lparr>pmem = (\<lambda>_. Some 0), libc_start = 0, libc_end = 0, libc_perms = 0, prot_log = []\<rparr>"

theorem hotpatch_redirects_witness:
  "\<exists>st'. hotpatch patch_jump_x86_64 demo_libc demo_patch_state = Some st' \<and>
     lands x86_64_step (pmem st') 8192 0x4000 \<and> last (prot_log st') = (8192, 8192, 5)"
proof -
  let ?st1 = "demo_patch_state\<lparr>libc_start := 8192, libc_end := 16384, libc_perms := 5\<rparr>"
  have f: "find_libc demo_libc demo_patch_state = Some ?st1"
    by (simp add: find_libc_def demo_libc_def demo_patch_state_def first_at_self bytes_of_def
        PROT_READ_def PROT_WRITE_def PROT_EXEC_def)
  have t: "hotpatch_targets demo_libc = [] @ (8192, 0x4000) # []"
    by (simp add: hotpatch_targets_def hotpatch_fn_def demo_libc_def)
  have mp: "mapped (pmem ?st1) 8192 (length (stub_x86_64 0x4000))"
    by (simp add: demo_patch_state_def addr_limit_def)
  have ok: "mprotect_ok demo_libc (libc_start ?st1) (libc_end ?st1 - libc_start ?st1)
      (PROT_READ OR PROT_WRITE OR PROT_EXEC)" "libc_start ?st1 \<noteq> NULL"
    by (simp_all add: demo_libc_def)
  from ok f t wr_bytes_blit [OF mp] obtain st' where
    h: "hotpatch patch_jump_x86_64 demo_libc demo_patch_state = Some st'"
    by (auto simp: hotpatch_def Let_def patch_jump_x86_64_eq)
  from hotpatch_redirects [OF h f ok(2,1) t] h show ?thesis by auto
qed

theorem arm_stub_misses_witness:
  "\<exists>m'. patch_jump_arm (\<lambda>_. Some 0) 0x1000 0x4000 = Some (0x100c, m') \<and>
     lands arm_step m' 0x1000 0x500c \<and> \<not> lands arm_step m' 0x1000 0x4000"
proof -
  have "mapped (\<lambda>_. Some 0) 0x1000 (length (stub_arm 0x4000))"
    by (simp add: addr_limit_def)
  from wr_bytes_blit [OF this] obtain m' where
    p: "patch_jump_arm (\<lambda>_. Some 0) 0x1000 0x4000 = Some (0x100c, m')"
    by (auto simp: patch_jump_arm_eq)
  from arm_stub_misses [OF p] p show ?thesis by auto
qed

end
