(* ===== verification/QInit.thy ===== *)
theory QInit
  imports QPatch
begin

text \<open>
  Start-up of the injected library (\<open>libqasan/libqasan.c\<close>, \<open>__libqasan_init_hooks\<close> of
  \<open>hooks.c\<close>) and the un-instrumented \<open>getenv\<close> of \<open>uninstrument.c\<close>. The environment,
  the dynamic linker and the text of \<open>/proc/self/maps\<close> are fields of \<open>init_env\<close>.
\<close>

section \<open>Start-up\<close>

record init_env =
  env_set :: "string \<Rightarrow> bool"
  dlsym_found :: "string \<Rightarrow> bool"
  self_maps :: "byte list"

record 'b init_state =
  is_initialized :: bool
  qasan_log :: bool
  log_lines :: "byte list list"
  process :: "'b qworld"
  patches :: patch_state

text \<open>\<open>ASSERT_DLSYM\<close> aborts when the symbol is missing.\<close>

definition libqasan_init_hooks :: "init_env \<Rightarrow> 'b qworld \<Rightarrow> 'b qworld option" where
  "libqasan_init_hooks I w =
     (let w = libqasan_init_malloc w in
      if list_all (dlsym_found I) [''fgets'', ''atoi'', ''atol'', ''atoll''] then Some w else None)"

text \<open>
  The loop of \<open>__libqasan_print_maps\<close> over the bytes of its buffer: \<open>line\<close> is NULL
  (\<open>None\<close>) or the text since the start of the current line.
\<close>

fun maps_loop :: "byte list \<Rightarrow> byte list option \<Rightarrow> byte list list \<Rightarrow> byte list option \<times> byte list list" where
  "maps_loop [] line out = (line, out)"
| "maps_loop (c # cs) line out =
     (let l = (case line of None \<Rightarrow> [] | Some l \<Rightarrow> l) in
      if c = 10 then maps_loop cs None (out @ [l]) else maps_loop cs (Some (l @ [c])) out)"

text \<open>At most 4095 bytes are read; the text ends at the first zero byte.\<close>

definition print_maps :: "byte list \<Rightarrow> byte list list" where
  "print_maps content =
     (case maps_loop (takeWhile (\<lambda>c. c \<noteq> 0) (take 4095 content)) None [] of
        (None, out) \<Rightarrow> out
      | (Some l, out) \<Rightarrow> out @ [l])"

text \<open>
  \<open>getenv(name) != NULL\<close>: \<open>getenv\<close> is itself interposed (by \<open>uninstrument.c\<close>,
  modelled below) and switches the sanitizer around the lookup.
\<close>

definition env_query :: "init_env \<Rightarrow> string \<Rightarrow> 'b qworld \<Rightarrow> bool \<times> 'b qworld" where
  "env_query I name w =
     (let (state, w) = qasan_swap QASAN_DISABLED w;
          (_, w) = qasan_swap state w
      in (env_set I name, w))"

definition hotpatch_wanted :: "init_env \<Rightarrow> 'b qworld \<Rightarrow> bool \<times> 'b qworld" where
  "hotpatch_wanted I w =
     (let (b, w) = env_query I ''AFL_INST_LIBS'' w
      in if b then (True, w) else env_query I ''QASAN_HOTPACH'' w)"

definition libqasan_init ::
    "(patch_state \<Rightarrow> patch_state option) \<Rightarrow> init_env \<Rightarrow> 'b init_state \<Rightarrow> 'b init_state option" where
  "libqasan_init do_hotpatch I st =
     (if is_initialized st then Some st
      else do {
        w \<leftarrow> libqasan_init_hooks I (process st);
        let (wanted, w) = hotpatch_wanted I w;
        ps \<leftarrow> (if wanted then do_hotpatch (patches st) else Some (patches st));
        let (log_on, w) = env_query I ''QASAN_LOG'' w;
        Some (st\<lparr>is_initialized := True, qasan_log := log_on,
          log_lines := log_lines st @ (if log_on then print_maps (self_maps I) else []),
          process := w, patches := ps\<rparr>)
      })"

text \<open>\<open>__libc_start_main\<close> initialises the library, then calls libc's own.\<close>

definition libc_start_main ::
    "(patch_state \<Rightarrow> patch_state option) \<Rightarrow> init_env \<Rightarrow> ('b init_state \<Rightarrow> 'r) \<Rightarrow> 'b init_state \<Rightarrow> 'r option" where
  "libc_start_main do_hotpatch I orig st = do {
     st \<leftarrow> libqasan_init do_hotpatch I st;
     Some (orig st)
   }"

text \<open>\<open>HOOK_UNINSTRUMENT(char *, getenv, (const char *, name))\<close>\<close>

definition getenv_hook ::
    "(memory \<Rightarrow> addr \<Rightarrow> addr option) \<Rightarrow> 'b qworld \<Rightarrow> addr \<Rightarrow> (addr \<times> 'b qworld) option" where
  "getenv_hook libc_getenv w name = do {
     let (state, w) = qasan_swap QASAN_DISABLED w;
     r \<leftarrow> libc_getenv (mem w) name;
     let (_, w) = qasan_swap state w;
     Some (r, w)
   }"

section \<open>Initialisation happens once\<close>

lemma env_query_w:
  "snd (env_query I name w) = w\<lparr>qlog := qlog w @ [SwapState QASAN_DISABLED, SwapState 0]\<rparr>"
  by (simp add: env_query_def qasan_swap_def qsyscall_def)

lemma hotpatch_wanted_w:
  "\<exists>L. snd (hotpatch_wanted I w) = w\<lparr>qlog := qlog w @ L\<rparr>"
  using env_query_w [of I "''AFL_INST_LIBS''" w]
    env_query_w [of I "''QASAN_HOTPACH''" "snd (env_query I ''AFL_INST_LIBS'' w)"]
  by (cases "env_query I ''AFL_INST_LIBS'' w") (auto simp: hotpatch_wanted_def)

lemma libqasan_init_Some:
  assumes "libqasan_init hp I st = Some st'" and "\<not> is_initialized st"
  shows "is_initialized st'" and "malloc_initialized (process st')"
    and "asan_on (process st') = asan_on (process st)"
proof -
  obtain w1 where h: "libqasan_init_hooks I (process st) = Some w1"
    using assms by (cases "libqasan_init_hooks I (process st)") (simp_all add: libqasan_init_def)
  obtain b w2 where hw: "hotpatch_wanted I w1 = (b, w2)" by fastforce
  obtain c w3 where q: "env_query I ''QASAN_LOG'' w2 = (c, w3)" by fastforce
  from assms h hw q obtain ps where "st\<lparr>is_initialized := True, qasan_log := c,
      log_lines := log_lines st @ (if c then print_maps (self_maps I) else []),
      process := w3, patches := ps\<rparr> = st'"
    by (cases "if b then hp (patches st) else Some (patches st)")
      (simp_all add: libqasan_init_def)
  then have i: "is_initialized st'" "process st' = w3" by auto
  from hotpatch_wanted_w [of I w1] env_query_w [of I "''QASAN_LOG''" w2] hw q
  obtain L where "w3 = w1\<lparr>qlog := L\<rparr>" by auto
  moreover have "w1 = libqasan_init_malloc (process st)"
    using h by (simp add: libqasan_init_hooks_def Let_def split: if_splits)
  ultimately show "is_initialized st'" "malloc_initialized (process st')"
    "asan_on (process st') = asan_on (process st)"
    using i by (simp_all add: libqasan_init_malloc_def)
qed

lemma libqasan_init_idempotent:
  assumes "libqasan_init hp I st = Some st'"
  shows "libqasan_init hp I st' = Some st'"
proof (cases "is_initialized st")
  case False
  with libqasan_init_Some [OF assms] show ?thesis by (simp add: libqasan_init_def)
qed (use assms in \<open>simp add: libqasan_init_def\<close>)

lemma libc_start_main_after_constructor:
  "libqasan_init hp I st = Some st' \<Longrightarrow> libc_start_main hp I orig st' = Some (orig st')"
  by (simp add: libc_start_main_def libqasan_init_idempotent)

section \<open>The printed map\<close>

definition unlines :: "byte list list \<Rightarrow> byte list" where
  "unlines ls = concat (map (\<lambda>l. l @ [10]) ls)"

lemma maps_loop_text:
  "maps_loop cs line out = (line', out') \<Longrightarrow>
    unlines out @ (case line of None \<Rightarrow> [] | Some l \<Rightarrow> l) @ cs =
    unlines out' @ (case line' of None \<Rightarrow> [] | Some l \<Rightarrow> l)"
proof (induction cs arbitrary: line out)
  case (Cons c cs)
  define l where "l = (case line of None \<Rightarrow> [] | Some l \<Rightarrow> l)"
  show ?case
  proof (cases "c = 10")
    case True
    with Cons.prems have "maps_loop cs None (out @ [l]) = (line', out')" by (simp add: l_def)
    from Cons.IH [OF this] True show ?thesis by (simp add: unlines_def l_def)
  next
    case False
    with Cons.prems have "maps_loop cs (Some (l @ [c])) out = (line', out')" by (simp add: l_def)
    from Cons.IH [OF this] show ?thesis by (simp add: l_def)
  qed
qed simp

lemma maps_loop_lines:
  "maps_loop cs line out = (line', out') \<Longrightarrow> \<forall>l\<in>set out \<union> set_option line. 10 \<notin> set l \<Longrightarrow>
    \<forall>l\<in>set out' \<union> set_option line'. 10 \<notin> set l"
proof (induction cs arbitrary: line out)
  case (Cons c cs)
  define l where "l = (case line of None \<Rightarrow> [] | Some l \<Rightarrow> l)"
  have l: "10 \<notin> set l" using Cons.prems(2) by (cases line) (auto simp: l_def)
  show ?case
  proof (cases "c = 10")
    case True
    with Cons.prems have "maps_loop cs None (out @ [l]) = (line', out')" by (simp add: l_def)
    from Cons.IH [OF this] Cons.prems(2) l show ?thesis by simp
  next
    case False
    with Cons.prems have "maps_loop cs (Some (l @ [c])) out = (line', out')" by (simp add: l_def)
    from Cons.IH [OF this] Cons.prems(2) l False show ?thesis by simp
  qed
qed simp

section \<open>Properties\<close>

text \<open>C36. The lines logged for the process map are exactly its text cut at the
  newlines: put together again they give the text read, up to a newline added to an unterminated
  last line, and no line contains one.\<close>

theorem print_maps_lines:
  "(\<exists>nl\<in>{[], [10]}. unlines (print_maps content) = takeWhile (\<lambda>c. c \<noteq> 0) (take 4095 content) @ nl) \<and>
   list_all (\<lambda>l. 10 \<notin> set l) (print_maps content)"
proof -
  let ?t = "takeWhile (\<lambda>c. c \<noteq> 0) (take 4095 content)"
  obtain line out where m: "maps_loop ?t None [] = (line, out)" by fastforce
  from maps_loop_text [OF m] have t: "?t = unlines out @ (case line of None \<Rightarrow> [] | Some l \<Rightarrow> l)"
    by (simp add: unlines_def)
  have "print_maps content = out @ (case line of None \<Rightarrow> [] | Some l \<Rightarrow> [l])"
    by (simp add: print_maps_def m split: option.split)
  moreover from maps_loop_lines [OF m] have "\<forall>l\<in>set out \<union> set_option line. 10 \<notin> set l" by simp
  ultimately show ?thesis
    by (cases line) (auto simp: t unlines_def list_all_iff)
qed

end
