(* ===== verification/Forkserver.thy ===== *)
theory Forkserver
  imports QPrelude
begin

text \<open>
  The AFL++ fork server of \<open>libafl_targets/src/forkserver.c\<close>: the option word of the
  handshake, the shared-memory set-up and the server loop. The operating system and the parent
  process are one record of functions that answer each call from the history of events, so they may
  react to everything that has happened; nothing is assumed about their answers.
\<close>

section \<open>The option word\<close>

definition FS_OPT_ERROR :: u32 where "FS_OPT_ERROR = 0xf800008f"
definition FS_OPT_ENABLED :: u32 where "FS_OPT_ENABLED = 0x80000001"
definition FS_OPT_MAPSIZE :: u32 where "FS_OPT_MAPSIZE = 0x40000000"
definition FS_OPT_AUTODICT :: u32 where "FS_OPT_AUTODICT = 0x10000000"
definition FS_OPT_SHDMEM_FUZZ :: u32 where "FS_OPT_SHDMEM_FUZZ = 0x01000000"

definition FS_ERROR_SHM_OPEN :: int where "FS_ERROR_SHM_OPEN = 4"
definition FS_ERROR_SHMAT :: int where "FS_ERROR_SHMAT = 8"
definition FS_ERROR_MMAP :: int where "FS_ERROR_MMAP = 16"

definition FS_OPT_GET_ERROR :: "u32 \<Rightarrow> u32" where
  "FS_OPT_GET_ERROR x = drop_bit 8 (x AND 0x00ffff00)"

definition FS_OPT_SET_ERROR :: "u32 \<Rightarrow> u32" where
  "FS_OPT_SET_ERROR x = push_bit 8 (x AND 0x0000ffff)"

definition FS_OPT_MAX_MAPSIZE :: u32 where
  "FS_OPT_MAX_MAPSIZE = drop_bit 1 0x00fffffe + 1"

definition FS_OPT_GET_MAPSIZE :: "u32 \<Rightarrow> u32" where
  "FS_OPT_GET_MAPSIZE x = drop_bit 1 (x AND 0x00fffffe) + 1"

text \<open>The argument is a \<open>size_t\<close>.\<close>

definition FS_OPT_SET_MAPSIZE :: "u64 \<Rightarrow> u64" where
  "FS_OPT_SET_MAPSIZE x =
     (if x \<le> 1 \<or> ucast FS_OPT_MAX_MAPSIZE < x then 0 else push_bit 1 (x - 1))"

section \<open>State and surroundings\<close>

datatype event =
    E_error u32
  | E_hello u32
  | E_command u32
  | E_dict_len u32
  | E_dict nat u32 int
  | E_fork int
  | E_continue int
  | E_kill int
  | E_pid int
  | E_wait int bool u32
  | E_status u32

record fsrv =
  fs_mem :: memory
  area_ptr :: addr
  map_size :: u64
  token_start :: addr
  token_stop :: addr
  sharedmem_fuzzing :: bool
  fuzz_ptr :: addr
  fuzz_len_ptr :: addr
  already_initialized_shm :: bool
  already_initialized_forkserver :: bool
  child_pid :: int
  is_persistent :: bool
  was_killed :: u32
  already_read_first :: bool
  child_stopped :: bool
  history :: "event list"

text \<open>
  \<open>read_pipe\<close> is the word read from the control pipe (\<open>None\<close> when fewer than 4 bytes
  come), \<open>write_ok\<close> whether a 4-byte write is complete, \<open>write_dict\<close> the result of a
  longer write, \<open>fork_pid\<close> that of \<open>fork\<close>, \<open>wait_status\<close> that of
  \<open>waitpid\<close> (\<open>None\<close> when it fails), \<open>attach\<close> maps an environment variable's
  segment (by \<open>shmat\<close>, or \<open>shm_open\<close> and \<open>mmap\<close>).
\<close>

datatype attach_result = Attached addr | Open_failed | Map_failed

record fsrv_os =
  read_pipe :: "event list \<Rightarrow> u32 option"
  write_ok :: "event list \<Rightarrow> bool"
  write_dict :: "event list \<Rightarrow> nat \<Rightarrow> u32 \<Rightarrow> int"
  fork_pid :: "event list \<Rightarrow> int"
  wait_status :: "event list \<Rightarrow> int \<Rightarrow> bool \<Rightarrow> u32 option"
  fs_getenv :: "string \<Rightarrow> string option"
  use_mmap :: bool
  attach :: "string \<Rightarrow> attach_result"

text \<open>How a piece of the code ends: it falls through, exits, or returns to the program.\<close>

datatype verdict =
    Go fsrv
  | Exit int fsrv
  | Return_parent fsrv
  | Return_child fsrv

fun andthen :: "verdict \<Rightarrow> (fsrv \<Rightarrow> verdict) \<Rightarrow> verdict" where
  "andthen (Go s) f = f s"
| "andthen v f = v"

fun final :: "verdict \<Rightarrow> fsrv" where
  "final (Go s) = s"
| "final (Exit c s) = s"
| "final (Return_parent s) = s"
| "final (Return_child s) = s"

definition emit :: "event \<Rightarrow> fsrv \<Rightarrow> fsrv" where
  "emit e s = s\<lparr>history := history s @ [e]\<rparr>"

section \<open>Operations\<close>

definition afl_set_persistent_mode :: "bool \<Rightarrow> fsrv \<Rightarrow> fsrv" where
  "afl_set_persistent_mode mode s = s\<lparr>is_persistent := mode\<rparr>"

definition send_forkserver_error :: "fsrv_os \<Rightarrow> int \<Rightarrow> fsrv \<Rightarrow> fsrv" where
  "send_forkserver_error os error s =
     (if error = 0 \<or> error > 0xffff then s
      else let status = FS_OPT_ERROR OR FS_OPT_SET_ERROR (of_int error) in
        if write_ok os (history s) then emit (E_error status) s else s)"

text \<open>The handler of SIGTERM.\<close>

definition at_exit :: "fsrv \<Rightarrow> verdict" where
  "at_exit s =
     (if 0 < child_pid s
      then Exit 0 ((emit (E_kill (child_pid s)) s)\<lparr>child_pid := -1\<rparr>)
      else Exit 0 s)"

text \<open>The address \<open>(void *) -1\<close>.\<close>

definition MAP_FAILED :: addr where "MAP_FAILED = 2 ^ 64 - 1"

definition afl_map_shm :: "fsrv_os \<Rightarrow> fsrv \<Rightarrow> verdict option" where
  "afl_map_shm os s =
     (if already_initialized_shm s then Some (Go s)
      else
        let s = s\<lparr>already_initialized_shm := True\<rparr> in
        case fs_getenv os ''__AFL_SHM_ID'' of
          None \<Rightarrow> Some (Exit 1 (send_forkserver_error os FS_ERROR_SHM_OPEN s))
        | Some id_str \<Rightarrow>
            if use_mmap os then
              (case attach os id_str of
                 Open_failed \<Rightarrow> Some (Exit 1 (send_forkserver_error os FS_ERROR_SHM_OPEN s))
               | Map_failed \<Rightarrow> Some (Exit 2 (send_forkserver_error os FS_ERROR_MMAP s))
               | Attached p \<Rightarrow> do {
                   m \<leftarrow> wr (fs_mem s) p 1;
                   Some (Go (s\<lparr>area_ptr := p, fs_mem := m\<rparr>)) })
            else
              (case attach os id_str of
                 Attached p \<Rightarrow>
                   if p = NULL \<or> p = MAP_FAILED
                   then Some (Exit 1 (send_forkserver_error os FS_ERROR_SHMAT (s\<lparr>area_ptr := p\<rparr>)))
                   else do {
                     m \<leftarrow> wr (fs_mem s) p 1;
                     Some (Go (s\<lparr>area_ptr := p, fs_mem := m\<rparr>)) }
               | _ \<Rightarrow> Some (Exit 1 (send_forkserver_error os FS_ERROR_SHMAT
                   (s\<lparr>area_ptr := MAP_FAILED\<rparr>)))))"

definition map_input_shared_memory :: "fsrv_os \<Rightarrow> fsrv \<Rightarrow> verdict" where
  "map_input_shared_memory os s =
     (case fs_getenv os ''__AFL_SHM_FUZZ_ID'' of
        None \<Rightarrow> Exit 1 (send_forkserver_error os FS_ERROR_SHM_OPEN s)
      | Some id_str \<Rightarrow>
          (case attach os id_str of
             Attached shm \<Rightarrow>
               if shm = NULL \<or> shm = MAP_FAILED
               then Exit 1 (send_forkserver_error os FS_ERROR_SHM_OPEN s)
               else Go (s\<lparr>fuzz_len_ptr := shm, fuzz_ptr := shm + 4\<rparr>)
           | _ \<Rightarrow> Exit 1 (send_forkserver_error os FS_ERROR_SHM_OPEN s)))"

section \<open>The handshake\<close>

definition autodict_on :: "fsrv \<Rightarrow> bool" where
  "autodict_on s \<longleftrightarrow> token_start s \<noteq> NULL \<and> token_stop s \<noteq> NULL"

text \<open>The option word that is sent to the parent.\<close>

definition status_for_fsrv :: "fsrv \<Rightarrow> u32" where
  "status_for_fsrv s =
     (let st = 0;
          st = (if map_size s \<le> ucast FS_OPT_MAX_MAPSIZE
                then st OR (ucast (FS_OPT_SET_MAPSIZE (map_size s)) OR FS_OPT_MAPSIZE) else st);
          st = (if autodict_on s then st OR FS_OPT_AUTODICT else st);
          st = (if sharedmem_fuzzing s then st OR FS_OPT_SHDMEM_FUZZ else st)
      in if st \<noteq> 0 then st OR FS_OPT_ENABLED else st)"

text \<open>
  The dictionary loop: \<open>len\<close> bytes are left, \<open>offset\<close> have been sent. A result of less
  than 1 ends the process. A write never returns more than it was asked for; \<open>None\<close> stands for
  a system that does, where the unsigned \<open>len\<close> would wrap.
\<close>

lemma unat_of_int_small: "0 \<le> r \<Longrightarrow> r < 2 ^ 32 \<Longrightarrow> unat (of_int r :: u32) = nat r"
proof -
  assume "0 \<le> r" "r < 2 ^ 32"
  then have "uint (of_int r :: u32) = r" by (simp add: uint_word_of_int)
  then show ?thesis by (metis nat_uint_eq)
qed

lemma dict_len_decreases:
  fixes len :: u32
  assumes "1 \<le> ret" and "ret \<le> uint len"
  shows "unat (len - of_int ret) = unat len - nat ret" and "unat (len - of_int ret) < unat len"
proof -
  have "uint len < 2 ^ LENGTH(32)" by (rule unsigned_less)
  then have r: "uint (of_int ret :: u32) = ret"
    using assms by (simp add: uint_word_of_int)
  then have u: "unat (of_int ret :: u32) = nat ret" by (metis nat_uint_eq)
  have "(of_int ret :: u32) \<le> len" using r assms(2) by (simp add: word_le_def)
  then show "unat (len - of_int ret) = unat len - nat ret" by (simp add: unat_sub u)
  then show "unat (len - of_int ret) < unat len"
    using assms by (simp add: nat_uint_eq [symmetric] del: nat_uint_eq)
qed

function send_dict :: "fsrv_os \<Rightarrow> u32 \<Rightarrow> u32 \<Rightarrow> fsrv \<Rightarrow> verdict option" where
  "send_dict os len offset s =
     (if len = 0 then Some (Go s)
      else let ret = write_dict os (history s) (token_start s + unat offset) len in
        if ret < 1 then Some (Exit 1 s)
        else if uint len < ret then None
        else send_dict os (len - of_int ret) (offset + of_int ret)
          (emit (E_dict (token_start s + unat offset) len ret) s))"
  by pat_completeness auto
termination
  by (relation "measure (\<lambda>(os, len, offset, s). unat len)") (auto intro: dict_len_decreases)

definition option_set :: "u32 \<Rightarrow> u32 \<Rightarrow> bool" where
  "option_set x opt \<longleftrightarrow> x AND (FS_OPT_ENABLED OR opt) = FS_OPT_ENABLED OR opt"

definition send_autodict :: "fsrv_os \<Rightarrow> fsrv \<Rightarrow> verdict option" where
  "send_autodict os s =
     (let len = of_int (int (token_stop s) - int (token_start s)) :: u32 in
      if \<not> write_ok os (history s) then Some (Exit 1 s)
      else send_dict os len 0 (emit (E_dict_len len) s))"

definition exchange_options :: "fsrv_os \<Rightarrow> fsrv \<Rightarrow> verdict option" where
  "exchange_options os s =
     (if \<not> (sharedmem_fuzzing s \<or> autodict_on s) then Some (Go s)
      else case read_pipe os (history s) of
        None \<Rightarrow> Some (Exit 1 s)
      | Some w \<Rightarrow>
          let s = emit (E_command w) (s\<lparr>was_killed := w\<rparr>) in
          case (if option_set w FS_OPT_SHDMEM_FUZZ then map_input_shared_memory os s else Go s) of
            Go s \<Rightarrow>
              if option_set w FS_OPT_AUTODICT \<and> autodict_on s then send_autodict os s
              else Some (Go (if fuzz_ptr s = NULL then s\<lparr>already_read_first := True\<rparr> else s))
          | v \<Rightarrow> Some v)"

definition forkserver_hello :: "fsrv_os \<Rightarrow> fsrv \<Rightarrow> verdict option" where
  "forkserver_hello os s =
     (if already_initialized_forkserver s then Some (Return_parent s)
      else
        let s = s\<lparr>already_initialized_forkserver := True, already_read_first := False,
                  child_stopped := False\<rparr> in
        if \<not> write_ok os (history s) then Some (Return_parent s)
        else exchange_options os (emit (E_hello (status_for_fsrv s)) s))"

section \<open>The server loop\<close>

definition read_command :: "fsrv_os \<Rightarrow> fsrv \<Rightarrow> verdict" where
  "read_command os s =
     (if already_read_first s then Go (s\<lparr>already_read_first := False\<rparr>)
      else case read_pipe os (history s) of
        None \<Rightarrow> Exit 1 s
      | Some w \<Rightarrow> Go (emit (E_command w) (s\<lparr>was_killed := w\<rparr>)))"

definition reap_killed :: "fsrv_os \<Rightarrow> fsrv \<Rightarrow> verdict" where
  "reap_killed os s =
     (if child_stopped s \<and> was_killed s \<noteq> 0 then
        let s = s\<lparr>child_stopped := False\<rparr> in
        case wait_status os (history s) (child_pid s) False of
          None \<Rightarrow> Exit 1 s
        | Some st \<Rightarrow> Go (emit (E_wait (child_pid s) False st) s)
      else Go s)"

definition start_child :: "fsrv_os \<Rightarrow> fsrv \<Rightarrow> verdict" where
  "start_child os s =
     (if \<not> child_stopped s then
        let pid = fork_pid os (history s); s = emit (E_fork pid) (s\<lparr>child_pid := pid\<rparr>) in
        if pid < 0 then Exit 1 s
        else if pid = 0 then Return_child s
        else Go s
      else Go (emit (E_continue (child_pid s)) (s\<lparr>child_stopped := False\<rparr>)))"

text \<open>\<open>WIFSTOPPED(status)\<close>\<close>

definition WIFSTOPPED :: "u32 \<Rightarrow> bool" where
  "WIFSTOPPED st \<longleftrightarrow> st AND 0xff = 0x7f"

definition report_child :: "fsrv_os \<Rightarrow> fsrv \<Rightarrow> verdict" where
  "report_child os s =
     (if \<not> write_ok os (history s) then Exit 1 s
      else
        let s = emit (E_pid (child_pid s)) s in
        case wait_status os (history s) (child_pid s) (is_persistent s) of
          None \<Rightarrow> Exit 1 s
        | Some st \<Rightarrow>
            let s = emit (E_wait (child_pid s) (is_persistent s) st)
                      (if WIFSTOPPED st then s\<lparr>child_stopped := True\<rparr> else s) in
            if \<not> write_ok os (history s) then Exit 1 s
            else Go (emit (E_status st) s))"

definition fsrv_iter :: "fsrv_os \<Rightarrow> fsrv \<Rightarrow> verdict" where
  "fsrv_iter os s =
     andthen (andthen (andthen (read_command os s) (reap_killed os)) (start_child os)) (report_child os)"

text \<open>The first \<open>n\<close> iterations of \<open>while (1)\<close>.\<close>

fun fsrv_loop :: "nat \<Rightarrow> fsrv_os \<Rightarrow> fsrv \<Rightarrow> verdict" where
  "fsrv_loop 0 os s = Go s"
| "fsrv_loop (Suc n) os s = andthen (fsrv_loop n os s) (fsrv_iter os)"

definition afl_start_forkserver :: "nat \<Rightarrow> fsrv_os \<Rightarrow> fsrv \<Rightarrow> verdict option" where
  "afl_start_forkserver n os s = do {
     v \<leftarrow> forkserver_hello os s;
     Some (andthen v (fsrv_loop n os))
   }"

declare send_dict.simps [simp del]

lemmas fs_opt_defs = FS_OPT_ENABLED_def FS_OPT_MAPSIZE_def FS_OPT_AUTODICT_def
  FS_OPT_SHDMEM_FUZZ_def FS_OPT_ERROR_def

section \<open>Encoding and decoding the option word\<close>

lemma max_mapsize: "FS_OPT_MAX_MAPSIZE = 0x800000"
  by (simp add: FS_OPT_MAX_MAPSIZE_def drop_bit_eq_div)

lemma ucast_push_bit: "(ucast (push_bit n (a :: u64)) :: u32) = push_bit n (ucast a)"
  by (rule bit_word_eqI) (auto simp: bit_simps)

lemma drop_push_small:
  fixes y :: u32
  assumes "take_bit m y = y" and "m + k \<le> 32"
  shows "drop_bit k (push_bit k y) = y"
proof (rule bit_word_eqI)
  fix n assume "n < LENGTH(32)"
  have "bit y n \<longrightarrow> n < m" using assms(1) by (metis bit_take_bit_iff)
  then show "bit (drop_bit k (push_bit k y)) n = bit y n"
    using assms(2) by (auto simp: bit_simps)
qed

text \<open>The map size occupies bits 1 to 23 of the word.\<close>

lemma mapsize_field:
  assumes "1 \<le> x" and "x \<le> 0x800000"
  shows "(ucast (FS_OPT_SET_MAPSIZE x) :: u32) AND 0x00fffffe = ucast (FS_OPT_SET_MAPSIZE x)"
    and "drop_bit 1 (ucast (FS_OPT_SET_MAPSIZE x) :: u32) + 1 = ucast x"
proof -
  let ?y = "ucast (x - 1) :: u32"
  have ux: "unat (x - 1) < 2 ^ 23"
    using assms by (simp add: word_le_nat_alt unat_sub)
  have set: "(ucast (FS_OPT_SET_MAPSIZE x) :: u32) = push_bit 1 ?y"
  proof (cases "x = 1")
    case True
    then show ?thesis by (simp add: FS_OPT_SET_MAPSIZE_def)
  next
    case False
    have "\<not> x \<le> 1" using assms(1) False by (metis order_antisym)
    moreover have "\<not> (0x800000 < x)" using assms(2) by simp
    ultimately have "FS_OPT_SET_MAPSIZE x = push_bit 1 (x - 1)"
      by (simp add: FS_OPT_SET_MAPSIZE_def max_mapsize)
    moreover have "(ucast (push_bit 1 (x - 1)) :: u32) = push_bit 1 ?y"
      by (rule ucast_push_bit)
    ultimately show ?thesis by simp
  qed
  have "unat ?y = unat (x - 1)"
    using ux by (simp add: unsigned_ucast_eq take_bit_nat_eq_self)
  then have ty: "take_bit 23 ?y = ?y"
    using ux by (metis take_bit_nat_eq_self unsigned_take_bit_eq word_unat_eq_iff)
  have "(0x00fffffe :: u32) = push_bit 1 (mask 23)"
    by (simp add: push_bit_eq_mult mask_eq_exp_minus_1)
  then have "push_bit 1 ?y AND 0x00fffffe = push_bit 1 (?y AND mask 23)"
    by (simp only: push_bit_and)
  also have "?y AND mask 23 = ?y" using ty by (simp only: take_bit_eq_mask)
  finally show "(ucast (FS_OPT_SET_MAPSIZE x) :: u32) AND 0x00fffffe = ucast (FS_OPT_SET_MAPSIZE x)"
    by (simp only: set)
  have "drop_bit 1 (push_bit 1 ?y) = ?y"
    by (rule drop_push_small [OF ty]) simp
  moreover have "?y + 1 = ucast x"
    using ux assms(1)
    by (simp add: word_unat_eq_iff unat_word_ariths unsigned_ucast_eq take_bit_nat_eq_self
        unat_sub word_le_nat_alt)
  ultimately show "drop_bit 1 (ucast (FS_OPT_SET_MAPSIZE x) :: u32) + 1 = ucast x"
    by (simp only: set)
qed

lemma and_through_field:
  fixes a f c :: u32
  assumes "a AND f = a"
  shows "a AND c = a AND (f AND c)"
  using assms by (metis and.assoc)

lemma status_word:
  assumes "1 \<le> map_size s" and "map_size s \<le> 0x800000"
  shows "FS_OPT_GET_MAPSIZE (status_for_fsrv s) = ucast (map_size s)"
    and "option_set (status_for_fsrv s) FS_OPT_MAPSIZE"
    and "option_set (status_for_fsrv s) FS_OPT_AUTODICT = autodict_on s"
    and "option_set (status_for_fsrv s) FS_OPT_SHDMEM_FUZZ = sharedmem_fuzzing s"
proof -
  define a where "a = (ucast (FS_OPT_SET_MAPSIZE (map_size s)) :: u32)"
  have f: "a AND 0x00fffffe = a" and d: "drop_bit 1 a + 1 = ucast (map_size s)"
    using mapsize_field [OF assms] by (simp_all add: a_def)
  define k where "k = FS_OPT_MAPSIZE OR (if autodict_on s then FS_OPT_AUTODICT else 0) OR
    (if sharedmem_fuzzing s then FS_OPT_SHDMEM_FUZZ else 0) OR FS_OPT_ENABLED"
  have nz: "a OR (c :: u32) \<noteq> 0" if "c \<noteq> 0" for c
    using that by (metis or_eq_0_iff)
  have st: "status_for_fsrv s = a OR k"
    using assms(2)
    by (cases "autodict_on s"; cases "sharedmem_fuzzing s")
      (simp_all add: status_for_fsrv_def max_mapsize k_def a_def [symmetric] or.assoc nz fs_opt_defs)
  have "(a OR k) AND 0x00fffffe = a"
    by (cases "autodict_on s"; cases "sharedmem_fuzzing s")
      (simp_all add: bit.conj_disj_distrib2 f k_def fs_opt_defs)
  then show "FS_OPT_GET_MAPSIZE (status_for_fsrv s) = ucast (map_size s)"
    by (simp only: FS_OPT_GET_MAPSIZE_def st d)
  show "option_set (status_for_fsrv s) FS_OPT_MAPSIZE"
    "option_set (status_for_fsrv s) FS_OPT_AUTODICT = autodict_on s"
    "option_set (status_for_fsrv s) FS_OPT_SHDMEM_FUZZ = sharedmem_fuzzing s"
    by (cases "autodict_on s"; cases "sharedmem_fuzzing s",
      simp_all add: option_set_def st bit.conj_disj_distrib2 k_def fs_opt_defs
        and_through_field [OF f])+
qed

lemma error_word:
  assumes "0 < e" and "e \<le> 0xffff"
  shows "FS_OPT_GET_ERROR (FS_OPT_ERROR OR FS_OPT_SET_ERROR (of_int e)) = of_int e"
proof -
  let ?e = "of_int e :: u32"
  have m: "0x0000ffff = (mask 16 :: u32)" by (simp add: mask_eq_exp_minus_1)
  have "unat ?e < 2 ^ 16" using assms by (simp add: unat_of_int_small)
  then have te: "take_bit 16 ?e = ?e"
    by (metis take_bit_nat_eq_self unsigned_take_bit_eq word_unat_eq_iff)
  have "(0x00ffff00 :: u32) = push_bit 8 (mask 16)"
    by (simp add: push_bit_eq_mult mask_eq_exp_minus_1)
  then have "push_bit 8 ?e AND 0x00ffff00 = push_bit 8 ?e"
    by (simp only: te flip: push_bit_and take_bit_eq_mask)
  moreover have "drop_bit 8 (push_bit 8 ?e) = ?e" by (rule drop_push_small [OF te]) simp
  moreover have "FS_OPT_SET_ERROR ?e = push_bit 8 ?e"
    unfolding FS_OPT_SET_ERROR_def m using te by (simp only: take_bit_eq_mask)
  ultimately show ?thesis
    by (simp add: FS_OPT_GET_ERROR_def bit.conj_disj_distrib2 fs_opt_defs)
qed

section \<open>The dictionary\<close>

text \<open>The addresses whose bytes a run of events has sent, in order.\<close>

fun dict_sent :: "event list \<Rightarrow> nat list" where
  "dict_sent [] = []"
| "dict_sent (E_dict a n ret # h) = [a..<a + nat ret] @ dict_sent h"
| "dict_sent (_ # h) = dict_sent h"

lemma dict_sent_append: "dict_sent (h @ h') = dict_sent h @ dict_sent h'"
  by (induction h rule: dict_sent.induct) simp_all

lemma send_dict_bytes:
  "send_dict os len offset s = Some (Go s') \<Longrightarrow> unat offset + unat len < 2 ^ 32 \<Longrightarrow>
    (\<exists>h. history s' = history s @ h \<and>
      dict_sent h = [token_start s + unat offset..<token_start s + unat offset + unat len]) \<and>
    token_start s' = token_start s"
proof (induction os len offset s rule: send_dict.induct)
  case (1 os len offset s)
  show ?case
  proof (cases "len = 0")
    case True
    with 1(2) show ?thesis by (subst (asm) send_dict.simps) auto
  next
    case False
    define ret where "ret = write_dict os (history s) (token_start s + unat offset) len"
    define s1 where "s1 = emit (E_dict (token_start s + unat offset) len ret) s"
    have unf: "send_dict os len offset s = (if ret < 1 then Some (Exit 1 s) else if uint len < ret then None
        else send_dict os (len - of_int ret) (offset + of_int ret) s1)"
      using False by (subst send_dict.simps) (simp add: Let_def ret_def s1_def)
    from 1(2) have r: "1 \<le> ret" "ret \<le> uint len"
      and n: "send_dict os (len - of_int ret) (offset + of_int ret) s1 = Some (Go s')"
      by (auto simp: unf split: if_splits)
    note dec = dict_len_decreases [OF r]
    have rl: "nat ret \<le> unat len" using r by (simp flip: nat_uint_eq)
    have "uint len < 2 ^ LENGTH(32)" by (rule unsigned_less)
    then have "unat (of_int ret :: u32) = nat ret" using r by (simp add: unat_of_int_small)
    then have off: "unat (offset + of_int ret) = unat offset + nat ret"
      using 1(3) rl by (simp add: unat_word_ariths)
    have t1: "token_start s1 = token_start s" "history s1 = history s @ [E_dict (token_start s + unat offset) len ret]"
      by (simp_all add: s1_def emit_def)
    have lt: "unat (offset + of_int ret) + unat (len - of_int ret) < 2 ^ 32"
      using 1(3) rl by (simp add: off dec(1))
    have "(\<exists>h. history s' = history s1 @ h \<and> dict_sent h =
        [token_start s1 + unat (offset + of_int ret)..<token_start s1 + unat (offset + of_int ret) +
          unat (len - of_int ret)]) \<and> token_start s' = token_start s1"
      using 1(1) [OF False ret_def _ _ n [unfolded s1_def]] r lt by (simp add: s1_def not_less)
    then obtain h where h: "history s' = history s1 @ h" "token_start s' = token_start s1"
      "dict_sent h = [token_start s + (unat offset + nat ret)..<token_start s + unat offset + unat len]"
      using rl by (auto simp: off dec(1) t1 add.assoc)
    have "[token_start s + unat offset..<token_start s + unat offset + nat ret] @ dict_sent h =
        [token_start s + unat offset..<token_start s + unat offset + unat len]"
      using rl upt_add_eq_append [of "token_start s + unat offset" "token_start s + unat offset + nat ret"
          "unat len - nat ret"] by (simp add: h(3) add.assoc)
    then show ?thesis
      using h by (intro conjI exI [of _ "E_dict (token_start s + unat offset) len ret # h"]) (simp_all add: t1)
  qed
qed

section \<open>Children\<close>

text \<open>
  The child that exists after a history and has not been waited for until its end (\<open>Some None\<close>
  when there is none). \<open>None\<close> marks a history in which the server loses track of a child: a
  fork while one exists, or a wait or SIGCONT for a process that is not the current child.
\<close>

fun child_step :: "int option \<Rightarrow> event \<Rightarrow> int option option" where
  "child_step c (E_fork pid) = (if c = None then Some (if 0 < pid then Some pid else None) else None)"
| "child_step c (E_wait pid opts st) =
     (if c = Some pid then Some (if WIFSTOPPED st then Some pid else None) else None)"
| "child_step c (E_continue pid) = (if c = Some pid then Some c else None)"
| "child_step c _ = Some c"

fun children :: "int option \<Rightarrow> event list \<Rightarrow> int option option" where
  "children c [] = Some c"
| "children c (e # h) = do { c \<leftarrow> child_step c e; children c h }"

lemma children_append: "children c (h @ h') = do { c \<leftarrow> children c h; children c h' }"
  by (induction h arbitrary: c) (auto split: Option.bind_split)

text \<open>\<open>waitpid\<close> reports a stopped child only when it is asked to (\<open>WUNTRACED\<close>).\<close>

definition wait_contract :: "fsrv_os \<Rightarrow> bool" where
  "wait_contract os \<longleftrightarrow> (\<forall>h pid st. wait_status os h pid False = Some st \<longrightarrow> \<not> WIFSTOPPED st)"

definition fsrv_inv :: "fsrv \<Rightarrow> bool" where
  "fsrv_inv s \<longleftrightarrow> children None (history s) = Some (if child_stopped s then Some (child_pid s) else None)"

lemma emit_fields [simp]:
  "history (emit e s) = history s @ [e]" "child_stopped (emit e s) = child_stopped s"
  "child_pid (emit e s) = child_pid s" "is_persistent (emit e s) = is_persistent s"
  by (simp_all add: emit_def)

lemma read_command_inv:
  "fsrv_inv s \<Longrightarrow> fsrv_inv (final (read_command os s))"
  by (auto simp: read_command_def fsrv_inv_def children_append split: option.split)

lemma reap_killed_inv:
  assumes "fsrv_inv s" and "wait_contract os"
  shows "case reap_killed os s of Go s' \<Rightarrow> fsrv_inv s' | v \<Rightarrow> children None (history (final v)) \<noteq> None"
  using assms
  by (auto simp: reap_killed_def fsrv_inv_def wait_contract_def children_append Let_def
      split: option.split)

lemma start_child_inv:
  assumes "fsrv_inv s"
  shows "case start_child os s of
      Go s' \<Rightarrow> children None (history s') = Some (Some (child_pid s')) \<and> \<not> child_stopped s'
    | v \<Rightarrow> children None (history (final v)) \<noteq> None"
  using assms by (auto simp: start_child_def fsrv_inv_def children_append Let_def)

lemma report_child_inv:
  assumes "children None (history s) = Some (Some (child_pid s))" and "\<not> child_stopped s"
  shows "case report_child os s of Go s' \<Rightarrow> fsrv_inv s'
    | v \<Rightarrow> children None (history (final v)) \<noteq> None"
  using assms
  by (auto simp: report_child_def fsrv_inv_def children_append Let_def split: option.split)

lemma fsrv_inv_children: "fsrv_inv s \<Longrightarrow> children None (history s) \<noteq> None"
  by (simp add: fsrv_inv_def)

lemma fsrv_iter_inv:
  assumes "fsrv_inv s" and "wait_contract os"
  shows "case fsrv_iter os s of Go s' \<Rightarrow> fsrv_inv s' | v \<Rightarrow> children None (history (final v)) \<noteq> None"
proof (cases "read_command os s")
  case (Go s1)
  with read_command_inv [OF assms(1), of os] have i1: "fsrv_inv s1" by simp
  show ?thesis
  proof (cases "reap_killed os s1")
    case (Go s2)
    with reap_killed_inv [OF i1 assms(2)] have i2: "fsrv_inv s2" by simp
    show ?thesis
    proof (cases "start_child os s2")
      case (Go s3)
      with start_child_inv [OF i2, of os]
      have "children None (history s3) = Some (Some (child_pid s3))" "\<not> child_stopped s3" by simp_all
      from report_child_inv [OF this, of os] show ?thesis
        using \<open>read_command os s = Go s1\<close> \<open>reap_killed os s1 = Go s2\<close> Go by (simp add: fsrv_iter_def)
    qed (use start_child_inv [OF i2, of os] \<open>read_command os s = Go s1\<close> \<open>reap_killed os s1 = Go s2\<close>
        in \<open>auto simp: fsrv_iter_def\<close>)
  qed (use reap_killed_inv [OF i1 assms(2)] \<open>read_command os s = Go s1\<close> in \<open>auto simp: fsrv_iter_def\<close>)
qed (use read_command_inv [OF assms(1), of os] in \<open>auto simp: fsrv_iter_def dest: fsrv_inv_children\<close>)

lemma fsrv_loop_inv:
  assumes "fsrv_inv s" and "wait_contract os"
  shows "case fsrv_loop n os s of Go s' \<Rightarrow> fsrv_inv s' | v \<Rightarrow> children None (history (final v)) \<noteq> None"
proof (induction n)
  case (Suc n)
  show ?case
  proof (cases "fsrv_loop n os s")
    case (Go s')
    with Suc have "fsrv_inv s'" by simp
    from fsrv_iter_inv [OF this assms(2)] Go show ?thesis by simp
  qed (use Suc in auto)
qed (use assms in simp)

section \<open>Properties\<close>

text \<open>C21. Whatever the parent and the system answer, as long as
  \<open>waitpid\<close> reports stopped children only on demand, the server never forks while an earlier
  child exists: every child it starts is waited for to its end first, and it only waits for and
  continues its current child.\<close>

theorem forkserver_single_child:
  assumes "wait_contract os" and "children None (history s) = Some None" and "\<not> child_stopped s"
  shows "children None (history (final (fsrv_loop n os s))) \<noteq> None"
proof -
  have "fsrv_inv s" using assms(2,3) by (simp add: fsrv_inv_def)
  from fsrv_loop_inv [OF this assms(1), of n] show ?thesis
    by (cases "fsrv_loop n os s") (auto dest: fsrv_inv_children)
qed

text \<open>C22. Every completed iteration of the server answers the parent with
  exactly the process id of the child and then the status with which that child was waited for,
  after at most one command, the reaping of a killed child and a fork or SIGCONT.\<close>

theorem forkserver_relays_status:
  assumes "fsrv_iter os s = Go s'"
  shows "\<exists>pre st. history s' = history s @ pre @
      [E_pid (child_pid s'), E_wait (child_pid s') (is_persistent s') st, E_status st] \<and>
    length pre \<le> 3 \<and> (\<forall>e\<in>set pre. \<forall>v w. e \<noteq> E_pid v \<and> e \<noteq> E_status w)"
proof -
  from assms obtain s1 s2 s3 where s1: "read_command os s = Go s1" and s2: "reap_killed os s1 = Go s2"
    and s3: "start_child os s2 = Go s3" and s4: "report_child os s3 = Go s'"
    unfolding fsrv_iter_def by (metis andthen.elims verdict.distinct(1,3,5))
  from s1 obtain a where a: "history s1 = history s @ a" "a = [] \<or> (\<exists>w. a = [E_command w])"
    by (auto simp: read_command_def split: if_splits option.splits)
  from s2 obtain b where b: "history s2 = history s1 @ b" "b = [] \<or> (\<exists>p st. b = [E_wait p False st])"
    by (auto simp: reap_killed_def Let_def split: if_splits option.splits)
  from s3 obtain c where c: "history s3 = history s2 @ c" "\<exists>p. c = [E_fork p] \<or> c = [E_continue p]"
    by (auto simp: start_child_def Let_def split: if_splits)
  from s4 obtain st where d: "history s' = history s3 @ [E_pid (child_pid s'),
      E_wait (child_pid s') (is_persistent s') st, E_status st]"
    by (auto simp: report_child_def Let_def split: if_splits option.splits)
  show ?thesis
    by (rule exI [of _ "a @ b @ c"], rule exI [of _ st]) (use a b c d in auto)
qed

text \<open>C37. The word of the handshake decodes at the parent to exactly the state
  of the target: the map size for every size the field can hold, and one flag each for the map size,
  the dictionary and shared-memory test cases.\<close>

theorem option_word_decodes:
  assumes "1 \<le> map_size s" and "map_size s \<le> ucast FS_OPT_MAX_MAPSIZE"
  shows "FS_OPT_GET_MAPSIZE (status_for_fsrv s) = ucast (map_size s) \<and>
    option_set (status_for_fsrv s) FS_OPT_MAPSIZE \<and>
    (option_set (status_for_fsrv s) FS_OPT_AUTODICT \<longleftrightarrow> autodict_on s) \<and>
    (option_set (status_for_fsrv s) FS_OPT_SHDMEM_FUZZ \<longleftrightarrow> sharedmem_fuzzing s)"
  using status_word [OF assms(1)] assms(2) by (simp add: max_mapsize)

text \<open>C38. When the dictionary transfer completes, the bytes of the token section
  have been sent in order, each exactly once, however the writes were split.\<close>

theorem dictionary_sent_once:
  assumes "send_autodict os s = Some (Go s')" and "token_start s \<le> token_stop s"
    and "token_stop s - token_start s < 2 ^ 32"
  shows "\<exists>h. history s' = history s @ E_dict_len (of_nat (token_stop s - token_start s)) # h \<and>
    dict_sent h = [token_start s..<token_stop s]"
proof -
  let ?n = "token_stop s - token_start s" and ?s = "emit (E_dict_len (of_nat (token_stop s - token_start s))) s"
  have i: "of_int (int (token_stop s) - int (token_start s)) = (of_nat ?n :: u32)"
    using assms(2) by (simp add: of_nat_diff)
  have u: "unat (of_nat ?n :: u32) = ?n" using assms(3) by (simp add: unat_of_nat)
  from assms(1) i have "send_dict os (of_nat ?n) 0 ?s = Some (Go s')"
    by (simp add: send_autodict_def Let_def split: if_splits)
  from send_dict_bytes [OF this] assms(3) u have "\<exists>h. history s' = history ?s @ h \<and>
      dict_sent h = [token_start ?s..<token_start ?s + ?n]" by simp
  then show ?thesis using assms(2) by (simp add: emit_def)
qed

section \<open>Witnesses\<close>

text \<open>A parent that always answers and a persistent child that stops itself after each run.\<close>

definition demo_os :: fsrv_os where
  "demo_os = \<lparr>read_pipe = (\<lambda>_. Some 0), write_ok = (\<lambda>_. True), write_dict = (\<lambda>_ _ n. uint n),
     fork_pid = (\<lambda>_. 7), wait_status = (\<lambda>_ _ untraced. Some (if untraced then 0x137f else 0)),
     fs_getenv = (\<lambda>_. None), use_mmap = False, attach = (\<lambda>_. Open_failed)\<rparr>"

definition demo_fsrv :: fsrv where
  "demo_fsrv = \<lparr>fs_mem = (\<lambda>_. Some 0), area_ptr = 0, map_size = 65536, token_start = 100,
     token_stop = 105, sharedmem_fuzzing = False, fuzz_ptr = 0, fuzz_len_ptr = 0,
     already_initialized_shm = True, already_initialized_forkserver = True, child_pid = 0,
     is_persistent = True, was_killed = 0, already_read_first = False, child_stopped = False,
     history = []\<rparr>"

theorem forkserver_single_child_witness:
  "children None (history (final (fsrv_loop 3 demo_os demo_fsrv))) \<noteq> None"
  by (rule forkserver_single_child) (simp_all add: wait_contract_def demo_os_def demo_fsrv_def WIFSTOPPED_def)

theorem forkserver_relays_status_witness:
  "\<exists>s' pre st. fsrv_iter demo_os demo_fsrv = Go s' \<and>
     history s' = pre @ [E_pid 7, E_wait 7 True st, E_status st]"
proof -
  obtain s' where i: "fsrv_iter demo_os demo_fsrv = Go s'" and c: "child_pid s' = 7"
    "is_persistent s' = True"
    by (simp add: fsrv_iter_def read_command_def reap_killed_def start_child_def report_child_def
        demo_os_def demo_fsrv_def emit_def Let_def)
  from forkserver_relays_status [OF i] i c show ?thesis by (auto simp: demo_fsrv_def)
qed

theorem option_word_decodes_witness:
  "FS_OPT_GET_MAPSIZE (status_for_fsrv demo_fsrv) = 65536 \<and>
   option_set (status_for_fsrv demo_fsrv) FS_OPT_AUTODICT"
  using option_word_decodes [of demo_fsrv]
  by (simp add: demo_fsrv_def max_mapsize autodict_on_def)

theorem dictionary_sent_once_witness:
  "\<exists>s' h. send_autodict demo_os demo_fsrv = Some (Go s') \<and>
     history s' = E_dict_len 5 # h \<and> dict_sent h = [100..<105]"
proof -
  obtain s' where s: "send_autodict demo_os demo_fsrv = Some (Go s')"
    by (simp add: send_autodict_def demo_os_def demo_fsrv_def send_dict.simps emit_def)
  from dictionary_sent_once [OF s] s show ?thesis by (auto simp: demo_fsrv_def)
qed

end
