(* ===== verification/CmpLog.thy ===== *)
theory CmpLog
  imports QPrelude
begin

text \<open>
  The comparison log of \<open>libafl_targets/src/cmplog.h\<close> and \<open>cmplog.c\<close>. A row of the map is
  the 512 bytes of the union of 32 instruction operands and 8 routine entries. An index outside the
  map, or a store that leaves its row, is a fault (\<open>None\<close>). The readability test asks the sanitizer and the kernel, whose answers
  are fields of \<open>area_env\<close>.
\<close>

section \<open>The map\<close>

definition CMPLOG_MAP_W :: nat where "CMPLOG_MAP_W = 65536"
definition CMPLOG_MAP_H :: nat where "CMPLOG_MAP_H = 32"
definition CMPLOG_RTN_LEN :: nat where "CMPLOG_RTN_LEN = 32"

definition sizeof_instruction :: nat where "sizeof_instruction = 16"
definition sizeof_routine :: nat where "sizeof_routine = 2 * CMPLOG_RTN_LEN"

definition CMPLOG_MAP_RTN_H :: nat where
  "CMPLOG_MAP_RTN_H = CMPLOG_MAP_H * sizeof_instruction div sizeof_routine"

definition sizeof_row :: nat where "sizeof_row = CMPLOG_MAP_H * sizeof_instruction"

definition CMPLOG_KIND_INS :: byte where "CMPLOG_KIND_INS = 0"
definition CMPLOG_KIND_RTN :: byte where "CMPLOG_KIND_RTN = 1"

record cmplog_header =
  hits :: "16 word"
  shape :: byte
  kind :: byte

type_synonym row = "nat \<Rightarrow> byte"

record cmplog_map =
  headers :: "nat \<Rightarrow> cmplog_header"
  vals :: "nat \<Rightarrow> row"

record cmplog_state =
  cmplog_enabled :: bool
  cmplog :: cmplog_map

text \<open>The row with a block in it, storing the block, which faults beyond the end of the row, and
  reading one.\<close>

definition row_put :: "nat \<Rightarrow> byte list \<Rightarrow> row \<Rightarrow> row" where
  "row_put off bs r = (\<lambda>x. if off \<le> x \<and> x < off + length bs then bs ! (x - off) else r x)"

definition row_store :: "nat \<Rightarrow> byte list \<Rightarrow> row \<Rightarrow> row option" where
  "row_store off bs r = (if off + length bs \<le> sizeof_row then Some (row_put off bs r) else None)"

definition row_get :: "nat \<Rightarrow> nat \<Rightarrow> row \<Rightarrow> byte list" where
  "row_get off n r = map r [off..<off + n]"

text \<open>\<open>vals.operands[k][j]\<close>\<close>

definition operand :: "cmplog_map \<Rightarrow> nat \<Rightarrow> nat \<Rightarrow> u64 \<times> u64" where
  "operand m k j =
     (le_word (row_get (sizeof_instruction * j) 8 (vals m k)),
      le_word (row_get (sizeof_instruction * j + 8) 8 (vals m k)))"

section \<open>Logging\<close>

text \<open>The header after a hit, and the index of the hit before it.\<close>

definition header_hit :: "byte \<Rightarrow> byte \<Rightarrow> cmplog_header \<Rightarrow> cmplog_header \<times> 16 word" where
  "header_hit knd shp h =
     (if kind h \<noteq> knd then (\<lparr>hits = 1, shape = shp, kind = knd\<rparr>, 0)
      else (h\<lparr>hits := hits h + 1, shape := (if shape h < shp then shp else shape h)\<rparr>, hits h))"

definition targets_cmplog :: "nat \<Rightarrow> byte \<Rightarrow> u64 \<Rightarrow> u64 \<Rightarrow> cmplog_state \<Rightarrow> cmplog_state option" where
  "targets_cmplog k shp arg1 arg2 st =
     (if \<not> cmplog_enabled st then Some st
      else if CMPLOG_MAP_W \<le> k then None
      else
        let m = cmplog st;
            (h, n) = header_hit CMPLOG_KIND_INS shp (headers m k);
            j = unat (n AND of_nat (CMPLOG_MAP_H - 1))
        in do {
          r \<leftarrow> row_store (sizeof_instruction * j) (le_bytes 8 arg1) (vals m k);
          r \<leftarrow> row_store (sizeof_instruction * j + 8) (le_bytes 8 arg2) r;
          Some (st\<lparr>cmplog := m\<lparr>headers := (headers m)(k := h), vals := (vals m)(k := r)\<rparr>\<rparr>)
        })"

definition targets_cmplog_instructions ::
    "nat \<Rightarrow> byte \<Rightarrow> u64 \<Rightarrow> u64 \<Rightarrow> cmplog_state \<Rightarrow> cmplog_state option" where
  "targets_cmplog_instructions = targets_cmplog"

section \<open>Readable areas\<close>

record area_env =
  region_is_poisoned :: "addr \<Rightarrow> nat \<Rightarrow> bool"
  probe_write :: "addr \<Rightarrow> nat \<Rightarrow> int"
  area_page_size :: u64

text \<open>\<open>area_is_valid\<close> on POSIX; the probe writes the area to a dummy descriptor.\<close>

definition area_is_valid :: "area_env \<Rightarrow> addr \<Rightarrow> nat \<Rightarrow> int" where
  "area_is_valid A ptr len =
     (if ptr = NULL \<or> region_is_poisoned A ptr len then 0
      else
        let valid_len = probe_write A ptr len in
        if valid_len \<le> 0 \<or> int len < valid_len then 0
        else
          let page = unat ((of_nat ptr AND NOT (area_page_size A - 1)) + area_page_size A) in
          if ptr + len < page then valid_len else int page - int ptr)"

text \<open>\<open>len\<close> is an \<open>int\<close>, the shape its low byte.\<close>

definition targets_cmplog_routines ::
    "area_env \<Rightarrow> memory \<Rightarrow> nat \<Rightarrow> addr \<Rightarrow> addr \<Rightarrow> cmplog_state \<Rightarrow> cmplog_state option" where
  "targets_cmplog_routines A mm k ptr1 ptr2 st =
     (if \<not> cmplog_enabled st then Some st
      else
        let l1 = area_is_valid A ptr1 CMPLOG_RTN_LEN; l2 = area_is_valid A ptr2 CMPLOG_RTN_LEN in
        if l1 \<le> 0 \<or> l2 \<le> 0 then Some st
        else if CMPLOG_MAP_W \<le> k then None
        else
          let len = (if l1 < l2 then l1 else l2);
              m = cmplog st;
              (h, n) = header_hit CMPLOG_KIND_RTN (of_int len) (headers m k);
              j = unat (n AND of_nat (CMPLOG_MAP_RTN_H - 1)) in
          do {
            bs1 \<leftarrow> fetch mm ptr1 (nat len);
            bs2 \<leftarrow> fetch mm ptr2 (nat len);
            r \<leftarrow> row_store (sizeof_routine * j) bs1 (vals m k);
            r \<leftarrow> row_store (sizeof_routine * j + CMPLOG_RTN_LEN) bs2 r;
            Some (st\<lparr>cmplog := m\<lparr>headers := (headers m)(k := h), vals := (vals m)(k := r)\<rparr>\<rparr>)
          })"

text \<open>The row of a call site: its return address, mixed and cut to the width of the map.\<close>

definition mix_retaddr :: "u64 \<Rightarrow> u64" where
  "mix_retaddr k = drop_bit 4 k XOR push_bit 8 k"

definition cmplog_row :: "u64 \<Rightarrow> nat" where
  "cmplog_row retaddr = unat (mix_retaddr retaddr AND of_nat (CMPLOG_MAP_W - 1))"

definition cmplog_rtn_hook ::
    "u64 \<Rightarrow> area_env \<Rightarrow> memory \<Rightarrow> addr \<Rightarrow> addr \<Rightarrow> cmplog_state \<Rightarrow> cmplog_state option" where
  "cmplog_rtn_hook retaddr A mm ptr1 ptr2 st =
     targets_cmplog_routines A mm (cmplog_row retaddr) ptr1 ptr2 st"

section \<open>std::string\<close>

definition get_gcc_stdstring :: "memory \<Rightarrow> addr \<Rightarrow> addr option" where
  "get_gcc_stdstring m s = do {
     len \<leftarrow> rd32 m (s + 8);
     if len < 16 then Some (s + 16)
     else do { p \<leftarrow> rd64 m s; Some (unat p) }
   }"

definition get_llvm_stdstring :: "memory \<Rightarrow> addr \<Rightarrow> addr option" where
  "get_llvm_stdstring m s = do {
     b \<leftarrow> rd m s;
     if b AND 1 \<noteq> 0 then do { p \<leftarrow> rd64 m (s + 16); Some (unat p) }
     else Some (s + 1)
   }"

text \<open>The four hooks differ in the library and in the kind of the second argument.\<close>

definition stdstring_cstring ::
    "(memory \<Rightarrow> addr \<Rightarrow> addr option) \<Rightarrow> u64 \<Rightarrow> area_env \<Rightarrow> memory \<Rightarrow> addr \<Rightarrow> addr \<Rightarrow> cmplog_state \<Rightarrow>
     cmplog_state option" where
  "stdstring_cstring get retaddr A mm stdstring cstring st =
     (if \<not> cmplog_enabled st then Some st
      else if area_is_valid A stdstring 32 \<le> 0 then Some st
      else do {
        p \<leftarrow> get mm stdstring;
        cmplog_rtn_hook retaddr A mm p cstring st
      })"

definition stdstring_stdstring ::
    "(memory \<Rightarrow> addr \<Rightarrow> addr option) \<Rightarrow> u64 \<Rightarrow> area_env \<Rightarrow> memory \<Rightarrow> addr \<Rightarrow> addr \<Rightarrow> cmplog_state \<Rightarrow>
     cmplog_state option" where
  "stdstring_stdstring get retaddr A mm stdstring1 stdstring2 st =
     (if \<not> cmplog_enabled st then Some st
      else if area_is_valid A stdstring1 32 \<le> 0 \<or> area_is_valid A stdstring2 32 \<le> 0 then Some st
      else do {
        p1 \<leftarrow> get mm stdstring1;
        p2 \<leftarrow> get mm stdstring2;
        cmplog_rtn_hook retaddr A mm p1 p2 st
      })"

definition cmplog_rtn_gcc_stdstring_cstring where
  "cmplog_rtn_gcc_stdstring_cstring = stdstring_cstring get_gcc_stdstring"

definition cmplog_rtn_gcc_stdstring_stdstring where
  "cmplog_rtn_gcc_stdstring_stdstring = stdstring_stdstring get_gcc_stdstring"

definition cmplog_rtn_llvm_stdstring_cstring where
  "cmplog_rtn_llvm_stdstring_cstring = stdstring_cstring get_llvm_stdstring"

definition cmplog_rtn_llvm_stdstring_stdstring where
  "cmplog_rtn_llvm_stdstring_stdstring = stdstring_stdstring get_llvm_stdstring"

lemmas cmplog_sizes = CMPLOG_MAP_W_def CMPLOG_MAP_H_def CMPLOG_RTN_LEN_def CMPLOG_MAP_RTN_H_def
  sizeof_instruction_def sizeof_routine_def sizeof_row_def

section \<open>Rows\<close>

lemma row_get_put_same: "length bs = n \<Longrightarrow> row_get off n (row_put off bs r) = bs"
  by (rule nth_equalityI) (auto simp: row_get_def row_put_def)

lemma row_get_put_other:
  "off' + n \<le> off \<or> off + length bs \<le> off' \<Longrightarrow> row_get off' n (row_put off bs r) = row_get off' n r"
  by (auto simp: row_get_def row_put_def)

lemma row_store_operands:
  assumes "j < CMPLOG_MAP_H"
  shows "row_store (sizeof_instruction * j) (le_bytes 8 (a :: u64)) r = Some (row_put (16 * j) (le_bytes 8 a) r)"
    and "row_store (sizeof_instruction * j + 8) (le_bytes 8 (b :: u64)) r = Some (row_put (16 * j + 8) (le_bytes 8 b) r)"
  using assms by (simp_all add: row_store_def cmplog_sizes)

lemma le_word_le_bytes_64: "le_word (le_bytes 8 (v :: u64)) = v"
  by (simp add: le_word_le_bytes take_bit_word_eq_self)

lemma and_low_mask: "unat ((n :: 16 word) AND of_nat 31) = unat n mod 32"
proof -
  have "n AND of_nat 31 = take_bit 5 n" by (simp add: take_bit_eq_mask mask_eq_exp_minus_1)
  then show ?thesis by (simp add: unsigned_take_bit_eq) (simp add: take_bit_eq_mod)
qed

lemma and_low_mask_rtn: "unat ((n :: 16 word) AND of_nat 7) = unat n mod 8"
proof -
  have "n AND of_nat 7 = take_bit 3 n" by (simp add: take_bit_eq_mask mask_eq_exp_minus_1)
  then show ?thesis by (simp add: unsigned_take_bit_eq) (simp add: take_bit_eq_mod)
qed

lemma operand_row_put:
  assumes "r = row_put (16 * j + 8) (le_bytes 8 b) (row_put (16 * j) (le_bytes 8 a) (vals m k))"
  shows "operand (m\<lparr>headers := hs, vals := (vals m)(k := r)\<rparr>) k i =
    (if i = j then (a, b) else operand m k i)"
proof (cases "i = j")
  case True
  then show ?thesis
    by (simp add: operand_def assms cmplog_sizes row_get_put_same row_get_put_other le_word_le_bytes_64)
next
  case False
  then have "16 * i + 16 \<le> 16 * j \<or> 16 * j + 16 \<le> 16 * i" by linarith
  with False show ?thesis
    by (auto simp: operand_def assms cmplog_sizes row_get_put_other)
qed

text \<open>Logging a sequence of comparisons at one call site.\<close>

fun log_all :: "nat \<Rightarrow> byte \<Rightarrow> (u64 \<times> u64) list \<Rightarrow> cmplog_state \<Rightarrow> cmplog_state option" where
  "log_all k shp [] st = Some st"
| "log_all k shp (x # xs) st = do {
     st \<leftarrow> targets_cmplog k shp (fst x) (snd x) st;
     log_all k shp xs st
   }"

lemma log_all_append:
  "log_all k shp (xs @ ys) st = do { st \<leftarrow> log_all k shp xs st; log_all k shp ys st }"
  by (induction xs arbitrary: st) (auto split: Option.bind_split)

text \<open>The number of hits that the row counts as instructions already.\<close>

definition row_base :: "cmplog_state \<Rightarrow> nat \<Rightarrow> nat" where
  "row_base st k =
     (if kind (headers (cmplog st) k) = CMPLOG_KIND_INS then unat (hits (headers (cmplog st) k)) else 0)"

lemma targets_cmplog_enabled:
  assumes "cmplog_enabled st" and "k < CMPLOG_MAP_W"
  shows "\<exists>st'. targets_cmplog k shp a b st = Some st' \<and> cmplog_enabled st' \<and>
    kind (headers (cmplog st') k) = CMPLOG_KIND_INS \<and>
    unat (hits (headers (cmplog st') k)) = (row_base st k + 1) mod 2 ^ 16 \<and>
    (\<forall>i. operand (cmplog st') k i =
      (if i = row_base st k mod 32 then (a, b) else operand (cmplog st) k i))"
proof -
  let ?m = "cmplog st"
  obtain h n where h: "header_hit CMPLOG_KIND_INS shp (headers ?m k) = (h, n)" by fastforce
  then have n: "unat n = row_base st k" "kind h = CMPLOG_KIND_INS"
    "unat (hits h) = (row_base st k + 1) mod 2 ^ 16"
    by (auto simp: header_hit_def row_base_def unat_word_ariths split: if_splits)
  have j: "unat (n AND of_nat (CMPLOG_MAP_H - 1)) = row_base st k mod 32"
    using and_low_mask [of n] n(1) by (simp add: cmplog_sizes)
  show ?thesis
    using assms h n j row_store_operands [of "row_base st k mod 32", unfolded CMPLOG_MAP_H_def]
    by (simp add: targets_cmplog_def Let_def operand_row_put [OF refl])
qed

lemma window_slot:
  fixes b :: nat
  assumes "i < n" and "n < i + 32"
  shows "(b + i) mod 32 \<noteq> (b + n) mod 32"
proof
  assume "(b + i) mod 32 = (b + n) mod 32"
  then have "(b + n - (b + i)) mod 32 = 0"
    using assms(1) by (intro mod_eq_dvd_iff_nat [THEN iffD1, THEN dvd_imp_mod_0]) simp_all
  then show False using assms by simp
qed

lemma log_all_window:
  assumes "cmplog_enabled st" and "k < CMPLOG_MAP_W"
  shows "\<exists>st'. log_all k shp xs st = Some st' \<and> cmplog_enabled st' \<and>
    row_base st' k = (row_base st k + length xs) mod 2 ^ 16 \<and>
    (\<forall>i<length xs. length xs \<le> i + 32 \<longrightarrow>
      operand (cmplog st') k ((row_base st k + i) mod 32) = xs ! i)"
proof (induction xs rule: rev_induct)
  case Nil
  have "unat (hits (headers (cmplog st) k)) < 2 ^ LENGTH(16)" by (rule unsigned_less)
  then have "row_base st k < 2 ^ 16" by (simp add: row_base_def)
  with assms show ?case by simp
next
  case (snoc x xs)
  then obtain st1 where st1: "log_all k shp xs st = Some st1" "cmplog_enabled st1"
    "row_base st1 k = (row_base st k + length xs) mod 2 ^ 16"
    "\<forall>i<length xs. length xs \<le> i + 32 \<longrightarrow>
      operand (cmplog st1) k ((row_base st k + i) mod 32) = xs ! i" by blast
  have slot: "row_base st1 k mod 32 = (row_base st k + length xs) mod 32"
    unfolding st1(3) by (rule mod_mod_cancel) simp
  from targets_cmplog_enabled [OF st1(2) assms(2), of shp "fst x" "snd x"] obtain st' where
    st': "targets_cmplog k shp (fst x) (snd x) st1 = Some st'" "cmplog_enabled st'"
    "kind (headers (cmplog st') k) = CMPLOG_KIND_INS"
    "unat (hits (headers (cmplog st') k)) = (row_base st1 k + 1) mod 2 ^ 16"
    "\<forall>i. operand (cmplog st') k i =
      (if i = (row_base st k + length xs) mod 32 then x else operand (cmplog st1) k i)"
    by (auto simp: slot)
  have "operand (cmplog st') k ((row_base st k + i) mod 32) = (xs @ [x]) ! i"
    if "i < length (xs @ [x])" "length (xs @ [x]) \<le> i + 32" for i
  proof (cases "i = length xs")
    case False
    with that have "i < length xs" "length xs < i + 32" by auto
    with st1(4) st'(5) window_slot [of i "length xs" "row_base st k"] show ?thesis
      by (simp add: nth_append)
  qed (use st'(5) in simp)
  moreover have "row_base st' k = (row_base st k + length (xs @ [x])) mod 2 ^ 16"
    using st'(3,4) st1(3) by (simp add: row_base_def [of st'] mod_Suc_eq)
  ultimately show ?case
    using st1(1) st' by (simp add: log_all_append)
qed

section \<open>Routines stay in their entry\<close>

lemma area_is_valid_le: "area_is_valid A p n \<le> int n"
proof -
  have "uint x - int p \<le> int n" if "\<not> p + n < unat x" for x :: u64
    using that uint_nat [of x] by linarith
  then show ?thesis by (auto simp: area_is_valid_def Let_def)
qed

lemma routines_entry:
  assumes "targets_cmplog_routines A mm k p1 p2 st = Some st'"
  shows "\<exists>j<CMPLOG_MAP_RTN_H. \<forall>k' x. vals (cmplog st') k' x \<noteq> vals (cmplog st) k' x \<longrightarrow>
    k' = k \<and> sizeof_routine * j \<le> x \<and> x < sizeof_routine * (j + 1)"
proof (cases "cmplog st' = cmplog st")
  case True
  then show ?thesis by (intro exI [of _ 0]) (simp add: cmplog_sizes)
next
  case False
  let ?l1 = "area_is_valid A p1 CMPLOG_RTN_LEN" and ?l2 = "area_is_valid A p2 CMPLOG_RTN_LEN"
  let ?len = "if ?l1 < ?l2 then ?l1 else ?l2"
  obtain h n where h: "header_hit CMPLOG_KIND_RTN (of_int ?len) (headers (cmplog st) k) = (h, n)"
    by fastforce
  define j where "j = unat (n AND of_nat (CMPLOG_MAP_RTN_H - 1))"
  from assms False h obtain bs1 bs2 where
    f: "fetch mm p1 (nat ?len) = Some bs1" "fetch mm p2 (nat ?len) = Some bs2"
    and st': "vals (cmplog st') = (vals (cmplog st))(k :=
      row_put (sizeof_routine * j + CMPLOG_RTN_LEN) bs2 (row_put (sizeof_routine * j) bs1 (vals (cmplog st) k)))"
    by (auto simp: targets_cmplog_routines_def row_store_def Let_def j_def Option.bind_eq_Some_conv split: if_splits)
  have "j < CMPLOG_MAP_RTN_H"
    using and_low_mask_rtn [of n] by (simp add: j_def cmplog_sizes)
  moreover have "length bs1 \<le> 32" "length bs2 \<le> 32"
    using f area_is_valid_le [of A p1 32] area_is_valid_le [of A p2 32]
    by (auto simp: fetch_Some_iff CMPLOG_RTN_LEN_def split: if_splits)
  then have "k' = k \<and> sizeof_routine * j \<le> x \<and> x < sizeof_routine * (j + 1)"
    if "vals (cmplog st') k' x \<noteq> vals (cmplog st) k' x" for k' x
    using that by (auto simp: st' row_put_def cmplog_sizes split: if_splits)
  ultimately show ?thesis by blast
qed

section \<open>Properties\<close>

text \<open>C23. Logging at a valid call site never faults, and afterwards the row
  holds exactly the last 32 comparisons: the \<open>i\<close>-th one logged is in slot \<open>base + i\<close> modulo
  32, where \<open>base\<close> is the hit count before the run; the 16-bit hit counter may wrap meanwhile.\<close>

theorem cmplog_keeps_last_32:
  assumes "cmplog_enabled st" and "k < CMPLOG_MAP_W"
  shows "\<exists>st'. log_all k shp xs st = Some st' \<and>
    (\<forall>i<length xs. length xs \<le> i + 32 \<longrightarrow>
      operand (cmplog st') k ((row_base st k + i) mod 32) = xs ! i)"
  using log_all_window [OF assms, of shp xs] by blast

text \<open>A routine hook changes at most one of the eight entries of one row
  of the map, whatever the sanitizer and the kernel say about the two areas: at most 32 bytes of each
  argument are copied.\<close>

theorem cmplog_routine_in_entry:
  assumes "cmplog_rtn_hook retaddr A mm p1 p2 st = Some st'"
  shows "\<exists>j<CMPLOG_MAP_RTN_H. \<forall>k x. vals (cmplog st') k x \<noteq> vals (cmplog st) k x \<longrightarrow>
    k = cmplog_row retaddr \<and> k < CMPLOG_MAP_W \<and> sizeof_routine * j \<le> x \<and> x < sizeof_routine * (j + 1)"
proof -
  have "cmplog_row retaddr < CMPLOG_MAP_W"
  proof -
    have "a AND of_nat 65535 = take_bit 16 a" for a :: u64
      by (simp add: take_bit_eq_mask mask_eq_exp_minus_1)
    then show ?thesis
      using take_bit_nat_less_exp [of 16 "unat (mix_retaddr retaddr)"]
      by (simp add: cmplog_row_def cmplog_sizes unsigned_take_bit_eq)
  qed
  with routines_entry [OF assms [unfolded cmplog_rtn_hook_def]] show ?thesis by blast
qed

section \<open>Witnesses\<close>

definition demo_cmplog :: cmplog_state where
  "demo_cmplog = \<lparr>cmplog_enabled = True, cmplog = \<lparr>headers = (\<lambda>_. \<lparr>hits = 65535, shape = 0, kind = 0\<rparr>),
     vals = (\<lambda>_ _. 0)\<rparr>\<rparr>"

theorem cmplog_keeps_last_32_witness:
  "\<exists>st'. log_all 3 4 [(1, 2), (5, 6)] demo_cmplog = Some st' \<and>
     operand (cmplog st') 3 31 = (1, 2) \<and> operand (cmplog st') 3 0 = (5, 6)"
proof -
  have e: "cmplog_enabled demo_cmplog" "3 < CMPLOG_MAP_W" "row_base demo_cmplog 3 = 65535"
    by (simp_all add: demo_cmplog_def cmplog_sizes row_base_def CMPLOG_KIND_INS_def)
  from cmplog_keeps_last_32 [OF e(1,2), of 4 "[(1, 2), (5, 6)]"]
  show ?thesis by (auto simp: e(3) less_Suc_eq)
qed

definition demo_area :: area_env where
  "demo_area = \<lparr>region_is_poisoned = (\<lambda>_ _. False), probe_write = (\<lambda>_ n. int n), area_page_size = 4096\<rparr>"

theorem cmplog_routine_in_entry_witness:
  "\<exists>st'. cmplog_rtn_hook 0x30 demo_area (\<lambda>_. Some 7) 8192 12280 demo_cmplog = Some st' \<and>
     (\<exists>j<8. \<forall>k x. vals (cmplog st') k x \<noteq> vals (cmplog demo_cmplog) k x \<longrightarrow>
        k = 0x3003 \<and> 64 * j \<le> x \<and> x < 64 * (j + 1))"
proof -
  have row: "cmplog_row 0x30 = 0x3003"
    by (simp add: cmplog_row_def mix_retaddr_def cmplog_sizes drop_bit_eq_div push_bit_eq_mult)
  have l: "area_is_valid demo_area 8192 32 = 32" "area_is_valid demo_area 12280 32 = 8"
    by (simp_all add: area_is_valid_def demo_area_def Let_def)
  have f: "fetch (\<lambda>_. Some 7) a 8 = Some (replicate 8 7)" if "a < 20000" for a
    using that by (simp add: fetch_Some_iff bytes_at_nth rd_def addr_limit_def)
  have "\<exists>st'. cmplog_rtn_hook 0x30 demo_area (\<lambda>_. Some 7) 8192 12280 demo_cmplog = Some st'"
    by (auto simp: cmplog_rtn_hook_def row targets_cmplog_routines_def Let_def l CMPLOG_RTN_LEN_def
        CMPLOG_MAP_W_def demo_cmplog_def f header_hit_def CMPLOG_KIND_RTN_def row_store_def cmplog_sizes)
  then obtain st' where r: "cmplog_rtn_hook 0x30 demo_area (\<lambda>_. Some 7) 8192 12280 demo_cmplog = Some st'" ..
  from cmplog_routine_in_entry [OF r] r show ?thesis by (auto simp: row cmplog_sizes)
qed

end
