(* ===== verification/SanCov.thy ===== *)
theory SanCov
  imports CmpLog
begin

text \<open>
  The comparison callbacks of \<open>libafl_targets/src/sancov_cmp.c\<close> and the value profile of
  \<open>value_profile.h\<close>, and libFuzzer's optional initialiser (\<open>libfuzzer.c\<close>). Each feature
  that the build may leave out is a flag of \<open>sancov_cfg\<close>; \<open>RETADDR\<close> is an argument.
\<close>

section \<open>Value profile\<close>

definition CMP_MAP_SIZE :: nat where "CMP_MAP_SIZE = 65536"

text \<open>\<open>__builtin_popcount\<close>\<close>

definition popcount :: "'a::len word \<Rightarrow> nat" where
  "popcount w = length (filter (bit w) [0..<LENGTH('a)])"

type_synonym cmp_map = "nat \<Rightarrow> byte"

text \<open>\<open>libafl_cmp_map[k] = MAX(libafl_cmp_map[k], n)\<close>, compared as \<open>int\<close>, stored in a byte.\<close>

definition cmp_map_max :: "nat \<Rightarrow> nat \<Rightarrow> cmp_map \<Rightarrow> cmp_map option" where
  "cmp_map_max k n cm =
     (if CMP_MAP_SIZE \<le> k then None
      else Some (cm(k := (if n < unat (cm k) then cm k else of_nat n))))"

text \<open>
  The narrow operands are promoted to \<open>int\<close> before the complement, so the bits above them
  count as well.
\<close>

definition value_profile1 :: "nat \<Rightarrow> byte \<Rightarrow> byte \<Rightarrow> cmp_map \<Rightarrow> cmp_map option" where
  "value_profile1 k a b = cmp_map_max k (popcount (NOT (ucast (a XOR b)) :: u32))"

definition value_profile2 :: "nat \<Rightarrow> 16 word \<Rightarrow> 16 word \<Rightarrow> cmp_map \<Rightarrow> cmp_map option" where
  "value_profile2 k a b = cmp_map_max k (popcount (NOT (ucast (a XOR b)) :: u32))"

definition value_profile4 :: "nat \<Rightarrow> u32 \<Rightarrow> u32 \<Rightarrow> cmp_map \<Rightarrow> cmp_map option" where
  "value_profile4 k a b = cmp_map_max k (popcount (NOT (a XOR b)))"

definition value_profile8 :: "nat \<Rightarrow> u64 \<Rightarrow> u64 \<Rightarrow> cmp_map \<Rightarrow> cmp_map option" where
  "value_profile8 k a b = cmp_map_max k (popcount (NOT (a XOR b)))"

section \<open>Callbacks\<close>

record sancov_cfg =
  sancov_value_profile :: bool
  sancov_cmplog :: bool

record sancov_state =
  cmp_map :: cmp_map
  cmplog_part :: cmplog_state

text \<open>
  The common tail of the callbacks: \<open>k\<close> is cut to the width of each map in turn (once for both,
  when both are compiled in), then each feature records the comparison.
\<close>

definition record_cmp ::
    "sancov_cfg \<Rightarrow> (nat \<Rightarrow> cmp_map \<Rightarrow> cmp_map option) \<Rightarrow> byte \<Rightarrow> u64 \<Rightarrow> u64 \<Rightarrow> u64 \<Rightarrow> sancov_state \<Rightarrow>
     sancov_state option" where
  "record_cmp C profile shp k arg1 arg2 st = do {
     let k = (if sancov_value_profile C then k AND of_nat (CMP_MAP_SIZE - 1) else k);
     cm \<leftarrow> (if sancov_value_profile C then profile (unat k) (cmp_map st) else Some (cmp_map st));
     let k = (if sancov_cmplog C then k AND of_nat (CMPLOG_MAP_W - 1) else k);
     cl \<leftarrow> (if sancov_cmplog C then targets_cmplog (unat k) shp arg1 arg2 (cmplog_part st)
            else Some (cmplog_part st));
     Some (st\<lparr>cmp_map := cm, cmplog_part := cl\<rparr>)
   }"

definition trace_cmp1 :: "sancov_cfg \<Rightarrow> u64 \<Rightarrow> byte \<Rightarrow> byte \<Rightarrow> sancov_state \<Rightarrow> sancov_state option" where
  "trace_cmp1 C retaddr a b =
     record_cmp C (\<lambda>k. value_profile1 k a b) 1 (mix_retaddr retaddr) (ucast a) (ucast b)"

definition trace_cmp2 :: "sancov_cfg \<Rightarrow> u64 \<Rightarrow> 16 word \<Rightarrow> 16 word \<Rightarrow> sancov_state \<Rightarrow> sancov_state option" where
  "trace_cmp2 C retaddr a b =
     record_cmp C (\<lambda>k. value_profile2 k a b) 2 (mix_retaddr retaddr) (ucast a) (ucast b)"

definition trace_cmp4 :: "sancov_cfg \<Rightarrow> u64 \<Rightarrow> u32 \<Rightarrow> u32 \<Rightarrow> sancov_state \<Rightarrow> sancov_state option" where
  "trace_cmp4 C retaddr a b =
     record_cmp C (\<lambda>k. value_profile4 k a b) 4 (mix_retaddr retaddr) (ucast a) (ucast b)"

definition trace_cmp8 :: "sancov_cfg \<Rightarrow> u64 \<Rightarrow> u64 \<Rightarrow> u64 \<Rightarrow> sancov_state \<Rightarrow> sancov_state option" where
  "trace_cmp8 C retaddr a b =
     record_cmp C (\<lambda>k. value_profile8 k a b) 8 (mix_retaddr retaddr) a b"

definition trace_const_cmp1 where "trace_const_cmp1 = trace_cmp1"
definition trace_const_cmp2 where "trace_const_cmp2 = trace_cmp2"
definition trace_const_cmp4 where "trace_const_cmp4 = trace_cmp4"
definition trace_const_cmp8 where "trace_const_cmp8 = trace_cmp8"

text \<open>The value profile of one case of a switch, by the width that the table gives.\<close>

definition switch_profile :: "u64 \<Rightarrow> u64 \<Rightarrow> u64 \<Rightarrow> nat \<Rightarrow> cmp_map \<Rightarrow> cmp_map option" where
  "switch_profile width val c k =
     (if width = 8 then value_profile1 k (ucast val) (ucast c)
      else if width = 16 then value_profile2 k (ucast val) (ucast c)
      else if width = 32 then value_profile4 k (ucast val) (ucast c)
      else value_profile8 k val c)"

text \<open>
  The loop over the table: \<open>cases[0]\<close> entries of width \<open>cases[1]\<close>, the \<open>i\<close>-th
  at \<open>cases[i + 2]\<close>. The width is read for each feature that uses it.
\<close>

function switch_loop ::
    "sancov_cfg \<Rightarrow> memory \<Rightarrow> u64 \<Rightarrow> u64 \<Rightarrow> addr \<Rightarrow> nat \<Rightarrow> sancov_state \<Rightarrow> sancov_state option" where
  "switch_loop C m rt val cs i st = do {
     n \<leftarrow> rd64 m cs;
     if i < unat n then do {
       width \<leftarrow> rd64 m (cs + 8);
       c \<leftarrow> rd64 m (cs + 8 * (i + 2));
       st \<leftarrow> record_cmp C (switch_profile width val c) (ucast (width div 8))
              (mix_retaddr (rt + of_nat i)) val c st;
       switch_loop C m rt val cs (Suc i) st
     } else Some st
   }"
  by pat_completeness auto
termination
  by (relation "measure (\<lambda>(C, m, rt, val, cs, i, st). (case rd64 m cs of None \<Rightarrow> 0 | Some n \<Rightarrow> unat n) - i)")
    auto

definition trace_switch ::
    "sancov_cfg \<Rightarrow> memory \<Rightarrow> u64 \<Rightarrow> u64 \<Rightarrow> addr \<Rightarrow> sancov_state \<Rightarrow> sancov_state option" where
  "trace_switch C m retaddr val cs = switch_loop C m retaddr val cs 0"

text \<open>
  \<open>libafl_targets_libfuzzer_init\<close>: the weak \<open>LLVMFuzzerInitialize\<close> is \<open>None\<close>
  when the target does not define it.
\<close>

definition libafl_targets_has_libfuzzer_init :: "('s \<Rightarrow> int \<times> 's) option \<Rightarrow> bool" where
  "libafl_targets_has_libfuzzer_init fuzzer_initialize \<longleftrightarrow> fuzzer_initialize \<noteq> None"

definition libafl_targets_libfuzzer_init :: "('s \<Rightarrow> int \<times> 's) option \<Rightarrow> 's \<Rightarrow> int \<times> 's" where
  "libafl_targets_libfuzzer_init fuzzer_initialize s =
     (case fuzzer_initialize of Some f \<Rightarrow> f s | None \<Rightarrow> (0, s))"

declare switch_loop.simps [simp del]

section \<open>Counting equal bits\<close>

text \<open>The number of bit positions at which two words agree.\<close>

definition equal_bits :: "'a::len word \<Rightarrow> 'a word \<Rightarrow> nat" where
  "equal_bits a b = length (filter (\<lambda>i. bit a i = bit b i) [0..<LENGTH('a)])"

lemma popcount_not_xor: "popcount (NOT (a XOR b)) = equal_bits a b"
proof -
  have "filter (bit (NOT (a XOR b))) [0..<LENGTH('a)] = filter (\<lambda>i. bit a i = bit b i) [0..<LENGTH('a)]"
    for a b :: "'a word"
    by (rule filter_cong) (auto simp: bit_simps)
  then show ?thesis by (simp add: popcount_def equal_bits_def)
qed

lemma popcount_promoted:
  fixes w :: "'a::len word"
  assumes "LENGTH('a) \<le> 32"
  shows "popcount (NOT (ucast w) :: u32) = (32 - LENGTH('a)) + popcount (NOT w)"
proof -
  let ?n = "LENGTH('a)"
  have "[0..<LENGTH(32)] = [0..<?n] @ [?n..<32]"
    using assms upt_add_eq_append [of 0 ?n "32 - ?n"] by simp
  then have "popcount (NOT (ucast w) :: u32) =
      length (filter (bit (NOT (ucast w) :: u32)) [0..<?n]) +
      length (filter (bit (NOT (ucast w) :: u32)) [?n..<32])"
    by (simp add: popcount_def)
  moreover have "filter (bit (NOT (ucast w) :: u32)) [0..<?n] = filter (bit (NOT w)) [0..<?n]"
    using assms by (intro filter_cong) (auto simp: bit_simps)
  moreover have "filter (bit (NOT (ucast w) :: u32)) [?n..<32] = [?n..<32]"
    by (rule filter_True) (auto simp: bit_simps dest: bit_imp_le_length)
  ultimately show ?thesis by (simp add: popcount_def)
qed

lemma equal_bits_le: "equal_bits (a :: 'a::len word) b \<le> LENGTH('a)"
  using length_filter_le [of "\<lambda>i. bit a i = bit b i" "[0..<LENGTH('a)]"] by (simp add: equal_bits_def)

lemma value_profile_eq:
  "value_profile1 k a b = cmp_map_max k (24 + equal_bits a b)"
  "value_profile2 k c d = cmp_map_max k (16 + equal_bits c d)"
  "value_profile4 k e f = cmp_map_max k (equal_bits e f)"
  "value_profile8 k g h = cmp_map_max k (equal_bits g h)"
  by (simp_all add: value_profile1_def value_profile2_def value_profile4_def value_profile8_def
      popcount_promoted popcount_not_xor)

lemma cmp_map_max_entry:
  assumes "k < CMP_MAP_SIZE" and "n \<le> 64"
  shows "\<exists>cm'. cmp_map_max k n cm = Some cm' \<and> unat (cm' k) = max (unat (cm k)) n \<and>
    (\<forall>j. j \<noteq> k \<longrightarrow> cm' j = cm j)"
proof -
  have "unat (of_nat n :: byte) = n" using assms(2) by (simp add: unat_of_nat)
  with assms(1) show ?thesis by (auto simp: cmp_map_max_def)
qed

section \<open>The callbacks stay in bounds\<close>

lemma mask_row: "unat (k AND of_nat 65535 :: u64) < 65536"
proof -
  have "k AND of_nat 65535 = take_bit 16 k" by (simp add: take_bit_eq_mask mask_eq_exp_minus_1)
  then show ?thesis
    using take_bit_nat_less_exp [of 16 "unat k"] by (simp add: unsigned_take_bit_eq)
qed

text \<open>A profile that records one number of at most 64 at its index.\<close>

definition profile_ok :: "(nat \<Rightarrow> cmp_map \<Rightarrow> cmp_map option) \<Rightarrow> bool" where
  "profile_ok f \<longleftrightarrow> (\<forall>k cm. k < CMP_MAP_SIZE \<longrightarrow> f k cm \<noteq> None)"

lemma cmp_map_max_ok: "profile_ok (\<lambda>k. cmp_map_max k n)"
  by (simp add: profile_ok_def cmp_map_max_def)

lemma value_profiles_ok:
  "profile_ok (\<lambda>k. value_profile1 k a b)" "profile_ok (\<lambda>k. value_profile2 k c d)"
  "profile_ok (\<lambda>k. value_profile4 k e f)" "profile_ok (\<lambda>k. value_profile8 k g h)"
  unfolding value_profile_eq by (rule cmp_map_max_ok)+

lemma switch_profile_ok: "profile_ok (switch_profile width val c)"
  using value_profiles_ok by (auto simp: switch_profile_def profile_ok_def)

text \<open>The index of the operand stays in the row because the hit count is masked.\<close>

lemma targets_cmplog_total:
  assumes "k < CMPLOG_MAP_W"
  shows "targets_cmplog k shp a b st \<noteq> None"
proof -
  have "unat (n AND of_nat (CMPLOG_MAP_H - 1)) < CMPLOG_MAP_H" for n :: "16 word"
    using and_low_mask [of n] by (simp add: CMPLOG_MAP_H_def)
  note put = row_store_operands [OF this, unfolded One_nat_def]
  show ?thesis using assms by (simp add: targets_cmplog_def Let_def put split: prod.split)
qed

lemma record_cmp_total:
  assumes "profile_ok profile"
  shows "\<exists>st'. record_cmp C profile shp k a b st = Some st'"
proof -
  let ?k = "if sancov_value_profile C then k AND of_nat (CMP_MAP_SIZE - 1) else k"
  have "\<exists>cm. (if sancov_value_profile C then profile (unat ?k) (cmp_map st) else Some (cmp_map st)) = Some cm"
    using assms mask_row [of k] by (auto simp: profile_ok_def CMP_MAP_SIZE_def)
  moreover have "\<exists>cl. (if sancov_cmplog C
      then targets_cmplog (unat (if sancov_cmplog C then ?k AND of_nat (CMPLOG_MAP_W - 1) else ?k)) shp a b
        (cmplog_part st)
      else Some (cmplog_part st)) = Some cl"
    using targets_cmplog_total mask_row [of ?k] by (auto simp: CMPLOG_MAP_W_def)
  ultimately show ?thesis by (auto simp: record_cmp_def)
qed

lemma switch_loop_total:
  assumes "rd64 m cs = Some n" and "\<And>j. j < unat n + 2 \<Longrightarrow> rd64 m (cs + 8 * j) \<noteq> None"
  shows "\<exists>st'. switch_loop C m rt val cs i st = Some st'"
proof (induction "unat n - i" arbitrary: i st)
  case 0
  then show ?case using assms(1) by (subst switch_loop.simps) simp
next
  case (Suc d)
  then have i: "i < unat n" "d = unat n - Suc i" by auto
  obtain width where w: "rd64 m (cs + 8) = Some width" using assms(2) [of 1] i by auto
  obtain c where c: "rd64 m (cs + 8 * (i + 2)) = Some c" using assms(2) [of "i + 2"] i by auto
  obtain st1 where r: "record_cmp C (switch_profile width val c) (ucast (width div 8))
      (mix_retaddr (rt + of_nat i)) val c st = Some st1"
    using record_cmp_total [OF switch_profile_ok] by blast
  from Suc(1) [OF i(2), of st1] obtain st' where "switch_loop C m rt val cs (Suc i) st1 = Some st'" by blast
  with assms(1) i(1) w c r show ?case by (subst switch_loop.simps) simp
qed

section \<open>Properties\<close>

text \<open>C39. The value profile keeps, per index, the maximum number of equal bits
  seen so far and touches no other index; for 8- and 16-bit operands the 24 or 16 bits that the
  promotion to \<open>int\<close> adds are counted too.\<close>

theorem value_profile_counts:
  assumes "k < CMP_MAP_SIZE"
  shows "\<exists>c1 c2 c4 c8. value_profile1 k a b cm = Some c1 \<and> value_profile2 k c d cm = Some c2 \<and>
    value_profile4 k e f cm = Some c4 \<and> value_profile8 k g h cm = Some c8 \<and>
    unat (c1 k) = max (unat (cm k)) (24 + equal_bits a b) \<and>
    unat (c2 k) = max (unat (cm k)) (16 + equal_bits c d) \<and>
    unat (c4 k) = max (unat (cm k)) (equal_bits e f) \<and>
    unat (c8 k) = max (unat (cm k)) (equal_bits g h) \<and>
    (\<forall>j. j \<noteq> k \<longrightarrow> c1 j = cm j \<and> c2 j = cm j \<and> c4 j = cm j \<and> c8 j = cm j)"
proof -
  have n: "24 + equal_bits a b \<le> 64" "16 + equal_bits c d \<le> 64" "equal_bits e f \<le> 64"
    "equal_bits g h \<le> 64"
    using equal_bits_le [of a b] equal_bits_le [of c d] equal_bits_le [of e f] equal_bits_le [of g h]
    by simp_all
  note entry = cmp_map_max_entry [OF assms, where cm = cm]
  show ?thesis
    unfolding value_profile_eq using entry [OF n(1)] entry [OF n(2)] entry [OF n(3)] entry [OF n(4)] by auto
qed

text \<open>C40. No store of a callback leaves the value profile, the comparison log or the row of the log that
  belongs to the call site: whatever the return address, the operands and the hit count, the comparison callbacks
  return, and so does the switch callback when its table can be read.\<close>

theorem trace_callbacks_total:
  assumes "rd64 m cs = Some n" and "\<And>j. j < unat n + 2 \<Longrightarrow> rd64 m (cs + 8 * j) \<noteq> None"
  shows "trace_cmp1 C ra a1 b1 st \<noteq> None \<and> trace_cmp2 C ra a2 b2 st \<noteq> None \<and>
    trace_cmp4 C ra a4 b4 st \<noteq> None \<and> trace_cmp8 C ra a8 b8 st \<noteq> None \<and>
    trace_switch C m ra val cs st \<noteq> None"
proof -
  note total = record_cmp_total [OF value_profiles_ok(1)] record_cmp_total [OF value_profiles_ok(2)]
    record_cmp_total [OF value_profiles_ok(3)] record_cmp_total [OF value_profiles_ok(4)]
  have "trace_switch C m ra val cs st \<noteq> None"
    using switch_loop_total [OF assms, of C ra val 0 st] by (simp add: trace_switch_def)
  then show ?thesis
    using total by (simp add: trace_cmp1_def trace_cmp2_def trace_cmp4_def trace_cmp8_def)
qed

section \<open>Witnesses\<close>

theorem value_profile_counts_witness:
  "\<exists>c1. value_profile1 5 0xff 0xf0 (\<lambda>_. 0) = Some c1 \<and> unat (c1 5) = 28"
proof -
  have "equal_bits (0xff :: byte) 0xf0 = 4"
    by (simp add: equal_bits_def upt_rec)
  with value_profile_counts [of 5 "0xff" "0xf0" "\<lambda>_. 0" 0 0 0 0 0 0] show ?thesis
    by (auto simp: CMP_MAP_SIZE_def)
qed

definition demo_sancov :: sancov_state where
  "demo_sancov = \<lparr>cmp_map = (\<lambda>_. 0), cmplog_part = demo_cmplog\<rparr>"

text \<open>A switch table with one 8-bit case, 5, at 4096.\<close>

definition demo_table :: memory where
  "demo_table = (\<lambda>x. Some (if x = 4096 then 1 else if x = 4104 then 8 else if x = 4112 then 5 else 0))"

theorem trace_callbacks_total_witness:
  "trace_switch \<lparr>sancov_value_profile = True, sancov_cmplog = True\<rparr> demo_table 0x401000 7 4096 demo_sancov \<noteq> None"
proof -
  have "fetch demo_table 4096 8 = Some [1, 0, 0, 0, 0, 0, 0, 0]"
    by (simp add: fetch_Some_iff demo_table_def rd_def addr_limit_def)
  then have n: "rd64 demo_table 4096 = Some 1" by (simp add: rd64_def)
  have r: "rd64 demo_table a \<noteq> None" if "a < 100000" for a
  proof -
    have "mapped demo_table a 8"
      using that by (simp add: mapped_def demo_table_def rd_def addr_limit_def)
    then show ?thesis by (auto simp: rd64_def mapped_fetch)
  qed
  show ?thesis
    using trace_callbacks_total [OF n] r by simp
qed

end
