(* ===== verification/DlSizes.thy ===== *)
theory DlSizes
  imports QPrelude
begin

text \<open>
  Sizes, alignment and bin indices of the back-end allocator \<open>dlmalloc.c\<close> (64-bit build:
  \<open>sizeof(size_t) = 8\<close>, \<open>MALLOC_ALIGNMENT = 16\<close>, \<open>FOOTERS = 0\<close>). Every macro is a
  function on \<open>64 word\<close> (\<open>size_t\<close>) or \<open>32 word\<close> (\<open>bindex_t\<close>, \<open>binmap_t\<close>) with the
  wrap-around of the C type. The lemmas give the value of a padded request, the range of
  sizes of each tree bin, the agreement of the compiler-builtin and the portable
  variants, and what the bit tricks on bin maps select.
\<close>

named_theorems dl_sizes

section \<open>size_t and alignment\<close>

definition MAX_SIZE_T :: u64 where "MAX_SIZE_T = NOT 0"
definition SIZE_T_SIZE :: u64 where "SIZE_T_SIZE = 8"
definition SIZE_T_BITSIZE :: u64 where "SIZE_T_BITSIZE = push_bit 3 SIZE_T_SIZE"
definition TWO_SIZE_T_SIZES :: u64 where "TWO_SIZE_T_SIZES = push_bit 1 SIZE_T_SIZE"
definition FOUR_SIZE_T_SIZES :: u64 where "FOUR_SIZE_T_SIZES = push_bit 2 SIZE_T_SIZE"
definition SIX_SIZE_T_SIZES :: u64 where
  "SIX_SIZE_T_SIZES = FOUR_SIZE_T_SIZES + TWO_SIZE_T_SIZES"
definition HALF_MAX_SIZE_T :: u64 where "HALF_MAX_SIZE_T = MAX_SIZE_T div 2"
definition MALLOC_ALIGNMENT :: u64 where "MALLOC_ALIGNMENT = 2 * 8"
definition CHUNK_ALIGN_MASK :: u64 where "CHUNK_ALIGN_MASK = MALLOC_ALIGNMENT - 1"

definition is_aligned :: "u64 \<Rightarrow> bool" where
  "is_aligned a \<longleftrightarrow> a AND CHUNK_ALIGN_MASK = 0"

definition align_offset :: "u64 \<Rightarrow> u64" where
  "align_offset a =
     (if a AND CHUNK_ALIGN_MASK = 0 then 0
      else (MALLOC_ALIGNMENT - (a AND CHUNK_ALIGN_MASK)) AND CHUNK_ALIGN_MASK)"

section \<open>Chunk sizes\<close>

definition MCHUNK_SIZE :: u64 where "MCHUNK_SIZE = 32"
definition CHUNK_OVERHEAD :: u64 where "CHUNK_OVERHEAD = SIZE_T_SIZE"
definition MMAP_CHUNK_OVERHEAD :: u64 where "MMAP_CHUNK_OVERHEAD = TWO_SIZE_T_SIZES"
definition MMAP_FOOT_PAD :: u64 where "MMAP_FOOT_PAD = FOUR_SIZE_T_SIZES"
definition MIN_CHUNK_SIZE :: u64 where
  "MIN_CHUNK_SIZE = (MCHUNK_SIZE + CHUNK_ALIGN_MASK) AND NOT CHUNK_ALIGN_MASK"

definition chunk2mem :: "u64 \<Rightarrow> u64" where "chunk2mem p = p + TWO_SIZE_T_SIZES"
definition mem2chunk :: "u64 \<Rightarrow> u64" where "mem2chunk mem = mem - TWO_SIZE_T_SIZES"
definition align_as_chunk :: "u64 \<Rightarrow> u64" where
  "align_as_chunk a = a + align_offset (chunk2mem a)"

definition MAX_REQUEST :: u64 where "MAX_REQUEST = push_bit 2 (- MIN_CHUNK_SIZE)"
definition MIN_REQUEST :: u64 where "MIN_REQUEST = MIN_CHUNK_SIZE - CHUNK_OVERHEAD - 1"

definition pad_request :: "u64 \<Rightarrow> u64" where
  "pad_request req = (req + CHUNK_OVERHEAD + CHUNK_ALIGN_MASK) AND NOT CHUNK_ALIGN_MASK"

definition request2size :: "u64 \<Rightarrow> u64" where
  "request2size req = (if req < MIN_REQUEST then MIN_CHUNK_SIZE else pad_request req)"

section \<open>Head words\<close>

definition PINUSE_BIT :: u64 where "PINUSE_BIT = 1"
definition CINUSE_BIT :: u64 where "CINUSE_BIT = 2"
definition FLAG4_BIT :: u64 where "FLAG4_BIT = 4"
definition INUSE_BITS :: u64 where "INUSE_BITS = PINUSE_BIT OR CINUSE_BIT"
definition FLAG_BITS :: u64 where "FLAG_BITS = PINUSE_BIT OR CINUSE_BIT OR FLAG4_BIT"
definition FENCEPOST_HEAD :: u64 where "FENCEPOST_HEAD = INUSE_BITS OR SIZE_T_SIZE"

definition sizeof_malloc_segment :: u64 where "sizeof_malloc_segment = 32"
definition TOP_FOOT_SIZE :: u64 where
  "TOP_FOOT_SIZE = align_offset (chunk2mem 0) + pad_request sizeof_malloc_segment
                   + MIN_CHUNK_SIZE"
definition SYS_ALLOC_PADDING :: u64 where
  "SYS_ALLOC_PADDING = TOP_FOOT_SIZE + MALLOC_ALIGNMENT"

section \<open>Bins\<close>

definition NSMALLBINS :: u32 where "NSMALLBINS = 32"
definition NTREEBINS :: u32 where "NTREEBINS = 32"
abbreviation (input) SMALLBIN_SHIFT :: nat where "SMALLBIN_SHIFT \<equiv> 3"
abbreviation (input) TREEBIN_SHIFT :: nat where "TREEBIN_SHIFT \<equiv> 8"
definition MIN_LARGE_SIZE :: u64 where "MIN_LARGE_SIZE = push_bit TREEBIN_SHIFT 1"
definition MAX_SMALL_SIZE :: u64 where "MAX_SMALL_SIZE = MIN_LARGE_SIZE - 1"
definition MAX_SMALL_REQUEST :: u64 where
  "MAX_SMALL_REQUEST = MAX_SMALL_SIZE - CHUNK_ALIGN_MASK - CHUNK_OVERHEAD"

definition is_small :: "u64 \<Rightarrow> bool" where
  "is_small s \<longleftrightarrow> drop_bit SMALLBIN_SHIFT s < ucast NSMALLBINS"
definition small_index :: "u64 \<Rightarrow> u32" where
  "small_index s = ucast (drop_bit SMALLBIN_SHIFT s)"
definition small_index2size :: "u32 \<Rightarrow> u64" where
  "small_index2size i = ucast (push_bit SMALLBIN_SHIFT i)"

text \<open>The compiler builtins on \<open>unsigned int\<close>; their argument is never 0 here.\<close>

fun clz_below :: "nat \<Rightarrow> u32 \<Rightarrow> nat" where
  "clz_below 0 x = 0"
| "clz_below (Suc n) x = (if bit x n then 0 else Suc (clz_below n x))"

fun ctz_from :: "nat \<Rightarrow> nat \<Rightarrow> u32 \<Rightarrow> nat" where
  "ctz_from 0 i x = i"
| "ctz_from (Suc n) i x = (if bit x i then i else ctz_from n (Suc i) x)"

definition builtin_clz :: "u32 \<Rightarrow> nat" where "builtin_clz x = clz_below 32 x"
definition builtin_ctz :: "u32 \<Rightarrow> nat" where "builtin_ctz x = ctz_from 32 0 x"

definition compute_tree_index :: "u64 \<Rightarrow> u32" where
  "compute_tree_index s =
     (let x = (ucast (drop_bit TREEBIN_SHIFT s) :: u32)
      in if x = 0 then 0
         else if x > 0xFFFF then NTREEBINS - 1
         else let k = 31 - builtin_clz x
              in of_nat (2 * k) + ucast (drop_bit (k + (TREEBIN_SHIFT - 1)) s AND 1))"

definition compute_tree_index_portable :: "u64 \<Rightarrow> u32" where
  "compute_tree_index_portable s =
     (let x = drop_bit TREEBIN_SHIFT s
      in if x = 0 then 0
         else if x > 0xFFFF then NTREEBINS - 1
         else let y = (ucast x :: u32);
                  n = drop_bit 16 (y - 0x100) AND 8;
                  y = push_bit (unat n) y;
                  k = drop_bit 16 (y - 0x1000) AND 4;
                  n = n + k;
                  y = push_bit (unat k) y;
                  k = drop_bit 16 (y - 0x4000) AND 2;
                  n = n + k;
                  y = push_bit (unat k) y;
                  k = 14 - n + drop_bit 15 y
              in push_bit 1 k + ucast (drop_bit (unat k + (TREEBIN_SHIFT - 1)) s AND 1))"

definition bit_for_tree_index :: "u32 \<Rightarrow> u64" where
  "bit_for_tree_index i =
     (if i = NTREEBINS - 1 then SIZE_T_BITSIZE - 1
      else ucast (drop_bit 1 i + of_nat TREEBIN_SHIFT - 2))"

definition leftshift_for_tree_index :: "u32 \<Rightarrow> nat" where
  "leftshift_for_tree_index i =
     (if i = NTREEBINS - 1 then 0
      else unat ((SIZE_T_BITSIZE - 1) - ucast (drop_bit 1 i + of_nat TREEBIN_SHIFT - 2)))"

definition minsize_for_tree_index :: "u32 \<Rightarrow> u64" where
  "minsize_for_tree_index i =
     push_bit (unat (drop_bit 1 i) + TREEBIN_SHIFT) 1
     OR push_bit (unat (drop_bit 1 i) + TREEBIN_SHIFT - 1) (ucast (i AND 1))"

section \<open>Bin maps\<close>

definition idx2bit :: "u32 \<Rightarrow> u32" where "idx2bit i = push_bit (unat i) 1"
definition least_bit :: "u32 \<Rightarrow> u32" where "least_bit x = x AND - x"
definition left_bits :: "u32 \<Rightarrow> u32" where
  "left_bits x = push_bit 1 x OR - push_bit 1 x"
definition same_or_left_bits :: "u32 \<Rightarrow> u32" where "same_or_left_bits x = x OR - x"

definition compute_bit2idx :: "u32 \<Rightarrow> u32" where
  "compute_bit2idx x = of_nat (builtin_ctz x)"

definition compute_bit2idx_portable :: "u32 \<Rightarrow> u32" where
  "compute_bit2idx_portable x =
     (let y = x - 1;
          k = drop_bit (16 - 4) y AND 16; n = k;     y = drop_bit (unat k) y;
          k = drop_bit (8 - 3) y AND 8;   n = n + k; y = drop_bit (unat k) y;
          k = drop_bit (4 - 2) y AND 4;   n = n + k; y = drop_bit (unat k) y;
          k = drop_bit (2 - 1) y AND 2;   n = n + k; y = drop_bit (unat k) y;
          k = drop_bit (1 - 0) y AND 1;   n = n + k; y = drop_bit (unat k) y
      in n + y)"

section \<open>Values of the constants\<close>

lemma size_values [dl_sizes, simp]:
  "SIZE_T_SIZE = 8" "TWO_SIZE_T_SIZES = 16" "FOUR_SIZE_T_SIZES = 32" "SIX_SIZE_T_SIZES = 48"
  "MALLOC_ALIGNMENT = 16" "CHUNK_ALIGN_MASK = 15" "MCHUNK_SIZE = 32" "CHUNK_OVERHEAD = 8"
  "MMAP_CHUNK_OVERHEAD = 16" "MMAP_FOOT_PAD = 32" "MIN_CHUNK_SIZE = 32" "MIN_REQUEST = 23"
  "SIZE_T_BITSIZE = 64" "MAX_SIZE_T = - 1" "MAX_REQUEST = - 128"
  by (simp_all add: SIZE_T_SIZE_def TWO_SIZE_T_SIZES_def FOUR_SIZE_T_SIZES_def
      SIX_SIZE_T_SIZES_def MALLOC_ALIGNMENT_def CHUNK_ALIGN_MASK_def MCHUNK_SIZE_def
      CHUNK_OVERHEAD_def MMAP_CHUNK_OVERHEAD_def MMAP_FOOT_PAD_def MIN_CHUNK_SIZE_def
      MIN_REQUEST_def SIZE_T_BITSIZE_def MAX_SIZE_T_def MAX_REQUEST_def push_bit_eq_mult)

lemma flag_values [dl_sizes, simp]:
  "PINUSE_BIT = 1" "CINUSE_BIT = 2" "FLAG4_BIT = 4" "INUSE_BITS = 3" "FLAG_BITS = 7"
  "FENCEPOST_HEAD = 11"
  by (simp_all add: PINUSE_BIT_def CINUSE_BIT_def FLAG4_BIT_def INUSE_BITS_def FLAG_BITS_def
      FENCEPOST_HEAD_def)

lemma top_values [dl_sizes, simp]: "TOP_FOOT_SIZE = 80" "SYS_ALLOC_PADDING = 96"
  "MAX_SMALL_SIZE = 255" "MAX_SMALL_REQUEST = 232" "MIN_LARGE_SIZE = 256"
  by (simp_all add: TOP_FOOT_SIZE_def SYS_ALLOC_PADDING_def align_offset_def chunk2mem_def
      pad_request_def sizeof_malloc_segment_def MAX_SMALL_SIZE_def MIN_LARGE_SIZE_def
      MAX_SMALL_REQUEST_def)

lemma bins_values [dl_sizes, simp]: "NSMALLBINS = 32" "NTREEBINS = 32"
  by (simp_all add: NSMALLBINS_def NTREEBINS_def)

section \<open>Padded requests and alignment\<close>

lemma unat_take_bit: "unat (take_bit n a :: 'a::len word) = unat a mod 2 ^ n"
  unfolding unsigned_take_bit_eq by (rule take_bit_eq_mod)

lemma unat_and_mask4: "unat (a AND 15 :: u64) = unat a mod 16"
proof -
  have "a AND 15 = take_bit 4 a"
    by (simp add: take_bit_eq_mask mask_eq_exp_minus_1)
  then show ?thesis by (simp add: unat_take_bit del: take_bit_eq_mod)
qed

lemma unat_and_not_mask: "unat (a AND NOT (mask n) :: u64) = unat a - unat a mod 2 ^ n"
proof -
  have "a AND NOT (mask n) = push_bit n (drop_bit n a)"
    by (rule bit_word_eqI) (auto simp: bit_simps)
  moreover have "push_bit n (drop_bit n a) + take_bit n a = a" by (rule bits_ident)
  moreover have "unat (take_bit n a) = unat a mod 2 ^ n" by (rule unat_take_bit)
  moreover have "take_bit n a \<le> a"
    unfolding word_le_nat_alt unat_take_bit by simp
  ultimately show ?thesis
    by (metis add_diff_cancel_right' unat_sub)
qed

lemma unat_and_not_15: "unat (a AND NOT 15 :: u64) = unat a - unat a mod 16"
proof -
  have m: "mask 4 = (15 :: u64)" by (simp add: mask_eq_exp_minus_1)
  show ?thesis using unat_and_not_mask [of a 4] unfolding m by simp
qed

lemma unat_pad_request:
  assumes "unat req < 2 ^ 64 - 23"
  shows "unat (pad_request req) = (unat req + 23) div 16 * 16"
proof -
  have "unat (req + 8 + 15) = unat req + 23"
    using assms by (simp add: unat_word_ariths)
  then show ?thesis
    unfolding pad_request_def dl_sizes unat_and_not_15
    by (simp add: minus_mod_eq_div_mult)
qed

lemma unat_MAX_REQUEST: "unat MAX_REQUEST = 2 ^ 64 - 128"
  by (simp)

lemma unat_request2size:
  assumes "req < MAX_REQUEST"
  shows "unat (request2size req) = max 32 ((unat req + 23) div 16 * 16)"
proof -
  have lim: "unat req < 2 ^ 64 - 128"
    using assms by (simp add: word_less_nat_alt)
  show ?thesis
  proof (cases "req < MIN_REQUEST")
    case True
    then have "unat req < 23" by (simp add: word_less_nat_alt)
    then have "(unat req + 23) div 16 * 16 \<le> 32" by simp
    with True show ?thesis by (simp add: request2size_def)
  next
    case False
    then have "23 \<le> unat req" by (simp add: word_less_nat_alt)
    then have "32 \<le> (unat req + 23) div 16 * 16" by simp
    moreover have "unat (pad_request req) = (unat req + 23) div 16 * 16"
      using lim by (intro unat_pad_request) simp
    ultimately show ?thesis using False by (simp add: request2size_def)
  qed
qed

text \<open>A request below \<open>MAX_REQUEST\<close> is padded to a multiple of 16 that is at least
  the minimum chunk size, has room for the request and the chunk overhead, and (from
  \<open>MIN_REQUEST\<close> on) wastes less than 16 bytes.\<close>

theorem request2size_bounds:
  assumes "req < MAX_REQUEST"
  shows "is_aligned (request2size req) \<and> MIN_CHUNK_SIZE \<le> request2size req
    \<and> unat req + unat CHUNK_OVERHEAD \<le> unat (request2size req)
    \<and> (req \<ge> MIN_REQUEST \<longrightarrow> unat (request2size req) < unat req + unat CHUNK_OVERHEAD + 16)"
proof -
  note u = unat_request2size [OF assms]
  have "unat (request2size req AND 15) = 0"
    unfolding unat_and_mask4 u by (simp add: max_def)
  then have a: "request2size req AND 15 = 0" by (simp only: unat_eq_zero)
  have b: "unat req + 8 \<le> (unat req + 23) div 16 * 16"
  and c: "(unat req + 23) div 16 * 16 \<le> unat req + 23"
    by linarith+
  show ?thesis
    using a b c by (auto simp: is_aligned_def word_le_nat_alt u)
qed

theorem request2size_bounds_witness:
  "is_aligned (request2size 100) \<and> unat (100 :: u64) + unat CHUNK_OVERHEAD \<le> unat (request2size 100)"
  using request2size_bounds [of 100] by (simp add: word_less_nat_alt)

lemma unat_align_offset: "(unat a + unat (align_offset a)) mod 16 = 0 \<and> unat (align_offset a) < 16"
proof (cases "a AND 15 = 0")
  case True
  then have "unat a mod 16 = 0" by (metis unat_and_mask4 unat_0)
  with True show ?thesis by (simp add: align_offset_def)
next
  case False
  then have n: "unat a mod 16 \<noteq> 0" by (metis unat_and_mask4 unat_eq_zero)
  have le: "a AND 15 \<le> (16 :: u64)"
    by (simp add: word_le_nat_alt unat_and_mask4)
  have "unat (16 - (a AND 15)) = 16 - unat a mod 16"
    using unat_sub [OF le] by (simp add: unat_and_mask4)
  then have "unat (align_offset a) = 16 - unat a mod 16"
    using False n by (simp add: align_offset_def unat_and_mask4)
  with n show ?thesis by simp presburger
qed

section \<open>Searching a bin map\<close>

lemma ctz_from_least:
  assumes "\<exists>j. i \<le> j \<and> j < i + n \<and> bit x j"
  shows "bit x (ctz_from n i x) \<and> i \<le> ctz_from n i x \<and> ctz_from n i x < i + n
    \<and> (\<forall>j. i \<le> j \<and> j < ctz_from n i x \<longrightarrow> \<not> bit x j)"
  using assms
proof (induction n arbitrary: i)
  case (Suc n)
  show ?case
  proof (cases "bit x i")
    case False
    with Suc.prems have "\<exists>j. Suc i \<le> j \<and> j < Suc i + n \<and> bit x j"
      by (metis add_Suc_right add_Suc_shift le_neq_implies_less less_eq_Suc_le)
    from Suc.IH [OF this] False show ?thesis
      by (auto simp: less_Suc_eq_le) (metis le_antisym not_less_eq_eq)
  qed auto
qed auto

lemma builtin_ctz_least:
  assumes "x \<noteq> 0"
  shows "bit x (builtin_ctz x)" and "builtin_ctz x < 32"
    and "\<forall>j<builtin_ctz x. \<not> bit x j"
proof -
  have "\<exists>j. bit x j" using assms by (metis bit_0_eq bit_word_eqI bot_apply bot_bool_def)
  then have "\<exists>j. 0 \<le> j \<and> j < 0 + 32 \<and> bit x j" using bit_imp_le_length by fastforce
  from ctz_from_least [OF this] show "bit x (builtin_ctz x)" "builtin_ctz x < 32"
    "\<forall>j<builtin_ctz x. \<not> bit x j" by (auto simp: builtin_ctz_def)
qed

lemma builtin_ctz_eq:
  assumes "bit x k" and "\<forall>j<k. \<not> bit x j"
  shows "builtin_ctz x = k"
  using assms builtin_ctz_least [of x] by (metis bit_0_eq bot_apply bot_bool_def linorder_neqE_nat)

lemma bit_idx2bit: "unat i < 32 \<Longrightarrow> bit (idx2bit i) n \<longleftrightarrow> n = unat i"
  by (auto simp: idx2bit_def bit_simps)

lemma bit_left_bits_idx2bit:
  assumes "unat i < 32"
  shows "bit (left_bits (idx2bit i)) n \<longleftrightarrow> n < 32 \<and> unat i < n"
proof -
  have e: "push_bit 1 (idx2bit i) = 2 ^ Suc (unat i)"
    by (simp add: idx2bit_def push_bit_eq_mult)
  show ?thesis
    unfolding left_bits_def e bit_or_iff bit_minus_exp_iff by (auto simp: bit_exp_iff simp del: power_Suc)
qed

lemma word_pred_lowest:
  fixes x :: "'a::len word"
  assumes "bit x k" and low: "\<forall>j<k. \<not> bit x j"
  shows "x - 1 = unset_bit k x OR mask k"
proof -
  have k: "k < LENGTH('a)" using assms(1) by (rule bit_imp_le_length)
  have "unset_bit k x AND 2 ^ k = 0"
    by (rule bit_word_eqI) (auto simp: bit_simps)
  then have "unset_bit k x + 2 ^ k = unset_bit k x OR 2 ^ k"
    by (rule disjunctive_add_eq_or)
  also have "\<dots> = x"
    by (rule bit_word_eqI) (use assms(1) in \<open>auto simp: bit_simps\<close>)
  finally have "x - 1 = unset_bit k x + mask k"
    by (simp add: mask_eq_exp_minus_1 flip: add_diff_eq)
  moreover have "unset_bit k x AND mask k = 0"
    by (rule bit_word_eqI) (use low in \<open>auto simp: bit_simps\<close>)
  ultimately show ?thesis by (simp add: disjunctive_add_eq_or)
qed

lemma bit_uminus_lowest:
  fixes x :: u32
  assumes "bit x k" and low: "\<forall>j<k. \<not> bit x j"
  shows "bit (- x) n \<longleftrightarrow> n < 32 \<and> (n = k \<or> k < n \<and> \<not> bit x n)"
  unfolding bit_minus_iff word_pred_lowest [OF assms]
  using bit_imp_le_length [OF assms(1)] by (auto simp: bit_simps)

lemma least_bit_ctz:
  assumes "x \<noteq> 0"
  shows "least_bit x = 2 ^ builtin_ctz x"
proof (rule bit_word_eqI)
  fix n assume "n < LENGTH(32)"
  note c = builtin_ctz_least [OF assms]
  show "bit (least_bit x) n \<longleftrightarrow> bit (2 ^ builtin_ctz x :: u32) n"
    unfolding least_bit_def bit_and_iff bit_uminus_lowest [OF c(1,3)]
    using c(1,2) by (auto simp: bit_simps)
qed

lemma unat_compute_bit2idx:
  assumes "x \<noteq> 0"
  shows "unat (compute_bit2idx (least_bit x)) = builtin_ctz x"
proof -
  note c = builtin_ctz_least [OF assms]
  have "builtin_ctz (2 ^ builtin_ctz x) = builtin_ctz x"
    by (rule builtin_ctz_eq) (use c(2) in \<open>auto simp: bit_simps\<close>)
  with c(2) show ?thesis
    by (simp add: compute_bit2idx_def least_bit_ctz [OF assms] unat_of_nat)
qed

lemma next_marked_bin:
  assumes i: "unat i < 32" and ne: "left_bits (idx2bit i) AND binmap \<noteq> 0"
  defines "k \<equiv> compute_bit2idx (least_bit (left_bits (idx2bit i) AND binmap))"
  shows "unat i < unat k \<and> unat k < 32 \<and> bit binmap (unat k)
    \<and> (\<forall>j. unat i < j \<and> j < unat k \<longrightarrow> \<not> bit binmap j)"
proof -
  have k: "unat k = builtin_ctz (left_bits (idx2bit i) AND binmap)"
    unfolding k_def by (rule unat_compute_bit2idx [OF ne])
  note c = builtin_ctz_least [OF ne, folded k]
  show ?thesis
    using c by (fastforce simp: bit_and_iff bit_left_bits_idx2bit [OF i])
qed

text \<open>The bit tricks on a bin map find the next nonempty bin: the index computed from the
  least bit left of bit \<open>i\<close> is the least marked index above \<open>i\<close>.\<close>

theorem bin_search:
  assumes "unat i < 32" and "left_bits (idx2bit i) AND binmap \<noteq> 0"
  defines "k \<equiv> compute_bit2idx (least_bit (left_bits (idx2bit i) AND binmap))"
  shows "unat i < unat k \<and> unat k < 32 \<and> bit binmap (unat k)
    \<and> (\<forall>j. unat i < j \<and> j < unat k \<longrightarrow> \<not> bit binmap j)"
  unfolding k_def by (rule next_marked_bin [OF assms(1,2)])

theorem bin_search_witness:
  "unat (1 :: u32) < unat (compute_bit2idx (least_bit (left_bits (idx2bit 1) AND 0x32)))"
  using bin_search [of 1 "0x32"] by (simp add: left_bits_def idx2bit_def)

lemma mask_halving:
  assumes "k \<le> 32" and "m = 2 ^ b" and "s + b = m"
  shows "drop_bit s (mask k) AND (of_nat m :: u32) = (if m < k then of_nat m else 0)"
    and "drop_bit (unat (if m < k then of_nat m else 0 :: u32)) (mask k :: u32)
         = mask (if m < k then k - m else k)"
proof -
  have m: "m < k \<Longrightarrow> m < 32" using assms(1) by simp
  show "drop_bit s (mask k) AND (of_nat m :: u32) = (if m < k then of_nat m else 0)"
    by (rule bit_word_eqI) (use assms in \<open>auto simp: bit_simps\<close>)
  have "unat (of_nat m :: u32) = m" if "m < k" using m [OF that] by (simp add: unat_of_nat)
  then show "drop_bit (unat (if m < k then of_nat m else 0 :: u32)) (mask k :: u32)
         = mask (if m < k then k - m else k)"
    using assms(1) by (auto intro!: bit_word_eqI simp: bit_simps)
qed

lemmas mask_halvings =
  mask_halving [where m = 16 and b = 4 and s = 12, simplified]
  mask_halving [where m = 8 and b = 3 and s = 5, simplified]
  mask_halving [where m = 4 and b = 2 and s = 2, simplified]
  mask_halving [where m = 2 and b = 1 and s = 1, simplified]
  mask_halving [where m = 1 and b = 0 and s = 1, simplified]

lemma compute_bit2idx_portable_power:
  assumes "k < 32"
  shows "compute_bit2idx_portable (2 ^ k) = of_nat k"
proof -
  define k1 where "k1 = (if 16 < k then k - 16 else k)"
  define k2 where "k2 = (if 8 < k1 then k1 - 8 else k1)"
  define k3 where "k3 = (if 4 < k2 then k2 - 4 else k2)"
  define k4 where "k4 = (if 2 < k3 then k3 - 2 else k3)"
  define k5 where "k5 = (if Suc 0 < k4 then k4 - 1 else k4)"
  have le: "k \<le> 32" "k1 \<le> 16" "k2 \<le> 8" "k3 \<le> 4" "k4 \<le> 2" "k5 \<le> 1"
    using assms by (auto simp: k1_def k2_def k3_def k4_def k5_def)
  then have le32: "k1 \<le> 32" "k2 \<le> 32" "k3 \<le> 32" "k4 \<le> 32" by linarith+
  have m: "(2 ^ k :: u32) - 1 = mask k" by (simp add: mask_eq_exp_minus_1)
  have k5: "mask k5 = (of_nat k5 :: u32)" using le(6) by (cases k5) auto
  have "compute_bit2idx_portable (2 ^ k) =
    (if 16 < k then 16 else 0) + (if 8 < k1 then 8 else 0) + (if 4 < k2 then 4 else 0)
    + (if 2 < k3 then 2 else 0) + (if 1 < k4 then 1 else 0) + of_nat k5"
    unfolding compute_bit2idx_portable_def Let_def m
    using mask_halvings(1,2) [OF le(1), folded k1_def] mask_halvings(3,4) [OF le32(1), folded k2_def]
      mask_halvings(5,6) [OF le32(2), folded k3_def] mask_halvings(7,8) [OF le32(3), folded k4_def]
      mask_halvings(9,10) [OF le32(4), folded k5_def] k5
    by simp
  also have "\<dots> = of_nat ((if 16 < k then 16 else 0) + (if 8 < k1 then 8 else 0)
    + (if 4 < k2 then 4 else 0) + (if 2 < k3 then 2 else 0) + (if 1 < k4 then 1 else 0) + k5)"
    by simp
  also have "(if 16 < k then 16 else 0) + (if 8 < k1 then 8 else 0)
    + (if 4 < k2 then 4 else 0) + (if 2 < k3 then 2 else 0) + (if 1 < k4 then 1 else 0) + k5 = k"
    unfolding k1_def k2_def k3_def k4_def k5_def by auto
  finally show ?thesis .
qed

theorem bit2idx_portable_agrees:
  assumes "x \<noteq> 0"
  shows "compute_bit2idx_portable (least_bit x) = compute_bit2idx (least_bit x)"
proof -
  note c = builtin_ctz_least [OF assms]
  have "builtin_ctz (2 ^ builtin_ctz x) = builtin_ctz x"
    by (rule builtin_ctz_eq) (use c(2) in \<open>auto simp: bit_simps\<close>)
  with c(2) show ?thesis
    by (simp add: least_bit_ctz [OF assms] compute_bit2idx_def compute_bit2idx_portable_power)
qed

section \<open>The bin of a size\<close>

lemma clz_below_bounds:
  assumes "\<exists>j<n. bit x j"
  shows "clz_below n x < n \<and> bit x (n - 1 - clz_below n x)
    \<and> (\<forall>j<n. n - 1 - clz_below n x < j \<longrightarrow> \<not> bit x j)"
  using assms
proof (induction n)
  case (Suc n)
  show ?case
  proof (cases "bit x n")
    case False
    with Suc.prems have "\<exists>j<n. bit x j" by (metis less_SucE)
    from Suc.IH [OF this] False show ?thesis by (auto simp: less_Suc_eq)
  qed auto
qed auto

lemma builtin_clz_log:
  assumes "x \<noteq> 0"
  defines "k \<equiv> 31 - builtin_clz x"
  shows "2 ^ k \<le> unat x" and "unat x < 2 ^ Suc k" and "k < 32"
proof -
  have "\<exists>j. bit x j" using assms by (metis bit_0_eq bit_word_eqI bot_apply bot_bool_def)
  then have "\<exists>j<32. bit x j" using bit_imp_le_length by fastforce
  from clz_below_bounds [OF this] have b: "bit x k" and h: "\<forall>j<32. k < j \<longrightarrow> \<not> bit x j"
    by (auto simp: k_def builtin_clz_def)
  have "take_bit (Suc k) x = x"
    by (rule bit_word_eqI) (use h in \<open>auto simp: bit_simps less_Suc_eq\<close>)
  then show "unat x < 2 ^ Suc k"
    by (metis unat_take_bit mod_less_divisor zero_less_numeral zero_less_power)
  have "odd (unat x div 2 ^ k)" using b by (simp add: bit_unsigned_iff bit_iff_odd [symmetric])
  then show "2 ^ k \<le> unat x" by (metis div_less even_zero linorder_not_le)
  show "k < 32" by (simp add: k_def)
qed

lemma log2_unique:
  assumes "2 ^ a \<le> (n::nat)" "n < 2 ^ Suc a" "2 ^ b \<le> n" "n < 2 ^ Suc b"
  shows "a = b"
proof -
  have "\<not> Suc a \<le> b" "\<not> Suc b \<le> a"
    using assms power_increasing [of _ _ "2::nat"] by (meson le_less_trans not_less one_le_numeral order_le_less_trans)+
  then show ?thesis by simp
qed

text \<open>The bin a size belongs to, as the comment before the bins describes it.\<close>

definition tree_bin_spec :: "nat \<Rightarrow> nat \<Rightarrow> nat" where
  "tree_bin_spec s k = 2 * k + s div 2 ^ (k + 7) mod 2"

lemma unat_drop_bit: "unat (drop_bit n a :: 'a::len word) = unat a div 2 ^ n"
  unfolding unat_drop_bit_eq by (rule drop_bit_eq_div)

lemma unat_drop8_32:
  assumes "unat s < 2 ^ 40"
  shows "unat (ucast (drop_bit 8 s) :: u32) = unat s div 256"
  proof -
  have "unat (drop_bit 8 s) = unat s div 256" by (simp only: unat_drop_bit) simp
  then show ?thesis
    using assms by (simp add: unsigned_ucast_eq take_bit_nat_eq_self)
qed

lemma ucast_bit_AND1: "(ucast (drop_bit n (s :: u64) AND 1) :: u32) = of_nat (unat s div 2 ^ n mod 2)"
proof -
  have "unat (drop_bit n s AND 1) = unat s div 2 ^ n mod 2"
    using unat_take_bit [of 1 "drop_bit n s"]
    by (simp only: unat_drop_bit) (simp add: take_bit_eq_mask)
  then show ?thesis by (metis of_nat_unat)
qed

lemma compute_tree_index_eq:
  assumes "256 \<le> unat s" and "unat s < 2 ^ 24"
    and "2 ^ (k + 8) \<le> unat s" "unat s < 2 ^ (k + 9)"
  shows "unat (compute_tree_index s) = tree_bin_spec (unat s) k" and "k < 16"
proof -
  let ?x = "ucast (drop_bit 8 s) :: u32"
  have x: "unat ?x = unat s div 256" using assms(2) by (intro unat_drop8_32) simp
  have ne: "?x \<noteq> 0" using assms(1) x by (metis div_greater_zero_iff unat_0 zero_less_numeral less_numeral_extra(3))
  have "unat s div 256 < 65536" using assms(2) by simp
  then have le: "\<not> ?x > 0xFFFF" by (simp add: word_less_nat_alt x)
  note c = builtin_clz_log [OF ne]
  have "2 ^ k \<le> unat ?x" "unat ?x < 2 ^ Suc k"
    unfolding x using assms(3,4) by (auto simp: power_add less_mult_imp_div_less div_le_mono
        le_div_geq nat_le_iff_add)
  then have k: "31 - builtin_clz ?x = k" using log2_unique [OF c(1,2)] by blast
  show k16: "k < 16"
    using assms(2,3) power_increasing [of 16 k "2::nat"] by (force simp: power_add)
  have "unat (of_nat (2 * k) + of_nat (unat s div 2 ^ (k + 7) mod 2) :: u32) = tree_bin_spec (unat s) k"
    using k16 by (simp add: tree_bin_spec_def unat_of_nat flip: of_nat_add of_nat_mult)
  then show "unat (compute_tree_index s) = tree_bin_spec (unat s) k"
    using ne le k by (simp add: compute_tree_index_def ucast_bit_AND1)
qed

section \<open>Ranges of the tree bins\<close>

lemma unat_minsize:
  assumes i: "unat i = 2 * k + b" and "b < 2" and "k < 16"
  shows "unat (minsize_for_tree_index i) = 2 ^ (k + 7) * (2 + b)"
proof -
  have d: "unat (drop_bit 1 i) = k"
    unfolding unat_drop_bit i using assms(2) by simp
  have "unat (i AND 1) = b"
    using unat_take_bit [of 1 i] assms(2) unfolding i by (simp add: take_bit_eq_mask)
  then have a: "(ucast (i AND 1) :: u64) = of_nat b" by (metis of_nat_unat)
  have m: "minsize_for_tree_index i = push_bit (k + 8) 1 OR push_bit (k + 7) (of_nat b)"
    unfolding minsize_for_tree_index_def d a by (simp add: add.commute)
  have "push_bit (k + 8) 1 AND push_bit (k + 7) (of_nat b :: u64) = 0"
    using assms(2) by (intro bit_word_eqI) (auto simp: bit_simps less_2_cases_iff)
  then have "minsize_for_tree_index i = push_bit (k + 8) 1 + push_bit (k + 7) (of_nat b)"
    unfolding m by (rule disjunctive_add_eq_or [symmetric])
  also have "\<dots> = of_nat (2 ^ (k + 7) * (2 + b))"
    by (simp add: push_bit_eq_mult algebra_simps power_add)
  finally have e: "minsize_for_tree_index i = of_nat (2 ^ (k + 7) * (2 + b))" .
  have "(2::nat) ^ (k + 7) \<le> 2 ^ 22" using assms(3) by (intro power_increasing) auto
  then have "2 ^ (k + 7) * (2 + b) < 2 ^ 64"
    using assms(2) mult_le_mono [of "2 ^ (k + 7)" "2 ^ 22" "2 + b" 3] by simp
  then have "take_bit LENGTH(64) (2 ^ (k + 7) * (2 + b)) = 2 ^ (k + 7) * (2 + b)"
    by (intro take_bit_nat_eq_self) simp
  then show ?thesis unfolding e unsigned_of_nat of_nat_id .
qed

lemma tree_size_class:
  assumes "256 \<le> (s :: nat)" and "s < 2 ^ 24"
  obtains k where "k < 16" and "2 ^ (k + 8) \<le> s" and "s < 2 ^ (k + 9)"
proof -
  obtain n where n: "2 ^ n \<le> s" "s < 2 ^ Suc n"
    using assms(1) ex_power_ivl1 [of 2 s] by auto
  have "8 \<le> n"
  proof (rule ccontr)
    assume "\<not> 8 \<le> n"
    then have "(2::nat) ^ Suc n \<le> 2 ^ 8" by (intro power_increasing) auto
    with n(2) assms(1) show False by simp
  qed
  moreover have "n < 24"
  proof (rule ccontr)
    assume "\<not> n < 24"
    then have "(2::nat) ^ 24 \<le> 2 ^ n" by (intro power_increasing) auto
    with n(1) assms(2) show False by linarith
  qed
  ultimately show ?thesis using n by (intro that [of "n - 8"]) auto
qed

lemma size_class_quotient:
  assumes "2 ^ (k + 8) \<le> (s :: nat)" and "s < 2 ^ (k + 9)"
  defines "b \<equiv> s div 2 ^ (k + 7) mod 2"
  shows "2 ^ (k + 7) * (2 + b) \<le> s" and "s < 2 ^ (k + 7) * (3 + b)"
proof -
  let ?q = "s div 2 ^ (k + 7)"
  have e: "(2::nat) ^ (k + 8) = 2 * 2 ^ (k + 7)" "(2::nat) ^ (k + 9) = 4 * 2 ^ (k + 7)"
    by (simp_all add: power_add)
  have "2 \<le> ?q" using div_le_mono [OF assms(1), of "2 ^ (k + 7)"] by (simp add: e)
  moreover have "?q < 4" using assms(2) unfolding e by (simp add: less_mult_imp_div_less)
  ultimately have "?q = 2 \<or> ?q = 3" by linarith
  then have q: "?q = 2 + b" unfolding b_def by auto
  show "2 ^ (k + 7) * (2 + b) \<le> s"
    using times_div_less_eq_dividend [of "2 ^ (k + 7)" s] unfolding q .
  have "s < 2 ^ (k + 7) * Suc ?q" by (simp add: dividend_less_times_div)
  moreover have "Suc ?q = 3 + b" using q by simp
  ultimately show "s < 2 ^ (k + 7) * (3 + b)" by metis
qed

lemma compute_tree_index_large:
  assumes "2 ^ 24 \<le> unat s" and "unat s < 2 ^ 40"
  shows "compute_tree_index s = 31" and "compute_tree_index_portable s = 31"
proof -
  have x: "unat (ucast (drop_bit 8 s) :: u32) = unat s div 256" by (rule unat_drop8_32 [OF assms(2)])
  have d: "unat (drop_bit 8 s) = unat s div 256" by (simp only: unat_drop_bit) simp
  have "65536 \<le> unat s div 256" using div_le_mono [OF assms(1), of 256] by simp
  then have "(ucast (drop_bit 8 s) :: u32) > 0xFFFF" "drop_bit 8 s > 0xFFFF"
    using x d by (simp_all add: word_less_nat_alt)
  then show "compute_tree_index s = 31" "compute_tree_index_portable s = 31"
    unfolding compute_tree_index_def compute_tree_index_portable_def Let_def by auto
qed

text \<open>C24. The tree bin of a size from 256 up to (not including) one tebibyte is one of the 32
  bins; the size is at least the minimum of its bin and below the minimum of the next.\<close>

theorem tree_index_range:
  assumes "256 \<le> unat s" and "unat s < 2 ^ 40"
  shows "compute_tree_index s < NTREEBINS
    \<and> minsize_for_tree_index (compute_tree_index s) \<le> s
    \<and> (compute_tree_index s < NTREEBINS - 1 \<longrightarrow>
        s < minsize_for_tree_index (compute_tree_index s + 1))"
proof (cases "unat s < 2 ^ 24")
  case True
  then obtain k where k: "k < 16" "2 ^ (k + 8) \<le> unat s" "unat s < 2 ^ (k + 9)"
    using tree_size_class [OF assms(1)] by blast
  define b where "b = unat s div 2 ^ (k + 7) mod 2"
  have b: "b < 2" by (simp add: b_def)
  let ?i = "compute_tree_index s"
  have i: "unat ?i = 2 * k + b"
    using compute_tree_index_eq(1) [OF assms(1) True k(2,3)] by (simp add: tree_bin_spec_def b_def)
  note q = size_class_quotient [OF k(2,3), folded b_def]
  have "?i < NTREEBINS" using i b k(1) by (simp add: word_less_nat_alt)
  moreover have "minsize_for_tree_index ?i \<le> s"
    unfolding word_le_nat_alt unat_minsize [OF i b k(1)] by (rule q(1))
  moreover have "s < minsize_for_tree_index (?i + 1)" if "?i < NTREEBINS - 1"
  proof -
    have "unat ?i < 31" using that by (simp add: word_less_nat_alt)
    then have i1: "unat (?i + 1) = Suc (unat ?i)" by (simp add: unat_word_ariths)
    have "unat (minsize_for_tree_index (?i + 1)) = 2 ^ (k + 7) * (3 + b)"
    proof (cases b)
      case 0
      then show ?thesis using unat_minsize [of "?i + 1" k 1] i i1 k(1) by simp
    next
      case (Suc b')
      then have "b = 1" using b by simp
      moreover have "Suc k < 16" using \<open>unat ?i < 31\<close> i \<open>b = 1\<close> by simp
      ultimately show ?thesis using unat_minsize [of "?i + 1" "Suc k" 0] i i1
        by (simp add: power_add)
    qed
    with q(2) show ?thesis unfolding word_less_nat_alt by simp
  qed
  ultimately show ?thesis by blast
next
  case False
  then have "compute_tree_index s = 31" using compute_tree_index_large assms(2) by simp
  moreover have "minsize_for_tree_index 31 \<le> s"
    using False by (simp add: word_le_nat_alt unat_minsize [of 31 15 1])
  ultimately show ?thesis by simp
qed

theorem tree_index_range_witness:
  "minsize_for_tree_index (compute_tree_index 1000) \<le> 1000"
  using tree_index_range [of 1000] by simp

lemma borrow_bits:
  fixes y :: u32
  assumes "unat y \<le> 0xFFFF" and "c \<le> 0xFFFF" and "m = 2 \<or> m = 4 \<or> m = 8"
  shows "drop_bit 16 (y - of_nat c) AND m = (if unat y < c then m else 0)"
proof (cases "unat y < c")
  case True
  have "unat (y - of_nat c) = 2 ^ 32 + unat y - c"
    using True assms(2) by (simp add: unat_sub_if' unat_of_nat)
  then have "unat (drop_bit 16 (y - of_nat c)) = 0xFFFF"
    unfolding unat_drop_bit using True assms(2) by simp
  then have "drop_bit 16 (y - of_nat c) = 0xFFFF" by (simp add: word_unat_eq_iff)
  with True assms(3) show ?thesis by auto
next
  case False
  then have "of_nat c \<le> y" using assms(2) by (simp add: word_le_nat_alt unat_of_nat)
  then have "unat (y - of_nat c) = unat y - c"
    using assms(2) by (simp add: unat_sub unat_of_nat)
  then have "unat (drop_bit 16 (y - of_nat c)) = 0"
    unfolding unat_drop_bit using assms(1) by simp
  then have "drop_bit 16 (y - of_nat c) = 0" by (simp only: unat_eq_zero)
  with False show ?thesis by simp
qed

section \<open>The portable variant\<close>

lemma unat_push_bit:
  fixes y :: "'a::len word"
  assumes "unat y * 2 ^ n < 2 ^ LENGTH('a)"
  shows "unat (push_bit n y) = unat y * 2 ^ n"
proof -
  have "unat (push_bit n y) = take_bit LENGTH('a) (push_bit n (unat y))"
    by (rule unsigned_push_bit_eq)
  also have "push_bit n (unat y) = unat y * 2 ^ n" by (rule push_bit_eq_mult)
  also have "take_bit LENGTH('a) (unat y * 2 ^ n) = unat y * 2 ^ n"
    using assms by (rule take_bit_nat_eq_self)
  finally show ?thesis .
qed

lemma normalise_step:
  fixes y :: u32
  assumes y: "unat y \<le> 0xFFFF" and m: "m = 2 \<or> m = 4 \<or> m = 8"
    and c: "c * 2 ^ m = 0x10000" and n: "n = drop_bit 16 (y - of_nat c) AND of_nat m"
    and a: "a = (if unat y < c then m else 0)"
  shows "n = of_nat a" and "unat (push_bit (unat n) y) = unat y * 2 ^ a"
    and "unat y * 2 ^ a \<le> 0xFFFF"
proof -
  have "c \<le> 0xFFFF"
  proof (rule ccontr)
    assume "\<not> c \<le> 0xFFFF"
    then have "0x10000 * 1 < c * 2 ^ m"
      using m by (intro mult_le_less_imp_less) auto
    with c show False by simp
  qed
  moreover have "of_nat m = (2 :: u32) \<or> of_nat m = (4 :: u32) \<or> of_nat m = (8 :: u32)"
    using m by auto
  ultimately show na: "n = of_nat a" unfolding n a using borrow_bits [OF y] by simp
  have un: "unat n = a" unfolding na using m a by (auto simp: unat_of_nat)
  show le: "unat y * 2 ^ a \<le> 0xFFFF"
  proof (cases "unat y < c")
    case True
    then have "unat y * 2 ^ m < c * 2 ^ m" by simp
    with c True a show ?thesis by simp
  next
    case False
    with y a show ?thesis by simp
  qed
  then show "unat (push_bit (unat n) y) = unat y * 2 ^ a"
    unfolding un by (intro unat_push_bit) simp
qed

text \<open>The three halving steps of the portable variant as one function of \<open>X\<close>: the
  accumulated shift and the normalised value.\<close>

definition norm16 :: "nat \<Rightarrow> nat \<times> nat" where
  "norm16 x =
     (let a = (if x < 0x100 then 8 else 0); y1 = x * 2 ^ a;
          b = (if y1 < 0x1000 then 4 else 0); y2 = y1 * 2 ^ b;
          c = (if y2 < 0x4000 then 2 else 0)
      in (a + b + c, y2 * 2 ^ c))"

lemma norm16_range:
  assumes "0 < x" and "x \<le> 0xFFFF"
  shows "0x4000 \<le> snd (norm16 x)" and "snd (norm16 x) \<le> 0xFFFF"
    and "snd (norm16 x) = x * 2 ^ fst (norm16 x)" and "fst (norm16 x) \<le> 14"
  using assms by (auto simp: norm16_def Let_def)

lemma norm16_log:
  assumes "0 < x" and "x \<le> 0xFFFF" and "2 ^ k \<le> x" and "x < 2 ^ Suc k"
  shows "14 - fst (norm16 x) + snd (norm16 x) div 0x8000 = k"
proof -
  let ?n = "fst (norm16 x)" and ?y = "snd (norm16 x)"
  note r = norm16_range [OF assms(1,2)]
  define j where "j = 14 - ?n + ?y div 0x8000"
  have "2 ^ j \<le> x \<and> x < 2 ^ Suc j"
  proof (cases "?y < 0x8000")
    case True
    then have j: "j + ?n = 14" using r(4) by (simp add: j_def)
    have "2 ^ (j + ?n) \<le> x * 2 ^ ?n" "x * 2 ^ ?n < 2 ^ (Suc j + ?n)"
      using r True j by simp_all
    then show ?thesis by (simp add: power_add)
  next
    case False
    then have "?y div 0x8000 = 1" using r(2) by simp
    then have j: "j + ?n = 15" using r(4) by (simp add: j_def)
    have "2 ^ (j + ?n) \<le> x * 2 ^ ?n" "x * 2 ^ ?n < 2 ^ (Suc j + ?n)"
      using r False j by simp_all
    then show ?thesis by (simp add: power_add)
  qed
  then show ?thesis using log2_unique [OF _ _ assms(3,4)] by (simp add: j_def)
qed

lemma norm16_word:
  fixes y :: u32
  assumes y: "unat y \<le> 0xFFFF"
  defines "n1 \<equiv> drop_bit 16 (y - 0x100) AND 8"
  defines "y1 \<equiv> push_bit (unat n1) y"
  defines "n2 \<equiv> drop_bit 16 (y1 - 0x1000) AND 4"
  defines "y2 \<equiv> push_bit (unat n2) y1"
  defines "n3 \<equiv> drop_bit 16 (y2 - 0x4000) AND 2"
  defines "y3 \<equiv> push_bit (unat n3) y2"
  shows "n1 + n2 + n3 = of_nat (fst (norm16 (unat y)))" and "unat y3 = snd (norm16 (unat y))"
proof -
  define a where "a = (if unat y < 0x100 then 8 else 0 :: nat)"
  have n1: "n1 = drop_bit 16 (y - of_nat 0x100) AND of_nat 8" by (simp add: n1_def)
  note 1 = normalise_step [OF y _ _ n1 a_def, folded y1_def, simplified]
  have y1: "unat y1 \<le> 0xFFFF" using 1 by simp
  define b where "b = (if unat y1 < 0x1000 then 4 else 0 :: nat)"
  have n2: "n2 = drop_bit 16 (y1 - of_nat 0x1000) AND of_nat 4" by (simp add: n2_def)
  note 2 = normalise_step [OF y1 _ _ n2 b_def, folded y2_def, simplified]
  have y2: "unat y2 \<le> 0xFFFF" using 2 by simp
  define c where "c = (if unat y2 < 0x4000 then 2 else 0 :: nat)"
  have n3: "n3 = drop_bit 16 (y2 - of_nat 0x4000) AND of_nat 2" by (simp add: n3_def)
  note 3 = normalise_step [OF y2 _ _ n3 c_def, folded y3_def, simplified]
  have "norm16 (unat y) = (a + b + c, unat y3)"
    unfolding norm16_def Let_def 3(2) 2(2) 1(2) a_def b_def c_def
    by (simp only: 3(2) 2(2) 1(2) a_def b_def c_def)
  then show "n1 + n2 + n3 = of_nat (fst (norm16 (unat y)))" "unat y3 = snd (norm16 (unat y))"
    using 1(1) 2(1) 3(1) by simp_all
qed

text \<open>C28. The compiler-builtin and the portable variant of \<open>compute_tree_index\<close> agree below
  one tebibyte. At that size they do not: the builtin variant keeps 32 bits of the shifted
  size and files the chunk in bin 0, the portable one in bin 31.\<close>

theorem tree_index_portable_agrees:
  "(\<forall>s. unat s < 2 ^ 40 \<longrightarrow> compute_tree_index s = compute_tree_index_portable s)
    \<and> compute_tree_index (2 ^ 40) = 0 \<and> compute_tree_index_portable (2 ^ 40) = 31"
proof (intro conjI allI impI)
  fix s :: u64
  assume lim: "unat s < 2 ^ 40"
  have d: "unat (drop_bit 8 s) = unat s div 256" by (simp only: unat_drop_bit) simp
  have x: "unat (ucast (drop_bit 8 s) :: u32) = unat s div 256" by (rule unat_drop8_32 [OF lim])
  show "compute_tree_index s = compute_tree_index_portable s"
  proof (cases "unat s < 256 \<or> 2 ^ 24 \<le> unat s")
    case True
    then show ?thesis
    proof
      assume "unat s < 256"
      then have "drop_bit 8 s = 0" using d by (simp only: div_less unat_eq_zero)
      then show ?thesis
        unfolding compute_tree_index_def compute_tree_index_portable_def Let_def by simp
    qed (use compute_tree_index_large [OF _ lim] in simp)
  next
    case False
    then have s: "256 \<le> unat s" "unat s < 2 ^ 24" by simp_all
    then obtain k where k: "k < 16" "2 ^ (k + 8) \<le> unat s" "unat s < 2 ^ (k + 9)"
      using tree_size_class by blast
    let ?x = "ucast (drop_bit 8 s) :: u32"
    have range: "0 < unat ?x" "unat ?x \<le> 0xFFFF"
      using div_le_mono [OF s(1), of 256] s(2) unfolding x by simp_all
    have lg: "2 ^ k \<le> unat ?x" "unat ?x < 2 ^ Suc k"
      unfolding x using k(2,3) by (auto simp: power_add less_mult_imp_div_less le_div_geq
          nat_le_iff_add)
    note n = norm16_log [OF range lg] norm16_range [OF range]
    have ne: "drop_bit 8 s \<noteq> 0" "\<not> drop_bit 8 s > 0xFFFF"
      using range d x by (auto simp: word_less_nat_alt)
    let ?n = "fst (norm16 (unat ?x))" and ?y = "snd (norm16 (unat ?x))"
    have kw: "14 - of_nat ?n + drop_bit 15 y = (of_nat k :: u32)" if "unat y = ?y" for y
    proof -
      have "unat (drop_bit 15 y) = ?y div 0x8000" using that by (simp only: unat_drop_bit) simp
      then have "drop_bit 15 y = of_nat (?y div 0x8000)" by (metis of_nat_unat ucast_id)
      moreover have "(14 :: u32) - of_nat ?n = of_nat (14 - ?n)" using n(5) by (simp add: of_nat_diff)
      ultimately have "14 - of_nat ?n + drop_bit 15 y = (of_nat (14 - ?n + ?y div 0x8000) :: u32)"
        by simp
      then show ?thesis unfolding n(1) .
    qed
    have uk: "unat (of_nat k :: u32) = k" using k(1) by (simp add: unat_of_nat)
    have "compute_tree_index_portable s
        = push_bit 1 (of_nat k) + ucast (drop_bit (k + 7) s AND 1)"
      unfolding compute_tree_index_portable_def Let_def norm16_word(1) [OF range(2)]
        kw [OF norm16_word(2) [OF range(2)]] uk
      using ne by simp
    also have "\<dots> = of_nat (tree_bin_spec (unat s) k)"
      unfolding ucast_bit_AND1 by (simp add: tree_bin_spec_def push_bit_eq_mult)
    also have "\<dots> = compute_tree_index s"
      using compute_tree_index_eq(1) [OF s k(2,3)] by (metis of_nat_unat ucast_id)
    finally show ?thesis by simp
  qed
next
  show "compute_tree_index (2 ^ 40) = 0" by (simp add: compute_tree_index_def Let_def)
  show "compute_tree_index_portable (2 ^ 40) = 31"
    by (simp add: compute_tree_index_portable_def Let_def)
qed

theorem tree_index_portable_agrees_witness:
  "compute_tree_index 1000 = compute_tree_index_portable 1000"
  using tree_index_portable_agrees by (auto dest: spec [of _ 1000])

end
