(* ===== verification/DlHeap.thy ===== *)
theory DlHeap
  imports DlSizes
begin

text \<open>
  The state of the back-end allocator \<open>dlmalloc.c\<close> and its bins. The heap is the part of
  the address space the allocator can touch, cut into 8-byte words (every field it uses is
  a \<open>size_t\<close> or a pointer at a multiple of 8; the 32-bit \<open>index\<close> and \<open>sflags\<close> are
  followed by padding). Of the static \<open>_gm_\<close> the arrays \<open>smallbins\<close>, \<open>treebins\<close> and the
  record \<open>seg\<close> are in the heap, because list and tree links point at them; the other
  fields are fields of the record \<open>dl\<close>. \<open>None\<close> is \<open>abort()\<close> (the corruption and usage
  actions) or an access to an address that is not mapped.
\<close>

named_theorems dl_steps

section \<open>State\<close>

type_synonym heap = "u64 \<rightharpoonup> u64"

record malloc_params =
  mp_magic :: u64
  page_size :: u64
  granularity :: u64
  mmap_threshold :: u64
  trim_threshold :: u64
  default_mflags :: u32

record 'o dl =
  heap :: heap
  gm :: u64
  smallmap :: u32
  treemap :: u32
  dvsize :: u64
  topsize :: u64
  least_addr :: u64
  dv :: u64
  topc :: u64
  trim_check :: u64
  release_checks :: u64
  gm_magic :: u64
  footprint :: u64
  max_footprint :: u64
  footprint_limit :: u64
  mflags :: u32
  mparams :: malloc_params
  enomem :: bool
  os :: 'o

text \<open>The system calls, which see and change the mapped memory and a state of their own.\<close>

record 'o sys =
  sys_mmap :: "u64 \<Rightarrow> heap \<times> 'o \<Rightarrow> u64 \<times> (heap \<times> 'o)"
  sys_munmap :: "u64 \<Rightarrow> u64 \<Rightarrow> heap \<times> 'o \<Rightarrow> 32 word \<times> (heap \<times> 'o)"
  sys_mremap :: "u64 \<Rightarrow> u64 \<Rightarrow> u64 \<Rightarrow> 32 word \<Rightarrow> heap \<times> 'o \<Rightarrow> u64 \<times> (heap \<times> 'o)"
  sys_sbrk :: "u64 \<Rightarrow> heap \<times> 'o \<Rightarrow> u64 \<times> (heap \<times> 'o)"
  sys_getpagesize :: u64
  sys_time :: u64

definition ld :: "'o dl \<Rightarrow> u64 \<Rightarrow> u64 option" where
  "ld s a = heap s a"

definition st :: "'o dl \<Rightarrow> u64 \<Rightarrow> u64 \<Rightarrow> 'o dl option" where
  "st s a v = (if heap s a = None then None else Some (s\<lparr>heap := (heap s)(a \<mapsto> v)\<rparr>))"

text \<open>\<open>upd\<close> is the state after a store and \<open>has\<close> says that a word is mapped.\<close>

definition upd :: "'o dl \<Rightarrow> u64 \<Rightarrow> u64 \<Rightarrow> 'o dl" where
  "upd s a v = s\<lparr>heap := (heap s)(a \<mapsto> v)\<rparr>"

definition has :: "'o dl \<Rightarrow> u64 \<Rightarrow> bool" where
  "has s a \<longleftrightarrow> heap s a \<noteq> None"

lemma st_has [dl_steps]: "has s a \<Longrightarrow> st s a v = Some (upd s a v)"
  by (simp add: st_def has_def upd_def)

lemma st_Some_iff: "st s a v = Some s' \<longleftrightarrow> has s a \<and> s' = upd s a v"
  by (auto simp: st_def has_def upd_def)

lemma upd_sel [simp]:
  "heap (upd s a v) = (heap s)(a \<mapsto> v)" "gm (upd s a v) = gm s"
  "smallmap (upd s a v) = smallmap s" "treemap (upd s a v) = treemap s"
  "dvsize (upd s a v) = dvsize s" "topsize (upd s a v) = topsize s"
  "least_addr (upd s a v) = least_addr s" "dv (upd s a v) = dv s"
  "topc (upd s a v) = topc s" "trim_check (upd s a v) = trim_check s"
  "release_checks (upd s a v) = release_checks s" "footprint (upd s a v) = footprint s"
  "max_footprint (upd s a v) = max_footprint s" "mflags (upd s a v) = mflags s"
  "footprint_limit (upd s a v) = footprint_limit s" "mparams (upd s a v) = mparams s"
  by (simp_all add: upd_def)

lemma upd_more [simp]: "enomem (upd s a v) = enomem s" "os (upd s a v) = os s"
  "gm_magic (upd s a v) = gm_magic s"
  by (simp_all add: upd_def)

lemma has_upd [simp]: "has (upd s a v) x \<longleftrightarrow> x = a \<or> has s x"
  by (simp add: has_def)

lemma ld_upd [simp]: "ld (upd s a v) x = (if x = a then Some v else ld s x)"
  by (simp add: ld_def)

text \<open>Assignments to fields of \<open>_gm_\<close> leave the words of the heap alone.\<close>

lemma ld_fields [simp]:
  "ld (s\<lparr>smallmap := m\<rparr>) x = ld s x" "ld (s\<lparr>treemap := m\<rparr>) x = ld s x"
  "ld (s\<lparr>dvsize := n\<rparr>) x = ld s x" "ld (s\<lparr>dv := n\<rparr>) x = ld s x"
  "ld (s\<lparr>topsize := n\<rparr>) x = ld s x" "ld (s\<lparr>topc := n\<rparr>) x = ld s x"
  "ld (s\<lparr>trim_check := n\<rparr>) x = ld s x" "ld (s\<lparr>release_checks := n\<rparr>) x = ld s x"
  "ld (s\<lparr>footprint := n\<rparr>) x = ld s x" "ld (s\<lparr>max_footprint := n\<rparr>) x = ld s x"
  "ld (s\<lparr>enomem := b\<rparr>) x = ld s x" "ld (s\<lparr>least_addr := n\<rparr>) x = ld s x"
  "ld (s\<lparr>mflags := m\<rparr>) x = ld s x"
  by (simp_all add: ld_def)

lemma has_fields [simp]:
  "has (s\<lparr>smallmap := m\<rparr>) x = has s x" "has (s\<lparr>treemap := m\<rparr>) x = has s x"
  "has (s\<lparr>dvsize := n\<rparr>) x = has s x" "has (s\<lparr>dv := n\<rparr>) x = has s x"
  "has (s\<lparr>topsize := n\<rparr>) x = has s x" "has (s\<lparr>topc := n\<rparr>) x = has s x"
  "has (s\<lparr>trim_check := n\<rparr>) x = has s x" "has (s\<lparr>release_checks := n\<rparr>) x = has s x"
  "has (s\<lparr>footprint := n\<rparr>) x = has s x" "has (s\<lparr>max_footprint := n\<rparr>) x = has s x"
  "has (s\<lparr>enomem := b\<rparr>) x = has s x" "has (s\<lparr>least_addr := n\<rparr>) x = has s x"
  "has (s\<lparr>mflags := m\<rparr>) x = has s x"
  by (simp_all add: has_def)

lemma ld_has: "ld s a = Some v \<Longrightarrow> has s a"
  by (simp add: ld_def has_def)

section \<open>Chunk fields\<close>

abbreviation (input) prev_foot_at :: "u64 \<Rightarrow> u64" where "prev_foot_at p \<equiv> p"
definition head_at :: "u64 \<Rightarrow> u64" where "head_at p = p + 8"
definition fd_at :: "u64 \<Rightarrow> u64" where "fd_at p = p + 16"
definition bk_at :: "u64 \<Rightarrow> u64" where "bk_at p = p + 24"
definition child_at :: "u64 \<Rightarrow> u64 \<Rightarrow> u64" where "child_at p i = p + 32 + 8 * i"
definition parent_at :: "u64 \<Rightarrow> u64" where "parent_at p = p + 48"
definition index_at :: "u64 \<Rightarrow> u64" where "index_at p = p + 56"

text \<open>Operations on head words; the head is read once, as in the macros.\<close>

definition head_cinuse :: "u64 \<Rightarrow> bool" where
  "head_cinuse h \<longleftrightarrow> h AND CINUSE_BIT \<noteq> 0"
definition head_pinuse :: "u64 \<Rightarrow> bool" where
  "head_pinuse h \<longleftrightarrow> h AND PINUSE_BIT \<noteq> 0"
definition head_is_inuse :: "u64 \<Rightarrow> bool" where
  "head_is_inuse h \<longleftrightarrow> h AND INUSE_BITS \<noteq> PINUSE_BIT"
definition head_is_mmapped :: "u64 \<Rightarrow> bool" where
  "head_is_mmapped h \<longleftrightarrow> h AND INUSE_BITS = 0"
definition head_size :: "u64 \<Rightarrow> u64" where
  "head_size h = h AND NOT FLAG_BITS"

definition cinuse :: "'o dl \<Rightarrow> u64 \<Rightarrow> bool option" where
  "cinuse s p = map_option head_cinuse (ld s (head_at p))"
definition pinuse :: "'o dl \<Rightarrow> u64 \<Rightarrow> bool option" where
  "pinuse s p = map_option head_pinuse (ld s (head_at p))"
definition is_inuse :: "'o dl \<Rightarrow> u64 \<Rightarrow> bool option" where
  "is_inuse s p = map_option head_is_inuse (ld s (head_at p))"
definition is_mmapped :: "'o dl \<Rightarrow> u64 \<Rightarrow> bool option" where
  "is_mmapped s p = map_option head_is_mmapped (ld s (head_at p))"
definition chunksize :: "'o dl \<Rightarrow> u64 \<Rightarrow> u64 option" where
  "chunksize s p = map_option head_size (ld s (head_at p))"

definition next_chunk :: "'o dl \<Rightarrow> u64 \<Rightarrow> u64 option" where
  "next_chunk s p = do { n \<leftarrow> chunksize s p; Some (p + n) }"

definition clear_pinuse :: "'o dl \<Rightarrow> u64 \<Rightarrow> 'o dl option" where
  "clear_pinuse s p = do { h \<leftarrow> ld s (head_at p); st s (head_at p) (h AND NOT PINUSE_BIT) }"

definition set_foot :: "'o dl \<Rightarrow> u64 \<Rightarrow> u64 \<Rightarrow> 'o dl option" where
  "set_foot s p n = st s (prev_foot_at (p + n)) n"

definition set_size_and_pinuse_of_free_chunk :: "'o dl \<Rightarrow> u64 \<Rightarrow> u64 \<Rightarrow> 'o dl option" where
  "set_size_and_pinuse_of_free_chunk s p n =
     do { s \<leftarrow> st s (head_at p) (n OR PINUSE_BIT); set_foot s p n }"

definition set_free_with_pinuse :: "'o dl \<Rightarrow> u64 \<Rightarrow> u64 \<Rightarrow> u64 \<Rightarrow> 'o dl option" where
  "set_free_with_pinuse s p n nx =
     do { s \<leftarrow> clear_pinuse s nx; set_size_and_pinuse_of_free_chunk s p n }"

definition overhead_for :: "'o dl \<Rightarrow> u64 \<Rightarrow> u64 option" where
  "overhead_for s p =
     do { b \<leftarrow> is_mmapped s p; Some (if b then MMAP_CHUNK_OVERHEAD else CHUNK_OVERHEAD) }"

definition calloc_must_clear :: "'o dl \<Rightarrow> u64 \<Rightarrow> bool option" where
  "calloc_must_clear s p = map_option Not (is_mmapped s p)"

definition or_pinuse :: "'o dl \<Rightarrow> u64 \<Rightarrow> 'o dl option" where
  "or_pinuse s p = do { h \<leftarrow> ld s (head_at p); st s (head_at p) (h OR PINUSE_BIT) }"

definition set_inuse :: "'o dl \<Rightarrow> u64 \<Rightarrow> u64 \<Rightarrow> 'o dl option" where
  "set_inuse s p n =
     do { h \<leftarrow> ld s (head_at p);
          s \<leftarrow> st s (head_at p) ((h AND PINUSE_BIT) OR n OR CINUSE_BIT);
          or_pinuse s (p + n) }"

definition set_inuse_and_pinuse :: "'o dl \<Rightarrow> u64 \<Rightarrow> u64 \<Rightarrow> 'o dl option" where
  "set_inuse_and_pinuse s p n =
     do { s \<leftarrow> st s (head_at p) (n OR PINUSE_BIT OR CINUSE_BIT); or_pinuse s (p + n) }"

definition set_size_and_pinuse_of_inuse_chunk :: "'o dl \<Rightarrow> u64 \<Rightarrow> u64 \<Rightarrow> 'o dl option" where
  "set_size_and_pinuse_of_inuse_chunk s p n = st s (head_at p) (n OR PINUSE_BIT OR CINUSE_BIT)"

definition leftmost_child :: "'o dl \<Rightarrow> u64 \<Rightarrow> u64 option" where
  "leftmost_child s t =
     do { c \<leftarrow> ld s (child_at t 0); if c \<noteq> 0 then Some c else ld s (child_at t 1) }"

section \<open>The static part of the heap\<close>

definition smallbin_at :: "'o dl \<Rightarrow> u32 \<Rightarrow> u64" where
  "smallbin_at s i = gm s + 72 + 8 * ucast (push_bit 1 i)"
definition treebin_at :: "'o dl \<Rightarrow> u32 \<Rightarrow> u64" where
  "treebin_at s i = gm s + 600 + 8 * ucast i"
definition seg_at :: "'o dl \<Rightarrow> u64" where "seg_at s = gm s + 888"

abbreviation (input) sbase_at :: "u64 \<Rightarrow> u64" where "sbase_at sp \<equiv> sp"
definition ssize_at :: "u64 \<Rightarrow> u64" where "ssize_at sp = sp + 8"
definition snext_at :: "u64 \<Rightarrow> u64" where "snext_at sp = sp + 16"
definition sflags_at :: "u64 \<Rightarrow> u64" where "sflags_at sp = sp + 24"

definition USE_MMAP_BIT :: u32 where "USE_MMAP_BIT = 1"
definition USE_LOCK_BIT :: u32 where "USE_LOCK_BIT = 0"
definition USE_NONCONTIGUOUS_BIT :: u32 where "USE_NONCONTIGUOUS_BIT = 4"
definition EXTERN_BIT :: u32 where "EXTERN_BIT = 8"

definition is_mmapped_segment :: "'o dl \<Rightarrow> u64 \<Rightarrow> bool option" where
  "is_mmapped_segment s sp =
     do { f \<leftarrow> ld s (sflags_at sp); Some ((ucast f :: u32) AND USE_MMAP_BIT \<noteq> 0) }"
definition is_extern_segment :: "'o dl \<Rightarrow> u64 \<Rightarrow> bool option" where
  "is_extern_segment s sp =
     do { f \<leftarrow> ld s (sflags_at sp); Some ((ucast f :: u32) AND EXTERN_BIT \<noteq> 0) }"

definition is_initialized :: "'o dl \<Rightarrow> bool" where "is_initialized s \<longleftrightarrow> topc s \<noteq> 0"
definition use_mmap :: "'o dl \<Rightarrow> bool" where
  "use_mmap s \<longleftrightarrow> mflags s AND USE_MMAP_BIT \<noteq> 0"
definition enable_mmap :: "'o dl \<Rightarrow> 'o dl" where
  "enable_mmap s = s\<lparr>mflags := mflags s OR USE_MMAP_BIT\<rparr>"
definition disable_mmap :: "'o dl \<Rightarrow> 'o dl" where
  "disable_mmap s = s\<lparr>mflags := mflags s AND NOT USE_MMAP_BIT\<rparr>"
definition use_noncontiguous :: "'o dl \<Rightarrow> bool" where
  "use_noncontiguous s \<longleftrightarrow> mflags s AND USE_NONCONTIGUOUS_BIT \<noteq> 0"
definition disable_contiguous :: "'o dl \<Rightarrow> 'o dl" where
  "disable_contiguous s = s\<lparr>mflags := mflags s OR USE_NONCONTIGUOUS_BIT\<rparr>"

definition page_align :: "'o dl \<Rightarrow> u64 \<Rightarrow> u64" where
  "page_align s n =
     (n + (page_size (mparams s) - 1)) AND NOT (page_size (mparams s) - 1)"
definition granularity_align :: "'o dl \<Rightarrow> u64 \<Rightarrow> u64" where
  "granularity_align s n =
     (n + (granularity (mparams s) - 1)) AND NOT (granularity (mparams s) - 1)"
definition is_page_aligned :: "'o dl \<Rightarrow> u64 \<Rightarrow> bool" where
  "is_page_aligned s n \<longleftrightarrow> n AND (page_size (mparams s) - 1) = 0"

definition segment_holds :: "'o dl \<Rightarrow> u64 \<Rightarrow> u64 \<Rightarrow> bool option" where
  "segment_holds s sp a =
     do { b \<leftarrow> ld s (sbase_at sp);
          if a \<ge> b then do { n \<leftarrow> ld s (ssize_at sp); Some (a < b + n) } else Some False }"

partial_function (option) segment_holding_from :: "'o dl \<Rightarrow> u64 \<Rightarrow> u64 \<Rightarrow> u64 option" where
  "segment_holding_from s sp a =
     do { b \<leftarrow> segment_holds s sp a;
          if b then Some sp
          else do { nx \<leftarrow> ld s (snext_at sp);
                    if nx = 0 then Some 0 else segment_holding_from s nx a } }"

definition segment_holding :: "'o dl \<Rightarrow> u64 \<Rightarrow> u64 option" where
  "segment_holding s a = segment_holding_from s (seg_at s) a"

partial_function (option) has_segment_link_from :: "'o dl \<Rightarrow> u64 \<Rightarrow> u64 \<Rightarrow> bool option" where
  "has_segment_link_from s sp ss =
     do { b \<leftarrow> segment_holds s ss sp;
          if b then Some True
          else do { nx \<leftarrow> ld s (snext_at sp);
                    if nx = 0 then Some False else has_segment_link_from s nx ss } }"

definition has_segment_link :: "'o dl \<Rightarrow> u64 \<Rightarrow> bool option" where
  "has_segment_link s ss = has_segment_link_from s (seg_at s) ss"

definition should_trim :: "'o dl \<Rightarrow> u64 \<Rightarrow> bool" where
  "should_trim s n \<longleftrightarrow> n > trim_check s"

definition ok_address :: "'o dl \<Rightarrow> u64 \<Rightarrow> bool" where "ok_address s a \<longleftrightarrow> a \<ge> least_addr s"
definition ok_next :: "u64 \<Rightarrow> u64 \<Rightarrow> bool" where "ok_next p n \<longleftrightarrow> p < n"

section \<open>Bin maps of the state\<close>

definition mark_smallmap :: "'o dl \<Rightarrow> u32 \<Rightarrow> 'o dl" where
  "mark_smallmap s i = s\<lparr>smallmap := smallmap s OR idx2bit i\<rparr>"
definition clear_smallmap :: "'o dl \<Rightarrow> u32 \<Rightarrow> 'o dl" where
  "clear_smallmap s i = s\<lparr>smallmap := smallmap s AND NOT (idx2bit i)\<rparr>"
definition smallmap_is_marked :: "'o dl \<Rightarrow> u32 \<Rightarrow> bool" where
  "smallmap_is_marked s i \<longleftrightarrow> smallmap s AND idx2bit i \<noteq> 0"
definition mark_treemap :: "'o dl \<Rightarrow> u32 \<Rightarrow> 'o dl" where
  "mark_treemap s i = s\<lparr>treemap := treemap s OR idx2bit i\<rparr>"
definition clear_treemap :: "'o dl \<Rightarrow> u32 \<Rightarrow> 'o dl" where
  "clear_treemap s i = s\<lparr>treemap := treemap s AND NOT (idx2bit i)\<rparr>"
definition treemap_is_marked :: "'o dl \<Rightarrow> u32 \<Rightarrow> bool" where
  "treemap_is_marked s i \<longleftrightarrow> treemap s AND idx2bit i \<noteq> 0"

section \<open>Small bins\<close>

definition insert_small_chunk :: "'o dl \<Rightarrow> u64 \<Rightarrow> u64 \<Rightarrow> 'o dl option" where
  "insert_small_chunk s p n =
     (let i = small_index n; b = smallbin_at s i
      in do {
        (f, s) \<leftarrow>
          (if \<not> smallmap_is_marked s i then Some (b, mark_smallmap s i)
           else do { f \<leftarrow> ld s (fd_at b);
                     if ok_address s f then Some (f, s) else None });
        s \<leftarrow> st s (fd_at b) p;
        s \<leftarrow> st s (bk_at f) p;
        s \<leftarrow> st s (fd_at p) f;
        st s (bk_at p) b })"

definition link_is :: "'o dl \<Rightarrow> u64 \<Rightarrow> (u64 \<Rightarrow> u64) \<Rightarrow> u64 \<Rightarrow> bool option" where
  "link_is s q fld p =
     (if ok_address s q then do { x \<leftarrow> ld s (fld q); Some (x = p) } else Some False)"

definition unlink_small_chunk :: "'o dl \<Rightarrow> u64 \<Rightarrow> u64 \<Rightarrow> 'o dl option" where
  "unlink_small_chunk s p n =
     do { f \<leftarrow> ld s (fd_at p);
          b \<leftarrow> ld s (bk_at p);
          let i = small_index n;
          okf \<leftarrow> (if f = smallbin_at s i then Some True else link_is s f bk_at p);
          if okf then
            if b = f then Some (clear_smallmap s i)
            else do {
              okb \<leftarrow> (if b = smallbin_at s i then Some True else link_is s b fd_at p);
              if okb then do { s \<leftarrow> st s (bk_at f) b; st s (fd_at b) f } else None }
          else None }"

definition unlink_first_small_chunk :: "'o dl \<Rightarrow> u64 \<Rightarrow> u64 \<Rightarrow> u32 \<Rightarrow> 'o dl option" where
  "unlink_first_small_chunk s b p i =
     do { f \<leftarrow> ld s (fd_at p);
          if b = f then Some (clear_smallmap s i)
          else do {
            okf \<leftarrow> link_is s f bk_at p;
            if okf then do { s \<leftarrow> st s (bk_at f) b; st s (fd_at b) f } else None } }"

definition replace_dv :: "'o dl \<Rightarrow> u64 \<Rightarrow> u64 \<Rightarrow> 'o dl option" where
  "replace_dv s p n =
     do { s \<leftarrow> (if dvsize s \<noteq> 0 then insert_small_chunk s (dv s) (dvsize s) else Some s);
          Some (s\<lparr>dvsize := n, dv := p\<rparr>) }"

section \<open>Tree bins\<close>

definition link_tree_leaf :: "'o dl \<Rightarrow> u64 \<Rightarrow> u64 \<Rightarrow> u64 \<Rightarrow> 'o dl option" where
  "link_tree_leaf s slot parent x =
     do { s \<leftarrow> st s slot x;
          s \<leftarrow> st s (parent_at x) parent;
          s \<leftarrow> st s (bk_at x) x;
          st s (fd_at x) x }"

partial_function (option) tree_insert_loop ::
    "'o dl \<Rightarrow> u64 \<Rightarrow> u64 \<Rightarrow> u64 \<Rightarrow> u64 \<Rightarrow> 'o dl option" where
  "tree_insert_loop s x n t k =
     do { tn \<leftarrow> chunksize s t;
          if tn \<noteq> n then do {
            let c = child_at t (drop_bit 63 k AND 1);
            ch \<leftarrow> ld s c;
            if ch \<noteq> 0 then tree_insert_loop s x n ch (push_bit 1 k)
            else if ok_address s c then link_tree_leaf s c t x
            else None }
          else do {
            f \<leftarrow> ld s (fd_at t);
            if ok_address s t \<and> ok_address s f then do {
              s \<leftarrow> st s (bk_at f) x;
              s \<leftarrow> st s (fd_at t) x;
              s \<leftarrow> st s (fd_at x) f;
              s \<leftarrow> st s (bk_at x) t;
              st s (parent_at x) 0 }
            else None } }"

definition insert_large_chunk :: "'o dl \<Rightarrow> u64 \<Rightarrow> u64 \<Rightarrow> 'o dl option" where
  "insert_large_chunk s x n =
     (let i = compute_tree_index n; h = treebin_at s i
      in do {
        s \<leftarrow> st s (index_at x) (ucast i);
        s \<leftarrow> st s (child_at x 1) 0;
        s \<leftarrow> st s (child_at x 0) 0;
        if \<not> treemap_is_marked s i then link_tree_leaf (mark_treemap s i) h h x
        else do {
          t \<leftarrow> ld s h;
          tree_insert_loop s x n t (push_bit (leftshift_for_tree_index i) n) } })"

text \<open>The walk to a leaf: the current node and the slot that points at it.\<close>

partial_function (option) tree_leaf :: "'o dl \<Rightarrow> u64 \<Rightarrow> u64 \<Rightarrow> (u64 \<times> u64) option" where
  "tree_leaf s r rp =
     do { c1 \<leftarrow> ld s (child_at r 1);
          if c1 \<noteq> 0 then tree_leaf s c1 (child_at r 1)
          else do {
            c0 \<leftarrow> ld s (child_at r 0);
            if c0 \<noteq> 0 then tree_leaf s c0 (child_at r 0) else Some (r, rp) } }"

definition tree_replacement :: "'o dl \<Rightarrow> u64 \<Rightarrow> (u64 \<times> 'o dl) option" where
  "tree_replacement s x =
     do { c1 \<leftarrow> ld s (child_at x 1);
          c0 \<leftarrow> (if c1 \<noteq> 0 then Some 0 else ld s (child_at x 0));
          if c1 = 0 \<and> c0 = 0 then Some (0, s)
          else do {
            (r, rp) \<leftarrow> (if c1 \<noteq> 0 then tree_leaf s c1 (child_at x 1)
                        else tree_leaf s c0 (child_at x 0));
            if ok_address s rp then do { s \<leftarrow> st s rp 0; Some (r, s) } else None } }"

definition adopt_child :: "'o dl \<Rightarrow> u64 \<Rightarrow> u64 \<Rightarrow> u64 \<Rightarrow> 'o dl option" where
  "adopt_child s x r i =
     do { c \<leftarrow> ld s (child_at x i);
          if c \<noteq> 0 then
            if ok_address s c then do { s \<leftarrow> st s (child_at r i) c; st s (parent_at c) r } else None
          else Some s }"

text \<open>The chunk that takes the place of \<open>x\<close>, taken out of the ring or of the tree below \<open>x\<close>.\<close>

definition take_out :: "'o dl \<Rightarrow> u64 \<Rightarrow> (u64 \<times> 'o dl) option" where
  "take_out s x =
     do { xbk \<leftarrow> ld s (bk_at x);
          if xbk \<noteq> x then do {
            f \<leftarrow> ld s (fd_at x);
            okf \<leftarrow> link_is s f bk_at x;
            rfd \<leftarrow> (if okf then ld s (fd_at xbk) else Some 0);
            if okf \<and> rfd = x
            then do { s \<leftarrow> st s (bk_at f) xbk; s \<leftarrow> st s (fd_at xbk) f; Some (xbk, s) }
            else None }
          else tree_replacement s x }"

text \<open>The base \<open>x\<close> of a chain, with parent \<open>xp\<close>, is replaced by \<open>r\<close> (0 for none).\<close>

definition relink :: "'o dl \<Rightarrow> u64 \<Rightarrow> u64 \<Rightarrow> u64 \<Rightarrow> 'o dl option" where
  "relink s x xp r =
     do { xi \<leftarrow> ld s (index_at x);
          let h = treebin_at s (ucast xi);
          hd \<leftarrow> ld s h;
          s \<leftarrow>
            (if x = hd then do {
               s \<leftarrow> st s h r;
               Some (if r = 0 then clear_treemap s (ucast xi) else s) }
             else if ok_address s xp then do {
               c0 \<leftarrow> ld s (child_at xp 0);
               if c0 = x then st s (child_at xp 0) r else st s (child_at xp 1) r }
             else None);
          if r \<noteq> 0 then
            if ok_address s r then do {
              s \<leftarrow> st s (parent_at r) xp;
              s \<leftarrow> adopt_child s x r 0;
              adopt_child s x r 1 }
            else None
          else Some s }"

definition unlink_large_chunk :: "'o dl \<Rightarrow> u64 \<Rightarrow> 'o dl option" where
  "unlink_large_chunk s x =
     do { xp \<leftarrow> ld s (parent_at x);
          (r, s) \<leftarrow> take_out s x;
          if xp \<noteq> 0 then relink s x xp r else Some s }"

definition insert_chunk :: "'o dl \<Rightarrow> u64 \<Rightarrow> u64 \<Rightarrow> 'o dl option" where
  "insert_chunk s p n =
     (if is_small n then insert_small_chunk s p n else insert_large_chunk s p n)"

definition unlink_chunk :: "'o dl \<Rightarrow> u64 \<Rightarrow> u64 \<Rightarrow> 'o dl option" where
  "unlink_chunk s p n =
     (if is_small n then unlink_small_chunk s p n else unlink_large_chunk s p)"

section \<open>Reading head words\<close>

text \<open>Head words: a size without flag bits, and flags.\<close>

lemma mask_disjoint:
  fixes n f m k :: "'a::len word"
  assumes "n AND m = 0"
  shows "f AND NOT m = 0 \<Longrightarrow> (n OR f) AND NOT m = n" and "k AND m = k \<Longrightarrow> (n OR f) AND k = f AND k"
proof -
  have n: "\<not> (bit n i \<and> bit m i)" for i using assms by (metis bit_0_eq bit_and_iff bot_apply bot_bool_def)
  show "(n OR f) AND NOT m = n" if "f AND NOT m = 0"
  proof (rule bit_word_eqI)
    fix i assume i: "i < LENGTH('a)"
    have "\<not> (bit f i \<and> bit (NOT m) i)" using that by (metis bit_0_eq bit_and_iff bot_apply bot_bool_def)
    then show "bit ((n OR f) AND NOT m) i = bit n i"
      using n [of i] i by (auto simp: bit_and_iff bit_or_iff bit_not_iff)
  qed
  show "(n OR f) AND k = f AND k" if "k AND m = k"
  proof (rule bit_word_eqI)
    fix i assume "i < LENGTH('a)"
    have "bit k i \<longleftrightarrow> bit k i \<and> bit m i" using that by (metis bit_and_iff)
    then show "bit ((n OR f) AND k) i = bit (f AND k) i"
      using n [of i] by (auto simp: bit_and_iff bit_or_iff)
  qed
qed

lemma head_words:
  assumes n: "n AND 7 = (0 :: u64)" and f: "f AND NOT 7 = (0 :: u64)"
  shows "head_size (n OR f) = n" and "(n OR f) AND 3 = f AND 3" and "(n OR f) AND 1 = f AND 1"
    and "(n OR f) AND 2 = f AND 2"
proof -
  show "head_size (n OR f) = n"
    using mask_disjoint(1) [OF n f] unfolding head_size_def flag_values .
  show "(n OR f) AND 3 = f AND 3" "(n OR f) AND 1 = f AND 1" "(n OR f) AND 2 = f AND 2"
    by (rule mask_disjoint(2) [OF n], simp)+
qed

end
