(* ===== verification/DlBins.thy ===== *)
theory DlBins
  imports DlHeap
begin

text \<open>
  The bin maps and the small bins of the allocator refined to lists: a bin of the heap is
  a circular list threaded through the chunks, and inserting and unlinking a chunk are
  \<open>Cons\<close> and the removal of an element of the list of its bin, with every other bin
  unchanged.
\<close>

section \<open>A bin map\<close>

locale bin_map =
  fixes get :: "'s \<Rightarrow> u32" and mark :: "'s \<Rightarrow> u32 \<Rightarrow> 's" and clear :: "'s \<Rightarrow> u32 \<Rightarrow> 's"
    and marked :: "'s \<Rightarrow> u32 \<Rightarrow> bool"
  assumes get_mark: "get (mark s i) = get s OR idx2bit i"
    and get_clear: "get (clear s i) = get s AND NOT (idx2bit i)"
    and marked_iff: "marked s i \<longleftrightarrow> get s AND idx2bit i \<noteq> 0"
begin

lemma marked_bit:
  assumes "unat i < 32"
  shows "marked s i \<longleftrightarrow> bit (get s) (unat i)"
proof
  assume "marked s i"
  then obtain n where "bit (get s AND idx2bit i) n"
    unfolding marked_iff by (metis bit_0_eq bit_word_eqI bot_apply bot_bool_def)
  then show "bit (get s) (unat i)" by (auto simp: bit_and_iff bit_idx2bit [OF assms])
next
  assume "bit (get s) (unat i)"
  then have "bit (get s AND idx2bit i) (unat i)"
    by (simp add: bit_and_iff bit_idx2bit [OF assms])
  then show "marked s i" by (auto simp: marked_iff)
qed

lemma bit_mark: "unat i < 32 \<Longrightarrow> bit (get (mark s i)) j \<longleftrightarrow> bit (get s) j \<or> j = unat i"
  by (auto simp: get_mark bit_or_iff bit_idx2bit)

lemma bit_clear: "unat i < 32 \<Longrightarrow> bit (get (clear s i)) j \<longleftrightarrow> bit (get s) j \<and> j \<noteq> unat i"
  using bit_imp_le_length [of "get s" j]
  by (auto simp: get_clear bit_and_iff bit_not_iff bit_idx2bit)

lemma marked_after_mark: "unat i < 32 \<Longrightarrow> marked (mark s i) i"
  by (simp add: marked_bit bit_mark)

lemma unmarked_after_clear: "unat i < 32 \<Longrightarrow> \<not> marked (clear s i) i"
  by (simp add: marked_bit bit_clear)

end

interpretation small: bin_map smallmap mark_smallmap clear_smallmap smallmap_is_marked
  by unfold_locales (simp_all add: mark_smallmap_def clear_smallmap_def smallmap_is_marked_def)

interpretation tree: bin_map treemap mark_treemap clear_treemap treemap_is_marked
  by unfold_locales (simp_all add: mark_treemap_def clear_treemap_def treemap_is_marked_def)

section \<open>Circular lists of chunks\<close>

fun links :: "heap \<Rightarrow> u64 \<Rightarrow> u64 list \<Rightarrow> u64 \<Rightarrow> bool" where
  "links h a [] b \<longleftrightarrow> h (fd_at a) = Some b \<and> h (bk_at b) = Some a"
| "links h a (p # ps) b \<longleftrightarrow> h (fd_at a) = Some p \<and> h (bk_at p) = Some a \<and> links h p ps b"

definition apart :: "u64 list \<Rightarrow> bool" where
  "apart ns \<longleftrightarrow> (\<forall>x \<in> set ns. \<forall>y \<in> set ns. fd_at x \<noteq> bk_at y)"

lemma fd_at_inj [simp]: "fd_at x = fd_at y \<longleftrightarrow> x = y"
  by (simp add: fd_at_def)

lemma bk_at_inj [simp]: "bk_at x = bk_at y \<longleftrightarrow> x = y"
  by (simp add: bk_at_def)

lemma apartD: "apart ns \<Longrightarrow> x \<in> set ns \<Longrightarrow> y \<in> set ns \<Longrightarrow> fd_at x \<noteq> bk_at y"
  by (simp add: apart_def)

lemma links_append [simp]:
  "links h a (ps @ q # qs) b \<longleftrightarrow> links h a ps q \<and> links h q qs b"
  by (induction ps arbitrary: a) auto

lemma links_cong:
  assumes "\<forall>x \<in> set (a # ps). h' (fd_at x) = h (fd_at x)"
    and "\<forall>x \<in> set (ps @ [b]). h' (bk_at x) = h (bk_at x)"
  shows "links h' a ps b \<longleftrightarrow> links h a ps b"
  using assms by (induction ps arbitrary: a) auto

lemma links_first: "links h a ps b \<Longrightarrow> h (fd_at a) = Some (hd (ps @ [b]))"
  by (cases ps) auto

lemma links_last: "links h a ps b \<Longrightarrow> h (bk_at b) = Some (last (a # ps))"
  by (induction ps arbitrary: a) auto

lemma links_new_end:
  assumes "links h a ps p" and "h' (fd_at (last (a # ps))) = Some f"
    and "h' (bk_at f) = Some (last (a # ps))"
    and "\<forall>x \<in> set (butlast (a # ps)). h' (fd_at x) = h (fd_at x)"
    and "\<forall>x \<in> set ps. h' (bk_at x) = h (bk_at x)"
  shows "links h' a ps f"
  using assms by (induction ps arbitrary: a) (auto split: if_splits)

lemma links_mapped:
  "links h a ps b \<Longrightarrow> (\<forall>x \<in> set (a # ps). h (fd_at x) \<noteq> None) \<and> (\<forall>x \<in> set (ps @ [b]). h (bk_at x) \<noteq> None)"
  by (induction ps arbitrary: a) auto

lemma links_unlink:
  assumes l: "links h b (ps @ p # qs) b" and d: "distinct (b # ps @ p # qs)"
    and ap: "apart (b # ps @ p # qs)"
  defines "f \<equiv> hd (qs @ [b])" and "k \<equiv> last (b # ps)"
  shows "links (h(bk_at f \<mapsto> k, fd_at k \<mapsto> f)) b (ps @ qs) b"
proof -
  let ?h = "h(bk_at f \<mapsto> k, fd_at k \<mapsto> f)"
  have l1: "links h b ps p" and l2: "links h p qs b" using l by auto
  have f: "f \<in> set (b # qs)" by (cases qs) (auto simp: f_def)
  have k: "k \<in> set (b # ps)" by (auto simp: k_def)
  have fd: "?h (fd_at x) = (if x = k then Some f else h (fd_at x))" if "x \<in> set (b # ps @ p # qs)" for x
    using apartD [OF ap that, of f] f by auto
  have bk: "?h (bk_at x) = (if x = f then Some k else h (bk_at x))" if "x \<in> set (b # ps @ p # qs)" for x
    using apartD [OF ap, of k x] that k by (auto dest!: sym [of "fd_at k"])
  have dk: "k \<notin> set (butlast (b # ps))"
  proof -
    have "distinct (b # ps)" using d by simp
    then have "distinct (butlast (b # ps) @ [k])"
      unfolding k_def by (metis append_butlast_last_id list.distinct(1))
    then show ?thesis by simp
  qed
  have fps: "f \<notin> set ps" using f d by auto
  have part1: "links ?h b ps f"
  proof (rule links_new_end [OF l1])
    show "?h (fd_at (last (b # ps))) = Some f" unfolding k_def [symmetric] by simp
    show "?h (bk_at f) = Some (last (b # ps))"
      unfolding k_def [symmetric] using bk [of f] f by auto
    show "\<forall>x\<in>set (butlast (b # ps)). ?h (fd_at x) = h (fd_at x)"
      using dk fd by (metis UnCI in_set_butlastD set_append list.set_intros append_Cons)
    show "\<forall>x\<in>set ps. ?h (bk_at x) = h (bk_at x)"
      using fps bk by (metis Un_iff list.set_intros(2) set_append)
  qed
  show ?thesis
  proof (cases qs)
    case Nil
    then show ?thesis using part1 by (simp add: f_def)
  next
    case (Cons q qs')
    then have fq: "f = q" by (simp add: f_def)
    have "links ?h q qs' b \<longleftrightarrow> links h q qs' b"
    proof (rule links_cong)
      have "k \<notin> set (q # qs')" using k d Cons by auto
      then show "\<forall>x\<in>set (q # qs'). ?h (fd_at x) = h (fd_at x)"
        using fd Cons by auto
      have "q \<notin> set (qs' @ [b])" using d Cons by auto
      then show "\<forall>x\<in>set (qs' @ [b]). ?h (bk_at x) = h (bk_at x)"
        using bk Cons fq by auto
    qed
    then have "links ?h q qs' b" using l2 Cons by simp
    with part1 show ?thesis unfolding Cons fq by simp
  qed
qed

lemma links_insert:
  assumes l: "links h b ps b" and d: "distinct (b # p # ps)" and ap: "apart (b # p # ps)"
  defines "f \<equiv> hd (ps @ [b])"
  shows "links (h(fd_at b \<mapsto> p, bk_at f \<mapsto> p, fd_at p \<mapsto> f, bk_at p \<mapsto> b)) b (p # ps) b"
proof -
  define h' where "h' = h(fd_at b \<mapsto> p, bk_at f \<mapsto> p, fd_at p \<mapsto> f, bk_at p \<mapsto> b)"
  have f: "f \<in> set (b # ps)" by (cases ps) (auto simp: f_def)
  have fd: "h' (fd_at x) = (if x = p then Some f else if x = b then Some p else h (fd_at x))"
    if "x \<in> set (b # p # ps)" for x
    using apartD [OF ap that, of f] apartD [OF ap that, of p] f by (auto simp: h'_def)
  have bk: "h' (bk_at x) = (if x = p then Some b else if x = f then Some p else h (bk_at x))"
    if "x \<in> set (b # p # ps)" for x
    using apartD [OF ap, of b x] apartD [OF ap, of p x] that by (auto simp: h'_def dest!: sym [of "fd_at _"])
  have "links h' p ps b"
  proof (cases ps)
    case Nil
    then show ?thesis using fd [of p] bk [of b] d by (simp add: f_def)
  next
    case (Cons q qs)
    then have fq: "f = q" by (simp add: f_def)
    have "links h' q qs b \<longleftrightarrow> links h q qs b"
      using fd bk d Cons fq by (intro links_cong) auto
    moreover have "links h q qs b" using l Cons by simp
    moreover have "h' (fd_at p) = Some q" "h' (bk_at q) = Some p"
      using fd [of p] bk [of q] Cons fq d by auto
    ultimately show ?thesis unfolding Cons by simp
  qed
  moreover have "h' (fd_at b) = Some p" "h' (bk_at p) = Some b"
    using fd [of b] bk [of p] d by auto
  ultimately show ?thesis unfolding h'_def [symmetric] by simp
qed

section \<open>The small bins as lists\<close>

text \<open>\<open>bins_ok s ls\<close>: bin \<open>i\<close> of the state holds the chunks \<open>ls ! i\<close>, in order; a bin
  that is not marked holds none, and its own links are then not looked at.\<close>

definition bin_node :: "'o dl \<Rightarrow> nat \<Rightarrow> u64" where
  "bin_node s i = smallbin_at s (of_nat i)"

definition ring :: "'o dl \<Rightarrow> u64 list list \<Rightarrow> nat \<Rightarrow> u64 list" where
  "ring s ls i = bin_node s i # ls ! i"

definition bin_holds :: "'o dl \<Rightarrow> nat \<Rightarrow> u64 list \<Rightarrow> bool" where
  "bin_holds s i ps \<longleftrightarrow>
     (if ps = [] then \<not> bit (smallmap s) i \<and> heap s (fd_at (bin_node s i)) \<noteq> None
        \<and> heap s (bk_at (bin_node s i)) \<noteq> None
      else bit (smallmap s) i \<and> links (heap s) (bin_node s i) ps (bin_node s i)
        \<and> (\<forall>p \<in> set ps. ok_address s p))"

definition bins_ok :: "'o dl \<Rightarrow> u64 list list \<Rightarrow> bool" where
  "bins_ok s ls \<longleftrightarrow> length ls = 32
     \<and> (\<forall>i<32. distinct (ring s ls i) \<and> bin_holds s i (ls ! i))
     \<and> (\<forall>i<32. \<forall>j<32. \<forall>x \<in> set (ring s ls i). \<forall>y \<in> set (ring s ls j).
          fd_at x \<noteq> bk_at y \<and> (i \<noteq> j \<longrightarrow> x \<noteq> y))"

text \<open>A chunk that is in no bin and whose link words overlap no other's.\<close>

definition loose :: "'o dl \<Rightarrow> u64 list list \<Rightarrow> u64 \<Rightarrow> bool" where
  "loose s ls p \<longleftrightarrow> heap s (fd_at p) \<noteq> None \<and> heap s (bk_at p) \<noteq> None \<and> ok_address s p
     \<and> (\<forall>i<32. \<forall>x \<in> set (ring s ls i). x \<noteq> p \<and> fd_at x \<noteq> bk_at p \<and> fd_at p \<noteq> bk_at x)"

lemma fd_ne_bk_same [simp]: "fd_at x \<noteq> bk_at x" "bk_at x \<noteq> fd_at x"
  by (simp_all add: fd_at_def bk_at_def)

lemma unat_small_index:
  assumes "is_small n"
  shows "unat (small_index n) < 32" and "of_nat (unat (small_index n)) = small_index n"
proof -
  have "unat (drop_bit 3 n) < 32" using assms by (simp add: is_small_def word_less_nat_alt)
  then show "unat (small_index n) < 32"
    by (simp add: small_index_def unsigned_ucast_eq take_bit_nat_eq_self)
qed simp

lemmas smallmap_is_marked_bit = small.marked_bit
lemmas bit_mark_smallmap = small.bit_mark
lemmas bit_clear_smallmap = small.bit_clear

lemma bins_okD:
  assumes "bins_ok s ls" and "i < 32"
  shows "distinct (ring s ls i)" and "apart (ring s ls i)" and "bin_holds s i (ls ! i)"
  using assms by (auto simp: bins_ok_def apart_def)

text \<open>What \<open>insert_small_chunk\<close> does to the heap when it succeeds.\<close>

definition inserted :: "heap \<Rightarrow> u64 \<Rightarrow> u64 \<Rightarrow> u64 \<Rightarrow> heap" where
  "inserted h b f p = h(fd_at b \<mapsto> p, bk_at f \<mapsto> p, fd_at p \<mapsto> f, bk_at p \<mapsto> b)"

lemma insert_small_chunk_eq:
  assumes ok: "bins_ok s ls" and p: "loose s ls p" and n: "is_small n"
  defines "i \<equiv> unat (small_index n)"
  defines "b \<equiv> bin_node s i"
  defines "f \<equiv> hd (ls ! i @ [b])"
  shows "insert_small_chunk s p n =
    Some (s\<lparr>heap := inserted (heap s) b f p, smallmap := smallmap s OR idx2bit (small_index n)\<rparr>)"
proof -
  have i: "i < 32" "of_nat i = small_index n" using unat_small_index [OF n] by (auto simp: i_def)
  have b: "smallbin_at s (small_index n) = b" by (simp add: b_def bin_node_def i)
  note o = bins_okD [OF ok i(1)]
  have f: "f \<in> set (ring s ls i)" by (cases "ls ! i") (auto simp: f_def ring_def b_def)
  have mapped: "has s (fd_at b)" "has s (bk_at f)" "has s (fd_at p)" "has s (bk_at p)"
    using o(3) p unfolding bin_holds_def loose_def has_def
    by (cases "ls ! i"; auto simp: f_def b_def [symmetric])+
  have m: "smallmap_is_marked s (small_index n) \<longleftrightarrow> ls ! i \<noteq> []"
    using o(3) smallmap_is_marked_bit [of "small_index n"] i(1)
    by (auto simp: i_def bin_holds_def split: if_splits)
  show ?thesis
  proof (cases "ls ! i")
    case Nil
    then show ?thesis
      using m mapped b
      by (simp add: insert_small_chunk_def Let_def mark_smallmap_def inserted_def f_def
          st_has)
  next
    case (Cons q qs)
    then have fq: "f = q" by (simp add: f_def)
    have "heap s (fd_at b) = Some q" "ok_address s q"
      using o(3) Cons by (auto simp: bin_holds_def b_def)
    moreover have "smallmap s OR idx2bit (small_index n) = smallmap s"
      using o(3) Cons bit_idx2bit [of "small_index n"] i(1)
      by (intro bit_word_eqI) (auto simp: bit_or_iff bin_holds_def i_def)
    ultimately show ?thesis
      using m mapped b Cons fq
      by (simp add: insert_small_chunk_def Let_def st_has ld_def inserted_def)
  qed
qed

text \<open>The rings other than the one that changes.\<close>

lemma links_other:
  assumes ok: "bins_ok s ls" and ij: "i < 32" "j < 32" "i \<noteq> j"
    and fd: "\<And>x. x \<in> set (ring s ls j) \<Longrightarrow> h' (fd_at x) = heap s (fd_at x)"
    and bk: "\<And>x. x \<in> set (ring s ls j) \<Longrightarrow> h' (bk_at x) = heap s (bk_at x)"
    and s': "heap s' = h'" "gm s' = gm s" "least_addr s' = least_addr s"
    and m: "bit (smallmap s') j \<longleftrightarrow> bit (smallmap s) j"
  shows "bin_holds s' j (ls ! j)"
proof -
  have b: "bin_node s' j = bin_node s j" by (simp add: bin_node_def smallbin_at_def s')
  have "links h' (bin_node s j) (ls ! j) (bin_node s j)
      \<longleftrightarrow> links (heap s) (bin_node s j) (ls ! j) (bin_node s j)"
    by (rule links_cong) (auto intro!: fd bk simp: ring_def)
  moreover have "h' (fd_at (bin_node s j)) = heap s (fd_at (bin_node s j))"
    "h' (bk_at (bin_node s j)) = heap s (bk_at (bin_node s j))"
    by (auto intro!: fd bk simp: ring_def)
  ultimately show ?thesis
    using bins_okD(3) [OF ok ij(2)] unfolding bin_holds_def b s' m
    by (auto simp: ok_address_def s')
qed

lemma ring_upd:
  assumes "bins_ok s ls" and "i < 32" and "gm s' = gm s"
  shows "ring s' (ls[i := ps]) j = (if j = i then bin_node s i # ps else ring s ls j)"
  using assms by (simp add: ring_def bin_node_def smallbin_at_def bins_ok_def)

lemma insert_small_chunk_refines:
  assumes ok: "bins_ok s ls" and p: "loose s ls p" and n: "is_small n"
  defines "i \<equiv> unat (small_index n)"
  shows "\<exists>s'. insert_small_chunk s p n = Some s' \<and> bins_ok s' (ls[i := p # ls ! i])"
proof -
  define b where "b = bin_node s i"
  define f where "f = hd (ls ! i @ [b])"
  have i: "i < 32" "of_nat i = small_index n" using unat_small_index [OF n] by (auto simp: i_def)
  define s' where "s' = s\<lparr>heap := inserted (heap s) b f p,
    smallmap := smallmap s OR idx2bit (small_index n)\<rparr>"
  note o = bins_okD [OF ok i(1)]
  have f: "f \<in> set (ring s ls i)" by (cases "ls ! i") (auto simp: f_def ring_def b_def)
  have bi: "b \<in> set (ring s ls i)" by (simp add: ring_def b_def)
  have len: "length ls = 32" using ok by (simp add: bins_ok_def)
  have far: "x \<noteq> p \<and> fd_at x \<noteq> bk_at p \<and> fd_at p \<noteq> bk_at x" if "j < 32" "x \<in> set (ring s ls j)" for x j
    using p that by (auto simp: loose_def)
  have cross: "fd_at x \<noteq> bk_at y \<and> (j \<noteq> k \<longrightarrow> x \<noteq> y)"
    if "j < 32" "k < 32" "x \<in> set (ring s ls j)" "y \<in> set (ring s ls k)" for j k x y
    using ok that by (auto simp: bins_ok_def)
  have r: "ring s' (ls[i := p # ls ! i]) j = (if j = i then b # p # ls ! i else ring s ls j)" for j
    using ring_upd [OF ok i(1), of s'] by (simp add: s'_def b_def)
  have bm: "bit (smallmap s') j \<longleftrightarrow> bit (smallmap s) j \<or> j = i" for j
    using bit_idx2bit [of "small_index n"] i by (simp add: s'_def bit_or_iff i_def)
  have di: "distinct (b # p # ls ! i)"
    using o(1) far [OF i(1)] by (auto simp: ring_def b_def)
  have ai: "apart (b # p # ls ! i)"
    using o(2) far [OF i(1)] by (auto simp: ring_def b_def apart_def)
  have holds_i: "bin_holds s' i (p # ls ! i)"
  proof -
    have "links (heap s') b (p # ls ! i) b"
    proof (cases "ls ! i = []")
      case True
      then show ?thesis
        using far [OF i(1) bi] by (auto simp: s'_def inserted_def f_def)
    next
      case False
      then have "links (heap s) b (ls ! i) b" using o(3) by (simp add: bin_holds_def b_def)
      from links_insert [OF this di ai] show ?thesis
        by (simp add: s'_def inserted_def f_def)
    qed
    moreover have "bin_node s' i = b" by (simp add: b_def bin_node_def smallbin_at_def s'_def)
    moreover have "ok_address s' x = ok_address s x" for x by (simp add: ok_address_def s'_def)
    moreover have "\<forall>x \<in> set (p # ls ! i). ok_address s x"
      using o(3) p by (auto simp: bin_holds_def loose_def split: if_splits)
    ultimately show ?thesis using bm by (simp add: bin_holds_def)
  qed
  have holds_j: "bin_holds s' j (ls ! j)" if j: "j < 32" "j \<noteq> i" for j
  proof (rule links_other [OF ok i(1) j(1) j(2) [symmetric]])
    fix x assume x: "x \<in> set (ring s ls j)"
    show "inserted (heap s) b f p (fd_at x) = heap s (fd_at x)"
      using cross [OF j(1) i(1) x f] cross [OF j(1) i(1) x bi] j(2) far [OF j(1) x]
      by (auto simp: inserted_def)
    show "inserted (heap s) b f p (bk_at x) = heap s (bk_at x)"
      using cross [OF j(1) i(1) x f] cross [OF i(1) j(1) bi x] j(2) far [OF j(1) x]
      by (auto simp: inserted_def)
  qed (use bm j in \<open>simp_all add: s'_def\<close>)
  have "bins_ok s' (ls[i := p # ls ! i])"
    unfolding bins_ok_def r
  proof (intro conjI allI impI ballI)
    fix j :: nat assume j: "j < 32"
    show "distinct (if j = i then b # p # ls ! i else ring s ls j)"
      using di bins_okD(1) [OF ok j] by simp
    show "bin_holds s' j (ls[i := p # ls ! i] ! j)"
      using holds_i holds_j [OF j] len i(1) by (cases "j = i") auto
    fix k x y assume k: "k < 32" and x: "x \<in> set (if j = i then b # p # ls ! i else ring s ls j)"
      and y: "y \<in> set (if k = i then b # p # ls ! i else ring s ls k)"
    have "x \<in> set (ring s ls j) \<or> x = p \<and> j = i" "y \<in> set (ring s ls k) \<or> y = p \<and> k = i"
      using x y by (auto simp: ring_def b_def split: if_splits)
    then show "fd_at x \<noteq> bk_at y" "j \<noteq> k \<Longrightarrow> x \<noteq> y"
      using cross [OF j k] far [OF j] far [OF k] by auto
  qed (simp add: len)
  moreover have "insert_small_chunk s p n = Some s'"
    using insert_small_chunk_eq [OF ok p n] by (simp add: s'_def f_def b_def i_def)
  ultimately show ?thesis by blast
qed

text \<open>Taking a chunk out of the list of its bin: the links skip it, or the bin is
  unmarked when it was the only one.\<close>

definition unlinked :: "'o dl \<Rightarrow> u32 \<Rightarrow> u64 list \<Rightarrow> u64 list \<Rightarrow> 'o dl" where
  "unlinked s i ps qs =
     (let b = smallbin_at s i; f = hd (qs @ [b]); k = last (b # ps)
      in if ps = [] \<and> qs = [] then clear_smallmap s i else upd (upd s (bk_at f) k) (fd_at k) f)"

lemma bin_links:
  assumes ok: "bins_ok s ls" and i: "unat i < 32" and l: "ls ! unat i = ps @ p # qs"
  defines "b \<equiv> smallbin_at s i"
  defines "f \<equiv> hd (qs @ [b])" and "k \<equiv> last (b # ps)"
  shows "links (heap s) b (ps @ p # qs) b" and "ld s (fd_at p) = Some f" and "ld s (bk_at p) = Some k"
    and "ld s (bk_at f) = Some p" and "ld s (fd_at k) = Some p"
    and "f \<noteq> b \<Longrightarrow> ok_address s f" and "k \<noteq> b \<Longrightarrow> ok_address s k"
    and "k = f \<longleftrightarrow> ps = [] \<and> qs = []"
    and "f = b \<longleftrightarrow> qs = []"
proof -
  have bn: "bin_node s (unat i) = b" by (simp add: bin_node_def b_def)
  note o = bins_okD [OF ok i, unfolded ring_def bn l]
  have h: "links (heap s) b (ps @ p # qs) b \<and> (\<forall>x \<in> set (ps @ p # qs). ok_address s x)"
    using o(3) unfolding bin_holds_def bn by (simp split: if_splits)
  then show "links (heap s) b (ps @ p # qs) b" by simp
  then have l12: "links (heap s) b ps p" "links (heap s) p qs b" by simp_all
  show "ld s (fd_at p) = Some f" using links_first [OF l12(2)] by (simp add: ld_def f_def)
  show "ld s (bk_at p) = Some k" using links_last [OF l12(1)] by (simp add: ld_def k_def)
  show "ld s (bk_at f) = Some p" using l12(2) by (cases qs) (auto simp: ld_def f_def)
  show "ld s (fd_at k) = Some p" using l12(1)
  proof (cases ps rule: rev_cases)
    case (snoc ps' q)
    with l12(1) show ?thesis by (auto simp: ld_def k_def)
  qed (auto simp: ld_def k_def)
  show "f \<noteq> b \<Longrightarrow> ok_address s f" using h by (cases qs) (auto simp: f_def)
  show "k \<noteq> b \<Longrightarrow> ok_address s k" using h by (cases ps rule: rev_cases) (auto simp: k_def)
  show "f = b \<longleftrightarrow> qs = []" using o(1) by (cases qs) (auto simp: f_def)
  show "k = f \<longleftrightarrow> ps = [] \<and> qs = []"
    using o(1) by (cases qs; cases ps rule: rev_cases) (auto simp: f_def k_def)
qed

lemma unlink_small_chunk_eq:
  assumes ok: "bins_ok s ls" and n: "is_small n"
    and l: "ls ! unat (small_index n) = ps @ p # qs"
  shows "unlink_small_chunk s p n = Some (unlinked s (small_index n) ps qs)"
proof -
  note i = unat_small_index(1) [OF n]
  note b = bin_links [OF ok i l]
  show ?thesis
    using b(2-9) ld_has [OF b(4)] ld_has [OF b(5)]
    by (auto simp: unlink_small_chunk_def unlinked_def link_is_def Let_def st_has)
qed

lemma unlink_first_small_chunk_eq:
  assumes ok: "bins_ok s ls" and i: "unat i < 32" and l: "ls ! unat i = p # qs"
  shows "unlink_first_small_chunk s (smallbin_at s i) p i = Some (unlinked s i [] qs)"
proof -
  have l': "ls ! unat i = [] @ p # qs" using l by simp
  note b = bin_links [OF ok i l']
  show ?thesis
    using b(2-9) ld_has [OF b(4)] ld_has [OF b(5)]
    by (auto simp: unlink_first_small_chunk_def unlinked_def link_is_def Let_def st_has)
qed

lemma unlinked_frame:
  assumes ok: "bins_ok s ls" and i: "unat i < 32" and l: "ls ! unat i = ps @ p # qs"
  shows "bins_ok (unlinked s i ps qs) (ls[unat i := ps @ qs])"
proof -
  define b where "b = smallbin_at s i"
  define f where "f = hd (qs @ [b])"
  define k where "k = last (b # ps)"
  define s' where "s' = unlinked s i ps qs"
  let ?i = "unat i"
  note bl = bin_links [OF ok i l, folded b_def, folded f_def k_def]
  have bn: "bin_node s ?i = b" by (simp add: bin_node_def b_def)
  note o = bins_okD [OF ok i]
  have len: "length ls = 32" using ok by (simp add: bins_ok_def)
  have fr: "f \<in> set (ring s ls ?i)" by (cases qs) (auto simp: f_def ring_def bn l)
  have kr: "k \<in> set (ring s ls ?i)" by (auto simp: k_def ring_def bn l)
  have cross: "fd_at x \<noteq> bk_at y \<and> (j \<noteq> m \<longrightarrow> x \<noteq> y)"
    if "j < 32" "m < 32" "x \<in> set (ring s ls j)" "y \<in> set (ring s ls m)" for j m x y
    using ok that by (auto simp: bins_ok_def)
  have sel: "gm s' = gm s" "least_addr s' = least_addr s"
    by (simp_all add: s'_def unlinked_def clear_smallmap_def Let_def)
  have r: "ring s' (ls[?i := ps @ qs]) j = (if j = ?i then b # ps @ qs else ring s ls j)" for j
    using ring_upd [OF ok i, of s'] sel bn by simp
  have hp: "heap s' x = (if ps = [] \<and> qs = [] then heap s x
      else if x = fd_at k then Some f else if x = bk_at f then Some k else heap s x)" for x
    unfolding s'_def unlinked_def Let_def b_def [symmetric] f_def [symmetric] k_def [symmetric]
    by (simp add: clear_smallmap_def)
  have bm: "bit (smallmap s') j \<longleftrightarrow> bit (smallmap s) j \<and> (j = ?i \<longrightarrow> ps @ qs \<noteq> [])" for j
    using bit_clear_smallmap [OF i, of s j] by (simp add: s'_def unlinked_def Let_def)
  have holds_i: "bin_holds s' ?i (ps @ qs)"
  proof (cases "ps = [] \<and> qs = []")
    case True
    have "links (heap s) b [p] b" using bl(1) True by simp
    then show ?thesis
      using True bm by (simp add: bin_holds_def bin_node_def smallbin_at_def sel hp b_def)
  next
    case False
    have "links (heap s') b (ps @ qs) b"
    proof -
      have "heap s' = (heap s)(bk_at f \<mapsto> k, fd_at k \<mapsto> f)" using False by (auto simp: fun_eq_iff hp)
      then show ?thesis
        using links_unlink [OF bl(1)] o(1,2) unfolding ring_def bn l f_def k_def by simp
    qed
    moreover have "bit (smallmap s) ?i" "\<forall>x \<in> set (ps @ qs). ok_address s x"
      using o(3) unfolding l bin_holds_def by (auto split: if_splits)
    moreover have "bin_node s' ?i = b" by (simp add: b_def bin_node_def smallbin_at_def sel)
    ultimately show ?thesis using bm False by (auto simp: bin_holds_def ok_address_def sel)
  qed
  have holds_j: "bin_holds s' j (ls ! j)" if j: "j < 32" "j \<noteq> ?i" for j
  proof (rule links_other [OF ok i j(1) j(2) [symmetric] _ _ refl sel])
    fix x assume x: "x \<in> set (ring s ls j)"
    show "heap s' (fd_at x) = heap s (fd_at x)"
      using cross [OF j(1) i x fr] cross [OF j(1) i x kr] j(2) by (auto simp: hp)
    show "heap s' (bk_at x) = heap s (bk_at x)"
      using cross [OF j(1) i x fr] cross [OF i j(1) kr x] j(2) by (auto simp: hp)
  qed (use bm j in auto)
  show ?thesis
    unfolding bins_ok_def s'_def [symmetric] r
  proof (intro conjI allI impI ballI)
    fix j :: nat assume j: "j < 32"
    show "distinct (if j = ?i then b # ps @ qs else ring s ls j)"
      using o(1) bins_okD(1) [OF ok j] by (auto simp: ring_def bn l)
    show "bin_holds s' j (ls[?i := ps @ qs] ! j)"
      using holds_i holds_j [OF j] len i by (cases "j = ?i") auto
    fix m x y assume m: "m < 32" and x: "x \<in> set (if j = ?i then b # ps @ qs else ring s ls j)"
      and y: "y \<in> set (if m = ?i then b # ps @ qs else ring s ls m)"
    have "x \<in> set (ring s ls j)" "y \<in> set (ring s ls m)"
      using x y by (auto simp: ring_def bn l split: if_splits)
    then show "fd_at x \<noteq> bk_at y" "j \<noteq> m \<Longrightarrow> x \<noteq> y" using cross [OF j m] by auto
  qed (simp add: len)
qed

section \<open>The nodes of the bins\<close>

lemma bin_node_eq:
  assumes "i < 32"
  shows "bin_node s i = gm s + of_nat (72 + 16 * i)"
proof -
  have "unat (push_bit 1 (of_nat i :: u32)) = 2 * i"
    using assms by (subst unat_push_bit) (simp_all add: unat_of_nat)
  then have "(ucast (push_bit 1 (of_nat i :: u32)) :: u64) = of_nat (2 * i)"
    by (metis of_nat_unat)
  then show ?thesis
    unfolding bin_node_def smallbin_at_def by (simp add: algebra_simps)
qed

lemma of_nat_u64_eq_iff:
  "a < 2 ^ 64 \<Longrightarrow> b < 2 ^ 64 \<Longrightarrow> (of_nat a :: u64) = of_nat b \<longleftrightarrow> a = b"
proof -
  have "unat (of_nat a :: u64) = a" if "a < 2 ^ 64" for a
    using that by (simp add: unsigned_of_nat take_bit_nat_eq_self)
  then show "a < 2 ^ 64 \<Longrightarrow> b < 2 ^ 64 \<Longrightarrow> ?thesis" by metis
qed

lemma bin_node_cells:
  assumes "i < 32" and "j < 32"
  shows "fd_at (bin_node s i) \<noteq> bk_at (bin_node s j)"
    and "i \<noteq> j \<Longrightarrow> bin_node s i \<noteq> bin_node s j"
proof -
  have "fd_at (bin_node s i) = gm s + of_nat (88 + 16 * i)"
    "bk_at (bin_node s j) = gm s + of_nat (96 + 16 * j)"
    by (simp_all add: fd_at_def bk_at_def bin_node_eq assms)
  moreover have "(of_nat (88 + 16 * i) :: u64) \<noteq> of_nat (96 + 16 * j)"
    using assms by (subst of_nat_u64_eq_iff) (simp_all, presburger)
  ultimately show "fd_at (bin_node s i) \<noteq> bk_at (bin_node s j)" by simp
  show "bin_node s i \<noteq> bin_node s j" if "i \<noteq> j"
    using assms that unfolding bin_node_eq [OF assms(1)] bin_node_eq [OF assms(2)] add_left_cancel
    by (subst of_nat_u64_eq_iff) simp_all
qed

lemma bins_ok_empty:
  assumes "smallmap s = 0"
    and "\<forall>i<32. has s (fd_at (bin_node s i)) \<and> has s (bk_at (bin_node s i))"
  shows "bins_ok s (replicate 32 [])"
  unfolding bins_ok_def
  using assms bin_node_cells [of _ _ s]
  by (auto simp: ring_def bin_holds_def has_def)

definition not_link :: "'o dl \<Rightarrow> u64 list list \<Rightarrow> u64 \<Rightarrow> bool" where
  "not_link s ls a \<longleftrightarrow> (\<forall>i<32. \<forall>x \<in> set (ring s ls i). a \<noteq> fd_at x \<and> a \<noteq> bk_at x)"

lemma bins_ok_cong:
  assumes ok: "bins_ok s ls" and sel: "gm s' = gm s" "least_addr s' = least_addr s"
    "smallmap s' = smallmap s"
    and h: "\<And>a. \<not> not_link s ls a \<Longrightarrow> heap s' a = heap s a"
  shows "bins_ok s' ls"
proof -
  have b: "bin_node s' i = bin_node s i" for i by (simp add: bin_node_def smallbin_at_def sel)
  have r: "ring s' ls = ring s ls" by (simp add: fun_eq_iff ring_def b)
  have cells: "heap s' (fd_at x) = heap s (fd_at x)" "heap s' (bk_at x) = heap s (bk_at x)"
    if "i < 32" "x \<in> set (ring s ls i)" for i x
    using that unfolding not_link_def by (blast intro: h [unfolded not_link_def])+
  have "bin_holds s' i (ls ! i)" if i: "i < 32" for i
  proof -
    have "links (heap s') (bin_node s i) (ls ! i) (bin_node s i)
        \<longleftrightarrow> links (heap s) (bin_node s i) (ls ! i) (bin_node s i)"
      by (rule links_cong) (auto intro!: cells [OF i] simp: ring_def)
    moreover have "heap s' (fd_at (bin_node s i)) = heap s (fd_at (bin_node s i))"
      "heap s' (bk_at (bin_node s i)) = heap s (bk_at (bin_node s i))"
      by (auto intro!: cells [OF i] simp: ring_def)
    ultimately show ?thesis
      using bins_okD(3) [OF ok i] by (auto simp: bin_holds_def b sel ok_address_def split: if_splits)
  qed
  then show ?thesis using ok unfolding bins_ok_def r by blast
qed

lemma bins_ok_upd: "bins_ok s ls \<Longrightarrow> not_link s ls a \<Longrightarrow> bins_ok (upd s a v) ls"
  by (rule bins_ok_cong [of s]) auto

section \<open>The small bins refine an array of lists\<close>

text \<open>A state over zeroed memory with empty bins, for the closed instances.\<close>

definition blank :: "unit dl" where
  "blank = \<lparr>heap = (\<lambda>_. Some 0), gm = 4096, smallmap = 0, treemap = 0, dvsize = 0, topsize = 0,
     least_addr = 0, dv = 0, topc = 0, trim_check = 0, release_checks = 0, gm_magic = 0,
     footprint = 0, max_footprint = 0, footprint_limit = 0, mflags = 0,
     mparams = \<lparr>mp_magic = 0, page_size = 0, granularity = 0, mmap_threshold = 0,
       trim_threshold = 0, default_mflags = 0\<rparr>, enomem = False, os = ()\<rparr>"

lemma blank_sel [simp]: "heap blank a = Some 0" "gm blank = 4096" "smallmap blank = 0"
  "treemap blank = 0" "dvsize blank = 0" "topsize blank = 0" "least_addr blank = 0"
  "dv blank = 0" "topc blank = 0" "has blank a" "footprint blank = 0" "max_footprint blank = 0"
  "footprint_limit blank = 0" "mp_magic (mparams blank) = 0" "mflags blank = 0"
  by (simp_all add: blank_def has_def)

lemma blank_bins: "bins_ok blank (replicate 32 [])"
  by (rule bins_ok_empty) simp_all

lemma blank_loose: "loose blank (replicate 32 []) 0x100000"
proof -
  have u: "unat (bin_node blank i) = 4168 + 16 * i" if "i < 32" for i
    using that by (simp add: bin_node_eq unat_word_ariths unat_of_nat)
  have "bin_node blank i \<noteq> 0x100000 \<and> fd_at (bin_node blank i) \<noteq> bk_at 0x100000
      \<and> fd_at 0x100000 \<noteq> bk_at (bin_node blank i)" if i: "i < 32" for i
  proof -
    have "unat (fd_at (bin_node blank i)) = 4184 + 16 * i" "unat (bk_at (bin_node blank i)) = 4192 + 16 * i"
      using i u [OF i] by (simp_all add: fd_at_def bk_at_def unat_word_ariths)
    then show ?thesis using i u [OF i] by (auto simp: fd_at_def bk_at_def)
  qed
  then show ?thesis by (auto simp: loose_def ring_def ok_address_def)
qed

text \<open>C7. Inserting a chunk that is in no bin puts it in front of the
  list of the bin of its size, sets that bin's mark, and leaves every other bin as it is:
  the heap with its circular lists refines an array of 32 lists.\<close>

theorem smallbin_insert_refines:
  assumes "bins_ok s ls" and "loose s ls p" and "is_small n"
  shows "\<exists>s'. insert_small_chunk s p n = Some s'
    \<and> bins_ok s' (ls[unat (small_index n) := p # ls ! unat (small_index n)])"
  by (rule insert_small_chunk_refines [OF assms])

theorem smallbin_insert_refines_witness:
  "\<exists>s'. insert_small_chunk blank 0x100000 64 = Some s'
    \<and> bins_ok s' ((replicate 32 [])[8 := [0x100000]])"
proof -
  have "unat (small_index 64) = 8" "is_small 64" by (simp_all add: small_index_def is_small_def)
  with smallbin_insert_refines [OF blank_bins blank_loose, of 64] show ?thesis by simp
qed

text \<open>C8. Unlinking any chunk of a small bin removes it from the
  list of that bin, wherever in the list it is, clears the bin's mark when it was the last
  one, and leaves every other bin as it is; no corruption check fires.\<close>

theorem smallbin_unlink_refines:
  assumes "bins_ok s ls" and "is_small n" and "ls ! unat (small_index n) = ps @ p # qs"
  shows "\<exists>s'. unlink_small_chunk s p n = Some s'
    \<and> bins_ok s' (ls[unat (small_index n) := ps @ qs])"
  using unlink_small_chunk_eq [OF assms]
    unlinked_frame [OF assms(1) unat_small_index(1) [OF assms(2)] assms(3)]
  by blast

theorem smallbin_unlink_refines_witness:
  "\<exists>s s'. insert_small_chunk blank 0x100000 64 = Some s
    \<and> unlink_small_chunk s 0x100000 64 = Some s' \<and> bins_ok s' (replicate 32 [])"
proof -
  have i: "unat (small_index 64) = 8" "is_small 64" by (simp_all add: small_index_def is_small_def)
  obtain s where s: "insert_small_chunk blank 0x100000 64 = Some s"
    "bins_ok s ((replicate 32 [])[8 := [0x100000]])"
    using insert_small_chunk_refines [OF blank_bins blank_loose i(2)] i by auto
  have "(replicate 32 [])[8 := [0x100000]] ! unat (small_index 64) = [] @ 0x100000 # ([] :: u64 list)"
    using i by simp
  from smallbin_unlink_refines [OF s(2) i(2) this] i
  have "\<exists>s'. unlink_small_chunk s 0x100000 64 = Some s'
      \<and> bins_ok s' ((replicate 32 [])[8 := []])" by simp
  moreover have "(replicate 32 [])[8 := []] = (replicate 32 [] :: u64 list list)"
    by (metis list_update_id nth_replicate less_numeral_extra(3) numeral_less_iff semiring_norm(76) semiring_norm(78) semiring_norm(81))
  ultimately show ?thesis using s(1) by auto
qed

end
