(* ===== verification/DlSys.thy ===== *)
theory DlSys
  imports DlBins
begin

text \<open>
  How \<open>dlmalloc.c\<close> gets memory from the system and gives it back: parameters, directly
  mapped chunks, the top chunk, segments, \<open>sys_alloc\<close>, \<open>sys_trim\<close>. The system calls
  (\<open>sbrk\<close>, \<open>mmap\<close>, \<open>munmap\<close>, \<open>mremap\<close>) are the record \<open>'o sys\<close>, a parameter of
  every definition that uses one. A division by a zero granularity is \<open>None\<close>.
\<close>

section \<open>System calls and parameters\<close>

definition MFAIL :: u64 where "MFAIL = MAX_SIZE_T"
definition MAX_RELEASE_CHECK_RATE :: u64 where "MAX_RELEASE_CHECK_RATE = 4095"
definition DEFAULT_TRIM_THRESHOLD :: u64 where "DEFAULT_TRIM_THRESHOLD = 2 * 1024 * 1024"
definition DEFAULT_MMAP_THRESHOLD :: u64 where "DEFAULT_MMAP_THRESHOLD = 256 * 1024"

definition with_heap :: "'r \<times> (heap \<times> 'o) \<Rightarrow> 'o dl \<Rightarrow> 'r \<times> 'o dl" where
  "with_heap x s = (fst x, s\<lparr>heap := fst (snd x), os := snd (snd x)\<rparr>)"

definition call_mmap :: "'o sys \<Rightarrow> u64 \<Rightarrow> 'o dl \<Rightarrow> u64 \<times> 'o dl" where
  "call_mmap S n s = with_heap (sys_mmap S n (heap s, os s)) s"
definition call_munmap :: "'o sys \<Rightarrow> u64 \<Rightarrow> u64 \<Rightarrow> 'o dl \<Rightarrow> 32 word \<times> 'o dl" where
  "call_munmap S a n s = with_heap (sys_munmap S a n (heap s, os s)) s"
definition call_mremap ::
    "'o sys \<Rightarrow> u64 \<Rightarrow> u64 \<Rightarrow> u64 \<Rightarrow> 32 word \<Rightarrow> 'o dl \<Rightarrow> u64 \<times> 'o dl" where
  "call_mremap S a n n' mv s = with_heap (sys_mremap S a n n' mv (heap s, os s)) s"
definition call_morecore :: "'o sys \<Rightarrow> u64 \<Rightarrow> 'o dl \<Rightarrow> u64 \<times> 'o dl" where
  "call_morecore S n s = with_heap (sys_sbrk S n (heap s, os s)) s"

definition malloc_failure_action :: "'o dl \<Rightarrow> 'o dl" where
  "malloc_failure_action s = s\<lparr>enomem := True\<rparr>"

definition init_mparams :: "'o sys \<Rightarrow> 'o dl \<Rightarrow> 'o dl option" where
  "init_mparams S s =
     (if mp_magic (mparams s) = 0 then
        let psize = sys_getpagesize S; gsize = psize
        in if MAX_SIZE_T < MIN_CHUNK_SIZE \<or> MALLOC_ALIGNMENT < 8
              \<or> MALLOC_ALIGNMENT AND (MALLOC_ALIGNMENT - 1) \<noteq> 0
              \<or> MCHUNK_SIZE AND (MCHUNK_SIZE - 1) \<noteq> 0
              \<or> gsize AND (gsize - 1) \<noteq> 0 \<or> psize AND (psize - 1) \<noteq> 0
           then None
           else Some (s\<lparr>mparams :=
                   \<lparr>mp_magic = ((sys_time S XOR 0x55555555) OR 8) AND NOT 7,
                    page_size = psize, granularity = gsize,
                    mmap_threshold = DEFAULT_MMAP_THRESHOLD,
                    trim_threshold = DEFAULT_TRIM_THRESHOLD,
                    default_mflags = USE_LOCK_BIT OR USE_MMAP_BIT\<rparr>,
                 mflags := USE_LOCK_BIT OR USE_MMAP_BIT\<rparr>)
      else Some s)"

definition ensure_initialization :: "'o sys \<Rightarrow> 'o dl \<Rightarrow> 'o dl option" where
  "ensure_initialization S s =
     (if mp_magic (mparams s) \<noteq> 0 then Some s else init_mparams S s)"

definition M_TRIM_THRESHOLD :: "32 word" where "M_TRIM_THRESHOLD = - 1"
definition M_GRANULARITY :: "32 word" where "M_GRANULARITY = - 2"
definition M_MMAP_THRESHOLD :: "32 word" where "M_MMAP_THRESHOLD = - 3"

definition change_mparam :: "'o sys \<Rightarrow> 'o dl \<Rightarrow> 32 word \<Rightarrow> 32 word \<Rightarrow> (bool \<times> 'o dl) option" where
  "change_mparam S s param_number val32 =
     do { s \<leftarrow> ensure_initialization S s;
          let v = (if val32 = - 1 then MAX_SIZE_T else scast val32);
          let mp = mparams s;
          Some (if param_number = M_TRIM_THRESHOLD
                then (True, s\<lparr>mparams := mp\<lparr>trim_threshold := v\<rparr>\<rparr>)
                else if param_number = M_GRANULARITY
                then (if v \<ge> page_size mp \<and> v AND (v - 1) = 0
                      then (True, s\<lparr>mparams := mp\<lparr>granularity := v\<rparr>\<rparr>) else (False, s))
                else if param_number = M_MMAP_THRESHOLD
                then (True, s\<lparr>mparams := mp\<lparr>mmap_threshold := v\<rparr>\<rparr>)
                else (False, s)) }"

section \<open>Directly mapped chunks\<close>

definition within_limit :: "'o dl \<Rightarrow> u64 \<Rightarrow> bool" where
  "within_limit s n \<longleftrightarrow> footprint_limit s = 0
     \<or> \<not> (footprint s + n \<le> footprint s \<or> footprint s + n > footprint_limit s)"

definition add_footprint :: "'o dl \<Rightarrow> u64 \<Rightarrow> 'o dl" where
  "add_footprint s n =
     (let fp = footprint s + n
      in s\<lparr>footprint := fp,
           max_footprint := if fp > max_footprint s then fp else max_footprint s\<rparr>)"

definition mmap_alloc :: "'o sys \<Rightarrow> 'o dl \<Rightarrow> u64 \<Rightarrow> (u64 \<times> 'o dl) option" where
  "mmap_alloc S s nb =
     (let mmsize = page_align s (nb + SIX_SIZE_T_SIZES + CHUNK_ALIGN_MASK)
      in if \<not> within_limit s mmsize then Some (0, s)
         else if mmsize > nb then
           let (mm, s) = call_mmap S mmsize s
           in if mm \<noteq> MFAIL then
                let offset = align_offset (chunk2mem mm);
                    psize = mmsize - offset - MMAP_FOOT_PAD;
                    p = mm + offset
                in do {
                  s \<leftarrow> st s (prev_foot_at p) offset;
                  s \<leftarrow> st s (head_at p) psize;
                  s \<leftarrow> st s (head_at (p + psize)) FENCEPOST_HEAD;
                  s \<leftarrow> st s (head_at (p + (psize + SIZE_T_SIZE))) 0;
                  let s = (if least_addr s = 0 \<or> mm < least_addr s
                           then s\<lparr>least_addr := mm\<rparr> else s);
                  Some (chunk2mem p, add_footprint s mmsize) }
              else Some (0, s)
         else Some (0, s))"

definition mmap_resize :: "'o sys \<Rightarrow> 'o dl \<Rightarrow> u64 \<Rightarrow> u64 \<Rightarrow> 32 word \<Rightarrow> (u64 \<times> 'o dl) option" where
  "mmap_resize S s oldp nb fl =
     do { oldsize \<leftarrow> chunksize s oldp;
          if is_small nb then Some (0, s)
          else if oldsize \<ge> nb + SIZE_T_SIZE
                  \<and> oldsize - nb \<le> push_bit 1 (granularity (mparams s))
          then Some (oldp, s)
          else do {
            offset \<leftarrow> ld s (prev_foot_at oldp);
            let oldmmsize = oldsize + offset + MMAP_FOOT_PAD;
            let newmmsize = page_align s (nb + SIX_SIZE_T_SIZES + CHUNK_ALIGN_MASK);
            let (cp, s) = call_mremap S (oldp - offset) oldmmsize newmmsize fl s;
            if cp \<noteq> MFAIL then do {
              let newp = cp + offset;
              let psize = newmmsize - offset - MMAP_FOOT_PAD;
              s \<leftarrow> st s (head_at newp) psize;
              s \<leftarrow> st s (head_at (newp + psize)) FENCEPOST_HEAD;
              s \<leftarrow> st s (head_at (newp + (psize + SIZE_T_SIZE))) 0;
              let s = (if cp < least_addr s then s\<lparr>least_addr := cp\<rparr> else s);
              Some (newp, add_footprint s (newmmsize - oldmmsize)) }
            else Some (0, s) } }"

section \<open>The top chunk and the bins of a fresh state\<close>

definition init_top :: "'o dl \<Rightarrow> u64 \<Rightarrow> u64 \<Rightarrow> 'o dl option" where
  "init_top s p psize =
     (let offset = align_offset (chunk2mem p);
          p = p + offset;
          psize = psize - offset
      in do {
        let s = s\<lparr>topc := p, topsize := psize\<rparr>;
        s \<leftarrow> st s (head_at p) (psize OR PINUSE_BIT);
        s \<leftarrow> st s (head_at (p + psize)) TOP_FOOT_SIZE;
        Some (s\<lparr>trim_check := trim_threshold (mparams s)\<rparr>) })"

fun init_bins_from :: "nat \<Rightarrow> u32 \<Rightarrow> 'o dl \<Rightarrow> 'o dl option" where
  "init_bins_from 0 i s = Some s"
| "init_bins_from (Suc n) i s =
     do { let bin = smallbin_at s i;
          s \<leftarrow> st s (bk_at bin) bin;
          s \<leftarrow> st s (fd_at bin) bin;
          init_bins_from n (i + 1) s }"

definition init_bins :: "'o dl \<Rightarrow> 'o dl option" where
  "init_bins s = init_bins_from (unat NSMALLBINS) 0 s"

definition prepend_alloc :: "'o dl \<Rightarrow> u64 \<Rightarrow> u64 \<Rightarrow> u64 \<Rightarrow> (u64 \<times> 'o dl) option" where
  "prepend_alloc s newbase oldbase nb =
     (let p = align_as_chunk newbase;
          oldfirst = align_as_chunk oldbase;
          psize = oldfirst - p;
          q = p + nb;
          qsize = psize - nb
      in do {
        s \<leftarrow> set_size_and_pinuse_of_inuse_chunk s p nb;
        s \<leftarrow>
          (if oldfirst = topc s then
             let tsize = topsize s + qsize
             in st (s\<lparr>topsize := tsize, topc := q\<rparr>) (head_at q) (tsize OR PINUSE_BIT)
           else if oldfirst = dv s then
             let dsize = dvsize s + qsize
             in set_size_and_pinuse_of_free_chunk (s\<lparr>dvsize := dsize, dv := q\<rparr>) q dsize
           else do {
             u \<leftarrow> is_inuse s oldfirst;
             (oldfirst, qsize, s) \<leftarrow>
               (if \<not> u then do {
                  nsize \<leftarrow> chunksize s oldfirst;
                  s \<leftarrow> unlink_chunk s oldfirst nsize;
                  Some (oldfirst + nsize, qsize + nsize, s) }
                else Some (oldfirst, qsize, s));
             s \<leftarrow> set_free_with_pinuse s q qsize oldfirst;
             insert_chunk s q qsize });
        Some (chunk2mem p, s) })"

partial_function (option) fenceposts :: "'o dl \<Rightarrow> u64 \<Rightarrow> u64 \<Rightarrow> 'o dl option" where
  "fenceposts s p old_end =
     do { s \<leftarrow> st s (head_at p) FENCEPOST_HEAD;
          let nextp = p + SIZE_T_SIZE;
          if head_at nextp < old_end then fenceposts s nextp old_end else Some s }"

definition copy_segment :: "'o dl \<Rightarrow> u64 \<Rightarrow> u64 \<Rightarrow> 'o dl option" where
  "copy_segment s dst src =
     do { b \<leftarrow> ld s (sbase_at src); n \<leftarrow> ld s (ssize_at src);
          nx \<leftarrow> ld s (snext_at src); fl \<leftarrow> ld s (sflags_at src);
          s \<leftarrow> st s (sbase_at dst) b; s \<leftarrow> st s (ssize_at dst) n;
          s \<leftarrow> st s (snext_at dst) nx; st s (sflags_at dst) fl }"

definition add_segment :: "'o dl \<Rightarrow> u64 \<Rightarrow> u64 \<Rightarrow> u32 \<Rightarrow> 'o dl option" where
  "add_segment s tbase tsize mmapped =
     do { let old_top = topc s;
          oldsp \<leftarrow> segment_holding s old_top;
          ob \<leftarrow> ld s (sbase_at oldsp); on \<leftarrow> ld s (ssize_at oldsp);
          let old_end = ob + on;
          let ssize = pad_request sizeof_malloc_segment;
          let rawsp = old_end - (ssize + FOUR_SIZE_T_SIZES + CHUNK_ALIGN_MASK);
          let asp = rawsp + align_offset (chunk2mem rawsp);
          let csp = (if asp < old_top + MIN_CHUNK_SIZE then old_top else asp);
          let ss = chunk2mem csp;
          let tnext = csp + ssize;
          s \<leftarrow> init_top s tbase (tsize - TOP_FOOT_SIZE);
          s \<leftarrow> set_size_and_pinuse_of_inuse_chunk s csp ssize;
          s \<leftarrow> copy_segment s ss (seg_at s);
          s \<leftarrow> st s (sbase_at (seg_at s)) tbase;
          s \<leftarrow> st s (ssize_at (seg_at s)) tsize;
          s \<leftarrow> st s (sflags_at (seg_at s)) (ucast mmapped);
          s \<leftarrow> st s (snext_at (seg_at s)) ss;
          s \<leftarrow> fenceposts s tnext old_end;
          if csp \<noteq> old_top then do {
            let psize = csp - old_top;
            s \<leftarrow> set_free_with_pinuse s old_top psize (old_top + psize);
            insert_chunk s old_top psize }
          else Some s }"

section \<open>Getting memory: sys_alloc\<close>

text \<open>The three sources of memory. Each returns the base (\<open>MFAIL\<close> for none) and size.\<close>

definition morecore_extend :: "'o sys \<Rightarrow> 'o dl \<Rightarrow> u64 \<Rightarrow> u64 \<Rightarrow>
    ((u64 \<times> u64 \<times> u64) \<times> 'o dl) option" where
  "morecore_extend S s nb asize =
     do { ss \<leftarrow> (if topc s = 0 then Some 0 else segment_holding s (topc s));
          if ss = 0 then
            let (base, s) = call_morecore S 0 s
            in if base \<noteq> MFAIL then
                 let ssize = (if \<not> is_page_aligned s base
                              then asize + (page_align s base - base) else asize);
                     fp = footprint s + ssize
                 in if ssize > nb \<and> ssize < HALF_MAX_SIZE_T
                       \<and> (footprint_limit s = 0
                          \<or> (fp > footprint s \<and> fp \<le> footprint_limit s))
                    then let (br, s) = call_morecore S ssize s
                         in Some ((if br = base then base else MFAIL, br, ssize), s)
                    else Some ((MFAIL, MFAIL, ssize), s)
               else Some ((MFAIL, MFAIL, asize), s)
          else
            let ssize = granularity_align s (nb - topsize s + SYS_ALLOC_PADDING)
            in if ssize < HALF_MAX_SIZE_T then
                 let (br, s) = call_morecore S ssize s
                 in do { b \<leftarrow> ld s (sbase_at ss); n \<leftarrow> ld s (ssize_at ss);
                         Some ((if br = b + n then br else MFAIL, br, ssize), s) }
               else Some ((MFAIL, MFAIL, ssize), s) }"

definition morecore_retry :: "'o sys \<Rightarrow> 'o dl \<Rightarrow> u64 \<Rightarrow> u64 \<Rightarrow> u64 \<Rightarrow> (u64 \<times> u64) \<times> 'o dl" where
  "morecore_retry S s nb br ssize =
     (let ((br, ssize), s) =
        (if br \<noteq> MFAIL \<and> ssize < HALF_MAX_SIZE_T \<and> ssize < nb + SYS_ALLOC_PADDING then
           let esize = granularity_align s (nb + SYS_ALLOC_PADDING - ssize)
           in if esize < HALF_MAX_SIZE_T then
                let (e, s) = call_morecore S esize s
                in if e \<noteq> MFAIL then ((br, ssize + esize), s)
                   else let (_, s) = call_morecore S (- ssize) s in ((MFAIL, ssize), s)
              else ((br, ssize), s)
         else ((br, ssize), s))
      in if br \<noteq> MFAIL then ((br, ssize), s) else ((MFAIL, 0), disable_contiguous s))"

definition sys_contiguous :: "'o sys \<Rightarrow> 'o dl \<Rightarrow> u64 \<Rightarrow> u64 \<Rightarrow> ((u64 \<times> u64) \<times> 'o dl) option" where
  "sys_contiguous S s nb asize =
     (if \<not> use_noncontiguous s then do {
        ((tbase, br, ssize), s) \<leftarrow> morecore_extend S s nb asize;
        Some (if tbase = MFAIL then morecore_retry S s nb br ssize else ((tbase, ssize), s)) }
      else Some ((MFAIL, 0), s))"

definition sys_noncontiguous :: "'o sys \<Rightarrow> 'o dl \<Rightarrow> u64 \<Rightarrow> u64 \<Rightarrow> (u64 \<times> u64) \<times> 'o dl" where
  "sys_noncontiguous S s nb asize =
     (if asize < HALF_MAX_SIZE_T then
        let (br, s) = call_morecore S asize s; (e, s) = call_morecore S 0 s
        in if br \<noteq> MFAIL \<and> e \<noteq> MFAIL \<and> br < e \<and> e - br > nb + TOP_FOOT_SIZE
           then ((br, e - br), s) else ((MFAIL, 0), s)
      else ((MFAIL, 0), s))"

text \<open>\<open>tbase\<close>, \<open>tsize\<close> and \<open>mmap_flag\<close> after the three attempts.\<close>

definition sys_obtain :: "'o sys \<Rightarrow> 'o dl \<Rightarrow> u64 \<Rightarrow> u64 \<Rightarrow> ((u64 \<times> u64 \<times> u32) \<times> 'o dl) option" where
  "sys_obtain S s nb asize =
     do { ((tbase, tsize), s) \<leftarrow> sys_contiguous S s nb asize;
          Some (if tbase \<noteq> MFAIL then ((tbase, tsize, 0), s)
                else let (mp, s) = call_mmap S asize s
                     in if mp \<noteq> MFAIL then ((mp, asize, USE_MMAP_BIT), s)
                        else let ((br, n), s) = sys_noncontiguous S s nb asize
                             in ((br, n, 0), s)) }"

partial_function (option) segment_ending_at :: "'o dl \<Rightarrow> u64 \<Rightarrow> u64 \<Rightarrow> u64 option" where
  "segment_ending_at s sp a =
     (if sp = 0 then Some 0
      else do { b \<leftarrow> ld s (sbase_at sp); n \<leftarrow> ld s (ssize_at sp);
                if a = b + n then Some sp
                else do { nx \<leftarrow> ld s (snext_at sp); segment_ending_at s nx a } })"

partial_function (option) segment_starting_at :: "'o dl \<Rightarrow> u64 \<Rightarrow> u64 \<Rightarrow> u64 option" where
  "segment_starting_at s sp a =
     (if sp = 0 then Some 0
      else do { b \<leftarrow> ld s (sbase_at sp);
                if b = a then Some sp
                else do { nx \<leftarrow> ld s (snext_at sp); segment_starting_at s nx a } })"

text \<open>\<open>sp != 0 && !is_extern_segment(sp) && (sp->sflags & USE_MMAP_BIT) == mmap_flag\<close>\<close>

definition can_extend :: "'o dl \<Rightarrow> u64 \<Rightarrow> u32 \<Rightarrow> bool option" where
  "can_extend s sp mmap_flag =
     (if sp = 0 then Some False
      else do { x \<leftarrow> is_extern_segment s sp;
                if x then Some False
                else do { f \<leftarrow> ld s (sflags_at sp);
                          Some ((ucast f :: u32) AND USE_MMAP_BIT = mmap_flag) } })"

text \<open>Putting the new region to use. \<open>Inr\<close> is the early return of \<open>prepend_alloc\<close>.\<close>

definition sys_first :: "'o dl \<Rightarrow> u64 \<Rightarrow> u64 \<Rightarrow> u32 \<Rightarrow> 'o dl option" where
  "sys_first s tbase tsize mmap_flag =
     do { let s = (if least_addr s = 0 \<or> tbase < least_addr s
                   then s\<lparr>least_addr := tbase\<rparr> else s);
          s \<leftarrow> st s (sbase_at (seg_at s)) tbase;
          s \<leftarrow> st s (ssize_at (seg_at s)) tsize;
          s \<leftarrow> st s (sflags_at (seg_at s)) (ucast mmap_flag);
          s \<leftarrow> init_bins (s\<lparr>gm_magic := mp_magic (mparams s),
                            release_checks := MAX_RELEASE_CHECK_RATE\<rparr>);
          init_top s tbase (tsize - TOP_FOOT_SIZE) }"

definition sys_merge :: "'o dl \<Rightarrow> u64 \<Rightarrow> u64 \<Rightarrow> u32 \<Rightarrow> u64 \<Rightarrow> ('o dl + u64 \<times> 'o dl) option" where
  "sys_merge s tbase tsize mmap_flag nb =
     do { sp \<leftarrow> segment_ending_at s (seg_at s) tbase;
          ext \<leftarrow> can_extend s sp mmap_flag;
          app \<leftarrow> (if ext then segment_holds s sp (topc s) else Some False);
          if app then do {
            n \<leftarrow> ld s (ssize_at sp);
            s \<leftarrow> st s (ssize_at sp) (n + tsize);
            s \<leftarrow> init_top s (topc s) (topsize s + tsize);
            Some (Inl s) }
          else do {
            let s = (if tbase < least_addr s then s\<lparr>least_addr := tbase\<rparr> else s);
            sp \<leftarrow> segment_starting_at s (seg_at s) (tbase + tsize);
            pre \<leftarrow> can_extend s sp mmap_flag;
            if pre then do {
              oldbase \<leftarrow> ld s (sbase_at sp);
              s \<leftarrow> st s (sbase_at sp) tbase;
              n \<leftarrow> ld s (ssize_at sp);
              s \<leftarrow> st s (ssize_at sp) (n + tsize);
              r \<leftarrow> prepend_alloc s tbase oldbase nb;
              Some (Inr r) }
            else do { s \<leftarrow> add_segment s tbase tsize mmap_flag; Some (Inl s) } } }"

text \<open>The split of the top chunk, in \<open>sys_alloc\<close> and in \<open>dlmalloc\<close>.\<close>

definition split_top :: "'o dl \<Rightarrow> u64 \<Rightarrow> (u64 \<times> 'o dl) option" where
  "split_top s nb =
     (let rsize = topsize s - nb; p = topc s; r = p + nb
      in do {
        s \<leftarrow> st (s\<lparr>topsize := rsize, topc := r\<rparr>) (head_at r) (rsize OR PINUSE_BIT);
        s \<leftarrow> set_size_and_pinuse_of_inuse_chunk s p nb;
        Some (chunk2mem p, s) })"

definition sys_alloc :: "'o sys \<Rightarrow> 'o dl \<Rightarrow> u64 \<Rightarrow> (u64 \<times> 'o dl) option" where
  "sys_alloc S s nb =
     do { s \<leftarrow> ensure_initialization S s;
          (mem, s) \<leftarrow> (if use_mmap s \<and> nb \<ge> mmap_threshold (mparams s) \<and> topsize s \<noteq> 0
                       then mmap_alloc S s nb else Some (0, s));
          let asize = granularity_align s (nb + SYS_ALLOC_PADDING);
          if mem \<noteq> 0 then Some (mem, s)
          else if asize \<le> nb \<or> \<not> within_limit s asize then Some (0, s)
          else do {
            ((tbase, tsize, mmap_flag), s) \<leftarrow> sys_obtain S s nb asize;
            if tbase \<noteq> MFAIL then do {
              let s = add_footprint s tsize;
              r \<leftarrow> (if \<not> is_initialized s
                    then map_option Inl (sys_first s tbase tsize mmap_flag)
                    else sys_merge s tbase tsize mmap_flag nb);
              case r of
                Inr res \<Rightarrow> Some res
              | Inl s \<Rightarrow> (if nb < topsize s then split_top s nb
                          else Some (0, malloc_failure_action s)) }
            else Some (0, malloc_failure_action s) } }"

section \<open>Giving memory back\<close>

partial_function (option) release_loop ::
    "'o sys \<Rightarrow> 'o dl \<Rightarrow> u64 \<Rightarrow> u64 \<Rightarrow> u64 \<Rightarrow> u64 \<Rightarrow> ((u64 \<times> u64) \<times> 'o dl) option" where
  "release_loop S s pred sp released nsegs =
     (if sp = 0 then Some ((released, nsegs), s)
      else do {
        base \<leftarrow> ld s (sbase_at sp); n \<leftarrow> ld s (ssize_at sp); nx \<leftarrow> ld s (snext_at sp);
        mm \<leftarrow> is_mmapped_segment s sp; ex \<leftarrow> is_extern_segment s sp;
        ((sp', released'), s) \<leftarrow>
          (if mm \<and> \<not> ex then do {
             let p = align_as_chunk base;
             psize \<leftarrow> chunksize s p;
             u \<leftarrow> is_inuse s p;
             if \<not> u \<and> p + psize \<ge> base + n - TOP_FOOT_SIZE then do {
               s \<leftarrow> (if p = dv s then Some (s\<lparr>dv := 0, dvsize := 0\<rparr>)
                     else unlink_large_chunk s p);
               let (r, s) = call_munmap S base n s;
               if r = 0 then do {
                 let s = s\<lparr>footprint := footprint s - n\<rparr>;
                 s \<leftarrow> st s (snext_at pred) nx;
                 Some ((pred, released + n), s) }
               else do { s \<leftarrow> insert_large_chunk s p psize; Some ((sp, released), s) } }
             else Some ((sp, released), s) }
           else Some ((sp, released), s));
        release_loop S s sp' nx released' (nsegs + 1) })"

definition release_unused_segments :: "'o sys \<Rightarrow> 'o dl \<Rightarrow> (u64 \<times> 'o dl) option" where
  "release_unused_segments S s =
     do { sp \<leftarrow> ld s (snext_at (seg_at s));
          ((released, nsegs), s) \<leftarrow> release_loop S s (seg_at s) sp 0 0;
          Some (released, s\<lparr>release_checks :=
            if nsegs > MAX_RELEASE_CHECK_RATE then nsegs else MAX_RELEASE_CHECK_RATE\<rparr>) }"

definition trim_mmapped :: "'o sys \<Rightarrow> 'o dl \<Rightarrow> u64 \<Rightarrow> u64 \<Rightarrow> (u64 \<times> 'o dl) option" where
  "trim_mmapped S s sp extra =
     do { n \<leftarrow> ld s (ssize_at sp);
          pinned \<leftarrow> (if n \<ge> extra then has_segment_link s sp else Some True);
          if n \<ge> extra \<and> \<not> pinned then do {
            let newsize = n - extra;
            base \<leftarrow> ld s (sbase_at sp);
            let (r, s) = call_mremap S base n newsize 0 s;
            if r \<noteq> MFAIL then Some (extra, s)
            else let (u, s) = call_munmap S (base + newsize) extra s
                 in Some (if u = 0 then extra else 0, s) }
          else Some (0, s) }"

definition trim_morecore :: "'o sys \<Rightarrow> 'o dl \<Rightarrow> u64 \<Rightarrow> u64 \<Rightarrow> u64 \<Rightarrow> (u64 \<times> 'o dl) option" where
  "trim_morecore S s sp extra unit =
     (let extra = (if extra \<ge> HALF_MAX_SIZE_T then HALF_MAX_SIZE_T + 1 - unit else extra);
          (old_br, s) = call_morecore S 0 s
      in do {
        b \<leftarrow> ld s (sbase_at sp); n \<leftarrow> ld s (ssize_at sp);
        Some (if old_br = b + n then
                let (rel_br, s) = call_morecore S (- extra) s; (new_br, s) = call_morecore S 0 s
                in (if rel_br \<noteq> MFAIL \<and> new_br < old_br then old_br - new_br else 0, s)
              else (0, s)) })"

definition sys_trim :: "'o sys \<Rightarrow> 'o dl \<Rightarrow> u64 \<Rightarrow> (bool \<times> 'o dl) option" where
  "sys_trim S s pad =
     do { s \<leftarrow> ensure_initialization S s;
          if pad < MAX_REQUEST \<and> is_initialized s then do {
            let pad = pad + TOP_FOOT_SIZE;
            (released, s) \<leftarrow>
              (if topsize s > pad then do {
                 let unit = granularity (mparams s);
                 extra \<leftarrow> (if unit = 0 then None
                           else Some (((topsize s - pad + (unit - 1)) div unit - 1) * unit));
                 sp \<leftarrow> segment_holding s (topc s);
                 ex \<leftarrow> is_extern_segment s sp;
                 mm \<leftarrow> is_mmapped_segment s sp;
                 (released, s) \<leftarrow>
                   (if ex then Some (0, s)
                    else if mm then trim_mmapped S s sp extra
                    else trim_morecore S s sp extra unit);
                 if released \<noteq> 0 then do {
                   n \<leftarrow> ld s (ssize_at sp);
                   s \<leftarrow> st s (ssize_at sp) (n - released);
                   let s = s\<lparr>footprint := footprint s - released\<rparr>;
                   s \<leftarrow> init_top s (topc s) (topsize s - released);
                   Some (released, s) }
                 else Some (released, s) }
               else Some (0, s));
            (more, s) \<leftarrow> release_unused_segments S s;
            let released = released + more;
            Some (released \<noteq> 0,
                  if released = 0 \<and> topsize s > trim_check s
                  then s\<lparr>trim_check := MAX_SIZE_T\<rparr> else s) }
          else Some (False, s) }"

section \<open>Fresh bins\<close>

lemma init_bins_from_eq:
  assumes "\<forall>j<32. has s (fd_at (bin_node s j)) \<and> has s (bk_at (bin_node s j))" and "i + n = 32"
  shows "\<exists>h. init_bins_from n (of_nat i) s = Some (s\<lparr>heap := h\<rparr>)
    \<and> (\<forall>j. i \<le> j \<and> j < 32 \<longrightarrow> links h (bin_node s j) [] (bin_node s j))
    \<and> (\<forall>a. (\<forall>j. i \<le> j \<and> j < 32 \<longrightarrow> a \<noteq> fd_at (bin_node s j) \<and> a \<noteq> bk_at (bin_node s j)) \<longrightarrow> h a = heap s a)"
  using assms
proof (induction n arbitrary: i s)
  case 0
  then show ?case by (auto intro: exI [of _ "heap s"])
next
  case (Suc n)
  let ?b = "bin_node s i"
  define s' where "s' = upd (upd s (bk_at ?b) ?b) (fd_at ?b) ?b"
  have i: "i < 32" using Suc.prems(2) by simp
  have bn: "bin_node s' j = bin_node s j" for j by (simp add: s'_def bin_node_def smallbin_at_def)
  have has': "\<forall>j<32. has s' (fd_at (bin_node s' j)) \<and> has s' (bk_at (bin_node s' j))"
    using Suc.prems(1) by (simp add: bn) (simp add: s'_def)
  have "Suc i + n = 32" using Suc.prems(2) by simp
  from Suc.IH [OF has' this, unfolded bn]
  obtain h where h: "init_bins_from n (of_nat (Suc i)) s' = Some (s'\<lparr>heap := h\<rparr>)"
    "\<forall>j. Suc i \<le> j \<and> j < 32 \<longrightarrow> links h (bin_node s j) [] (bin_node s j)"
    "\<forall>a. (\<forall>j. Suc i \<le> j \<and> j < 32 \<longrightarrow> a \<noteq> fd_at (bin_node s j) \<and> a \<noteq> bk_at (bin_node s j)) \<longrightarrow> h a = heap s' a"
    by blast
  have "init_bins_from (Suc n) (of_nat i) s = init_bins_from n (of_nat (Suc i)) s'"
    unfolding init_bins_from.simps Let_def bin_node_def [of s i, symmetric] s'_def
    using Suc.prems(1) i by (simp add: st_has add.commute)
  also have "\<dots> = Some (s\<lparr>heap := h\<rparr>)" unfolding h(1) by (simp add: s'_def upd_def)
  finally have 1: "init_bins_from (Suc n) (of_nat i) s = Some (s\<lparr>heap := h\<rparr>)" .
  have keep: "h (fd_at ?b) = heap s' (fd_at ?b)" "h (bk_at ?b) = heap s' (bk_at ?b)"
  proof -
    have "\<forall>j. Suc i \<le> j \<and> j < 32 \<longrightarrow> fd_at ?b \<noteq> fd_at (bin_node s j) \<and> fd_at ?b \<noteq> bk_at (bin_node s j)"
      using bin_node_cells [OF i, of _ s] by auto
    then show "h (fd_at ?b) = heap s' (fd_at ?b)" using h(3) by blast
    have "\<forall>j. Suc i \<le> j \<and> j < 32 \<longrightarrow> bk_at ?b \<noteq> fd_at (bin_node s j) \<and> bk_at ?b \<noteq> bk_at (bin_node s j)"
      using bin_node_cells(1) [OF _ i, of _ s] bin_node_cells(2) [OF i, of _ s] by (auto dest: sym)
    then show "h (bk_at ?b) = heap s' (bk_at ?b)" using h(3) by blast
  qed
  have "links h ?b [] ?b" using keep by (simp add: s'_def)
  then have 2: "\<forall>j. i \<le> j \<and> j < 32 \<longrightarrow> links h (bin_node s j) [] (bin_node s j)"
    using h(2) by (metis Suc_leI le_neq_implies_less)
  have 3: "h a = heap s a"
    if "\<forall>j. i \<le> j \<and> j < 32 \<longrightarrow> a \<noteq> fd_at (bin_node s j) \<and> a \<noteq> bk_at (bin_node s j)" for a
  proof -
    have "h a = heap s' a" using h(3) that by (metis Suc_leD)
    moreover have "a \<noteq> fd_at ?b" "a \<noteq> bk_at ?b" using that i by auto
    ultimately show ?thesis by (simp add: s'_def)
  qed
  show ?case using 1 2 3 by blast
qed

theorem init_bins_empties:
  assumes "smallmap s = 0"
    and "\<forall>i<32. has s (fd_at (bin_node s i)) \<and> has s (bk_at (bin_node s i))"
  shows "\<exists>s'. init_bins s = Some s' \<and> bins_ok s' (replicate 32 [])
    \<and> (\<forall>i<32. links (heap s') (bin_node s i) [] (bin_node s i))"
proof -
  obtain h where h: "init_bins_from 32 (of_nat 0) s = Some (s\<lparr>heap := h\<rparr>)"
    "\<forall>j. 0 \<le> j \<and> j < 32 \<longrightarrow> links h (bin_node s j) [] (bin_node s j)"
    using init_bins_from_eq [OF assms(2), of 0 32] by auto
  let ?s = "s\<lparr>heap := h\<rparr>"
  have "init_bins s = Some ?s" using h(1) by (simp add: init_bins_def)
  moreover have "bins_ok ?s (replicate 32 [])"
    by (rule bins_ok_empty)
      (use assms(1) h(2) in \<open>auto simp: has_def bin_node_def smallbin_at_def\<close>)
  moreover have "\<forall>i<32. links (heap ?s) (bin_node s i) [] (bin_node s i)" using h(2) by simp
  ultimately show ?thesis by blast
qed

end
