(* ===== verification/DlMalloc.thy ===== *)
theory DlMalloc
  imports DlSys
begin

text \<open>
  The allocation routines of \<open>dlmalloc.c\<close>: \<open>dlmalloc\<close>, \<open>dlfree\<close>, \<open>dlcalloc\<close> and the
  routines under them, for the build without locks and footers. \<open>None\<close> is an abort or a
  fault; a null result is the pointer 0 in \<open>Some\<close>.
\<close>

section \<open>dispose_chunk\<close>

text \<open>
  \<open>dispose_chunk\<close> and \<open>dlfree\<close> share their two consolidations. The result of each says
  whether the C code has returned (\<open>Inr\<close>) or goes on with a chunk and a size (\<open>Inl\<close>).
\<close>

definition free_mmapped :: "'o sys \<Rightarrow> 'o dl \<Rightarrow> u64 \<Rightarrow> u64 \<Rightarrow> u64 \<Rightarrow> 'o dl" where
  "free_mmapped S s p psize prevsize =
     (let psize = psize + (prevsize + MMAP_FOOT_PAD);
          (r, s) = call_munmap S (p - prevsize) psize s
      in if r = 0 then s\<lparr>footprint := footprint s - psize\<rparr> else s)"

definition consolidate_backward :: "'o sys \<Rightarrow> 'o dl \<Rightarrow> u64 \<Rightarrow> u64 \<Rightarrow> u64 \<Rightarrow>
    ((u64 \<times> u64) \<times> 'o dl + 'o dl) option" where
  "consolidate_backward S s p psize nx =
     do { pin \<leftarrow> pinuse s p;
          if pin then Some (Inl ((p, psize), s))
          else do {
            prevsize \<leftarrow> ld s (prev_foot_at p);
            mm \<leftarrow> is_mmapped s p;
            if mm then Some (Inr (free_mmapped S s p psize prevsize))
            else do {
              let prev = p - prevsize;
              let psize = psize + prevsize;
              if \<not> ok_address s prev then None
              else if prev \<noteq> dv s then do {
                s \<leftarrow> unlink_chunk s prev prevsize;
                Some (Inl ((prev, psize), s)) }
              else do {
                h \<leftarrow> ld s (head_at nx);
                if h AND INUSE_BITS = INUSE_BITS then do {
                  s \<leftarrow> set_free_with_pinuse (s\<lparr>dvsize := psize\<rparr>) prev psize nx;
                  Some (Inr s) }
                else Some (Inl ((prev, psize), s)) } } } }"

text \<open>\<open>next == m->top\<close>: the chunk becomes part of the top chunk.\<close>

definition merge_into_top :: "'o dl \<Rightarrow> u64 \<Rightarrow> u64 \<Rightarrow> 'o dl option" where
  "merge_into_top s p psize =
     (let tsize = topsize s + psize
      in do { s \<leftarrow> st (s\<lparr>topsize := tsize, topc := p\<rparr>) (head_at p) (tsize OR PINUSE_BIT);
              Some (if p = dv s then s\<lparr>dv := 0, dvsize := 0\<rparr> else s) })"

definition merge_into_dv :: "'o dl \<Rightarrow> u64 \<Rightarrow> u64 \<Rightarrow> 'o dl option" where
  "merge_into_dv s p psize =
     (let dsize = dvsize s + psize
      in set_size_and_pinuse_of_free_chunk (s\<lparr>dvsize := dsize, dv := p\<rparr>) p dsize)"

text \<open>The free neighbour \<open>next\<close> that is neither: \<open>Inr\<close> when the chunk is \<open>dv\<close>.\<close>

definition absorb_next :: "'o dl \<Rightarrow> u64 \<Rightarrow> u64 \<Rightarrow> u64 \<Rightarrow> (u64 \<times> 'o dl + 'o dl) option" where
  "absorb_next s p psize nx =
     do { nsize \<leftarrow> chunksize s nx;
          let psize = psize + nsize;
          s \<leftarrow> unlink_chunk s nx nsize;
          s \<leftarrow> set_size_and_pinuse_of_free_chunk s p psize;
          Some (if p = dv s then Inr (s\<lparr>dvsize := psize\<rparr>) else Inl (psize, s)) }"

definition dispose_chunk :: "'o sys \<Rightarrow> 'o dl \<Rightarrow> u64 \<Rightarrow> u64 \<Rightarrow> 'o dl option" where
  "dispose_chunk S s p psize =
     do { let nx = p + psize;
          back \<leftarrow> consolidate_backward S s p psize nx;
          case back of
            Inr s \<Rightarrow> Some s
          | Inl ((p, psize), s) \<Rightarrow>
              if \<not> ok_address s nx then None
              else do {
                c \<leftarrow> cinuse s nx;
                if \<not> c then
                  if nx = topc s then merge_into_top s p psize
                  else if nx = dv s then merge_into_dv s p psize
                  else do {
                    r \<leftarrow> absorb_next s p psize nx;
                    case r of Inr s \<Rightarrow> Some s | Inl (psize, s) \<Rightarrow> insert_chunk s p psize }
                else do { s \<leftarrow> set_free_with_pinuse s p psize nx; insert_chunk s p psize } } }"

section \<open>Allocation from the tree bins\<close>

text \<open>The walk for the best fit in the bin of \<open>nb\<close>: \<open>(t, v, rsize)\<close> at its end.\<close>

partial_function (option) tree_walk ::
    "'o dl \<Rightarrow> u64 \<Rightarrow> u64 \<Rightarrow> u64 \<Rightarrow> u64 \<Rightarrow> u64 \<Rightarrow> u64 \<Rightarrow> (u64 \<times> u64 \<times> u64) option" where
  "tree_walk s nb t v rsize sizebits rst =
     do { tn \<leftarrow> chunksize s t;
          let trem = tn - nb;
          if trem < rsize \<and> trem = 0 then Some (t, t, 0)
          else do {
            let (v, rsize) = (if trem < rsize then (t, trem) else (v, rsize));
            rt \<leftarrow> ld s (child_at t 1);
            t' \<leftarrow> ld s (child_at t (drop_bit 63 sizebits AND 1));
            let rst = (if rt \<noteq> 0 \<and> rt \<noteq> t' then rt else rst);
            if t' = 0 then Some (rst, v, rsize)
            else tree_walk s nb t' v rsize (push_bit 1 sizebits) rst } }"

text \<open>The walk down the leftmost children, keeping the smallest remainder.\<close>

partial_function (option) leftmost_walk ::
    "'o dl \<Rightarrow> u64 \<Rightarrow> u64 \<Rightarrow> u64 \<Rightarrow> u64 \<Rightarrow> (u64 \<times> u64) option" where
  "leftmost_walk s nb t v rsize =
     (if t = 0 then Some (v, rsize)
      else do {
        tn \<leftarrow> chunksize s t;
        let trem = tn - nb;
        let (v, rsize) = (if trem < rsize then (t, trem) else (v, rsize));
        t \<leftarrow> leftmost_child s t;
        leftmost_walk s nb t v rsize })"

text \<open>Cutting \<open>nb\<close> bytes off the free tree chunk \<open>v\<close>; \<open>keep\<close> stores the remainder.\<close>

definition split_tree_chunk :: "'o dl \<Rightarrow> u64 \<Rightarrow> u64 \<Rightarrow> u64 \<Rightarrow>
    ('o dl \<Rightarrow> u64 \<Rightarrow> u64 \<Rightarrow> 'o dl option) \<Rightarrow> (u64 \<times> 'o dl) option" where
  "split_tree_chunk s v nb rsize keep =
     (if ok_address s v \<and> ok_next v (v + nb) then do {
        let r = v + nb;
        s \<leftarrow> unlink_large_chunk s v;
        s \<leftarrow> (if rsize < MIN_CHUNK_SIZE then set_inuse_and_pinuse s v (rsize + nb)
              else do { s \<leftarrow> set_size_and_pinuse_of_inuse_chunk s v nb;
                        s \<leftarrow> set_size_and_pinuse_of_free_chunk s r rsize;
                        keep s r rsize });
        Some (chunk2mem v, s) }
      else None)"

definition next_tree_root :: "'o dl \<Rightarrow> u32 \<Rightarrow> u64 option" where
  "next_tree_root s idx =
     (let leftbits = left_bits (idx2bit idx) AND treemap s
      in if leftbits \<noteq> 0 then ld s (treebin_at s (compute_bit2idx (least_bit leftbits)))
         else Some 0)"

text \<open>The chunk \<open>v\<close> that \<open>tmalloc_large\<close> settles on, 0 for none, and its remainder.\<close>

definition large_pick :: "'o dl \<Rightarrow> u64 \<Rightarrow> (u64 \<times> u64) option" where
  "large_pick s nb =
     do { let idx = compute_tree_index nb;
          t \<leftarrow> ld s (treebin_at s idx);
          (t, v, rsize) \<leftarrow>
            (if t \<noteq> 0 then tree_walk s nb t 0 (- nb) (push_bit (leftshift_for_tree_index idx) nb) 0
             else Some (t, 0, - nb));
          t \<leftarrow> (if t = 0 \<and> v = 0 then next_tree_root s idx else Some t);
          leftmost_walk s nb t v rsize }"

definition tmalloc_large :: "'o dl \<Rightarrow> u64 \<Rightarrow> (u64 \<times> 'o dl) option" where
  "tmalloc_large s nb =
     do { (v, rsize) \<leftarrow> large_pick s nb;
          if v \<noteq> 0 \<and> rsize < dvsize s - nb
          then split_tree_chunk s v nb rsize insert_chunk
          else Some (0, s) }"

definition tmalloc_small :: "'o dl \<Rightarrow> u64 \<Rightarrow> (u64 \<times> 'o dl) option" where
  "tmalloc_small s nb =
     do { t \<leftarrow> ld s (treebin_at s (compute_bit2idx (least_bit (treemap s))));
          tn \<leftarrow> chunksize s t;
          l \<leftarrow> leftmost_child s t;
          (v, rsize) \<leftarrow> leftmost_walk s nb l t (tn - nb);
          split_tree_chunk s v nb rsize replace_dv }"

section \<open>dlmalloc\<close>

text \<open>A remainderless chunk of the small bin \<open>idx\<close> or of the one after it.\<close>

definition malloc_exact :: "'o dl \<Rightarrow> u32 \<Rightarrow> u32 \<Rightarrow> (u64 \<times> 'o dl) option" where
  "malloc_exact s idx smallbits =
     do { let idx = idx + (NOT smallbits AND 1);
          let b = smallbin_at s idx;
          p \<leftarrow> ld s (fd_at b);
          s \<leftarrow> unlink_first_small_chunk s b p idx;
          s \<leftarrow> set_inuse_and_pinuse s p (small_index2size idx);
          Some (chunk2mem p, s) }"

text \<open>The first chunk of the next nonempty small bin, split.\<close>

definition malloc_next_bin :: "'o dl \<Rightarrow> u32 \<Rightarrow> u32 \<Rightarrow> u64 \<Rightarrow> (u64 \<times> 'o dl) option" where
  "malloc_next_bin s idx smallbits nb =
     do { let leftbits = push_bit (unat idx) smallbits AND left_bits (idx2bit idx);
          let i = compute_bit2idx (least_bit leftbits);
          let b = smallbin_at s i;
          p \<leftarrow> ld s (fd_at b);
          s \<leftarrow> unlink_first_small_chunk s b p i;
          let rsize = small_index2size i - nb;
          s \<leftarrow> (if SIZE_T_SIZE \<noteq> 4 \<and> rsize < MIN_CHUNK_SIZE
                then set_inuse_and_pinuse s p (small_index2size i)
                else do {
                  s \<leftarrow> set_size_and_pinuse_of_inuse_chunk s p nb;
                  let r = p + nb;
                  s \<leftarrow> set_size_and_pinuse_of_free_chunk s r rsize;
                  replace_dv s r rsize });
          Some (chunk2mem p, s) }"

definition malloc_dv :: "'o dl \<Rightarrow> u64 \<Rightarrow> (u64 \<times> 'o dl) option" where
  "malloc_dv s nb =
     (let rsize = dvsize s - nb; p = dv s
      in do {
        s \<leftarrow>
          (if rsize \<ge> MIN_CHUNK_SIZE then do {
             let r = p + nb;
             s \<leftarrow> set_size_and_pinuse_of_free_chunk (s\<lparr>dv := r, dvsize := rsize\<rparr>) r rsize;
             set_size_and_pinuse_of_inuse_chunk s p nb }
           else let dvs = dvsize s in set_inuse_and_pinuse (s\<lparr>dvsize := 0, dv := 0\<rparr>) p dvs);
        Some (chunk2mem p, s) })"

definition malloc_tail :: "'o sys \<Rightarrow> 'o dl \<Rightarrow> u64 \<Rightarrow> (u64 \<times> 'o dl) option" where
  "malloc_tail S s nb =
     (if nb \<le> dvsize s then malloc_dv s nb
      else if nb < topsize s then split_top s nb
      else sys_alloc S s nb)"

definition dlmalloc :: "'o sys \<Rightarrow> 'o dl \<Rightarrow> u64 \<Rightarrow> (u64 \<times> 'o dl) option" where
  "dlmalloc S s bytes =
     (if bytes \<le> MAX_SMALL_REQUEST then
        let nb = (if bytes < MIN_REQUEST then MIN_CHUNK_SIZE else pad_request bytes);
            idx = small_index nb;
            smallbits = drop_bit (unat idx) (smallmap s)
        in if smallbits AND 3 \<noteq> 0 then malloc_exact s idx smallbits
           else if nb > dvsize s then
             if smallbits \<noteq> 0 then malloc_next_bin s idx smallbits nb
             else if treemap s \<noteq> 0 then do {
               (mem, s) \<leftarrow> tmalloc_small s nb;
               if mem \<noteq> 0 then Some (mem, s) else malloc_tail S s nb }
             else malloc_tail S s nb
           else malloc_tail S s nb
      else if bytes \<ge> MAX_REQUEST then malloc_tail S s MAX_SIZE_T
      else
        let nb = pad_request bytes
        in if treemap s \<noteq> 0 then do {
             (mem, s) \<leftarrow> tmalloc_large s nb;
             if mem \<noteq> 0 then Some (mem, s) else malloc_tail S s nb }
           else malloc_tail S s nb)"

section \<open>dlfree\<close>

definition free_insert :: "'o sys \<Rightarrow> 'o dl \<Rightarrow> u64 \<Rightarrow> u64 \<Rightarrow> 'o dl option" where
  "free_insert S s p psize =
     (if is_small psize then insert_small_chunk s p psize
      else do {
        s \<leftarrow> insert_large_chunk s p psize;
        let s = s\<lparr>release_checks := release_checks s - 1\<rparr>;
        if release_checks s = 0 then map_option snd (release_unused_segments S s)
        else Some s })"

definition dlfree :: "'o sys \<Rightarrow> 'o dl \<Rightarrow> u64 \<Rightarrow> 'o dl option" where
  "dlfree S s mem =
     (if mem = 0 then Some s
      else do {
        let p = mem2chunk mem;
        u \<leftarrow> (if ok_address s p then is_inuse s p else Some False);
        if \<not> u then None
        else do {
          psize \<leftarrow> chunksize s p;
          let nx = p + psize;
          back \<leftarrow> consolidate_backward S s p psize nx;
          case back of
            Inr s \<Rightarrow> Some s
          | Inl ((p, psize), s) \<Rightarrow> do {
              okn \<leftarrow> (if ok_next p nx then pinuse s nx else Some False);
              if \<not> okn then None
              else do {
                c \<leftarrow> cinuse s nx;
                if \<not> c then
                  if nx = topc s then do {
                    s \<leftarrow> merge_into_top s p psize;
                    if should_trim s (topsize s) then map_option snd (sys_trim S s 0) else Some s }
                  else if nx = dv s then merge_into_dv s p psize
                  else do {
                    r \<leftarrow> absorb_next s p psize nx;
                    case r of Inr s \<Rightarrow> Some s | Inl (psize, s) \<Rightarrow> free_insert S s p psize }
                else do { s \<leftarrow> set_free_with_pinuse s p psize nx; free_insert S s p psize } } } } })"

section \<open>A request served from a small bin\<close>

text \<open>The padded size of a small request and its bin.\<close>

lemma small_request:
  assumes "bytes \<le> MAX_SMALL_REQUEST"
  shows "(if bytes < MIN_REQUEST then MIN_CHUNK_SIZE else pad_request bytes) = request2size bytes"
    and "is_small (request2size bytes)" and "unat (small_index (request2size bytes)) \<le> 30"
    and "8 * unat (small_index (request2size bytes)) = unat (request2size bytes)"
proof -
  have b: "unat bytes \<le> 232" using assms by (simp add: word_le_nat_alt)
  then have "bytes < MAX_REQUEST" by (simp add: word_less_nat_alt)
  note u = unat_request2size [OF this]
  show "(if bytes < MIN_REQUEST then MIN_CHUNK_SIZE else pad_request bytes) = request2size bytes"
    by (simp add: request2size_def)
  have d: "unat (drop_bit 3 (request2size bytes)) = unat (request2size bytes) div 8"
    by (simp only: unat_drop_bit) simp
  have le: "unat (request2size bytes) \<le> 240" unfolding u using b by (simp add: max_def) linarith
  then show "is_small (request2size bytes)" by (simp add: is_small_def word_less_nat_alt d)
  have i: "unat (small_index (request2size bytes)) = unat (request2size bytes) div 8"
    using le by (simp add: small_index_def unsigned_ucast_eq take_bit_nat_eq_self d)
  show "unat (small_index (request2size bytes)) \<le> 30" unfolding i using le by simp
  have "unat (request2size bytes) mod 8 = 0" unfolding u by (simp add: max_def mod_mult2_eq)
  then show "8 * unat (small_index (request2size bytes)) = unat (request2size bytes)"
    unfolding i by presburger
qed

lemma unat_small_index2size: "unat i < 32 \<Longrightarrow> unat (small_index2size i) = 8 * unat i"
  unfolding small_index2size_def unsigned_ucast_eq
  by (simp add: unat_push_bit take_bit_nat_eq_self)

lemma word_eq_0_bits: "(x :: 'a::len word) = 0 \<longleftrightarrow> (\<forall>n<LENGTH('a). \<not> bit x n)"
  by (metis bit_0_eq bit_imp_le_length bit_word_eqI bot_apply bot_bool_def)

lemma drop_AND_3:
  fixes m :: u32
  shows "drop_bit i m AND 3 \<noteq> 0 \<longleftrightarrow> bit m i \<or> bit m (Suc i)"
proof -
  have m3: "(3 :: u32) = mask 2" by (simp add: mask_eq_exp_minus_1)
  have b: "bit (drop_bit i m AND 3) n \<longleftrightarrow> bit m (i + n) \<and> n < 2" for n
    unfolding m3 bit_and_iff bit_drop_bit_eq bit_mask_iff by auto
  have "drop_bit i m AND 3 \<noteq> 0 \<longleftrightarrow> (\<exists>n<32. bit m (i + n) \<and> n < 2)"
    unfolding word_eq_0_bits b by auto
  also have "\<dots> \<longleftrightarrow> bit m i \<or> bit m (Suc i)"
    by (auto simp: less_2_cases_iff intro: exI [of _ 0] exI [of _ 1])
  finally show ?thesis .
qed

lemma OR_1_AND_1: "(h OR 1) AND 1 = (1 :: u64)"
  by (rule bit_word_eqI) (auto simp: bit_simps)

lemma NOT_AND_1: "NOT (drop_bit i (m :: u32)) AND 1 = (if bit m i then 0 else 1)"
proof (rule bit_word_eqI)
  fix n assume "n < LENGTH(32)"
  then show "bit (NOT (drop_bit i m) AND 1) n = bit (if bit m i then 0 else 1 :: u32) n"
    by (cases n) (auto simp: bit_and_iff bit_not_iff bit_drop_bit_eq bit_1_iff)
qed

lemma unlinked_sel [simp]:
  "gm (unlinked s i ps qs) = gm s" "least_addr (unlinked s i ps qs) = least_addr s"
  by (simp_all add: unlinked_def Let_def clear_smallmap_def)

lemma has_unlinked: "has s a \<Longrightarrow> has (unlinked s i ps qs) a"
  by (simp add: unlinked_def Let_def clear_smallmap_def)

lemma ring_gm: "gm s' = gm s \<Longrightarrow> ring s' ls i = ring s ls i"
  by (simp add: ring_def bin_node_def smallbin_at_def)

lemma not_link_smaller:
  assumes "not_link s ls a" and "bins_ok s ls" and "i < 32" and "set qs \<subseteq> set (ls ! i)" and "gm s' = gm s"
  shows "not_link s' (ls[i := qs]) a"
proof -
  have "set (ring s' (ls[i := qs]) k) \<subseteq> set (ring s ls k)" for k
    using assms(4) ring_upd [OF assms(2,3,5), of qs k] by (auto simp: ring_def)
  then show ?thesis using assms(1) unfolding not_link_def by blast
qed

text \<open>A small request whose bin (or else the next bin) holds a chunk is served by the first
  chunk of that bin: it leaves the bin's list, the other bins are unchanged, its head says
  in use with its full size, which covers the padded request, and its successor learns that
  its predecessor is in use.\<close>

theorem dlmalloc_exact_fit:
  assumes ok: "bins_ok s ls" and small: "bytes \<le> MAX_SMALL_REQUEST"
  defines "i \<equiv> unat (small_index (request2size bytes))"
  defines "j \<equiv> (if ls ! i \<noteq> [] then i else Suc i)"
  assumes l: "ls ! j = p # qs"
  defines "n \<equiv> of_nat (8 * j)"
  assumes room: "not_link s ls (head_at p)" "not_link s ls (head_at (p + n))"
    "has s (head_at p)" "has s (head_at (p + n))"
  shows "\<exists>s'. dlmalloc S s bytes = Some (chunk2mem p, s') \<and> bins_ok s' (ls[j := qs])
    \<and> ld s' (head_at p) = Some (n OR PINUSE_BIT OR CINUSE_BIT)
    \<and> pinuse s' (p + n) = Some True \<and> request2size bytes \<le> n"
proof -
  define idx where "idx = small_index (request2size bytes)"
  note r = small_request [OF small]
  have i: "i \<le> 30" "unat idx = i" using r(3) by (auto simp: i_def idx_def)
  have j: "j < 32" using i by (simp add: j_def)
  let ?m = "smallmap s"
  have marked: "bit ?m k \<longleftrightarrow> ls ! k \<noteq> []" if "k < 32" for k
    using bins_okD(3) [OF ok that] by (simp add: bin_holds_def split: if_splits)
  have hit: "drop_bit i ?m AND 3 \<noteq> 0"
    unfolding drop_AND_3 using marked [of i] marked [of "Suc i"] i l
    by (auto simp: j_def split: if_splits)
  define jw where "jw = idx + (if bit ?m i then 0 else 1)"
  have jw: "unat jw = j"
    using i marked [of i] unfolding jw_def j_def by (auto simp: unat_word_ariths)
  have n: "small_index2size jw = n"
    using unat_small_index2size [of jw] j unfolding n_def jw by (metis of_nat_unat ucast_id jw)
  have bn: "smallbin_at s jw = bin_node s j" unfolding bin_node_def jw [symmetric] by simp
  have lj: "ls ! unat jw = [] @ p # qs" using l jw by simp
  have fd: "ld s (fd_at (smallbin_at s jw)) = Some p"
    using bin_links(5) [OF ok _ lj] jw j by simp
  define s1 where "s1 = unlinked s jw [] qs"
  have un: "unlink_first_small_chunk s (smallbin_at s jw) p jw = Some s1"
    unfolding s1_def using jw j l by (intro unlink_first_small_chunk_eq [OF ok]) auto
  have ok1: "bins_ok s1 (ls[j := qs])"
    using unlinked_frame [OF ok _ lj] jw j unfolding s1_def by simp
  have nl: "not_link s1 (ls[j := qs]) a" if "not_link s ls a" for a
    using that l by (intro not_link_smaller [OF _ ok j]) (auto simp: s1_def)
  define s2 where "s2 = upd s1 (head_at p) (n OR PINUSE_BIT OR CINUSE_BIT)"
  have has: "has s1 (head_at p)" "has s2 (head_at (p + n))"
    using room(3,4) by (auto simp: s1_def s2_def has_unlinked)
  obtain h where h: "ld s2 (head_at (p + n)) = Some h"
    using has(2) by (auto simp: has_def ld_def)
  define s3 where "s3 = upd s2 (head_at (p + n)) (h OR PINUSE_BIT)"
  have set: "set_inuse_and_pinuse s1 p n = Some s3"
    using has h by (simp add: set_inuse_and_pinuse_def or_pinuse_def st_has s2_def s3_def del: flag_values)
  have "dlmalloc S s bytes = malloc_exact s idx (drop_bit i ?m)"
    using small hit i(2) unfolding dlmalloc_def Let_def r(1) idx_def [symmetric] by simp
  also have "\<dots> = Some (chunk2mem p, s3)"
    unfolding malloc_exact_def NOT_AND_1 jw_def [symmetric] Let_def fd un n set Option.bind.bind_lunit prod.case ..
  finally have 1: "dlmalloc S s bytes = Some (chunk2mem p, s3)" .
  have 2: "bins_ok s3 (ls[j := qs])"
    unfolding s3_def s2_def
    by (rule bins_ok_upd [OF bins_ok_upd [OF ok1 nl]])
      (use room nl in \<open>auto simp: not_link_def ring_gm [of "upd _ _ _"]\<close>)
  have un: "unat n = 8 * j" using unat_small_index2size [of jw] j n jw by simp
  have "unat bytes \<le> 232" using small by (simp add: word_le_nat_alt)
  then have "bytes < MAX_REQUEST" by (simp add: word_less_nat_alt)
  from unat_request2size [OF this] have "32 \<le> unat (request2size bytes)" by simp
  then have ge: "unat (request2size bytes) \<le> 8 * j" "0 < 8 * j"
    using r(4) unfolding idx_def [symmetric] i(2) by (auto simp: j_def)
  have "n \<noteq> 0" using un ge(2) by auto
  then have "head_at (p + n) \<noteq> head_at p" by (simp add: head_at_def)
  then have 3: "ld s3 (head_at p) = Some (n OR PINUSE_BIT OR CINUSE_BIT)"
    by (simp add: s3_def s2_def del: flag_values)
  have 4: "pinuse s3 (p + n) = Some True"
    by (simp add: pinuse_def s3_def head_pinuse_def OR_1_AND_1)
  have 5: "request2size bytes \<le> n"
    unfolding word_le_nat_alt un by (rule ge(1))
  show ?thesis using 1 2 3 4 5 by blast
qed

theorem dlmalloc_exact_fit_witness:
  "\<forall>S. \<exists>s s'. insert_small_chunk blank 0x100000 64 = Some s
    \<and> dlmalloc S s 50 = Some (0x100010, s') \<and> ld s' 0x100008 = Some 67"
proof -
  have r: "request2size 50 = 64" by (simp add: request2size_def pad_request_def)
  have i: "unat (small_index 64) = 8" "is_small 64" by (simp_all add: small_index_def is_small_def)
  obtain s where s: "insert_small_chunk blank 0x100000 64 = Some s"
    "bins_ok s ((replicate 32 [])[8 := [0x100000]])"
    using insert_small_chunk_refines [OF blank_bins blank_loose i(2)] i by auto
  have s_eq: "gm s = 4096" "heap s a \<noteq> None" for a
    using s(1) insert_small_chunk_eq [OF blank_bins blank_loose i(2)] by (auto simp: inserted_def)
  have u: "unat (bin_node s k) = 4168 + 16 * k" if "k < 32" for k
    using that by (simp add: bin_node_eq unat_word_ariths unat_of_nat s_eq)
  have nl: "not_link s ((replicate 32 [])[8 := [0x100000]]) a"
    if a: "a = head_at 0x100000 \<or> a = head_at (0x100000 + 64)" for a
  proof -
    have "a \<noteq> fd_at (bin_node s k) \<and> a \<noteq> bk_at (bin_node s k)" if k: "k < 32" for k
    proof -
      have "unat (fd_at (bin_node s k)) = 4184 + 16 * k" "unat (bk_at (bin_node s k)) = 4192 + 16 * k"
        using k u [OF k] by (simp_all add: fd_at_def bk_at_def unat_word_ariths)
      then show ?thesis using k a by (auto simp: head_at_def)
    qed
    moreover have "a \<noteq> fd_at 0x100000 \<and> a \<noteq> bk_at 0x100000"
      using a by (auto simp: head_at_def fd_at_def bk_at_def)
    ultimately show ?thesis by (auto simp: not_link_def ring_def nth_list_update)
  qed
  have "\<exists>s'. dlmalloc S s 50 = Some (chunk2mem 0x100000, s')
      \<and> ld s' (head_at 0x100000) = Some (64 OR PINUSE_BIT OR CINUSE_BIT)" for S
    using dlmalloc_exact_fit [OF s(2), of 50 "0x100000" "[]" S] nl s_eq(2)
    by (auto simp: r i has_def)
  then show ?thesis using s(1) by (auto simp: chunk2mem_def head_at_def)
qed

section \<open>Splitting the top chunk and giving it back\<close>

text \<open>With empty bins and no designated victim large enough, every request below
  \<open>MAX_REQUEST\<close> goes to the end of \<open>dlmalloc\<close>.\<close>

lemma dlmalloc_no_bins:
  assumes "smallmap s = 0" and "treemap s = 0" and "bytes < MAX_REQUEST"
  shows "dlmalloc S s bytes = malloc_tail S s (request2size bytes)"
proof -
  have "request2size bytes = pad_request bytes" if "\<not> bytes \<le> MAX_SMALL_REQUEST"
    using that by (simp add: request2size_def word_le_nat_alt word_less_nat_alt)
  moreover have "(if bytes < MIN_REQUEST then MIN_CHUNK_SIZE else pad_request bytes) = request2size bytes"
    by (simp add: request2size_def)
  ultimately show ?thesis
    using assms unfolding dlmalloc_def Let_def by (simp add: not_le [symmetric])
qed

text \<open>The top chunk of an allocator whose bins are empty: \<open>top_ready s n\<close> says that the
  top chunk is well formed and that \<open>n\<close> bytes can be cut off it.\<close>

definition top_ready :: "'o dl \<Rightarrow> u64 \<Rightarrow> bool" where
  "top_ready s n \<longleftrightarrow> smallmap s = 0 \<and> treemap s = 0 \<and> dvsize s < n \<and> n < topsize s
     \<and> topsize s AND 7 = 0 \<and> ld s (head_at (topc s)) = Some (topsize s OR PINUSE_BIT)
     \<and> has s (head_at (topc s + n)) \<and> topc s < topc s + n \<and> ok_address s (topc s)
     \<and> dv s \<noteq> topc s \<and> chunk2mem (topc s) \<noteq> 0 \<and> topsize s \<le> trim_check s"

lemma AND_7_dvd: "a AND 7 = (0 :: u64) \<longleftrightarrow> 8 dvd unat a"
proof -
  have "a AND 7 = take_bit 3 a" by (simp add: take_bit_eq_mask mask_eq_exp_minus_1)
  then have "unat (a AND 7) = unat a mod 8" using unat_take_bit [of 3 a] by simp
  then show ?thesis unfolding dvd_eq_mod_eq_0 by (metis unat_eq_zero)
qed

lemma sub_AND_7:
  "a AND 7 = 0 \<Longrightarrow> b AND 7 = 0 \<Longrightarrow> b \<le> a \<Longrightarrow> (a - b :: u64) AND 7 = 0"
  unfolding AND_7_dvd by (simp add: unat_sub dvd_diff_nat)

lemma request2size_AND_7: "bytes < MAX_REQUEST \<Longrightarrow> request2size bytes AND 7 = 0"
proof -
  assume "bytes < MAX_REQUEST"
  then have "request2size bytes AND 15 = 0"
    using request2size_bounds [of bytes] by (simp add: is_aligned_def)
  then have "(request2size bytes AND 15) AND 7 = 0" by simp
  then show ?thesis by (simp add: and.assoc)
qed

lemma split_top_eq:
  assumes "top_ready s n"
  shows "split_top s n = Some (chunk2mem (topc s),
    upd (upd (s\<lparr>topsize := topsize s - n, topc := topc s + n\<rparr>) (head_at (topc s + n))
      ((topsize s - n) OR PINUSE_BIT)) (head_at (topc s)) (n OR PINUSE_BIT OR CINUSE_BIT))"
  using assms
  by (auto simp: split_top_def Let_def top_ready_def st_has set_size_and_pinuse_of_inuse_chunk_def
      dest: ld_has simp del: flag_values)

text \<open>With empty bins a request is cut off the top chunk, and freeing the block gives the
  top chunk back: every field of the state is as before and the only word that differs is
  the head of the remainder, which is inside the top chunk. Freeing the block a second
  time is caught and aborts.\<close>

theorem top_roundtrip:
  assumes t: "top_ready s (request2size bytes)" and b: "bytes < MAX_REQUEST"
  shows "\<exists>s1 s2. dlmalloc S s bytes = Some (chunk2mem (topc s), s1)
    \<and> topc s1 = topc s + request2size bytes \<and> topsize s1 = topsize s - request2size bytes
    \<and> dlfree S s1 (chunk2mem (topc s)) = Some s2
    \<and> s2 = upd s (head_at (topc s + request2size bytes))
             ((topsize s - request2size bytes) OR PINUSE_BIT)
    \<and> dlfree S s2 (chunk2mem (topc s)) = None"
proof -
  let ?n = "request2size bytes" and ?p = "topc s"
  define r where "r = topsize s - ?n"
  define s1 where "s1 = upd (upd (s\<lparr>topsize := r, topc := ?p + ?n\<rparr>) (head_at (?p + ?n))
    (r OR PINUSE_BIT)) (head_at ?p) (?n OR PINUSE_BIT OR CINUSE_BIT)"
  have m: "dlmalloc S s bytes = Some (chunk2mem ?p, s1)"
    using t b split_top_eq [OF t]
    by (auto simp: dlmalloc_no_bins malloc_tail_def top_ready_def s1_def r_def not_le)
  have n7: "?n AND 7 = 0" by (rule request2size_AND_7 [OF b])
  have r7: "r AND 7 = 0" unfolding r_def using t n7 by (intro sub_AND_7) (auto simp: top_ready_def)
  have ne: "head_at (?p + ?n) \<noteq> head_at ?p" using t by (auto simp: top_ready_def head_at_def)
  have hp: "ld s1 (head_at ?p) = Some (?n OR 3)" by (simp add: s1_def or.assoc)
  have hn: "ld s1 (head_at (?p + ?n)) = Some (r OR 1)" using ne by (simp add: s1_def)
  note w3 = head_words [OF n7, of 3, simplified] and w1 = head_words [OF r7, of 1, simplified]
  have sel: "topc s1 = ?p + ?n" "topsize s1 = r" "least_addr s1 = least_addr s" "dv s1 = dv s"
    "trim_check s1 = trim_check s" by (simp_all add: s1_def)
  have heads: "is_inuse s1 ?p = Some True" "pinuse s1 ?p = Some True" "chunksize s1 ?p = Some ?n"
    "pinuse s1 (?p + ?n) = Some True" "cinuse s1 (?p + ?n) = Some False"
    by (simp_all add: is_inuse_def pinuse_def chunksize_def cinuse_def hp hn head_is_inuse_def
        head_pinuse_def head_cinuse_def w3 w1)
  define s2 where "s2 = upd (s1\<lparr>topsize := topsize s, topc := ?p\<rparr>) (head_at ?p) (topsize s OR PINUSE_BIT)"
  have merge: "merge_into_top s1 ?p ?n = Some s2"
    using t by (auto simp: merge_into_top_def Let_def st_has s2_def s1_def r_def top_ready_def)
  have f: "dlfree S s1 (chunk2mem ?p) = Some s2"
  proof -
    have "?p \<ge> least_addr s" "?p < ?p + ?n" "?p + 16 \<noteq> 0" "topsize s \<le> trim_check s"
      using t by (auto simp: top_ready_def ok_address_def chunk2mem_def)
    then show ?thesis
      unfolding dlfree_def
      by (simp add: mem2chunk_def chunk2mem_def heads ok_address_def sel merge should_trim_def
        consolidate_backward_def ok_next_def Let_def) (use \<open>topsize s \<le> trim_check s\<close> in \<open>auto simp: s2_def sel\<close>)
  qed
  have "s2 = upd s (head_at (?p + ?n)) (r OR PINUSE_BIT)"
  proof -
    have "heap s (head_at ?p) = Some (topsize s OR 1)"
      using t by (simp add: top_ready_def ld_def)
    then have "(heap s)(head_at (?p + ?n) \<mapsto> x, head_at ?p \<mapsto> topsize s OR 1)
        = (heap s)(head_at (?p + ?n) \<mapsto> x)" for x
      using ne by (auto simp: fun_eq_iff)
    then show ?thesis by (simp add: s2_def s1_def upd_def)
  qed
  moreover have "dlfree S s2 (chunk2mem ?p) = None"
  proof -
    have "topsize s AND 7 = 0" "?p + 16 \<noteq> 0" using t by (auto simp: top_ready_def chunk2mem_def)
    then have "is_inuse s2 ?p = Some False" "?p + 16 \<noteq> 0"
      using head_words [of "topsize s" 1] by (simp_all add: is_inuse_def s2_def head_is_inuse_def)
    then show ?thesis unfolding dlfree_def by (simp add: mem2chunk_def chunk2mem_def Let_def)
  qed
  ultimately show ?thesis using m f by (auto simp: s1_def r_def)
qed

definition one_top :: "unit dl" where
  "one_top = (upd blank (head_at 0x20000) 0x1001)\<lparr>topc := 0x20000, topsize := 0x1000, trim_check := 0x2000\<rparr>"

theorem top_roundtrip_witness:
  "\<forall>S. \<exists>s1 s2. dlmalloc S one_top 100 = Some (0x20010, s1) \<and> topc s1 = 0x20070
    \<and> dlfree S s1 0x20010 = Some s2 \<and> topc s2 = 0x20000 \<and> topsize s2 = 0x1000
    \<and> dlfree S s2 0x20010 = None"
proof
  fix S
  have r: "request2size 100 = 112" by (simp add: request2size_def pad_request_def)
  have t: "top_ready one_top (request2size 100)"
    unfolding r top_ready_def one_top_def
    by (simp add: ok_address_def chunk2mem_def head_at_def has_def)
  have "(100 :: u64) < MAX_REQUEST" by (simp add: word_less_nat_alt)
  from top_roundtrip [OF t this, of S] show "\<exists>s1 s2. dlmalloc S one_top 100 = Some (0x20010, s1) \<and> topc s1 = 0x20070
    \<and> dlfree S s1 0x20010 = Some s2 \<and> topc s2 = 0x20000 \<and> topsize s2 = 0x1000
    \<and> dlfree S s2 0x20010 = None"
    unfolding r by (auto simp: one_top_def chunk2mem_def)
qed

section \<open>The first allocation\<close>

text \<open>A process that has not allocated yet: \<open>_gm_\<close> and \<open>mparams\<close> are zero.\<close>

definition fresh :: "'o dl \<Rightarrow> bool" where
  "fresh s \<longleftrightarrow> topc s = 0 \<and> topsize s = 0 \<and> dvsize s = 0 \<and> smallmap s = 0 \<and> treemap s = 0
     \<and> least_addr s = 0 \<and> footprint s = 0 \<and> max_footprint s = 0 \<and> footprint_limit s = 0
     \<and> mp_magic (mparams s) = 0
     \<and> (\<forall>i<32. has s (fd_at (bin_node s i)) \<and> has s (bk_at (bin_node s i)))
     \<and> has s (sbase_at (seg_at s)) \<and> has s (ssize_at (seg_at s)) \<and> has s (sflags_at (seg_at s))"

definition mapped_range :: "heap \<Rightarrow> u64 \<Rightarrow> u64 \<Rightarrow> bool" where
  "mapped_range h a n \<longleftrightarrow> (\<forall>x. a \<le> x \<and> unat x < unat a + unat n \<longrightarrow> h x \<noteq> None)"

text \<open>\<open>sbrk(0)\<close> is the break, and \<open>sbrk(n)\<close> returns the old break, having mapped \<open>n\<close>
  bytes after it and unmapped nothing.\<close>

definition brk_at :: "'o sys \<Rightarrow> heap \<times> 'o \<Rightarrow> u64 \<Rightarrow> u64 \<Rightarrow> bool" where
  "brk_at S ho base n \<longleftrightarrow> sys_sbrk S 0 ho = (base, ho)
     \<and> (case sys_sbrk S n ho of (b, (h, _)) \<Rightarrow> b = base \<and> mapped_range h base n
          \<and> (\<forall>a. fst ho a \<noteq> None \<longrightarrow> h a \<noteq> None))"

lemma granularity_4096:
  fixes n :: u64
  assumes "unat n + 96 + 4095 < 2 ^ 63"
  defines "g \<equiv> (n + 96 + 4095) AND NOT 4095"
  shows "unat n + 96 \<le> unat g" and "unat g < 2 ^ 63" and "unat g mod 4096 = 0"
    and "unat g \<le> unat n + 96 + 4095"
proof -
  have m: "(4095 :: u64) = mask 12" by (simp add: mask_eq_exp_minus_1)
  have u: "unat (n + 96 + 4095) = unat n + 96 + 4095" using assms(1) by (simp add: unat_word_ariths)
  have g: "unat g = (unat n + 96 + 4095) div 4096 * 4096"
    using unat_and_not_mask [of "n + 96 + 4095" 12] u
    unfolding g_def m [symmetric] by (simp add: minus_mod_eq_div_mult)
  show "unat n + 96 \<le> unat g" "unat g \<le> unat n + 96 + 4095" unfolding g by linarith+
  show "unat g < 2 ^ 63" unfolding g using assms(1) by linarith
  show "unat g mod 4096 = 0" unfolding g by simp
qed

lemma unat_minus_1_u64: "unat (- 1 :: u64) = 18446744073709551615"
  by (simp add: unsigned_minus_1_eq_mask mask_eq_exp_minus_1)

text \<open>Setting up the first segment.\<close>

lemma sys_first_eq:
  assumes sm: "smallmap s = 0" and la: "least_addr s = 0"
    and cells: "\<forall>i<32. has s (fd_at (bin_node s i)) \<and> has s (bk_at (bin_node s i))"
    and seg: "has s (sbase_at (seg_at s))" "has s (ssize_at (seg_at s))" "has s (sflags_at (seg_at s))"
    and map: "has s (head_at base)" "has s (head_at (base + (n - 80)))"
    and al: "base AND 15 = 0"
  shows "\<exists>h. sys_first s base n 0 = Some (s\<lparr>heap := h, least_addr := base,
      gm_magic := mp_magic (mparams s), release_checks := MAX_RELEASE_CHECK_RATE,
      topc := base, topsize := n - 80, trim_check := trim_threshold (mparams s)\<rparr>)
    \<and> (\<forall>a. has s a \<longrightarrow> h a \<noteq> None)
    \<and> (\<forall>a. (\<forall>j<32. a \<noteq> fd_at (bin_node s j) \<and> a \<noteq> bk_at (bin_node s j)) \<longrightarrow>
          h a = ((heap s)(seg_at s \<mapsto> base, ssize_at (seg_at s) \<mapsto> n, sflags_at (seg_at s) \<mapsto> 0,
            head_at base \<mapsto> (n - 80) OR PINUSE_BIT, head_at (base + (n - 80)) \<mapsto> TOP_FOOT_SIZE)) a)"
proof -
  define s1 where "s1 = upd (upd (upd (s\<lparr>least_addr := base\<rparr>) (seg_at s) base)
    (ssize_at (seg_at s)) n) (sflags_at (seg_at s)) 0"
  define s2 where "s2 = s1\<lparr>gm_magic := mp_magic (mparams s), release_checks := MAX_RELEASE_CHECK_RATE\<rparr>"
  have seg1: "seg_at (s\<lparr>least_addr := base\<rparr>) = seg_at s" "seg_at (upd s' a v) = seg_at s'" for s' :: "'a dl" and a v
    by (simp_all add: seg_at_def)
  have bn: "bin_node s2 i = bin_node s i" for i
    by (simp add: bin_node_def smallbin_at_def s2_def s1_def)
  have has2: "has s a \<Longrightarrow> has s2 a" for a by (simp add: s2_def s1_def has_def)
  have "\<forall>i<32. has s2 (fd_at (bin_node s2 i)) \<and> has s2 (bk_at (bin_node s2 i))"
    using cells by (simp add: bn has2)
  from init_bins_from_eq [OF this, of 0 32] obtain h1 where h1: "init_bins s2 = Some (s2\<lparr>heap := h1\<rparr>)"
    and l1: "\<forall>j<32. links h1 (bin_node s j) [] (bin_node s j)"
    and k1: "\<forall>a. (\<forall>j<32. a \<noteq> fd_at (bin_node s j) \<and> a \<noteq> bk_at (bin_node s j)) \<longrightarrow> h1 a = heap s2 a"
    by (auto simp: bn init_bins_def)
  have mapped1: "h1 a \<noteq> None" if "has s a" for a
  proof (cases "\<forall>j<32. a \<noteq> fd_at (bin_node s j) \<and> a \<noteq> bk_at (bin_node s j)")
    case True
    then show ?thesis using k1 has2 [OF that] by (simp add: has_def)
  next
    case False
    then show ?thesis using l1 by auto
  qed
  define s3 where "s3 = upd (upd (s2\<lparr>heap := h1, topc := base, topsize := n - 80\<rparr>) (head_at base)
    ((n - 80) OR PINUSE_BIT)) (head_at (base + (n - 80))) TOP_FOOT_SIZE"
  have off: "align_offset (chunk2mem base) = 0"
  proof -
    have "unat (base AND 15) = 0" using al by simp
    then have "16 dvd unat base" unfolding unat_and_mask4 by (simp add: dvd_eq_mod_eq_0)
    then have "16 dvd unat (base + 16)" by (simp add: unat_word_ariths dvd_mod)
    then have "(base + 16) AND 15 = 0"
      using unat_and_mask4 [of "base + 16"] by (metis dvd_eq_mod_eq_0 unat_eq_zero)
    then show ?thesis by (simp add: align_offset_def chunk2mem_def)
  qed
  have hs: "has (s2\<lparr>heap := h1, topc := base, topsize := n - 80\<rparr>) (head_at base)"
    "has (s2\<lparr>heap := h1, topc := base, topsize := n - 80\<rparr>) (head_at (base + (n - 80)))"
    using mapped1 map by (auto simp: has_def)
  have top: "init_top (s2\<lparr>heap := h1\<rparr>) base (n - TOP_FOOT_SIZE)
      = Some (s3\<lparr>trim_check := trim_threshold (mparams s)\<rparr>)"
    using hs by (simp add: init_top_def Let_def off st_has s3_def) (simp add: s2_def s1_def)
  have "sys_first s base n 0 = Some (s3\<lparr>trim_check := trim_threshold (mparams s)\<rparr>)"
  proof -
    have "s1\<lparr>gm_magic := mp_magic (mparams s1), release_checks := MAX_RELEASE_CHECK_RATE\<rparr> = s2"
      by (simp add: s2_def) (simp add: s1_def)
    then show ?thesis
      using seg la h1 top
      by (simp add: sys_first_def Let_def st_has seg1 s1_def [symmetric])
  qed
  moreover have "s3\<lparr>trim_check := trim_threshold (mparams s)\<rparr> = s\<lparr>heap := heap s3, least_addr := base,
      gm_magic := mp_magic (mparams s), release_checks := MAX_RELEASE_CHECK_RATE,
      topc := base, topsize := n - 80, trim_check := trim_threshold (mparams s)\<rparr>"
    by (simp add: s3_def s2_def s1_def upd_def)
  moreover have "\<forall>a. has s a \<longrightarrow> heap s3 a \<noteq> None"
    using mapped1 by (simp add: s3_def)
  moreover have "heap s3 a = ((heap s)(seg_at s \<mapsto> base, ssize_at (seg_at s) \<mapsto> n, sflags_at (seg_at s) \<mapsto> 0,
      head_at base \<mapsto> (n - 80) OR PINUSE_BIT, head_at (base + (n - 80)) \<mapsto> TOP_FOOT_SIZE)) a"
    if "\<forall>j<32. a \<noteq> fd_at (bin_node s j) \<and> a \<noteq> bk_at (bin_node s j)" for a
    using k1 [rule_format, of a] that by (simp add: s3_def) (simp add: s2_def s1_def)
  ultimately show ?thesis by (intro exI [of _ "heap s3"] conjI allI impI) simp_all
qed

lemma init_mparams_fresh:
  assumes "mp_magic (mparams s) = 0" and "sys_getpagesize S = 4096"
  shows "\<exists>mp. ensure_initialization S s = Some (s\<lparr>mparams := mp, mflags := 1\<rparr>)
    \<and> page_size mp = 4096 \<and> granularity mp = 4096 \<and> trim_threshold mp = DEFAULT_TRIM_THRESHOLD"
  using assms
  by (simp add: ensure_initialization_def init_mparams_def Let_def USE_LOCK_BIT_def USE_MMAP_BIT_def)
    (rule exI, rule conjI, rule refl, simp)

lemma first_malloc_eq:
  assumes fr: "fresh s" and pg: "sys_getpagesize S = 4096"
    and bytes: "bytes < MAX_REQUEST" "unat (request2size bytes) + 96 + 4095 < 2 ^ 63"
  defines "nb \<equiv> request2size bytes"
  defines "asize \<equiv> (nb + 96 + 4095) AND NOT 4095"
  assumes brk: "brk_at S (heap s, os s) base asize"
    and base: "unat base mod 4096 = 0" "0 < unat base" "unat base + unat asize < 2 ^ 64"
  shows "\<exists>s'. dlmalloc S s bytes = Some (chunk2mem base, s')
    \<and> topc s' = base + nb \<and> topsize s' = asize - TOP_FOOT_SIZE - nb
    \<and> least_addr s' = base \<and> footprint s' = asize \<and> bins_ok s' (replicate 32 [])
    \<and> ld s' (head_at base) = Some (nb OR PINUSE_BIT OR CINUSE_BIT)"
proof -
  note gr = granularity_4096 [OF bytes(2), folded nb_def, folded asize_def]
  obtain mp where mp: "ensure_initialization S s = Some (s\<lparr>mparams := mp, mflags := 1\<rparr>)"
    "page_size mp = 4096" "granularity mp = 4096" 
    using init_mparams_fresh [OF _ pg, of s] fr by (auto simp: fresh_def)
  obtain h1 o1 where sb: "sys_sbrk S 0 (heap s, os s) = (base, heap s, os s)"
    "sys_sbrk S asize (heap s, os s) = (base, h1, o1)" "mapped_range h1 base asize"
    "\<And>a. has s a \<Longrightarrow> h1 a \<noteq> None"
    using brk unfolding brk_at_def by (auto simp: has_def split: prod.splits)
  define s1 where "s1 = s\<lparr>mparams := mp, mflags := 1, heap := h1, os := o1\<rparr>"
  have nb32: "32 \<le> unat nb" using unat_request2size [OF bytes(1)] by (simp add: nb_def)
  have "dlmalloc S s bytes = sys_alloc S s nb"
    using fr nb32 bytes(1)
    by (simp add: dlmalloc_no_bins fresh_def malloc_tail_def nb_def word_le_nat_alt word_less_nat_alt not_le)
  have al: "granularity_align (s\<lparr>mparams := mp, mflags := 1\<rparr>) (nb + SYS_ALLOC_PADDING) = asize"
    by (simp add: granularity_align_def mp asize_def)
  have big: "\<not> asize \<le> nb" using gr nb32 by (simp add: word_le_nat_alt)
  let ?s0 = "s\<lparr>mparams := mp, mflags := 1\<rparr>"
  have f: "topc s = 0" "footprint_limit s = 0" "footprint s = 0" "max_footprint s = 0"
    "least_addr s = 0" "smallmap s = 0" "topsize s = 0"
    using fr by (simp_all add: fresh_def)
  have base0: "base \<noteq> 0" "base \<noteq> - 1"
    using base gr(1) nb32 unat_minus_1_u64 by auto
  have pa: "is_page_aligned ?s0 base"
  proof -
    have "unat (base AND 4095) = unat base mod 4096"
      using unat_take_bit [of 12 base] by (simp add: take_bit_eq_mask mask_eq_exp_minus_1)
    then have "base AND 4095 = 0" using base(1) by (metis unat_eq_zero)
    then show ?thesis by (simp add: is_page_aligned_def mp)
  qed
  have half: "nb < asize" "asize < HALF_MAX_SIZE_T" 
  proof -
    show "nb < asize" using gr(1) nb32 by (simp add: word_less_nat_alt)
    have "unat asize \<noteq> 9223372036854775807" using gr(3) by auto
    then show "asize < HALF_MAX_SIZE_T"
      using gr(2) by (simp add: word_less_nat_alt HALF_MAX_SIZE_T_def)
  qed
  have c0: "call_morecore S 0 ?s0 = (base, ?s0)"
    using sb(1) by (simp add: call_morecore_def with_heap_def)
  have c1: "call_morecore S asize ?s0 = (base, s1)"
    using sb(2) by (simp add: call_morecore_def with_heap_def s1_def)
  have me: "morecore_extend S ?s0 nb asize = Some ((base, base, asize), s1)"
    using base0 half pa c0 c1 f(1-3)
    by (simp add: morecore_extend_def MFAIL_def del: top_values)
  have nc: "\<not> use_noncontiguous ?s0"
    by (simp add: use_noncontiguous_def USE_NONCONTIGUOUS_BIT_def)
  have ob: "sys_obtain S ?s0 nb asize = Some ((base, asize, 0), s1)"
    using base0 nc by (simp add: sys_obtain_def sys_contiguous_def me MFAIL_def)
  define s2 where "s2 = add_footprint s1 asize"
  have s2: "footprint s2 = asize" "heap s2 = h1" "gm s2 = gm s" "smallmap s2 = 0" "least_addr s2 = 0"
    "topc s2 = 0"
    using f by (simp_all add: s2_def add_footprint_def Let_def s1_def)
  have has2: "has s2 a" if "has s a" for a using sb(4) [OF that] by (simp add: has_def s2)
  have rng: "has s2 (base + x)" if "unat x < unat asize" for x
  proof -
    have "unat (base + x) = unat base + unat x" using base(3) that by (simp add: unat_word_ariths)
    then show ?thesis
      using sb(3) that unfolding mapped_range_def has_def s2 by (simp add: word_le_nat_alt)
  qed
  have u80: "unat (asize - 80) = unat asize - 80"
    using gr(1) nb32 by (subst unat_sub) (simp_all add: word_le_nat_alt)
  have heads: "has s2 (head_at base)" "has s2 (head_at (base + (asize - 80)))" "has s2 (head_at (base + nb))"
  proof -
    show "has s2 (head_at base)" unfolding head_at_def using gr(1) nb32 by (intro rng) simp
    have "has s2 (base + (asize - 80 + 8))" using gr(1) nb32 by (intro rng) (simp add: unat_sub word_le_nat_alt)
    then show "has s2 (head_at (base + (asize - 80)))" by (simp add: head_at_def add.assoc)
    have "has s2 (base + (nb + 8))" using gr(1) nb32 gr(2) by (intro rng) (simp add: unat_word_ariths)
    then show "has s2 (head_at (base + nb))" by (simp add: head_at_def add.assoc)
  qed
  have al16: "base AND 15 = 0"
  proof -
    have "unat (base AND 15) = 0" unfolding unat_and_mask4 using base(1) mod_mod_cancel [of 16 4096 "unat base"] by simp
    then show ?thesis by (simp only: unat_eq_zero)
  qed
  have cells: "\<forall>i<32. has s2 (fd_at (bin_node s2 i)) \<and> has s2 (bk_at (bin_node s2 i))"
    using fr has2 unfolding fresh_def bin_node_def smallbin_at_def s2 by blast
  have sg: "has s2 (sbase_at (seg_at s2))" "has s2 (ssize_at (seg_at s2))" "has s2 (sflags_at (seg_at s2))"
    using fr has2 unfolding fresh_def seg_at_def s2 by blast+
  obtain h3 where h3: "sys_first s2 base asize 0 = Some (s2\<lparr>heap := h3, least_addr := base,
      gm_magic := mp_magic (mparams s2), release_checks := MAX_RELEASE_CHECK_RATE,
      topc := base, topsize := asize - 80, trim_check := trim_threshold (mparams s2)\<rparr>)"
      "\<And>a. has s2 a \<Longrightarrow> h3 a \<noteq> None"
    using sys_first_eq [OF s2(4,5) cells sg heads(1,2) al16] by blast
  define s3 where "s3 = s2\<lparr>heap := h3, least_addr := base,
      gm_magic := mp_magic (mparams s2), release_checks := MAX_RELEASE_CHECK_RATE,
      topc := base, topsize := asize - 80, trim_check := trim_threshold (mparams s2)\<rparr>"
  define s4 where "s4 = upd (upd (s3\<lparr>topsize := asize - 80 - nb, topc := base + nb\<rparr>) (head_at (base + nb))
    ((asize - 80 - nb) OR PINUSE_BIT)) (head_at base) (nb OR PINUSE_BIT OR CINUSE_BIT)"
  have has3: "has s2 a \<Longrightarrow> has s3 a" for a using h3(2) by (simp add: s3_def has_def)
  have split: "split_top s3 nb = Some (chunk2mem base, s4)"
    using has3 [OF heads(1)] has3 [OF heads(3)]
    by (simp add: split_top_def Let_def st_has set_size_and_pinuse_of_inuse_chunk_def s4_def s3_def
        has_def del: flag_values)
  have "sys_alloc S s nb = Some (chunk2mem base, s4)"
  proof -
    have lim: "within_limit ?s0 asize" using f by (simp add: within_limit_def)
    have um: "\<not> (nb \<ge> mmap_threshold (mparams ?s0) \<and> topsize ?s0 \<noteq> 0)" using f by simp
    have "unat nb < unat (asize - 80)" using u80 gr(1) by simp
    then have lt: "nb < topsize s3" by (simp add: s3_def word_less_nat_alt)
    have "sys_alloc S s nb =
      do { r \<leftarrow> map_option Inl (sys_first s2 base asize 0);
           case r of Inr res \<Rightarrow> Some res
           | Inl s \<Rightarrow> (if nb < topsize s then split_top s nb else Some (0, malloc_failure_action s)) }"
      unfolding sys_alloc_def mp(1) Option.bind.bind_lunit
      using um lim big ob base0 s2 al f by (simp add: Let_def MFAIL_def is_initialized_def s2_def)
    also have "\<dots> = Some (chunk2mem base, s4)"
      unfolding h3(1) s3_def [symmetric] using lt split by simp
    finally show ?thesis .
  qed
  moreover have "bins_ok s4 (replicate 32 [])"
    using cells has3 by (intro bins_ok_empty) (auto simp: s4_def s3_def s2 bin_node_def smallbin_at_def)
  ultimately show ?thesis
    using \<open>dlmalloc S s bytes = sys_alloc S s nb\<close>
    by (simp add: s4_def s3_def s2 del: flag_values)
qed

text \<open>C16. The first allocation of a process. From zeroed static data, with a 4096-byte page and
  an \<open>sbrk\<close> that extends the break contiguously, \<open>dlmalloc\<close> sets up the parameters, takes
  whole pages at the break, and returns the first block of it: the rest is the top chunk,
  all bins are empty, and the footprint is what was taken.\<close>

theorem first_malloc:
  assumes fr: "fresh s" and pg: "sys_getpagesize S = 4096"
    and bytes: "bytes < MAX_REQUEST" "unat (request2size bytes) + 96 + 4095 < 2 ^ 63"
  defines "nb \<equiv> request2size bytes"
  defines "asize \<equiv> (nb + 96 + 4095) AND NOT 4095"
  assumes brk: "brk_at S (heap s, os s) base asize"
    and base: "unat base mod 4096 = 0" "0 < unat base" "unat base + unat asize < 2 ^ 64"
  shows "\<exists>s'. dlmalloc S s bytes = Some (chunk2mem base, s')
    \<and> topc s' = base + nb \<and> topsize s' = asize - TOP_FOOT_SIZE - nb
    \<and> least_addr s' = base \<and> footprint s' = asize \<and> bins_ok s' (replicate 32 [])
    \<and> ld s' (head_at base) = Some (nb OR PINUSE_BIT OR CINUSE_BIT)"
  using first_malloc_eq [OF fr pg bytes brk [unfolded asize_def nb_def] base [unfolded asize_def nb_def]]
  unfolding nb_def asize_def .

theorem first_malloc_witness:
  "\<exists>S s'. dlmalloc S blank 100 = Some (0x20010, s')
    \<and> topc s' = 0x20070 \<and> topsize s' = 0xF40 \<and> footprint s' = 0x1000"
proof -
  define S :: "unit sys" where "S = \<lparr>sys_mmap = (\<lambda>n ho. (MFAIL, ho)), sys_munmap = (\<lambda>a n ho. (0, ho)),
    sys_mremap = (\<lambda>a n n' mv ho. (MFAIL, ho)), sys_sbrk = (\<lambda>n ho. (0x20000, ho)),
    sys_getpagesize = 4096, sys_time = 0\<rparr>"
  have r: "request2size 100 = 112" by (simp add: request2size_def pad_request_def)
  have f: "fresh blank" by (simp add: fresh_def)
  have h: "sys_getpagesize S = 4096" "(100 :: u64) < MAX_REQUEST"
    "unat (request2size 100) + 96 + 4095 < 2 ^ 63"
    by (simp_all add: S_def word_less_nat_alt r)
  have b: "brk_at S (heap blank, os blank) 0x20000 n" for n
    by (simp add: brk_at_def S_def mapped_range_def)
  from first_malloc [OF f h b] show ?thesis
    unfolding r by (intro exI [of _ S]) (auto simp: chunk2mem_def)
qed

end
