(* ===== verification/DlApi.thy ===== *)
theory DlApi
  imports DlMalloc
begin

text \<open>
  The rest of the public interface of \<open>dlmalloc.c\<close>: zeroed and aligned allocation,
  reallocation, the independent and bulk routines, and the queries. User memory is in the
  same word heap; \<open>memset\<close> and \<open>memcpy\<close> touch the bytes they are told to, the last word
  partially (little endian).
\<close>

section \<open>Bytes of user memory\<close>

definition low_bytes :: "nat \<Rightarrow> u64" where "low_bytes k = mask (8 * k)"

fun memset_zero :: "'o dl \<Rightarrow> u64 \<Rightarrow> nat \<Rightarrow> 'o dl option" where
  "memset_zero s a n =
     (if n = 0 then Some s
      else if n < 8 then do { w \<leftarrow> ld s a; st s a (w AND NOT (low_bytes n)) }
      else do { s \<leftarrow> st s a 0; memset_zero s (a + 8) (n - 8) })"

fun memcpy_words :: "'o dl \<Rightarrow> u64 \<Rightarrow> u64 \<Rightarrow> nat \<Rightarrow> 'o dl option" where
  "memcpy_words s d a n =
     (if n = 0 then Some s
      else if n < 8 then do { w \<leftarrow> ld s d; x \<leftarrow> ld s a;
        st s d ((w AND NOT (low_bytes n)) OR (x AND low_bytes n)) }
      else do { x \<leftarrow> ld s a; s \<leftarrow> st s d x; memcpy_words s (d + 8) (a + 8) (n - 8) })"

declare memset_zero.simps [simp del] memcpy_words.simps [simp del]

section \<open>dlcalloc\<close>

text \<open>The request: \<open>MAX_SIZE_T\<close> when the product does not fit.\<close>

definition calloc_request :: "u64 \<Rightarrow> u64 \<Rightarrow> u64" where
  "calloc_request n_elements elem_size =
     (if n_elements \<noteq> 0 then
        let req = n_elements * elem_size
        in if (n_elements OR elem_size) AND NOT 0xffff \<noteq> 0 \<and> req div n_elements \<noteq> elem_size
           then MAX_SIZE_T else req
      else 0)"

definition dlcalloc :: "'o sys \<Rightarrow> 'o dl \<Rightarrow> u64 \<Rightarrow> u64 \<Rightarrow> (u64 \<times> 'o dl) option" where
  "dlcalloc S s n_elements elem_size =
     do { let req = calloc_request n_elements elem_size;
          (mem, s) \<leftarrow> dlmalloc S s req;
          if mem \<noteq> 0 then do {
            c \<leftarrow> calloc_must_clear s (mem2chunk mem);
            s \<leftarrow> (if c then memset_zero s mem (unat req) else Some s);
            Some (mem, s) }
          else Some (mem, s) }"

section \<open>Reallocation in place\<close>

text \<open>Marking \<open>p\<close> in use with \<open>nb\<close> bytes and giving the rest back.\<close>

definition split_off :: "'o sys \<Rightarrow> 'o dl \<Rightarrow> u64 \<Rightarrow> u64 \<Rightarrow> u64 \<Rightarrow> 'o dl option" where
  "split_off S s p nb rsize =
     do { let r = p + nb;
          s \<leftarrow> set_inuse s p nb;
          s \<leftarrow> set_inuse s r rsize;
          dispose_chunk S s r rsize }"

definition extend_into_top :: "'o dl \<Rightarrow> u64 \<Rightarrow> u64 \<Rightarrow> u64 \<Rightarrow> (u64 \<times> 'o dl) option" where
  "extend_into_top s p oldsize nb =
     (if oldsize + topsize s > nb then do {
        let newsize = oldsize + topsize s;
        let newtopsize = newsize - nb;
        let newtop = p + nb;
        s \<leftarrow> set_inuse s p nb;
        s \<leftarrow> st s (head_at newtop) (newtopsize OR PINUSE_BIT);
        Some (p, s\<lparr>topc := newtop, topsize := newtopsize\<rparr>) }
      else Some (0, s))"

definition extend_into_dv :: "'o dl \<Rightarrow> u64 \<Rightarrow> u64 \<Rightarrow> u64 \<Rightarrow> (u64 \<times> 'o dl) option" where
  "extend_into_dv s p oldsize nb =
     (let dvs = dvsize s
      in if oldsize + dvs \<ge> nb then
           let dsize = oldsize + dvs - nb
           in if dsize \<ge> MIN_CHUNK_SIZE then do {
                let r = p + nb;
                let n = r + dsize;
                s \<leftarrow> set_inuse s p nb;
                s \<leftarrow> set_size_and_pinuse_of_free_chunk s r dsize;
                s \<leftarrow> clear_pinuse s n;
                Some (p, s\<lparr>dvsize := dsize, dv := r\<rparr>) }
              else do {
                s \<leftarrow> set_inuse s p (oldsize + dvs);
                Some (p, s\<lparr>dvsize := 0, dv := 0\<rparr>) }
         else Some (0, s))"

definition extend_into_next :: "'o sys \<Rightarrow> 'o dl \<Rightarrow> u64 \<Rightarrow> u64 \<Rightarrow> u64 \<Rightarrow> u64 \<Rightarrow> (u64 \<times> 'o dl) option" where
  "extend_into_next S s p nx oldsize nb =
     do { nextsize \<leftarrow> chunksize s nx;
          if oldsize + nextsize \<ge> nb then do {
            let rsize = oldsize + nextsize - nb;
            s \<leftarrow> unlink_chunk s nx nextsize;
            s \<leftarrow> (if rsize < MIN_CHUNK_SIZE then set_inuse s p (oldsize + nextsize)
                  else split_off S s p nb rsize);
            Some (p, s) }
          else Some (0, s) }"

definition try_realloc_chunk :: "'o sys \<Rightarrow> 'o dl \<Rightarrow> u64 \<Rightarrow> u64 \<Rightarrow> 32 word \<Rightarrow> (u64 \<times> 'o dl) option" where
  "try_realloc_chunk S s p nb can_move =
     do { oldsize \<leftarrow> chunksize s p;
          let nx = p + oldsize;
          u \<leftarrow> (if ok_address s p then is_inuse s p else Some False);
          okn \<leftarrow> (if u \<and> ok_next p nx then pinuse s nx else Some False);
          if \<not> okn then None
          else do {
            mm \<leftarrow> is_mmapped s p;
            if mm then mmap_resize S s p nb can_move
            else if oldsize \<ge> nb then do {
              let rsize = oldsize - nb;
              s \<leftarrow> (if rsize \<ge> MIN_CHUNK_SIZE then split_off S s p nb rsize else Some s);
              Some (p, s) }
            else if nx = topc s then extend_into_top s p oldsize nb
            else if nx = dv s then extend_into_dv s p oldsize nb
            else do {
              c \<leftarrow> cinuse s nx;
              if \<not> c then extend_into_next S s p nx oldsize nb else Some (0, s) } } }"

definition dlrealloc :: "'o sys \<Rightarrow> 'o dl \<Rightarrow> u64 \<Rightarrow> u64 \<Rightarrow> (u64 \<times> 'o dl) option" where
  "dlrealloc S s oldmem bytes =
     (if oldmem = 0 then dlmalloc S s bytes
      else if bytes \<ge> MAX_REQUEST then Some (0, malloc_failure_action s)
      else do {
        let nb = request2size bytes;
        let oldp = mem2chunk oldmem;
        (newp, s) \<leftarrow> try_realloc_chunk S s oldp nb 1;
        if newp \<noteq> 0 then Some (chunk2mem newp, s)
        else do {
          (mem, s) \<leftarrow> dlmalloc S s bytes;
          if mem \<noteq> 0 then do {
            n \<leftarrow> chunksize s oldp;
            ov \<leftarrow> overhead_for s oldp;
            let oc = n - ov;
            s \<leftarrow> memcpy_words s mem oldmem (unat (if oc < bytes then oc else bytes));
            s \<leftarrow> dlfree S s oldmem;
            Some (mem, s) }
          else Some (0, s) } })"

definition dlrealloc_in_place :: "'o sys \<Rightarrow> 'o dl \<Rightarrow> u64 \<Rightarrow> u64 \<Rightarrow> (u64 \<times> 'o dl) option" where
  "dlrealloc_in_place S s oldmem bytes =
     (if oldmem = 0 then Some (0, s)
      else if bytes \<ge> MAX_REQUEST then Some (0, malloc_failure_action s)
      else do {
        let oldp = mem2chunk oldmem;
        (newp, s) \<leftarrow> try_realloc_chunk S s oldp (request2size bytes) 0;
        Some (if newp = oldp then oldmem else 0, s) })"

section \<open>Aligned allocation\<close>

text \<open>\<open>while (a < alignment) a <<= 1\<close>: 64 steps reach 0, where the loop of the C code
  would never end; that is \<open>None\<close>.\<close>

fun round_alignment :: "nat \<Rightarrow> u64 \<Rightarrow> u64 \<Rightarrow> u64 option" where
  "round_alignment n a alignment =
     (if a < alignment
      then (case n of 0 \<Rightarrow> None | Suc n \<Rightarrow> round_alignment n (push_bit 1 a) alignment)
      else Some a)"

declare round_alignment.simps [simp del]

definition fix_alignment :: "u64 \<Rightarrow> u64 option" where
  "fix_alignment alignment =
     (let alignment = (if alignment < MIN_CHUNK_SIZE then MIN_CHUNK_SIZE else alignment)
      in if alignment AND (alignment - 1) \<noteq> 0
         then round_alignment 64 (push_bit 1 MALLOC_ALIGNMENT) alignment
         else Some alignment)"

text \<open>The aligned spot inside the chunk \<open>p\<close> of the block \<open>mem\<close>.\<close>

definition aligned_spot :: "u64 \<Rightarrow> u64 \<Rightarrow> u64" where
  "aligned_spot mem alignment =
     (let p = mem2chunk mem;
          br = mem2chunk ((mem + alignment - 1) AND (- alignment))
      in if br - p \<ge> MIN_CHUNK_SIZE then br else br + alignment)"

definition memalign_lead :: "'o sys \<Rightarrow> 'o dl \<Rightarrow> u64 \<Rightarrow> u64 \<Rightarrow> (u64 \<times> 'o dl) option" where
  "memalign_lead S s mem alignment =
     do { let p = mem2chunk mem;
          let newp = aligned_spot mem alignment;
          let leadsize = newp - p;
          n \<leftarrow> chunksize s p;
          let newsize = n - leadsize;
          mm \<leftarrow> is_mmapped s p;
          s \<leftarrow> (if mm then do {
                  pf \<leftarrow> ld s (prev_foot_at p);
                  s \<leftarrow> st s (prev_foot_at newp) (pf + leadsize);
                  st s (head_at newp) newsize }
                else do {
                  s \<leftarrow> set_inuse s newp newsize;
                  s \<leftarrow> set_inuse s p leadsize;
                  dispose_chunk S s p leadsize });
          Some (newp, s) }"

definition memalign_trail :: "'o sys \<Rightarrow> 'o dl \<Rightarrow> u64 \<Rightarrow> u64 \<Rightarrow> 'o dl option" where
  "memalign_trail S s p nb =
     do { mm \<leftarrow> is_mmapped s p;
          if mm then Some s
          else do {
            n \<leftarrow> chunksize s p;
            if n > nb + MIN_CHUNK_SIZE then split_off S s p nb (n - nb) else Some s } }"

definition internal_memalign :: "'o sys \<Rightarrow> 'o dl \<Rightarrow> u64 \<Rightarrow> u64 \<Rightarrow> (u64 \<times> 'o dl) option" where
  "internal_memalign S s alignment bytes =
     do { alignment \<leftarrow> fix_alignment alignment;
          if bytes \<ge> MAX_REQUEST - alignment then Some (0, malloc_failure_action s)
          else do {
            let nb = request2size bytes;
            let req = nb + alignment + MIN_CHUNK_SIZE - CHUNK_OVERHEAD;
            (mem, s) \<leftarrow> dlmalloc S s req;
            if mem \<noteq> 0 then do {
              (p, s) \<leftarrow> (if mem AND (alignment - 1) \<noteq> 0 then memalign_lead S s mem alignment
                         else Some (mem2chunk mem, s));
              s \<leftarrow> memalign_trail S s p nb;
              Some (chunk2mem p, s) }
            else Some (0, s) } }"

definition dlmemalign :: "'o sys \<Rightarrow> 'o dl \<Rightarrow> u64 \<Rightarrow> u64 \<Rightarrow> (u64 \<times> 'o dl) option" where
  "dlmemalign S s alignment bytes =
     (if alignment \<le> MALLOC_ALIGNMENT then dlmalloc S s bytes
      else internal_memalign S s alignment bytes)"

definition EINVAL :: "32 word" where "EINVAL = 22"
definition ENOMEM :: "32 word" where "ENOMEM = 12"

definition dlposix_memalign ::
    "'o sys \<Rightarrow> 'o dl \<Rightarrow> u64 \<Rightarrow> u64 \<Rightarrow> u64 \<Rightarrow> (32 word \<times> 'o dl) option" where
  "dlposix_memalign S s pp alignment bytes =
     (let d = alignment div 8; r = alignment mod 8
      in if alignment \<noteq> MALLOC_ALIGNMENT \<and> (r \<noteq> 0 \<or> d = 0 \<or> d AND (d - 1) \<noteq> 0)
         then Some (EINVAL, s)
         else do {
           (mem, s) \<leftarrow>
             (if alignment = MALLOC_ALIGNMENT then dlmalloc S s bytes
              else if bytes \<le> MAX_REQUEST - alignment
              then internal_memalign S s
                     (if alignment < MIN_CHUNK_SIZE then MIN_CHUNK_SIZE else alignment) bytes
              else Some (0, s));
           if mem = 0 then Some (ENOMEM, s)
           else do { s \<leftarrow> st s pp mem; Some (0, s) } })"

definition dlvalloc :: "'o sys \<Rightarrow> 'o dl \<Rightarrow> u64 \<Rightarrow> (u64 \<times> 'o dl) option" where
  "dlvalloc S s bytes =
     do { s \<leftarrow> ensure_initialization S s; dlmemalign S s (page_size (mparams s)) bytes }"

definition pvalloc_request :: "u64 \<Rightarrow> u64 \<Rightarrow> u64" where
  "pvalloc_request pagesz bytes = (bytes + pagesz - 1) AND NOT (pagesz - 1)"

definition dlpvalloc :: "'o sys \<Rightarrow> 'o dl \<Rightarrow> u64 \<Rightarrow> (u64 \<times> 'o dl) option" where
  "dlpvalloc S s bytes =
     do { s \<leftarrow> ensure_initialization S s;
          dlmemalign S s (page_size (mparams s)) (pvalloc_request (page_size (mparams s)) bytes) }"

section \<open>Independent chunks in one block\<close>

text \<open>The sizes array and the pointer array are user memory: \<open>sizes\<close> is the list of its
  elements (one element when bit 0 of \<open>opts\<close> is set).\<close>

definition opt_same :: "32 word \<Rightarrow> bool" where "opt_same opts \<longleftrightarrow> opts AND 1 \<noteq> 0"
definition opt_clear :: "32 word \<Rightarrow> bool" where "opt_clear opts \<longleftrightarrow> opts AND 2 \<noteq> 0"

fun sum_sizes :: "u64 list \<Rightarrow> nat \<Rightarrow> u64 option" where
  "sum_sizes sizes 0 = Some 0"
| "sum_sizes [] (Suc n) = None"
| "sum_sizes (x # xs) (Suc n) = map_option (\<lambda>t. request2size x + t) (sum_sizes xs n)"

definition element_at :: "u64 \<Rightarrow> u64 list \<Rightarrow> nat \<Rightarrow> u64 option" where
  "element_at element_size sizes i =
     (if element_size \<noteq> 0 then Some element_size
      else if i < length sizes then Some (request2size (sizes ! i)) else None)"

text \<open>\<open>n\<close> more elements follow the one at \<open>p\<close>; the last takes what remains.\<close>

fun split_elements :: "'o dl \<Rightarrow> u64 \<Rightarrow> u64 list \<Rightarrow> u64 \<Rightarrow> nat \<Rightarrow> u64 \<Rightarrow> u64 \<Rightarrow> nat \<Rightarrow> 'o dl option" where
  "split_elements s element_size sizes marray i p remainder_size 0 =
     do { s \<leftarrow> st s (marray + 8 * of_nat i) (chunk2mem p);
          set_size_and_pinuse_of_inuse_chunk s p remainder_size }"
| "split_elements s element_size sizes marray i p remainder_size (Suc n) =
     do { s \<leftarrow> st s (marray + 8 * of_nat i) (chunk2mem p);
          z \<leftarrow> element_at element_size sizes i;
          s \<leftarrow> set_size_and_pinuse_of_inuse_chunk s p z;
          split_elements s element_size sizes marray (Suc i) (p + z) (remainder_size - z) n }"

definition ialloc :: "'o sys \<Rightarrow> 'o dl \<Rightarrow> u64 \<Rightarrow> u64 list \<Rightarrow> 32 word \<Rightarrow> u64 \<Rightarrow> (u64 \<times> 'o dl) option" where
  "ialloc S s n_elements sizes opts chunks =
     do { s \<leftarrow> ensure_initialization S s;
          if n_elements = 0 then (if chunks \<noteq> 0 then Some (chunks, s) else dlmalloc S s 0)
          else do {
            let array_size = (if chunks \<noteq> 0 then 0 else request2size (n_elements * 8));
            element_size \<leftarrow> (if opt_same opts
                             then (case sizes of [] \<Rightarrow> None | x # _ \<Rightarrow> Some (request2size x))
                             else Some 0);
            contents_size \<leftarrow> (if opt_same opts then Some (n_elements * element_size)
                              else sum_sizes sizes (unat n_elements));
            let n = contents_size + array_size;
            let was_enabled = use_mmap s;
            (mem, s) \<leftarrow> dlmalloc S (disable_mmap s) (n - CHUNK_OVERHEAD);
            let s = (if was_enabled then enable_mmap s else s);
            if mem = 0 then Some (0, s)
            else do {
              let p = mem2chunk mem;
              remainder_size \<leftarrow> chunksize s p;
              s \<leftarrow> (if opt_clear opts
                    then memset_zero s mem (unat (remainder_size - SIZE_T_SIZE - array_size))
                    else Some s);
              (marray, remainder_size, s) \<leftarrow>
                (if chunks = 0 then do {
                   let array_chunk = p + contents_size;
                   let array_chunk_size = remainder_size - contents_size;
                   s \<leftarrow> set_size_and_pinuse_of_inuse_chunk s array_chunk array_chunk_size;
                   Some (chunk2mem array_chunk, contents_size, s) }
                 else Some (chunks, remainder_size, s));
              s \<leftarrow> split_elements s element_size sizes marray 0 p remainder_size
                    (unat n_elements - 1);
              Some (marray, s) } } }"

definition dlindependent_calloc :: "'o sys \<Rightarrow> 'o dl \<Rightarrow> u64 \<Rightarrow> u64 \<Rightarrow> u64 \<Rightarrow> (u64 \<times> 'o dl) option" where
  "dlindependent_calloc S s n_elements elem_size chunks = ialloc S s n_elements [elem_size] 3 chunks"

definition dlindependent_comalloc ::
    "'o sys \<Rightarrow> 'o dl \<Rightarrow> u64 \<Rightarrow> u64 list \<Rightarrow> u64 \<Rightarrow> (u64 \<times> 'o dl) option" where
  "dlindependent_comalloc S s n_elements sizes chunks = ialloc S s n_elements sizes 0 chunks"

section \<open>Freeing an array of pointers\<close>

fun bulk_free_loop :: "'o sys \<Rightarrow> 'o dl \<Rightarrow> u64 \<Rightarrow> nat \<Rightarrow> 'o dl option" where
  "bulk_free_loop S s a 0 = Some s"
| "bulk_free_loop S s a (Suc n) =
     do { mem \<leftarrow> ld s a;
          if mem = 0 then bulk_free_loop S s (a + 8) n
          else do {
            let p = mem2chunk mem;
            psize \<leftarrow> chunksize s p;
            s \<leftarrow> st s a 0;
            u \<leftarrow> (if ok_address s p then is_inuse s p else Some False);
            if \<not> u then None
            else do {
              nx \<leftarrow> next_chunk s p;
              b \<leftarrow> (if n \<noteq> 0 then ld s (a + 8) else Some 0);
              s \<leftarrow> (if n \<noteq> 0 \<and> b = chunk2mem nx then do {
                      nsize \<leftarrow> chunksize s nx;
                      s \<leftarrow> set_inuse s p (nsize + psize);
                      st s (a + 8) (chunk2mem p) }
                    else dispose_chunk S s p psize);
              bulk_free_loop S s (a + 8) n } } }"

definition dlbulk_free :: "'o sys \<Rightarrow> 'o dl \<Rightarrow> u64 \<Rightarrow> u64 \<Rightarrow> (u64 \<times> 'o dl) option" where
  "dlbulk_free S s array nelem =
     do { s \<leftarrow> bulk_free_loop S s array (unat nelem);
          s \<leftarrow> (if should_trim s (topsize s) then map_option snd (sys_trim S s 0) else Some s);
          Some (0, s) }"

section \<open>Queries and settings\<close>

definition dlmalloc_trim :: "'o sys \<Rightarrow> 'o dl \<Rightarrow> u64 \<Rightarrow> (bool \<times> 'o dl) option" where
  "dlmalloc_trim S s pad = do { s \<leftarrow> ensure_initialization S s; sys_trim S s pad }"

definition dlmalloc_footprint :: "'o dl \<Rightarrow> u64" where "dlmalloc_footprint s = footprint s"
definition dlmalloc_max_footprint :: "'o dl \<Rightarrow> u64" where
  "dlmalloc_max_footprint s = max_footprint s"
definition dlmalloc_footprint_limit :: "'o dl \<Rightarrow> u64" where
  "dlmalloc_footprint_limit s =
     (let maf = footprint_limit s in if maf = 0 then MAX_SIZE_T else maf)"

text \<open>Both tests are made: the second assignment replaces the first.\<close>

definition dlmalloc_set_footprint_limit :: "'o dl \<Rightarrow> u64 \<Rightarrow> u64 \<times> 'o dl" where
  "dlmalloc_set_footprint_limit s bytes =
     (let result = (if bytes = 0 then granularity_align s 1 else 0);
          result = (if bytes = MAX_SIZE_T then 0 else granularity_align s bytes)
      in (result, s\<lparr>footprint_limit := result\<rparr>))"

definition dlmallopt :: "'o sys \<Rightarrow> 'o dl \<Rightarrow> 32 word \<Rightarrow> 32 word \<Rightarrow> (bool \<times> 'o dl) option" where
  "dlmallopt S s param_number val = change_mparam S s param_number val"

definition dlmalloc_usable_size :: "'o dl \<Rightarrow> u64 \<Rightarrow> u64 option" where
  "dlmalloc_usable_size s mem =
     (if mem \<noteq> 0 then do {
        let p = mem2chunk mem;
        u \<leftarrow> is_inuse s p;
        if u then do { n \<leftarrow> chunksize s p; ov \<leftarrow> overhead_for s p; Some (n - ov) } else Some 0 }
      else Some 0)"

record mallinfo =
  arena :: u64
  ordblks :: u64
  smblks :: u64
  hblks :: u64
  hblkhd :: u64
  usmblks :: u64
  fsmblks :: u64
  uordblks :: u64
  fordblks :: u64
  keepcost :: u64

text \<open>One segment, chunk by chunk: the number and bytes of free chunks and all bytes.\<close>

partial_function (option) mallinfo_chunks ::
    "'o dl \<Rightarrow> u64 \<Rightarrow> u64 \<Rightarrow> u64 \<times> u64 \<times> u64 \<Rightarrow> (u64 \<times> u64 \<times> u64) option" where
  "mallinfo_chunks s sp q acc =
     do { inside \<leftarrow> segment_holds s sp q;
          h \<leftarrow> (if inside \<and> q \<noteq> topc s then ld s (head_at q) else Some FENCEPOST_HEAD);
          if h = FENCEPOST_HEAD then Some acc
          else let z = head_size h; (nfree, mfree, sum) = acc
               in mallinfo_chunks s sp (q + z)
                    (if \<not> head_is_inuse h then (nfree + 1, mfree + z, sum + z)
                     else (nfree, mfree, sum + z)) }"

partial_function (option) mallinfo_segments ::
    "'o dl \<Rightarrow> u64 \<Rightarrow> u64 \<times> u64 \<times> u64 \<Rightarrow> (u64 \<times> u64 \<times> u64) option" where
  "mallinfo_segments s sp acc =
     (if sp = 0 then Some acc
      else do { b \<leftarrow> ld s (sbase_at sp);
                acc \<leftarrow> mallinfo_chunks s sp (align_as_chunk b) acc;
                nx \<leftarrow> ld s (snext_at sp);
                mallinfo_segments s nx acc })"

definition dlmallinfo :: "'o sys \<Rightarrow> 'o dl \<Rightarrow> (mallinfo \<times> 'o dl) option" where
  "dlmallinfo S s =
     do { s \<leftarrow> ensure_initialization S s;
          if is_initialized s then do {
            let mfree = topsize s + TOP_FOOT_SIZE;
            (nfree, mfree, sum) \<leftarrow> mallinfo_segments s (seg_at s) (1, mfree, mfree);
            Some (\<lparr>arena = sum, ordblks = nfree, smblks = 0, hblks = 0,
                   hblkhd = footprint s - sum, usmblks = max_footprint s, fsmblks = 0, uordblks = footprint s - mfree,
                   fordblks = mfree, keepcost = topsize s\<rparr>, s) }
          else Some (\<lparr>arena = 0, ordblks = 0, smblks = 0, hblks = 0, hblkhd = 0,
                      usmblks = 0, fsmblks = 0, uordblks = 0,
                      fordblks = 0, keepcost = 0\<rparr>, s) }"

section \<open>Request arithmetic of the public routines\<close>

lemma AND_NOT_ffff_0: "(a OR b) AND NOT 0xffff = (0 :: u64) \<Longrightarrow> unat a < 2 ^ 16 \<and> unat b < 2 ^ 16"
proof -
  assume h: "(a OR b) AND NOT 0xffff = 0"
  have m: "(0xffff :: u64) = mask 16" by (simp add: mask_eq_exp_minus_1)
  have "take_bit 16 a = a" "take_bit 16 b = b"
    by (rule bit_word_eqI; use h in \<open>auto simp: bit_simps m word_eq_0_bits\<close>)+
  then have "unat a = unat a mod 2 ^ 16" "unat b = unat b mod 2 ^ 16"
    using unat_take_bit [of 16 a] unat_take_bit [of 16 b] by simp_all
  then show ?thesis by (metis mod_less_divisor zero_less_numeral zero_less_power)
qed

text \<open>The overflow test of \<open>dlcalloc\<close> is exact: the request is the product of the two
  arguments when it fits in \<open>size_t\<close> and \<open>MAX_SIZE_T\<close>, which no allocation satisfies,
  when it does not, although the test only divides when an argument exceeds 16 bits.\<close>

theorem calloc_request_exact:
  "calloc_request n m = (if unat n * unat m < 2 ^ 64 then n * m else MAX_SIZE_T)
    \<and> unat (calloc_request n m) = (if unat n * unat m < 2 ^ 64 then unat n * unat m else 2 ^ 64 - 1)"
proof (cases "unat n * unat m < 2 ^ 64")
  case True
  then have u: "unat (n * m) = unat n * unat m" by (simp add: unat_word_ariths)
  have "n \<noteq> 0 \<Longrightarrow> (n * m) div n = m"
  proof -
    assume "n \<noteq> 0"
    then have "unat ((n * m) div n) = unat m"
      using u by (simp add: unat_div unat_eq_zero [symmetric])
    then show ?thesis by (simp add: word_unat_eq_iff)
  qed
  then have "calloc_request n m = n * m" by (auto simp: calloc_request_def Let_def)
  then show ?thesis using True u by simp
next
  case False
  then have n0: "n \<noteq> 0" by auto
  have "(n OR m) AND NOT 0xffff \<noteq> 0"
  proof
    assume "(n OR m) AND NOT 0xffff = 0"
    from AND_NOT_ffff_0 [OF this] have "unat n * unat m \<le> 2 ^ 16 * 2 ^ 16"
      by (intro mult_le_mono) simp_all
    with False show False by simp
  qed
  moreover have "(n * m) div n \<noteq> m"
  proof
    assume "(n * m) div n = m"
    then have "unat m = unat (n * m) div unat n" by (metis unat_div)
    then have "unat m * unat n \<le> unat (n * m)" by (simp add: div_times_less_eq_dividend)
    moreover have "unat (n * m) < 2 ^ 64" using unsigned_less [of "n * m"] by simp
    ultimately show False using False by (simp add: mult.commute)
  qed
  ultimately show ?thesis
    using False n0 by (simp add: calloc_request_def Let_def unat_minus_1_u64)
qed

text \<open>Setting the footprint limit to 0 does not set the minimal limit its comment announces:
  the second \<open>if\<close> overwrites the result, the limit becomes 0, which means no limit, and
  every request is within it.\<close>

theorem footprint_limit_of_zero:
  "dlmalloc_set_footprint_limit s 0 = (0, s\<lparr>footprint_limit := 0\<rparr>)
    \<and> dlmalloc_footprint_limit (snd (dlmalloc_set_footprint_limit s 0)) = MAX_SIZE_T
    \<and> within_limit (snd (dlmalloc_set_footprint_limit s 0)) n"
  by (simp add: dlmalloc_set_footprint_limit_def dlmalloc_footprint_limit_def granularity_align_def
      within_limit_def)

lemma unat_power2: "k < 64 \<Longrightarrow> unat (2 ^ k :: u64) = 2 ^ k"
proof -
  assume k: "k < 64"
  then have "unat (push_bit k (1 :: u64)) = unat (1 :: u64) * 2 ^ k"
    using power_strict_increasing [OF k, of "2::nat"] by (intro unat_push_bit) simp
  then show ?thesis by (simp add: push_bit_eq_mult)
qed

theorem pvalloc_wraps:
  assumes "2 ^ 64 - 4096 < unat bytes"
  shows "pvalloc_request 4096 bytes = 0"
proof -
  have lt: "unat bytes < 2 ^ 64" using unsigned_less [of bytes] by simp
  have "unat (bytes + 4095) = unat bytes + 4095 - 2 ^ 64"
    using assms lt by (simp add: unat_word_ariths mod_if)
  then have "unat (bytes + 4095) < 4096" using lt by simp
  moreover have "(4095 :: u64) = mask 12" by (simp add: mask_eq_exp_minus_1)
  moreover have "pvalloc_request 4096 bytes = (bytes + 4095) AND NOT 4095"
    by (simp add: pvalloc_request_def add_diff_eq [symmetric])
  ultimately have "unat (pvalloc_request 4096 bytes) = 0"
    using unat_and_not_mask [of "bytes + 4095" 12] by simp
  then show ?thesis by (simp only: unat_eq_zero)
qed

lemma power2_le_63: "j \<le> 63 \<Longrightarrow> (2::nat) ^ j \<le> 2 ^ 63"
  by (rule power_increasing) simp_all

lemma unat_double: "j < 63 \<Longrightarrow> unat (a :: u64) = 2 ^ j \<Longrightarrow> unat (push_bit 1 a) = 2 ^ Suc j"
  using power2_le_63 [of "Suc j"] by (subst unat_push_bit) simp_all

lemma round_alignment_doubles:
  assumes "unat a = 2 ^ j" and "63 \<le> j + n" and "unat al \<le> 2 ^ 63" and "j \<le> 63"
  shows "\<exists>k \<le> 63. round_alignment n a al = Some (2 ^ k) \<and> j \<le> k \<and> unat al \<le> 2 ^ k
    \<and> (k = j \<or> 2 ^ (k - 1) < unat al)"
  using assms
proof (induction n arbitrary: a j)
  case 0
  then have j: "j = 63" by simp
  then have "\<not> a < al" using 0 by (simp add: word_less_nat_alt)
  moreover have "a = 2 ^ 63" using 0 j by (simp add: word_unat_eq_iff)
  ultimately show ?case using 0 j by (subst round_alignment.simps) (auto intro!: exI [of _ 63])
next
  case (Suc n)
  have a: "a = 2 ^ j" using Suc.prems by (simp add: word_unat_eq_iff unat_power2)
  show ?case
  proof (cases "a < al")
    case True
    then have lt: "2 ^ j < unat al" using Suc.prems by (simp add: word_less_nat_alt)
    then have j: "j < 63" using Suc.prems by (cases "j = 63") auto
    from Suc.IH [OF unat_double [OF j Suc.prems(1)]] Suc.prems j obtain k where
      "k \<le> 63" "round_alignment n (push_bit 1 a) al = Some (2 ^ k)" "Suc j \<le> k" "unat al \<le> 2 ^ k"
      "k = Suc j \<or> 2 ^ (k - 1) < unat al" by auto
    then show ?thesis using True lt by (subst round_alignment.simps) auto
  next
    case False
    then show ?thesis using Suc.prems a
      by (subst round_alignment.simps) (auto simp: word_less_nat_alt intro!: exI [of _ j])
  qed
qed

lemma round_alignment_stuck:
  assumes al: "2 ^ 63 < unat al"
  shows "a = 0 \<or> (\<exists>j \<le> 63. unat a = 2 ^ j) \<Longrightarrow> round_alignment n a al = None"
proof (induction n arbitrary: a)
  case 0
  then have "unat a \<le> 2 ^ 63" using power2_le_63 by fastforce
  with al have "a < al" by (simp add: word_less_nat_alt)
  then show ?case by (subst round_alignment.simps) simp
next
  case (Suc n)
  then have "unat a \<le> 2 ^ 63" using power2_le_63 by fastforce
  with al have lt: "a < al" by (simp add: word_less_nat_alt)
  have "push_bit 1 a = 0 \<or> (\<exists>j \<le> 63. unat (push_bit 1 a) = 2 ^ j)"
    using Suc.prems
  proof (elim disjE exE conjE)
    fix j :: nat assume j: "j \<le> 63" "unat a = 2 ^ j"
    show ?thesis
    proof (cases "j = 63")
      case True
      then have "a = 2 ^ 63" using j unat_power2 [of 63] by (simp add: word_unat_eq_iff)
      then show ?thesis by simp
    next
      case False
      then have "j < 63" using j by simp
      with unat_double [OF this j(2)] show ?thesis by (intro disjI2 exI [of _ "Suc j"]) simp
    qed
  qed simp
  from Suc.IH [OF this] lt show ?case by (subst round_alignment.simps) simp
qed

lemma pow2_AND_pred: "x AND (x - 1) = 0 \<Longrightarrow> x \<noteq> 0 \<Longrightarrow> \<exists>k<64. (x :: u64) = 2 ^ k"
proof -
  assume h: "x AND (x - 1) = 0" and "x \<noteq> 0"
  then obtain k0 where "bit x k0" by (metis word_eq_0_bits)
  define k where "k = (LEAST k. bit x k)"
  have k: "bit x k" "\<forall>j<k. \<not> bit x j"
    unfolding k_def using \<open>bit x k0\<close> by (auto intro: LeastI dest: not_less_Least)
  have "unset_bit k x = 0"
  proof (rule bit_word_eqI)
    fix n assume "n < LENGTH(64)"
    have "\<not> (bit x n \<and> bit (x - 1) n)" using h by (metis bit_0_eq bit_and_iff bot_apply bot_bool_def)
    then show "bit (unset_bit k x) n = bit 0 n"
      unfolding word_pred_lowest [OF k] by (auto simp: bit_or_iff bit_unset_bit_iff)
  qed
  then have "x - 1 = mask k" using word_pred_lowest [OF k] by simp
  then have "x = 2 ^ k" by (simp add: mask_eq_exp_minus_1)
  moreover have "k < 64" using bit_imp_le_length [OF k(1)] by simp
  ultimately show ?thesis by blast
qed

lemma fix_alignment_rounds:
  "if unat al \<le> 2 ^ 63
   then \<exists>k. 5 \<le> k \<and> k \<le> 63 \<and> fix_alignment al = Some (2 ^ k) \<and> unat al \<le> 2 ^ k
     \<and> (k = 5 \<or> 2 ^ (k - 1) < unat al)
   else fix_alignment al = None"
proof -
  let ?a = "if al < 32 then 32 else al"
  have a: "unat ?a = max 32 (unat al)" by (simp add: word_less_nat_alt max_def)
  have f: "fix_alignment al = (if ?a AND (?a - 1) \<noteq> 0 then round_alignment 64 32 ?a else Some ?a)"
    unfolding fix_alignment_def Let_def by (simp add: push_bit_eq_mult)
  have r32: "\<exists>k. 5 \<le> k \<and> k \<le> 63 \<and> fix_alignment al = Some (2 ^ k) \<and> unat al \<le> 2 ^ k
     \<and> (k = 5 \<or> 2 ^ (k - 1) < unat al)" if le: "unat al \<le> 2 ^ 63"
  proof -
    obtain k where k: "5 \<le> k" "k \<le> 63" "fix_alignment al = Some (2 ^ k)" "unat ?a \<le> 2 ^ k"
      "k = 5 \<or> 2 ^ (k - 1) < unat ?a"
    proof (cases "?a AND (?a - 1) = 0")
      case True
      have "?a \<noteq> 0" by auto
      with pow2_AND_pred [OF True] obtain k where k: "k < 64" "?a = 2 ^ k" by blast
      then have uk: "unat ?a = 2 ^ k" by (simp only: unat_power2)
      then have "(2::nat) ^ 5 \<le> 2 ^ k" using a by simp
      then have "5 \<le> k" by (rule power_le_imp_le_exp [rotated]) simp
      moreover have "(2::nat) ^ (k - 1) < 2 ^ k" using \<open>5 \<le> k\<close> by (intro power_strict_increasing) simp_all
      ultimately show ?thesis using f True k uk by (intro that [of k]) auto
    next
      case False
      have "unat (32 :: u64) = 2 ^ 5" by simp
      moreover have "unat ?a \<le> 2 ^ 63" using a le by simp
      ultimately show ?thesis
        using round_alignment_doubles [of 32 5 64 ?a] f False by (auto intro: that)
    qed
    have "k = 5 \<or> 2 ^ (k - 1) < unat al"
    proof (rule ccontr)
      assume n: "\<not> (k = 5 \<or> 2 ^ (k - 1) < unat al)"
      then have "(2::nat) ^ (k - 1) < 2 ^ 5" using k(5) a by (auto simp: max_def split: if_splits)
      then have "k - 1 < 5" by (rule power_less_imp_less_exp [rotated]) simp
      then have "k = 5" using k(1) by linarith
      with n show False by simp
    qed
    with k a show ?thesis by auto
  qed
  moreover have "fix_alignment al = None" if h: "\<not> unat al \<le> 2 ^ 63"
  proof -
    have al: "?a = al" using h by (simp add: word_less_nat_alt)
    have "al AND (al - 1) \<noteq> 0"
    proof
      assume z: "al AND (al - 1) = 0"
      have "al \<noteq> 0" using h by auto
      then obtain k where "k < 64" "al = 2 ^ k" using pow2_AND_pred [OF z] by blast
      then have "unat al = 2 ^ k" by (simp only: unat_power2)
      then show False using h power2_le_63 [of k] \<open>k < 64\<close> by simp
    qed
    moreover have "unat (32 :: u64) = 2 ^ 5" by simp
    then have "round_alignment 64 32 al = None"
      using h by (intro round_alignment_stuck disjI2 exI [of _ 5]) simp_all
    ultimately show ?thesis using f unfolding al by simp
  qed
  ultimately show ?thesis by auto
qed

text \<open>C29. The alignment loop of \<open>internal_memalign\<close> rounds up to the least power of two that is
  at least 32 and at least the alignment, for alignments up to two to the 63. Above that no
  power of two fits: the loop shifts its variable to zero and never ends.\<close>

theorem fix_alignment_power:
  "if unat al \<le> 2 ^ 63
   then \<exists>k. 5 \<le> k \<and> k \<le> 63 \<and> fix_alignment al = Some (2 ^ k) \<and> unat al \<le> 2 ^ k
     \<and> (k = 5 \<or> 2 ^ (k - 1) < unat al)
   else fix_alignment al = None"
  by (rule fix_alignment_rounds)

section \<open>The aligned spot of memalign\<close>

lemma round_up_power2:
  assumes k: "k < 64" and x: "unat x + 2 ^ k \<le> 2 ^ 64"
  shows "unat ((x + 2 ^ k - 1) AND (- (2 ^ k) :: u64)) = (unat x + 2 ^ k - 1) div 2 ^ k * 2 ^ k"
proof -
  have u: "unat (2 ^ k :: u64) = 2 ^ k" by (rule unat_power2 [OF k])
  have "- (2 ^ k) = NOT (mask k :: u64)"
    by (simp add: mask_eq_exp_minus_1 minus_eq_not_minus_1)
  moreover have p: "unat (2 ^ k - 1 :: u64) = 2 ^ k - 1"
    using u by (subst unat_sub) (simp_all add: word_le_nat_alt)
  have "unat (x + (2 ^ k - 1)) = unat x + (2 ^ k - 1)"
    using x by (simp add: unat_word_ariths p)
  then have "unat (x + 2 ^ k - 1) = unat x + 2 ^ k - 1" by (simp add: add_diff_eq)
  ultimately show ?thesis
    by (simp only: unat_and_not_mask minus_mod_eq_div_mult)
qed

lemma memalign_spot_aux:
  assumes k: "5 \<le> k" "k < 64" and p: "unat p mod 16 = 0"
    and room: "unat p + 2 ^ k + 48 \<le> 2 ^ 64"
    and mis: "chunk2mem p AND (2 ^ k - 1) \<noteq> 0"
  defines "q \<equiv> aligned_spot (chunk2mem p) (2 ^ k)"
  shows "chunk2mem q AND (2 ^ k - 1) = 0 \<and> unat p + unat MIN_CHUNK_SIZE \<le> unat q
    \<and> unat q \<le> unat p + 2 ^ k + 16"
proof -
  let ?A = "(2 :: nat) ^ k"
  have A: "32 \<le> ?A" using power_increasing [OF k(1), of "2::nat"] by simp
  have dv: "16 dvd ?A" using le_imp_power_dvd [of 4 k "2::nat"] k(1) by simp
  have m: "unat (chunk2mem p) = unat p + 16"
    using room by (simp add: chunk2mem_def unat_word_ariths)
  define b where "b = (unat p + 16 + ?A - 1) div ?A * ?A"
  have b: "unat ((chunk2mem p + 2 ^ k - 1) AND (- (2 ^ k))) = b"
    unfolding b_def m [symmetric] using room m by (intro round_up_power2 [OF k(2)]) simp
  have mod: "unat (x AND (2 ^ k - 1)) = unat x mod ?A" for x :: u64
    using unat_take_bit [of k x] by (simp add: take_bit_eq_mask mask_eq_exp_minus_1)
  have mis': "(unat p + 16) mod ?A \<noteq> 0"
    using mis mod [of "chunk2mem p"] m by (metis unat_eq_zero)
  have b1: "unat p + 16 < b" and b2: "b < unat p + 16 + ?A"
  proof -
    let ?q = "(unat p + 16) div ?A" and ?r = "(unat p + 16) mod ?A"
    have s: "unat p + 16 = ?q * ?A + ?r" by (rule div_mult_mod_eq [symmetric])
    have r: "0 < ?r" "?r < ?A" using mis' by simp_all
    have "(unat p + 16 + ?A - 1) div ?A = ?q + 1"
    proof (rule div_nat_eqI)
      have e: "?A * (?q + 1) = ?q * ?A + ?A" "?A * Suc (?q + 1) = ?q * ?A + ?A + ?A" by simp_all
      show "?A * (?q + 1) \<le> unat p + 16 + ?A - 1" unfolding e(1) using r s by linarith
      show "unat p + 16 + ?A - 1 < ?A * Suc (?q + 1)" unfolding e(2) using r s by linarith
    qed
    then have "b = ?q * ?A + ?A" unfolding b_def by simp
    with r s show "unat p + 16 < b" "b < unat p + 16 + ?A" by linarith+
  qed
  have b16: "b mod 16 = 0" unfolding b_def using dv by (metis dvd_eq_mod_eq_0 dvd_mult)
  have b32: "unat p + 32 \<le> b" using b1 b16 p by presburger
  define br where "br = mem2chunk ((chunk2mem p + 2 ^ k - 1) AND (- (2 ^ k)))"
  have br: "unat br = b - 16"
    unfolding br_def mem2chunk_def using b b32 by (simp add: unat_sub word_le_nat_alt)
  have diff: "unat (br - p) = b - 16 - unat p"
    using br b32 by (subst unat_sub) (simp_all add: word_le_nat_alt)
  have q: "q = (if br - p \<ge> 32 then br else br + 2 ^ k)"
    unfolding q_def aligned_spot_def Let_def br_def by (simp add: mem2chunk_def chunk2mem_def)
  have lt: "b < 2 ^ 64" using b2 room by linarith
  have lt': "b + ?A < 2 ^ 64" if "\<not> unat p + 48 \<le> b"
  proof -
    have "b = unat p + 32" using that b16 p b32 by presburger
    then show ?thesis using room by linarith
  qed
  have uq: "unat q = (if unat p + 48 \<le> b then b - 16 else b - 16 + ?A)"
    using br diff lt lt' b32 unat_power2 [OF k(2)]
    by (auto simp: q word_le_nat_alt unat_word_ariths)
  have cq: "unat (chunk2mem q) = (if unat p + 48 \<le> b then b else b + ?A)"
    unfolding chunk2mem_def using uq lt lt' b32 by (auto simp: unat_word_ariths)
  have "b mod ?A = 0" by (simp add: b_def)
  then have "unat (chunk2mem q) mod ?A = 0" unfolding cq by simp
  then have "chunk2mem q AND (2 ^ k - 1) = 0" using mod [of "chunk2mem q"] by (metis unat_eq_zero)
  moreover have "unat p + 32 \<le> unat q" unfolding uq using b32 A by auto
  moreover have "unat q \<le> unat p + ?A + 16"
  proof -
    have "b = unat p + 32" if "\<not> unat p + 48 \<le> b" using that b16 p b32 by presburger
    then show ?thesis unfolding uq using b2 A by auto
  qed
  ultimately show ?thesis by simp
qed


lemma pad_47:
  assumes "16 dvd a" and "16 dvd b"
  shows "((a :: nat) + b + 47) div 16 * 16 = a + b + 32"
proof -
  obtain m where "a + b = 16 * m" using assms by (metis dvd_add dvdE)
  then show ?thesis by simp
qed

lemma memalign_request_size:
  assumes k: "5 \<le> k" "k < 64" and b: "bytes < MAX_REQUEST"
    and fit: "unat (request2size bytes) + 2 ^ k + 24 < 2 ^ 64 - 128"
  defines "req \<equiv> request2size bytes + 2 ^ k + MIN_CHUNK_SIZE - CHUNK_OVERHEAD"
  shows "unat (request2size req) = unat (request2size bytes) + 2 ^ k + 32"
proof -
  let ?n = "unat (request2size bytes)" and ?A = "(2 :: nat) ^ k"
  have dv: "16 dvd ?A" using le_imp_power_dvd [of 4 k "2::nat"] k(1) by simp
  have "unat (request2size bytes AND 15) = 0"
    using request2size_bounds [OF b] by (simp add: is_aligned_def)
  then have n: "16 dvd ?n" unfolding unat_and_mask4 by (simp add: dvd_eq_mod_eq_0)
  have uA: "unat (2 ^ k :: u64) = ?A" by (rule unat_power2 [OF k(2)])
  have "req = request2size bytes + 2 ^ k + 24" by (simp add: req_def)
  then have u: "unat req = ?n + ?A + 24"
    using fit uA by (simp add: unat_word_ariths)
  then have "req < MAX_REQUEST" using fit by (simp add: word_less_nat_alt)
  from unat_request2size [OF this]
  have "unat (request2size req) = max 32 ((?n + ?A + 47) div 16 * 16)" by (simp add: u)
  moreover have "(?n + ?A + 47) div 16 * 16 = ?n + ?A + 32"
    using n dv by (rule pad_47)
  ultimately show ?thesis by simp
qed

text \<open>C27. The aligned spot inside the over-allocated chunk of \<open>internal_memalign\<close>: its block is
  aligned, the space before it is at least a minimum chunk, and the padded request still
  fits in the chunk after it.\<close>

theorem memalign_spot:
  assumes k: "5 \<le> k" "k < 64" and p: "unat p mod 16 = 0" and b: "bytes < MAX_REQUEST"
    and fit: "unat (request2size bytes) + 2 ^ k + 24 < 2 ^ 64 - 128"
    and room: "unat p + 2 * 2 ^ k + 32 \<le> 2 ^ 64"
    and mis: "chunk2mem p AND (2 ^ k - 1) \<noteq> 0"
  defines "q \<equiv> aligned_spot (chunk2mem p) (2 ^ k)"
  defines "req \<equiv> request2size bytes + 2 ^ k + MIN_CHUNK_SIZE - CHUNK_OVERHEAD"
  shows "chunk2mem q AND (2 ^ k - 1) = 0 \<and> unat p + unat MIN_CHUNK_SIZE \<le> unat q
    \<and> unat q + unat (request2size bytes) \<le> unat p + unat (request2size req)"
proof -
  have "(32 :: nat) \<le> 2 ^ k" using power_increasing [OF k(1), of "2::nat"] by simp
  then have "unat p + 2 ^ k + 48 \<le> 2 ^ 64" using room by linarith
  from memalign_spot_aux [OF k p this mis] memalign_request_size [OF k b fit] show ?thesis
    unfolding q_def req_def by linarith
qed

theorem memalign_spot_witness:
  "chunk2mem (aligned_spot (chunk2mem 4096) (2 ^ 6)) AND (2 ^ 6 - 1) = 0"
proof -
  have r: "request2size 100 = 112" by (simp add: request2size_def pad_request_def)
  show ?thesis
    using memalign_spot [of 6 4096 100]
    by (simp add: r chunk2mem_def word_less_nat_alt)
qed

end
