(* ===== verification/DlTrees.thy ===== *)
theory DlTrees
  imports DlBins
begin

text \<open>
  The tree bins of the allocator refined to binary tries: a tree bin of the heap is a trie on
  the bits of the chunk sizes whose nodes are rings of chunks of one size. Inserting and
  unlinking a large chunk are functions on these tries, with every other bin unchanged.
\<close>

section \<open>Tries of chunks\<close>

text \<open>A node has a size, a chunk that is linked in the tree, and the other chunks of that size,
  which hang off it in a ring.\<close>

datatype ttree = Tip | Nd u64 u64 "u64 list" ttree ttree

fun root :: "ttree \<Rightarrow> u64" where
  "root Tip = 0"
| "root (Nd n c cs l r) = c"

fun chunks :: "ttree \<Rightarrow> u64 list" where
  "chunks Tip = []"
| "chunks (Nd n c cs l r) = c # cs @ chunks l @ chunks r"

fun content :: "ttree \<Rightarrow> (u64 \<times> u64) set" where
  "content Tip = {}"
| "content (Nd n c cs l r) = Pair n ` set (c # cs) \<union> content l \<union> content r"

fun sizes :: "ttree \<Rightarrow> u64 set" where
  "sizes Tip = {}"
| "sizes (Nd n c cs l r) = insert n (sizes l \<union> sizes r)"

text \<open>A trie for the sizes of an interval of width two to the \<open>w\<close>.\<close>

fun trie :: "nat \<Rightarrow> nat \<Rightarrow> ttree \<Rightarrow> bool" where
  "trie lo w Tip \<longleftrightarrow> True"
| "trie lo w (Nd n c cs l r) \<longleftrightarrow> lo \<le> unat n \<and> unat n < lo + 2 ^ w
     \<and> (if w = 0 then l = Tip \<and> r = Tip
        else trie lo (w - 1) l \<and> trie (lo + 2 ^ (w - 1)) (w - 1) r)"

fun tins :: "nat \<Rightarrow> u64 \<Rightarrow> u64 \<Rightarrow> ttree \<Rightarrow> ttree" where
  "tins w x n Tip = Nd n x [] Tip Tip"
| "tins w x n (Nd m c cs l r) =
     (if m = n then Nd m c (x # cs) l r
      else if bit n (w - 1) then Nd m c cs l (tins (w - 1) x n r)
      else Nd m c cs (tins (w - 1) x n l) r)"

lemma fst_content: "fst ` content t = sizes t"
  by (induction t) (auto simp: image_Un image_image)

lemma snd_content: "snd ` content t = set (chunks t)"
  by (induction t) (auto simp: image_Un image_image)

lemma content_tins: "content (tins w x n t) = insert (n, x) (content t)"
  by (induction w x n t rule: tins.induct) auto

lemma sizes_tins: "sizes (tins w x n t) = insert n (sizes t)"
  by (simp add: fst_content [symmetric] content_tins)

lemma set_chunks_tins: "set (chunks (tins w x n t)) = insert x (set (chunks t))"
  by (simp add: snd_content [symmetric] content_tins)

lemma root_tins [simp]: "root (tins w x n t) = (if t = Tip then x else root t)"
  by (cases t) auto

lemma tins_Tip [simp]: "tins w x n t \<noteq> Tip"
  by (cases t) auto

lemma two_halves: "0 < w \<Longrightarrow> (2::nat) ^ w = 2 ^ (w - 1) + 2 ^ (w - 1)"
  by (cases w) auto

lemma trie_sizes: "trie lo w t \<Longrightarrow> n \<in> sizes t \<Longrightarrow> lo \<le> unat n \<and> unat n < lo + 2 ^ w"
proof (induction t arbitrary: lo w)
  case (Nd m c cs l r)
  show ?case
  proof (cases "w = 0")
    case False
    then show ?thesis
      using Nd.prems Nd.IH [of _ "w - 1"] two_halves [of w] by fastforce
  qed (use Nd in auto)
qed auto

lemma bit_interval:
  assumes "lo mod 2 ^ w = 0" and "lo \<le> unat (n :: u64)" and "unat n < lo + 2 ^ w" and "0 < w"
  shows "bit n (w - 1) \<longleftrightarrow> lo + 2 ^ (w - 1) \<le> unat n"
proof -
  define d where "d = (2::nat) ^ (w - 1)"
  have w: "(2::nat) ^ w = 2 * d" using \<open>0 < w\<close> by (cases w) (auto simp: d_def)
  obtain q where q: "lo = q * (2 * d)"
    using assms(1) w by (metis dvd_eq_mod_eq_0 dvd_def mult.commute)
  have d: "0 < d" by (simp add: d_def)
  define e where "e = unat n - lo"
  have e: "unat n = e + (2 * q) * d" "e < 2 * d" using assms(2,3) q w by (auto simp: e_def)
  have "unat n div d = e div d + 2 * q" using d unfolding e(1) by simp
  moreover have "e div d = (if d \<le> e then 1 else 0)"
    using e(2) d by (simp add: le_div_geq)
  ultimately have "odd (unat n div d) \<longleftrightarrow> d \<le> e" by simp
  moreover have "bit n (w - 1) \<longleftrightarrow> odd (unat n div d)"
    using bit_iff_odd [of "unat n" "w - 1"] by (simp add: bit_unsigned_iff d_def)
  moreover have "d \<le> e \<longleftrightarrow> lo + d \<le> unat n" using assms(2) by (auto simp: e_def)
  ultimately show ?thesis by (simp add: d_def)
qed

lemma half_aligned:
  assumes "lo mod 2 ^ w = 0" and "0 < w"
  shows "lo mod 2 ^ (w - 1) = (0::nat)" and "(lo + 2 ^ (w - 1)) mod 2 ^ (w - 1) = (0::nat)"
proof -
  have "2 ^ (w - 1) dvd lo" using assms two_halves [of w] by (metis dvd_eq_mod_eq_0 dvd_triv_left mult_2_right dvd_trans)
  then show "lo mod 2 ^ (w - 1) = 0" "(lo + 2 ^ (w - 1)) mod 2 ^ (w - 1) = 0" by auto
qed

lemma trie_tins:
  assumes "trie lo w t" and "lo mod 2 ^ w = 0" and "lo \<le> unat n" and "unat n < lo + 2 ^ w"
  shows "trie lo w (tins w x n t)"
  using assms
proof (induction t arbitrary: lo w)
  case (Nd m c cs l r)
  show ?case
  proof (cases "m = n")
    case False
    have "0 < w"
    proof (rule ccontr)
      assume "\<not> 0 < w"
      then have "unat m = unat n" using Nd.prems by auto
      with False show False by (simp add: word_unat_eq_iff)
    qed
    note b = bit_interval [OF Nd.prems(2-4) \<open>0 < w\<close>] and lo = half_aligned [OF Nd.prems(2) \<open>0 < w\<close>]
    have "lo \<le> unat n" "unat n < lo + 2 ^ (w - 1) + 2 ^ (w - 1)" "trie lo (w - 1) l" "trie (lo + 2 ^ (w - 1)) (w - 1) r"
      using Nd.prems \<open>0 < w\<close> two_halves [of w] by auto
    with Nd.IH lo b show ?thesis using Nd.prems(1) False \<open>0 < w\<close> by auto
  qed (use Nd in auto)
qed auto


section \<open>The words of a chunk\<close>

datatype fld = Head | Fd | Bk | Left | Right | Parent | Index

fun off :: "fld \<Rightarrow> u64" where
  "off Head = 8" | "off Fd = 16" | "off Bk = 24" | "off Left = 32" | "off Right = 40"
| "off Parent = 48" | "off Index = 56"

definition cell :: "u64 \<Rightarrow> fld \<Rightarrow> u64" where
  "cell x f = x + off f"

lemma folds:
  "head_at x = cell x Head" "fd_at x = cell x Fd" "bk_at x = cell x Bk" "child_at x 0 = cell x Left"
  "child_at x 1 = cell x Right" "parent_at x = cell x Parent" "index_at x = cell x Index"
  by (simp_all add: cell_def head_at_def fd_at_def bk_at_def parent_at_def index_at_def child_at_def)

lemma cell_same [simp]: "cell x f = cell x g \<longleftrightarrow> f = g"
  by (cases f; cases g) (simp_all add: cell_def)

definition cells :: "u64 \<Rightarrow> u64 set" where
  "cells x = range (cell x)"

definition area :: "u64 list \<Rightarrow> u64 set" where
  "area xs = \<Union> (cells ` set xs)"

text \<open>Chunks that share no word.\<close>

fun separate :: "u64 list \<Rightarrow> bool" where
  "separate [] \<longleftrightarrow> True"
| "separate (x # xs) \<longleftrightarrow> cells x \<inter> area xs = {} \<and> separate xs"

lemma area_simps [simp]:
  "area [] = {}" "area (x # xs) = cells x \<union> area xs" "area (xs @ ys) = area xs \<union> area ys"
  by (auto simp: area_def)

lemma cellI [simp]: "cell x f \<in> cells x"
  by (simp add: cells_def)

lemma separate_append [simp]:
  "separate (xs @ ys) \<longleftrightarrow> separate xs \<and> separate ys \<and> area xs \<inter> area ys = {}"
  by (induction xs) auto

lemma cells_area: "x \<in> set xs \<Longrightarrow> cells x \<subseteq> area xs"
  by (auto simp: area_def)

lemma cell_area [intro]: "x \<in> set xs \<Longrightarrow> cell x f \<in> area xs"
  unfolding area_def by (blast intro: cellI)

lemma area_mono: "set xs \<subseteq> set ys \<Longrightarrow> area xs \<subseteq> area ys"
  by (auto simp: area_def)

lemma separate_distinct: "separate xs \<Longrightarrow> distinct xs"
proof (induction xs)
  case (Cons x xs)
  have "x \<notin> set xs" using Cons.prems cell_area [of x xs Head] cellI [of x Head] by (auto simp del: cellI)
  with Cons show ?case by simp
qed simp

lemma separate_ne:
  "separate xs \<Longrightarrow> x \<in> set xs \<Longrightarrow> y \<in> set xs \<Longrightarrow> x \<noteq> y \<Longrightarrow> cells x \<inter> cells y = {}"
proof (induction xs)
  case (Cons z zs)
  then show ?case using cells_area [of x zs] cells_area [of y zs] by auto
qed simp

lemma cell_iff:
  "separate xs \<Longrightarrow> x \<in> set xs \<Longrightarrow> y \<in> set xs \<Longrightarrow> cell x f = cell y g \<longleftrightarrow> x = y \<and> f = g"
  using separate_ne [of xs x y] cellI [of x f] cellI [of y g] by (metis cell_same disjoint_iff)

lemma separate_iff:
  "separate xs \<longleftrightarrow> distinct xs \<and> (\<forall>x\<in>set xs. \<forall>y\<in>set xs. x \<noteq> y \<longrightarrow> cells x \<inter> cells y = {})"
proof
  assume "separate xs"
  then show "distinct xs \<and> (\<forall>x\<in>set xs. \<forall>y\<in>set xs. x \<noteq> y \<longrightarrow> cells x \<inter> cells y = {})"
    using separate_distinct separate_ne by blast
next
  assume "distinct xs \<and> (\<forall>x\<in>set xs. \<forall>y\<in>set xs. x \<noteq> y \<longrightarrow> cells x \<inter> cells y = {})"
  then show "separate xs"
    by (induction xs) (auto simp: area_def)
qed

lemma separate_apart: "separate xs \<Longrightarrow> DlBins.apart xs"
  by (simp add: DlBins.apart_def folds cell_iff)

lemma area_tins: "area (chunks (tins w x n t)) = cells x \<union> area (chunks t)"
  by (auto simp: area_def set_chunks_tins)

lemma separate_tins: "cells x \<inter> area (chunks t) = {} \<Longrightarrow> separate (chunks t) \<Longrightarrow> separate (chunks (tins w x n t))"
proof (induction w x n t rule: tins.induct)
  case (2 w x n m c cs l r)
  then show ?case by (simp add: area_tins) blast
qed simp

section \<open>Tries in the heap\<close>

text \<open>The words of a node: its ring, its parent and its children.\<close>

definition sized :: "heap \<Rightarrow> u64 \<Rightarrow> u64 \<Rightarrow> bool" where
  "sized h n x \<longleftrightarrow> h (head_at x) = Some (n OR PINUSE_BIT) \<and> n AND FLAG_BITS = 0"

lemma sized_chunksize: "sized (heap s) n x \<Longrightarrow> chunksize s x = Some n"
  using head_words(1) [of n 1] by (simp add: sized_def chunksize_def ld_def)

definition node_at :: "heap \<Rightarrow> nat \<Rightarrow> u64 \<Rightarrow> u64 \<Rightarrow> u64 \<Rightarrow> u64 list \<Rightarrow> u64 \<Rightarrow> u64 \<Rightarrow> bool" where
  "node_at h i par n c cs a b \<longleftrightarrow>
     (\<forall>x \<in> set (c # cs). x \<noteq> 0 \<and> sized h n x \<and> h (index_at x) = Some (of_nat i))
     \<and> links h c cs c \<and> h (parent_at c) = Some par
     \<and> h (child_at c 0) = Some a \<and> h (child_at c 1) = Some b
     \<and> (\<forall>x \<in> set cs. h (parent_at x) = Some 0 \<and> h (child_at x 0) = Some 0 \<and> h (child_at x 1) = Some 0)"

fun shape :: "heap \<Rightarrow> nat \<Rightarrow> u64 \<Rightarrow> ttree \<Rightarrow> bool" where
  "shape h i par Tip \<longleftrightarrow> True"
| "shape h i par (Nd n c cs l r) \<longleftrightarrow> node_at h i par n c cs (root l) (root r)
     \<and> shape h i c l \<and> shape h i c r"

lemma node_at_cong:
  assumes "\<forall>a \<in> area (c # cs). h' a = h a"
  shows "node_at h' i par n c cs a b \<longleftrightarrow> node_at h i par n c cs a b"
proof -
  have f: "h' (cell x f) = h (cell x f)" if "x \<in> set (c # cs)" for x f
    using cell_area [OF that] assms by blast
  have "links h' c cs c \<longleftrightarrow> links h c cs c" by (rule links_cong) (use f in \<open>auto simp: folds\<close>)
  then show ?thesis using f unfolding node_at_def sized_def folds by simp
qed

lemma shape_cong:
  "\<forall>a \<in> area (chunks t). h' a = h a \<Longrightarrow> shape h' i par t \<longleftrightarrow> shape h i par t"
proof (induction t arbitrary: par)
  case (Nd n c cs l r)
  have "node_at h' i par n c cs (root l) (root r) \<longleftrightarrow> node_at h i par n c cs (root l) (root r)"
    using Nd.prems by (intro node_at_cong) auto
  with Nd show ?case by simp
qed simp

lemma shape_frame:
  "shape h i par t \<Longrightarrow> (\<And>a. a \<in> area (chunks t) \<Longrightarrow> h' a = h a) \<Longrightarrow> shape h' i par t"
  using shape_cong [of t h' h] by blast

lemma node_ptr: "shape h i par t \<Longrightarrow> root t = 0 \<longleftrightarrow> t = Tip"
  by (cases t) (auto simp: node_at_def)


section \<open>Inserting a chunk\<close>

lemma next_bit: "0 < w \<Longrightarrow> w \<le> 64 \<Longrightarrow> drop_bit 63 (push_bit (64 - w) n) AND 1 = (of_bool (bit n (w - 1)) :: u64)"
  by (rule bit_word_eqI) (auto simp: bit_simps)

lemma next_bits: "0 < w \<Longrightarrow> w \<le> 64 \<Longrightarrow> push_bit 1 (push_bit (64 - w) n) = (push_bit (64 - (w - 1)) n :: u64)"
proof -
  assume "0 < w" "w \<le> 64"
  then have "1 + (64 - w) = 64 - (w - 1)" by simp
  then show ?thesis by (metis push_bit_push_bit)
qed

text \<open>A chunk ready to be linked.\<close>

definition ready :: "heap \<Rightarrow> nat \<Rightarrow> u64 \<Rightarrow> u64 \<Rightarrow> bool" where
  "ready h i n x \<longleftrightarrow> x \<noteq> 0 \<and> sized h n x \<and> h (index_at x) = Some (of_nat i)
     \<and> h (child_at x 0) = Some 0 \<and> h (child_at x 1) = Some 0
     \<and> h (fd_at x) \<noteq> None \<and> h (bk_at x) \<noteq> None \<and> h (parent_at x) \<noteq> None"

definition linked_leaf :: "heap \<Rightarrow> u64 \<Rightarrow> u64 \<Rightarrow> u64 \<Rightarrow> heap" where
  "linked_leaf h slot par x = h(slot \<mapsto> x, parent_at x \<mapsto> par, bk_at x \<mapsto> x, fd_at x \<mapsto> x)"

lemma link_tree_leaf_eq:
  assumes "ready (heap s) i n x" and "has s slot"
  shows "link_tree_leaf s slot par x = Some (s\<lparr>heap := linked_leaf (heap s) slot par x\<rparr>)"
proof -
  have "has s (parent_at x)" "has s (bk_at x)" "has s (fd_at x)"
    using assms(1) by (simp_all add: ready_def has_def)
  with assms(2) show ?thesis by (simp add: link_tree_leaf_def st_has) (simp add: upd_def linked_leaf_def)
qed

lemma linked_leaf_node:
  assumes "ready h i n x" and "slot \<notin> cells x"
  shows "shape (linked_leaf h slot par x) i par (Nd n x [] Tip Tip)"
proof -
  have ne: "cell x f \<noteq> slot" for f using assms(2) by auto
  show ?thesis
    using assms(1) unfolding ready_def shape.simps node_at_def linked_leaf_def sized_def folds root.simps
      links.simps by (simp add: ne)
qed

lemma linked_leaf_slot: "slot \<notin> cells x \<Longrightarrow> linked_leaf h slot par x slot = Some x"
  by (auto simp: linked_leaf_def folds)

lemma linked_leaf_frame:
  "a \<noteq> slot \<Longrightarrow> a \<notin> cells x \<Longrightarrow> linked_leaf h slot par x a = h a"
  by (auto simp: linked_leaf_def folds)

lemma node_at_child:
  assumes "node_at h i par n c cs a b" and "separate (c # cs)"
  shows "node_at (h(child_at c 0 \<mapsto> a')) i par n c cs a' b"
    and "node_at (h(child_at c 1 \<mapsto> b')) i par n c cs a b'"
proof -
  note ci = cell_iff [OF assms(2)]
  have l: "links (h(cell c f \<mapsto> v)) c cs c" if "f \<noteq> Fd" "f \<noteq> Bk" for f v
  proof -
    have "links (h(cell c f \<mapsto> v)) c cs c \<longleftrightarrow> links h c cs c"
      by (rule links_cong) (use that in \<open>auto simp: folds ci\<close>)
    then show ?thesis using assms(1) by (simp add: node_at_def)
  qed
  have "c \<notin> set cs" using separate_distinct [OF assms(2)] by simp
  with assms(1) l [of Left] l [of Right]
  show "node_at (h(child_at c 0 \<mapsto> a')) i par n c cs a' b"
    and "node_at (h(child_at c 1 \<mapsto> b')) i par n c cs a b'"
    unfolding node_at_def sized_def folds by (auto simp: ci)
qed


text \<open>A node one of whose children has changed.\<close>

lemma node_at_new_child:
  assumes n: "node_at h i par n c cs a b" and s: "separate (c # cs)"
    and h': "h' (cell c F) = Some v" "\<forall>x. x \<in> area (c # cs) \<longrightarrow> x \<noteq> cell c F \<longrightarrow> h' x = h x"
  shows "F = Left \<Longrightarrow> node_at h' i par n c cs v b" and "F = Right \<Longrightarrow> node_at h' i par n c cs a v"
proof -
  have "\<forall>x\<in>area (c # cs). h' x = (h(cell c F \<mapsto> v)) x" using h' by auto
  note this [THEN node_at_cong [of c cs h' "h(cell c F \<mapsto> v)"]]
  then show "F = Left \<Longrightarrow> node_at h' i par n c cs v b" and "F = Right \<Longrightarrow> node_at h' i par n c cs a v"
    using node_at_child [OF n s, of v] by (auto simp: folds)
qed

text \<open>Hanging a chunk into the ring of a node.\<close>

definition ringed :: "heap \<Rightarrow> u64 \<Rightarrow> u64 \<Rightarrow> u64 \<Rightarrow> heap" where
  "ringed h c f x = h(bk_at f \<mapsto> x, fd_at c \<mapsto> x, fd_at x \<mapsto> f, bk_at x \<mapsto> c, parent_at x \<mapsto> 0)"

lemma ringed_frame:
  "f \<in> set (c # cs) \<Longrightarrow> a \<notin> area (x # c # cs) \<Longrightarrow> ringed h c f x a = h a"
  unfolding ringed_def folds using cell_area [of _ "x # c # cs"] by (auto simp: fun_upd_def)

lemma ringed_node:
  assumes "node_at h i par n c cs a b" and "separate (x # c # cs)" and "ready h i n x"
  shows "node_at (ringed h c (hd (cs @ [c])) x) i par n c (x # cs) a b"
proof -
  define f where "f = hd (cs @ [c])"
  have f: "f \<in> set (c # cs)" by (cases cs) (auto simp: f_def)
  note ci = cell_iff [OF assms(2)]
  have s: "separate (c # x # cs)" using assms(2) by auto
  have "links (h(fd_at c \<mapsto> x, bk_at f \<mapsto> x, fd_at x \<mapsto> f, bk_at x \<mapsto> c)) c (x # cs) c"
    unfolding f_def using assms(1) separate_apart [OF s] separate_distinct [OF s]
    by (intro links_insert) (auto simp: node_at_def)
  moreover have "links (h'(parent_at x \<mapsto> 0)) c (x # cs) c \<longleftrightarrow> links h' c (x # cs) c" for h'
    by (rule links_cong) (auto simp: folds ci)
  moreover have "h(bk_at f \<mapsto> x, fd_at c \<mapsto> x) = h(fd_at c \<mapsto> x, bk_at f \<mapsto> x)"
    by (rule fun_upd_twist) (use f in \<open>auto simp: folds ci\<close>)
  ultimately have l: "links (ringed h c f x) c (x # cs) c" by (simp add: ringed_def)
  have x: "x \<noteq> c" "x \<notin> set cs" "c \<notin> set cs" using separate_distinct [OF s] by auto
  have r: "ringed h c f x (cell y g) = (if y = x \<and> g = Parent then Some 0 else h (cell y g))"
    if "y \<in> set (x # c # cs)" "g \<notin> {Fd, Bk}" for y g
    using that f unfolding ringed_def folds by (auto simp: ci)
  show ?thesis
    using assms(1,3) l x unfolding f_def [symmetric] node_at_def sized_def folds ready_def
    by (auto simp: r)
qed

text \<open>One step down.\<close>

definition side :: "bool \<Rightarrow> fld" where "side b = (if b then Right else Left)"

lemma child_at_bit: "child_at c (of_bool b) = cell c (side b)"
  by (cases b) (simp_all add: side_def folds [symmetric])

lemma insert_step:
  assumes node: "node_at (heap s) i par m c cs (root l) (root r)" and "m \<noteq> n"
    and w: "0 < w" "w \<le> 64" and ok: "ok_address s (child_at c 0)" "ok_address s (child_at c 1)"
  defines "b \<equiv> bit n (w - 1)"
  shows "tree_insert_loop s x n c (push_bit (64 - w) n) =
    (let sub = (if b then r else l)
     in if root sub \<noteq> 0 then tree_insert_loop s x n (root sub) (push_bit (64 - (w - 1)) n)
        else link_tree_leaf s (cell c (side b)) c x)"
proof -
  have "chunksize s c = Some m" using node by (auto simp: node_at_def sized_chunksize)
  moreover have "ld s (cell c (side b)) = Some (root (if b then r else l))"
    using node unfolding node_at_def folds by (auto simp: side_def ld_def)
  moreover have "ok_address s (cell c (side b))" using ok unfolding folds by (simp add: side_def)
  ultimately show ?thesis
    using \<open>m \<noteq> n\<close> next_bit [OF w, of n] next_bits [OF w, of n]
    by (subst tree_insert_loop.simps) (simp add: b_def child_at_bit Let_def)
qed

lemma tree_insert_loop_refines:
  assumes "shape (heap s) i par t" and "t \<noteq> Tip" and "trie lo w t" and "lo mod 2 ^ w = 0"
    and "lo \<le> unat n" and "unat n < lo + 2 ^ w" and "w \<le> 64"
    and "ready (heap s) i n x" and "separate (x # chunks t)"
    and "\<forall>y\<in>set (chunks t). ok_address s y \<and> ok_address s (child_at y 0) \<and> ok_address s (child_at y 1)"
  shows "\<exists>h'. tree_insert_loop s x n (root t) (push_bit (64 - w) n) = Some (s\<lparr>heap := h'\<rparr>)
    \<and> shape h' i par (tins w x n t) \<and> (\<forall>a. a \<notin> area (x # chunks t) \<longrightarrow> h' a = heap s a)"
  using assms
proof (induction t arbitrary: par lo w)
  case (Nd m c cs l r)
  let ?h = "heap s"
  have node: "node_at ?h i par m c cs (root l) (root r)" and sl: "shape ?h i c l" and sr: "shape ?h i c r"
    using Nd.prems(1) by auto
  have sep: "separate (x # c # cs @ chunks l @ chunks r)" using Nd.prems(9) by simp
  have m: "chunksize s c = Some m" using node by (auto simp: node_at_def sized_chunksize)
  have ok: "ok_address s c" "ok_address s (child_at c 0)" "ok_address s (child_at c 1)"
    "\<forall>y\<in>set cs. ok_address s y" using Nd.prems(10) by auto
  show ?case
  proof (cases "m = n")
    case True
    define f where "f = hd (cs @ [c])"
    have f: "f \<in> set (c # cs)" by (cases cs) (auto simp: f_def)
    have "?h (fd_at c) = Some f" using node links_first [of ?h c cs c] by (simp add: node_at_def f_def)
    moreover have "has s (bk_at f)" "has s (fd_at c)"
      using node links_mapped [of ?h c cs c] f by (auto simp: node_at_def has_def)
    moreover have "has s (fd_at x)" "has s (bk_at x)" "has s (parent_at x)"
      using Nd.prems(8) by (auto simp: ready_def has_def)
    ultimately have "tree_insert_loop s x n c (push_bit (64 - w) n) = Some (s\<lparr>heap := ringed ?h c f x\<rparr>)"
      using m True ok f
      by (subst tree_insert_loop.simps) (auto simp: ld_def st_has, auto simp: upd_def ringed_def)
    moreover have "shape (ringed ?h c f x) i par (Nd m c (x # cs) l r)"
    proof -
      have "node_at (ringed ?h c f x) i par m c (x # cs) (root l) (root r)"
        unfolding f_def using node sep Nd.prems(8) True by (intro ringed_node) auto
      moreover have "shape (ringed ?h c f x) i c l" "shape (ringed ?h c f x) i c r"
        using sep by (auto intro!: shape_frame [OF sl] shape_frame [OF sr] ringed_frame [OF f]
            simp: disjoint_iff)
      ultimately show ?thesis by simp
    qed
    ultimately show ?thesis using True ringed_frame [OF f] by auto
  next
    case False
    have "0 < w"
    proof (rule ccontr)
      assume "\<not> 0 < w"
      then have "unat m = unat n" using Nd.prems by auto
      with False show False by (simp add: word_unat_eq_iff)
    qed
    define b where "b = bit n (w - 1)"
    define sub where "sub = (if b then r else l)"
    define slot where "slot = cell c (side b)"
    note half = half_aligned [OF Nd.prems(4) \<open>0 < w\<close>]
      and bi = bit_interval [OF Nd.prems(4-6) \<open>0 < w\<close>, folded b_def]
    note step = insert_step [OF node False \<open>0 < w\<close> Nd.prems(7) ok(2,3), folded b_def sub_def slot_def]
    have sc: "slot \<in> cells c" by (simp add: slot_def)
    then have sub: "shape ?h i c sub" "separate (x # chunks sub)" "slot \<notin> cells x"
        "slot \<notin> area (chunks sub)"
      using sl sr sep unfolding sub_def by auto
    have "\<exists>h'. tree_insert_loop s x n c (push_bit (64 - w) n) = Some (s\<lparr>heap := h'\<rparr>)
      \<and> shape h' i c (tins (w - 1) x n sub) \<and> h' slot = Some (root (tins (w - 1) x n sub))
      \<and> (\<forall>a. a \<notin> area (x # chunks sub) \<longrightarrow> a \<noteq> slot \<longrightarrow> h' a = ?h a)"
    proof (cases "sub = Tip")
      case True
      have "has s slot" using node unfolding node_at_def folds by (auto simp: slot_def side_def has_def)
      from link_tree_leaf_eq [OF Nd.prems(8) this, of c] linked_leaf_node [OF Nd.prems(8) sub(3), of c] True
      show ?thesis
        using linked_leaf_slot [OF sub(3), of ?h c] linked_leaf_frame [of _ slot x ?h c]
        by (intro exI [of _ "linked_leaf ?h slot c x"]) (auto simp: step Let_def sub_def slot_def)
    next
      case False
      define lo' where "lo' = (if b then lo + 2 ^ (w - 1) else lo)"
      have p: "trie lo' (w - 1) sub" "lo' mod 2 ^ (w - 1) = 0" "lo' \<le> unat n" "unat n < lo' + 2 ^ (w - 1)"
        using Nd.prems(3,5,6) half bi \<open>0 < w\<close> two_halves [of w] by (auto simp: sub_def lo'_def)
      have "\<exists>h'. tree_insert_loop s x n (root sub) (push_bit (64 - (w - 1)) n) = Some (s\<lparr>heap := h'\<rparr>)
        \<and> shape h' i c (tins (w - 1) x n sub) \<and> (\<forall>a. a \<notin> area (x # chunks sub) \<longrightarrow> h' a = ?h a)"
        using Nd.IH(1) [of c lo' "w - 1"] Nd.IH(2) [of c lo' "w - 1"] sub p False Nd.prems(7,8,10)
        unfolding sub_def by (cases b) auto
      moreover have "root sub \<noteq> 0" using node_ptr [OF sub(1)] False by simp
      moreover have "?h slot = Some (root sub)"
        using node unfolding node_at_def folds by (auto simp: slot_def side_def sub_def)
      ultimately show ?thesis using sub False by (auto simp: step)
    qed
    then obtain h' where h': "tree_insert_loop s x n c (push_bit (64 - w) n) = Some (s\<lparr>heap := h'\<rparr>)"
      "shape h' i c (tins (w - 1) x n sub)" "h' slot = Some (root (tins (w - 1) x n sub))"
      "\<And>a. a \<notin> area (x # chunks sub) \<Longrightarrow> a \<noteq> slot \<Longrightarrow> h' a = ?h a" by blast
    have fr: "h' a = ?h a" if "a \<notin> area (x # c # cs @ chunks l @ chunks r)" for a
      using that h'(4) [of a] sc unfolding sub_def by (cases b) auto
    have dj: "area (x # chunks sub) \<inter> area (c # cs) = {}"
      "area (x # chunks sub) \<inter> area (chunks (if b then l else r)) = {}"
      "slot \<notin> area (chunks (if b then l else r))"
      using sep sc unfolding sub_def by (cases b; auto)+
    then have "\<forall>a. a \<in> area (c # cs) \<longrightarrow> a \<noteq> slot \<longrightarrow> h' a = ?h a"
      using h'(4) by blast
    note nn = node_at_new_child [OF node _ h'(3) [unfolded slot_def] this [unfolded slot_def]]
    have other: "shape h' i c (if b then l else r)"
    proof -
      have "\<forall>a\<in>area (chunks (if b then l else r)). h' a = ?h a"
        using h'(4) dj(2,3) by blast
      from shape_cong [OF this] show ?thesis using sl sr by auto
    qed
    have "tins w x n (Nd m c cs l r) = (if b then Nd m c cs l (tins (w - 1) x n sub)
        else Nd m c cs (tins (w - 1) x n sub) r)"
      using False by (simp add: b_def sub_def)
    moreover have "separate (c # cs)" using sep by auto
    ultimately have "shape h' i par (tins w x n (Nd m c cs l r))"
      using h'(2) nn other by (cases b) (simp_all add: side_def del: root_tins tins.simps)
    with h'(1) fr show ?thesis by auto
  qed
qed simp

end
