(* ===== verification/DlTreeBins.thy ===== *)
theory DlTreeBins
  imports DlTrees
begin

text \<open>
  The array of tree bins: \<open>trees_ok s ts\<close> says that tree bin \<open>i\<close> of the state is the trie
  \<open>ts ! i\<close>, and insertion and unlinking of a large chunk are proved against it.
\<close>

section \<open>The tree bins as tries\<close>

text \<open>The least size of a bin, and the interval of sizes its trie branches on: that of the
  last bin, which has no upper bound, is the whole range of sizes.\<close>

definition bin_min :: "nat \<Rightarrow> nat" where
  "bin_min i = (2 + i mod 2) * 2 ^ (i div 2 + 7)"

definition bin_lo :: "nat \<Rightarrow> nat" where
  "bin_lo i = (if i = 31 then 0 else bin_min i)"

definition bin_width :: "nat \<Rightarrow> nat" where
  "bin_width i = (if i = 31 then 64 else i div 2 + 7)"

definition slot_of :: "'o dl \<Rightarrow> nat \<Rightarrow> u64" where
  "slot_of s i = treebin_at s (of_nat i)"

definition chunk_ok :: "'o dl \<Rightarrow> u64 \<Rightarrow> bool" where
  "chunk_ok s x \<longleftrightarrow> ok_address s x \<and> ok_address s (child_at x 0) \<and> ok_address s (child_at x 1)"

definition tree_holds :: "'o dl \<Rightarrow> nat \<Rightarrow> ttree \<Rightarrow> bool" where
  "tree_holds s i t \<longleftrightarrow> slot_of s i \<noteq> 0 \<and> heap s (slot_of s i) = Some (root t) \<and> (bit (treemap s) i \<longleftrightarrow> t \<noteq> Tip)
     \<and> shape (heap s) i (slot_of s i) t \<and> trie (bin_lo i) (bin_width i) t
     \<and> (\<forall>n \<in> sizes t. bin_min i \<le> unat n)"

definition trees_ok :: "'o dl \<Rightarrow> ttree list \<Rightarrow> bool" where
  "trees_ok s ts \<longleftrightarrow> length ts = 32
     \<and> (\<forall>i<32. tree_holds s i (ts ! i) \<and> separate (chunks (ts ! i))
          \<and> (\<forall>x \<in> set (chunks (ts ! i)). chunk_ok s x)
          \<and> (\<forall>j<32. slot_of s j \<notin> area (chunks (ts ! i))
                \<and> (i \<noteq> j \<longrightarrow> area (chunks (ts ! i)) \<inter> area (chunks (ts ! j)) = {})))"

lemma trees_okD:
  assumes "trees_ok s ts" and "i < 32"
  shows "tree_holds s i (ts ! i)" and "separate (chunks (ts ! i))"
    and "\<And>x. x \<in> set (chunks (ts ! i)) \<Longrightarrow> chunk_ok s x"
    and "\<And>j. j < 32 \<Longrightarrow> slot_of s j \<notin> area (chunks (ts ! i))"
    and "\<And>j. j < 32 \<Longrightarrow> i \<noteq> j \<Longrightarrow> area (chunks (ts ! i)) \<inter> area (chunks (ts ! j)) = {}"
  using assms by (auto simp: trees_ok_def)

text \<open>A free chunk of size \<open>n\<close> that is in no tree.\<close>

definition in_no_tree :: "'o dl \<Rightarrow> ttree list \<Rightarrow> u64 \<Rightarrow> u64 \<Rightarrow> bool" where
  "in_no_tree s ts n x \<longleftrightarrow> x \<noteq> 0 \<and> chunk_ok s x \<and> sized (heap s) n x
     \<and> (\<forall>a \<in> cells x. has s a)
     \<and> (\<forall>i<32. slot_of s i \<notin> cells x \<and> cells x \<inter> area (chunks (ts ! i)) = {})"

lemma bin_lo_aligned: "bin_lo i mod 2 ^ bin_width i = 0"
  by (simp add: bin_lo_def bin_width_def bin_min_def)

lemma bin_width_le: "i < 32 \<Longrightarrow> bin_width i \<le> 64"
  by (auto simp: bin_width_def)

lemma leftshift_width:
  assumes "unat i < 32"
  shows "leftshift_for_tree_index i = 64 - bin_width (unat i)"
proof (cases "unat i = 31")
  case True
  then have "i = 31" by (metis of_nat_unat of_nat_numeral ucast_id)
  then show ?thesis by (simp add: leftshift_for_tree_index_def bin_width_def)
next
  case False
  have d: "unat (drop_bit 1 i) = unat i div 2" by (simp only: unat_drop_bit) simp
  have "unat (drop_bit 1 i + of_nat TREEBIN_SHIFT - 2) = unat i div 2 + 6"
    using assms d by (simp add: unat_word_ariths)
  then have "unat (ucast (drop_bit 1 i + of_nat TREEBIN_SHIFT - 2) :: u64) = unat i div 2 + 6"
    using assms by (simp add: unsigned_ucast_eq take_bit_nat_eq_self)
  then have "unat ((SIZE_T_BITSIZE - 1) - ucast (drop_bit 1 i + of_nat TREEBIN_SHIFT - 2)) = 57 - unat i div 2"
    using assms by (subst unat_sub) (auto simp: word_le_nat_alt)
  moreover have "i \<noteq> NTREEBINS - 1" using False by auto
  ultimately show ?thesis using False by (simp add: leftshift_for_tree_index_def bin_width_def)
qed

lemma tree_bin_interval:
  assumes "256 \<le> unat n" and "unat n < 2 ^ 40"
  defines "i \<equiv> unat (compute_tree_index n)"
  shows "i < 32" and "bin_lo i \<le> unat n" and "unat n < bin_lo i + 2 ^ bin_width i"
    and "bin_min i \<le> unat n"
proof -
  have "i < 32 \<and> bin_min i \<le> unat n \<and> unat n < bin_lo i + 2 ^ bin_width i"
  proof (cases "unat n < 2 ^ 24")
    case True
    obtain k where k: "k < 16" "2 ^ (k + 8) \<le> unat n" "unat n < 2 ^ (k + 9)"
      using tree_size_class [OF assms(1) True] by blast
    define b where "b = unat n div 2 ^ (k + 7) mod 2"
    have b: "b < 2" by (simp add: b_def)
    have i: "i = 2 * k + b"
      using compute_tree_index_eq(1) [OF assms(1) True k(2,3)] by (simp add: i_def tree_bin_spec_def b_def)
    have "i div 2 = k" "i mod 2 = b" using i b by auto
    with size_class_quotient [OF k(2,3), folded b_def] show ?thesis
      using i b k(1) unsigned_less [of n] by (auto simp: bin_lo_def bin_min_def bin_width_def algebra_simps)
  next
    case False
    then have "i = 31" using compute_tree_index_large(1) [of n] assms(2) by (simp add: i_def)
    then show ?thesis using unsigned_less [of n] False by (simp add: bin_lo_def bin_width_def bin_min_def)
  qed
  then show "i < 32" "bin_lo i \<le> unat n" "unat n < bin_lo i + 2 ^ bin_width i" "bin_min i \<le> unat n"
    by (auto simp: bin_lo_def)
qed

lemma slot_of_eq:
  assumes "i < 32"
  shows "slot_of s i = gm s + of_nat (600 + 8 * i)"
proof -
  have "unat (of_nat i :: u32) = i" using assms by (simp add: unat_of_nat)
  then have "(ucast (of_nat i :: u32) :: u64) = of_nat i" by (metis of_nat_unat)
  then show ?thesis by (simp add: slot_of_def treebin_at_def algebra_simps)
qed

lemma slot_of_inj: "i < 32 \<Longrightarrow> j < 32 \<Longrightarrow> slot_of s i = slot_of s j \<longleftrightarrow> i = j"
  unfolding slot_of_eq add_left_cancel by (subst of_nat_u64_eq_iff) simp_all

text \<open>One bin changes, within its own words.\<close>

lemma trees_ok_change:
  assumes ok: "trees_ok s ts" and i: "i < 32" and sel: "gm s' = gm s" "least_addr s' = least_addr s"
    and tm: "\<And>j. j < 32 \<Longrightarrow> j \<noteq> i \<Longrightarrow> bit (treemap s') j \<longleftrightarrow> bit (treemap s) j"
    and frame: "\<And>a. a \<notin> A \<union> area (chunks (ts ! i)) \<Longrightarrow> a \<noteq> slot_of s i \<Longrightarrow> heap s' a = heap s a"
    and A: "\<And>j. j < 32 \<Longrightarrow> slot_of s j \<notin> A \<and> A \<inter> area (chunks (ts ! j)) = {}"
    and t: "tree_holds s' i t" "separate (chunks t)" "\<And>x. x \<in> set (chunks t) \<Longrightarrow> chunk_ok s x"
      "area (chunks t) \<subseteq> A \<union> area (chunks (ts ! i))"
  shows "trees_ok s' (ts[i := t])"
proof -
  have len: "length ts = 32" using ok by (simp add: trees_ok_def)
  have sl: "slot_of s' j = slot_of s j" for j by (simp add: slot_of_def treebin_at_def sel)
  have ck: "chunk_ok s' x = chunk_ok s x" for x by (simp add: chunk_ok_def ok_address_def sel)
  note o = trees_okD [OF ok]
  have hold: "tree_holds s' j (ts ! j)" if j: "j < 32" "j \<noteq> i" for j
  proof -
    have "heap s' (slot_of s j) = heap s (slot_of s j)"
      using A [OF j(1)] o(4) [OF i j(1)] slot_of_inj [OF j(1) i] j(2) by (intro frame) auto
    moreover have "shape (heap s') j (slot_of s j) (ts ! j)"
    proof (rule shape_frame)
      show "shape (heap s) j (slot_of s j) (ts ! j)" using o(1) [OF j(1)] by (simp add: tree_holds_def)
      show "heap s' a = heap s a" if "a \<in> area (chunks (ts ! j))" for a
        using that A [OF j(1)] o(4) [OF j(1) i] o(5) [OF j(1) i] j(2) by (intro frame) auto
    qed
    ultimately show ?thesis using o(1) [OF j(1)] tm [OF j] by (simp add: tree_holds_def sl)
  qed
  have dis: "area (chunks t) \<inter> area (chunks (ts ! j)) = {}" if "j < 32" "j \<noteq> i" for j
    using t(4) A [OF that(1)] o(5) [OF i that(1)] that(2) by auto
  have slt: "slot_of s j \<notin> area (chunks t)" if "j < 32" for j
    using t(4) A [OF that] o(4) [OF i that] by auto
  show ?thesis
    unfolding trees_ok_def sl ck
    using len i hold t(1-3) dis slt o by (auto simp: nth_list_update dest: sym)
qed


section \<open>Inserting a large chunk\<close>

text \<open>The first stores of \<open>insert_large_chunk\<close> make the chunk ready to be linked.\<close>

definition prepared :: "'o dl \<Rightarrow> u64 \<Rightarrow> u64 \<Rightarrow> 'o dl" where
  "prepared s x i = upd (upd (upd s (index_at x) i) (child_at x 1) 0) (child_at x 0) 0"

lemma prepared_ready:
  assumes "in_no_tree s ts n x"
  shows "ready (heap (prepared s x (of_nat i))) i n x"
    and "a \<notin> cells x \<Longrightarrow> heap (prepared s x v) a = heap s a"
proof -
  have "heap s (cell x f) \<noteq> None" for f using assms by (auto simp: in_no_tree_def has_def)
  then show "ready (heap (prepared s x (of_nat i))) i n x"
    using assms unfolding in_no_tree_def ready_def prepared_def sized_def folds by auto
  show "heap (prepared s x v) a = heap s a" if "a \<notin> cells x"
    using that unfolding prepared_def folds by auto
qed

lemma insert_large_chunk_refines:
  assumes ok: "trees_ok s ts" and x: "in_no_tree s ts n x"
    and n: "256 \<le> unat n" "unat n < 2 ^ 40"
  defines "i \<equiv> unat (compute_tree_index n)"
  shows "\<exists>s'. insert_large_chunk s x n = Some s' \<and> trees_ok s' (ts[i := tins (bin_width i) x n (ts ! i)])
    \<and> (\<forall>a. a \<notin> cells x \<union> area (chunks (ts ! i)) \<longrightarrow> a \<noteq> slot_of s i \<longrightarrow> heap s' a = heap s a)
    \<and> (\<exists>h m. s' = s\<lparr>heap := h, treemap := m\<rparr>)"
proof -
  note iv = tree_bin_interval [OF n, folded i_def]
  define idx where "idx = compute_tree_index n"
  have idx: "unat idx = i" "of_nat i = idx" by (auto simp: idx_def i_def)
  define t where "t = ts ! i"
  define s1 where "s1 = prepared s x (of_nat i)"
  note o = trees_okD [OF ok iv(1), folded t_def] and p = prepared_ready [OF x]
  note fr1 = p(2) [of _ "of_nat i", folded s1_def]
  have sel: "gm s1 = gm s" "least_addr s1 = least_addr s" "treemap s1 = treemap s"
    by (simp_all add: s1_def prepared_def)
  have xx: "slot_of s i \<notin> cells x" "cells x \<inter> area (chunks t) = {}" "chunk_ok s x"
    using x iv(1) by (auto simp: in_no_tree_def t_def)
  have slot: "treebin_at s idx = slot_of s i" "treebin_at s1 idx = slot_of s i"
    by (simp_all add: slot_of_def idx treebin_at_def sel)
  have t1: "shape (heap s1) i (slot_of s i) t" "heap s1 (slot_of s i) = Some (root t)"
    "bit (treemap s1) i \<longleftrightarrow> t \<noteq> Tip" "trie (bin_lo i) (bin_width i) t" "slot_of s i \<noteq> 0"
    "\<forall>m \<in> sizes (tins (bin_width i) x n t). bin_min i \<le> unat m"
    using o(1) xx fr1 iv(4) sizes_tins [of "bin_width i" x n t] by (auto simp: tree_holds_def sel intro: shape_frame)
  have r1: "ready (heap s1) i n x" unfolding s1_def by (rule p(1))
  have ui: "(ucast idx :: u64) = of_nat i" by (metis idx(1) of_nat_unat)
  have has: "has s (cell x f)" for f using x by (auto simp: in_no_tree_def)
  have start: "insert_large_chunk s x n =
    (if t = Tip then link_tree_leaf (mark_treemap s1 idx) (slot_of s i) (slot_of s i) x
     else tree_insert_loop s1 x n (root t) (push_bit (64 - bin_width i) n))"
  proof -
    have "treemap_is_marked s1 idx \<longleftrightarrow> t \<noteq> Tip"
      using tree.marked_bit [of idx s1] iv(1) idx(1) t1(3) by simp
    moreover have "st s (index_at x) (ucast idx) = Some (upd s (index_at x) (of_nat i))"
      "st (upd s (index_at x) (of_nat i)) (child_at x 1) 0
        = Some (upd (upd s (index_at x) (of_nat i)) (child_at x 1) 0)"
      "st (upd (upd s (index_at x) (of_nat i)) (child_at x 1) 0) (child_at x 0) 0 = Some s1"
      using has unfolding ui folds s1_def prepared_def by (simp_all add: st_has)
    moreover have "ld s1 (slot_of s i) = Some (root t)" using t1(2) by (simp add: ld_def)
    ultimately show ?thesis
      using leftshift_width [of idx] iv(1) idx(1)
      unfolding insert_large_chunk_def idx_def [symmetric] Let_def by (simp add: slot)
  qed
  have "\<exists>s'. insert_large_chunk s x n = Some s' \<and> gm s' = gm s \<and> least_addr s' = least_addr s
    \<and> (\<forall>j. bit (treemap s') j \<longleftrightarrow> bit (treemap s) j \<or> j = i)
    \<and> (\<forall>a. a \<notin> cells x \<union> area (chunks t) \<longrightarrow> a \<noteq> slot_of s i \<longrightarrow> heap s' a = heap s a)
    \<and> s' = s\<lparr>heap := heap s', treemap := treemap s'\<rparr>
    \<and> tree_holds s' i (tins (bin_width i) x n t)"
  proof (cases "t = Tip")
    case True
    have m: "mark_treemap s1 idx = s1\<lparr>treemap := treemap s1 OR idx2bit idx\<rparr>" by (simp add: mark_treemap_def)
    have "has (mark_treemap s1 idx) (slot_of s i)" "ready (heap (mark_treemap s1 idx)) i n x"
      using t1(2) r1 by (simp_all add: m has_def)
    note l = link_tree_leaf_eq [OF this(2,1), of "slot_of s i"]
    define s' where "s' = (mark_treemap s1 idx)\<lparr>heap := linked_leaf (heap s1) (slot_of s i) (slot_of s i) x\<rparr>"
    have "insert_large_chunk s x n = Some s'" using start True l by (simp add: s'_def m)
    moreover have "bit (treemap s') j \<longleftrightarrow> bit (treemap s) j \<or> j = i" for j
      using tree.bit_mark [of idx s1 j] iv(1) idx(1) by (simp add: s'_def sel)
    moreover have "heap s' a = heap s a" if "a \<notin> cells x \<union> area (chunks t)" "a \<noteq> slot_of s i" for a
      using that linked_leaf_frame [of a "slot_of s i" x "heap s1"] fr1 by (simp add: s'_def)
    moreover have "s' = s\<lparr>heap := heap s', treemap := treemap s'\<rparr>"
      by (simp add: s'_def mark_treemap_def s1_def prepared_def upd_def)
    moreover have "slot_of s' i = slot_of s i" by (simp add: s'_def m slot_of_def treebin_at_def sel)
    moreover have "shape (heap s') i (slot_of s i) (tins (bin_width i) x n t)"
      using linked_leaf_node [OF r1 xx(1), of "slot_of s i"] True by (simp add: s'_def)
    moreover have "heap s' (slot_of s i) = Some x" using linked_leaf_slot [OF xx(1)] by (simp add: s'_def)
    ultimately show ?thesis
      using trie_tins [OF t1(4) bin_lo_aligned iv(2,3), of x] True t1(5,6)
      by (intro exI [of _ s']) (simp add: tree_holds_def, simp add: s'_def m sel)
  next
    case False
    have "separate (x # chunks t)" using o(2) xx(2) by simp
    moreover have "\<forall>y\<in>set (chunks t). ok_address s1 y \<and> ok_address s1 (child_at y 0) \<and> ok_address s1 (child_at y 1)"
      using o(3) by (simp add: chunk_ok_def ok_address_def sel)
    ultimately obtain h' where h': "tree_insert_loop s1 x n (root t) (push_bit (64 - bin_width i) n) = Some (s1\<lparr>heap := h'\<rparr>)"
      "shape h' i (slot_of s i) (tins (bin_width i) x n t)" "\<And>a. a \<notin> area (x # chunks t) \<Longrightarrow> h' a = heap s1 a"
      using tree_insert_loop_refines [OF t1(1) False t1(4) bin_lo_aligned iv(2,3) bin_width_le [OF iv(1)] r1] by blast
    define s' where "s' = s1\<lparr>heap := h'\<rparr>"
    have "s' = s\<lparr>heap := heap s', treemap := treemap s'\<rparr>"
      by (simp add: s'_def s1_def prepared_def upd_def)
    moreover have "slot_of s' i = slot_of s i" by (simp add: s'_def slot_of_def treebin_at_def sel)
    moreover have "h' (slot_of s i) = Some (root t)"
      using h'(3) [of "slot_of s i"] xx(1) o(4) [OF iv(1)] t1(2) by simp
    moreover have "heap s' a = heap s a" if "a \<notin> cells x \<union> area (chunks t)" for a
      using that h'(3) [of a] fr1 [of a] by (simp add: s'_def)
    ultimately show ?thesis
      using start False h'(1,2) t1(3,5,6) trie_tins [OF t1(4) bin_lo_aligned iv(2,3), of x]
      by (intro exI [of _ s']) (auto simp: tree_holds_def s'_def sel)
  qed
  then obtain s' where s': "insert_large_chunk s x n = Some s'" "gm s' = gm s" "least_addr s' = least_addr s"
    "\<And>j. bit (treemap s') j \<longleftrightarrow> bit (treemap s) j \<or> j = i"
    "\<And>a. a \<notin> cells x \<union> area (chunks t) \<Longrightarrow> a \<noteq> slot_of s i \<Longrightarrow> heap s' a = heap s a"
    "s' = s\<lparr>heap := heap s', treemap := treemap s'\<rparr>" "tree_holds s' i (tins (bin_width i) x n t)" by blast
  let ?t = "tins (bin_width i) x n t"
  have "trees_ok s' (ts[i := ?t])"
  proof (rule trees_ok_change [OF ok iv(1) s'(2,3)])
    show "heap s' a = heap s a" if "a \<notin> cells x \<union> area (chunks (ts ! i))" "a \<noteq> slot_of s i" for a
      using that s'(5) by (simp add: t_def)
    show "slot_of s j \<notin> cells x \<and> cells x \<inter> area (chunks (ts ! j)) = {}" if "j < 32" for j
      using x that by (simp add: in_no_tree_def)
    show "separate (chunks ?t)" using o(2) xx(2) by (simp add: separate_tins)
    show "area (chunks ?t) \<subseteq> cells x \<union> area (chunks (ts ! i))"
      by (auto simp: area_def set_chunks_tins t_def)
    show "chunk_ok s y" if "y \<in> set (chunks ?t)" for y
      using that o(3) xx(3) by (auto simp: set_chunks_tins)
  qed (use s' in auto)
  then show ?thesis using s'(1,5,6) unfolding t_def by blast
qed

end
