(* ===== verification/DlTreeUnlink.thy ===== *)
theory DlTreeUnlink
  imports DlTreeBins
begin

text \<open>
  Unlinking a large chunk. On tries: a chunk leaves the ring of its node; the base of a ring
  is replaced by the last chunk of the ring, and the only chunk of a node by the rightmost
  leaf below it.
\<close>

section \<open>Deletion from a trie\<close>

text \<open>The rightmost leaf (size, chunk, ring) and the trie without it.\<close>

fun pop :: "ttree \<Rightarrow> (u64 \<times> u64 \<times> u64 list) \<times> ttree" where
  "pop Tip = ((0, 0, []), Tip)"
| "pop (Nd n c cs l r) =
     (if r \<noteq> Tip then let (m, r') = pop r in (m, Nd n c cs l r')
      else if l \<noteq> Tip then let (m, l') = pop l in (m, Nd n c cs l' r)
      else ((n, c, cs), Tip))"

text \<open>A node without its base.\<close>

fun drop_base :: "ttree \<Rightarrow> ttree" where
  "drop_base Tip = Tip"
| "drop_base (Nd n c cs l r) =
     (if cs \<noteq> [] then Nd n (last cs) (butlast cs) l r
      else if r \<noteq> Tip then let ((m, d, ds), r') = pop r in Nd m d ds l r'
      else if l \<noteq> Tip then let ((m, d, ds), l') = pop l in Nd m d ds l' r
      else Tip)"

definition del_node :: "u64 \<Rightarrow> ttree \<Rightarrow> ttree" where
  "del_node x t = (case t of Tip \<Rightarrow> Tip | Nd n c cs l r \<Rightarrow>
     if x = c then drop_base t else Nd n c (remove1 x cs) l r)"

fun tdel :: "u64 \<Rightarrow> ttree \<Rightarrow> ttree" where
  "tdel x Tip = Tip"
| "tdel x (Nd n c cs l r) =
     (if x \<in> set (c # cs) then del_node x (Nd n c cs l r)
      else if x \<in> set (chunks l) then Nd n c cs (tdel x l) r
      else Nd n c cs l (tdel x r))"

lemma pop_eq_pair: "\<exists>m d ds t'. pop t = ((m, d, ds), t')"
  by (cases "pop t") auto

lemma pop_content:
  "t \<noteq> Tip \<Longrightarrow> pop t = ((m, d, ds), t') \<Longrightarrow> content t = Pair m ` set (d # ds) \<union> content t'"
proof (induction t arbitrary: t')
  case (Nd n c cs l r)
  show ?case
  proof (cases "r = Tip")
    case True
    then show ?thesis using Nd.IH(1) Nd.prems by (cases "l = Tip") (auto split: prod.splits)
  next
    case False
    then show ?thesis using Nd.IH(2) Nd.prems by (auto split: prod.splits)
  qed
qed simp

lemma pop_chunks:
  "t \<noteq> Tip \<Longrightarrow> pop t = ((m, d, ds), t') \<Longrightarrow> set (chunks t) = set (d # ds) \<union> set (chunks t')"
  using pop_content [of t m d ds t'] by (auto simp: snd_content [symmetric] image_Un image_image)

lemma pop_area:
  "t \<noteq> Tip \<Longrightarrow> pop t = ((m, d, ds), t') \<Longrightarrow> area (chunks t) = area (d # ds) \<union> area (chunks t')"
  using pop_chunks [of t m d ds t'] by (auto simp: area_def)

lemma pop_separate:
  "t \<noteq> Tip \<Longrightarrow> pop t = ((m, d, ds), t') \<Longrightarrow> separate (chunks t) \<Longrightarrow> separate (d # ds @ chunks t')"
proof (induction t arbitrary: t')
  case (Nd n c cs l r)
  consider (leaf) "r = Tip" "l = Tip" | (left) "r = Tip" "l \<noteq> Tip" | (right) "r \<noteq> Tip" by blast
  then show ?case
  proof cases
    case leaf
    then show ?thesis using Nd.prems by auto
  next
    case left
    then obtain l' where l': "pop l = ((m, d, ds), l')" "t' = Nd n c cs l' r"
      using Nd.prems by (auto split: prod.splits)
    show ?thesis
      using Nd.IH(1) [OF left(2) l'(1)] Nd.prems(3) pop_area [OF left(2) l'(1)] left l'(2) by auto
  next
    case right
    then obtain r' where r': "pop r = ((m, d, ds), r')" "t' = Nd n c cs l r'"
      using Nd.prems by (auto split: prod.splits)
    show ?thesis
      using Nd.IH(2) [OF right r'(1)] Nd.prems(3) pop_area [OF right r'(1)] r'(2) by auto
  qed
qed simp

lemma pop_trie:
  "trie lo w t \<Longrightarrow> t \<noteq> Tip \<Longrightarrow> pop t = ((m, d, ds), t') \<Longrightarrow>
    trie lo w t' \<and> lo \<le> unat m \<and> unat m < lo + 2 ^ w"
proof (induction t arbitrary: t' lo w)
  case (Nd n c cs l r)
  have "m \<in> sizes (Nd n c cs l r)"
    using pop_content [OF Nd.prems(2,3)] by (simp only: fst_content [symmetric]) auto
  note m = trie_sizes [OF Nd.prems(1) this]
  have "trie lo w t'"
  proof (cases "w = 0")
    case False
    then show ?thesis
      using Nd.prems Nd.IH(1) [of lo "w - 1"] Nd.IH(2) [of "lo + 2 ^ (w - 1)" "w - 1"]
      by (auto split: prod.splits if_splits)
  qed (use Nd.prems in auto)
  with m show ?case by simp
qed simp

lemma trie_drop_base: "trie lo w t \<Longrightarrow> trie lo w (drop_base t)"
proof (induction t rule: drop_base.induct)
  case (2 n c cs l r)
  consider (ring) "cs \<noteq> []" | (leaf) "cs = []" "r = Tip" "l = Tip" | (left) "cs = []" "r = Tip" "l \<noteq> Tip"
    | (right) "cs = []" "r \<noteq> Tip" by blast
  then show ?case
  proof cases
    case left
    obtain m d ds l' where p: "pop l = ((m, d, ds), l')" using pop_eq_pair by blast
    have w: "0 < w" "trie lo (w - 1) l" using 2 left by (auto split: if_splits)
    show ?thesis using left p w 2 pop_trie [OF w(2) _ p] two_halves [of w] by auto
  next
    case right
    obtain m d ds r' where p: "pop r = ((m, d, ds), r')" using pop_eq_pair by blast
    have w: "0 < w" "trie (lo + 2 ^ (w - 1)) (w - 1) r" using 2 right by (auto split: if_splits)
    show ?thesis using right p w 2 pop_trie [OF w(2) _ p] two_halves [of w] by auto
  qed (use 2 in auto)
qed simp

lemma trie_tdel: "trie lo w t \<Longrightarrow> trie lo w (tdel x t)"
proof (induction t arbitrary: lo w)
  case (Nd n c cs l r)
  then show ?case
    using trie_drop_base [of lo w "Nd n c cs l r"] by (auto simp: del_node_def)
qed simp

lemma drop_base_content:
  "content (Nd n c cs l r) = insert (n, c) (content (drop_base (Nd n c cs l r)))"
proof -
  consider (ring) "cs \<noteq> []" | (leaf) "cs = []" "r = Tip" "l = Tip" | (left) "cs = []" "r = Tip" "l \<noteq> Tip"
    | (right) "cs = []" "r \<noteq> Tip" by blast
  then show ?thesis
  proof cases
    case ring
    then have "set cs = insert (last cs) (set (butlast cs))"
      by (metis append_butlast_last_id list.set(2) list.set_intros(1) rotate1.simps(2) set_rotate1)
    then show ?thesis using ring by simp
  next
    case left
    obtain m d ds l' where p: "pop l = ((m, d, ds), l')" using pop_eq_pair by blast
    show ?thesis using left p pop_content [OF left(3) p] by auto
  next
    case right
    obtain m d ds r' where p: "pop r = ((m, d, ds), r')" using pop_eq_pair by blast
    show ?thesis using right p pop_content [OF right(2) p] by auto
  qed simp
qed

lemma drop_base_area:
  "area (chunks (Nd n c cs l r)) = cells c \<union> area (chunks (drop_base (Nd n c cs l r)))"
  using drop_base_content [of n c cs l r]
  by (simp only: area_def snd_content [symmetric]) auto

lemma drop_base_separate:
  assumes "separate (chunks (Nd n c cs l r))"
  shows "separate (c # chunks (drop_base (Nd n c cs l r)))"
proof -
  consider (ring) "cs \<noteq> []" | (leaf) "cs = []" "r = Tip" "l = Tip" | (left) "cs = []" "r = Tip" "l \<noteq> Tip"
    | (right) "cs = []" "r \<noteq> Tip" by blast
  then show ?thesis
  proof cases
    case ring
    then obtain bs b where cs: "cs = bs @ [b]" by (metis append_butlast_last_id)
    show ?thesis using assms unfolding cs by auto
  next
    case left
    obtain m d ds l' where p: "pop l = ((m, d, ds), l')" using pop_eq_pair by blast
    show ?thesis using left p pop_separate [OF left(3) p] pop_area [OF left(3) p] assms by auto
  next
    case right
    obtain m d ds r' where p: "pop r = ((m, d, ds), r')" using pop_eq_pair by blast
    show ?thesis using right p pop_separate [OF right(2) p] pop_area [OF right(2) p] assms by auto
  qed (use assms in auto)
qed

lemma remove1_split:
  assumes "x \<in> set cs"
  obtains as bs where "cs = as @ x # bs" and "remove1 x cs = as @ bs" and "x \<notin> set as"
  using split_list_first [OF assms] that by (auto simp: remove1_append)

lemma remove1_area: "x \<in> set cs \<Longrightarrow> area cs = cells x \<union> area (remove1 x cs)"
  by (erule remove1_split) auto

lemma remove1_separate: "x \<in> set cs \<Longrightarrow> separate cs \<Longrightarrow> separate (x # remove1 x cs)"
  by (erule remove1_split) auto

lemma tdel_content:
  "x \<in> set (chunks t) \<Longrightarrow> separate (chunks t) \<Longrightarrow>
    separate (x # chunks (tdel x t)) \<and> area (chunks t) = cells x \<union> area (chunks (tdel x t))
    \<and> (\<exists>n. content t = insert (n, x) (content (tdel x t)))"
proof (induction t)
  case (Nd n c cs l r)
  consider (base) "x = c" | (ring) "x \<noteq> c" "x \<in> set cs"
    | (left) "x \<notin> set (c # cs)" "x \<in> set (chunks l)"
    | (right) "x \<notin> set (c # cs)" "x \<notin> set (chunks l)" "x \<in> set (chunks r)" using Nd.prems(1) by auto
  then show ?case
  proof cases
    case base
    have "tdel x (Nd n c cs l r) = drop_base (Nd n c cs l r)" using base by (simp add: del_node_def)
    then show ?thesis
      using base drop_base_separate [OF Nd.prems(2)] drop_base_area [of n c cs l r]
        drop_base_content [of n c cs l r] by metis
  next
    case ring
    from ring(2) obtain as bs where cs: "cs = as @ x # bs" "remove1 x cs = as @ bs"
      by (rule remove1_split)
    have t: "tdel x (Nd n c cs l r) = Nd n c (as @ bs) l r"
      using ring cs(2) by (simp add: del_node_def)
    have "separate (x # chunks (Nd n c (as @ bs) l r))" using Nd.prems(2) unfolding cs(1) by simp blast
    moreover have "area (chunks (Nd n c cs l r)) = cells x \<union> area (chunks (Nd n c (as @ bs) l r))"
      unfolding cs(1) by auto
    moreover have "content (Nd n c cs l r) = insert (n, x) (content (Nd n c (as @ bs) l r))"
      unfolding cs(1) by auto
    ultimately show ?thesis unfolding t by blast
  next
    case left
    have "separate (chunks l)" using Nd.prems(2) by simp
    note ih = Nd.IH(1) [OF left(2) this]
    have t: "tdel x (Nd n c cs l r) = Nd n c cs (tdel x l) r" using left by simp
    obtain k where k: "content l = insert (k, x) (content (tdel x l))" using ih by blast
    have "separate (x # chunks (Nd n c cs (tdel x l) r))" using Nd.prems(2) ih by simp blast
    moreover have "area (chunks (Nd n c cs l r)) = cells x \<union> area (chunks (Nd n c cs (tdel x l) r))"
      using ih by auto
    moreover have "content (Nd n c cs l r) = insert (k, x) (content (Nd n c cs (tdel x l) r))"
      using k by simp
    ultimately show ?thesis unfolding t by blast
  next
    case right
    have "separate (chunks r)" using Nd.prems(2) by simp
    note ih = Nd.IH(2) [OF right(3) this]
    have t: "tdel x (Nd n c cs l r) = Nd n c cs l (tdel x r)" using right by simp
    obtain k where k: "content r = insert (k, x) (content (tdel x r))" using ih by blast
    have "separate (x # chunks (Nd n c cs l (tdel x r)))" using Nd.prems(2) ih by simp blast
    moreover have "area (chunks (Nd n c cs l r)) = cells x \<union> area (chunks (Nd n c cs l (tdel x r)))"
      using ih by auto
    moreover have "content (Nd n c cs l r) = insert (k, x) (content (Nd n c cs l (tdel x r)))"
      using k by simp
    ultimately show ?thesis unfolding t by blast
  qed
qed simp


section \<open>Taking the replacement out\<close>

lemma links_first_bk: "links h a ps b \<Longrightarrow> h (bk_at (hd (ps @ [b]))) = Some a"
  by (cases ps) auto

lemma links_last_fd: "links h a ps b \<Longrightarrow> h (fd_at (last (a # ps))) = Some b"
  by (induction ps arbitrary: a) auto

definition unringed :: "heap \<Rightarrow> u64 \<Rightarrow> u64 \<Rightarrow> heap" where
  "unringed h k f = h(bk_at f \<mapsto> k, fd_at k \<mapsto> f)"

lemma unringed_frame:
  "f \<in> set xs \<Longrightarrow> k \<in> set xs \<Longrightarrow> a \<notin> area xs \<Longrightarrow> unringed h k f a = h a"
  unfolding unringed_def folds using cell_area [of f xs Bk] cell_area [of k xs Fd] by auto

lemma unringed_other:
  "separate xs \<Longrightarrow> f \<in> set xs \<Longrightarrow> k \<in> set xs \<Longrightarrow> y \<in> set xs \<Longrightarrow> g \<notin> {Fd, Bk} \<Longrightarrow>
    unringed h k f (cell y g) = h (cell y g)"
  unfolding unringed_def folds by (simp add: cell_iff)

lemma take_out_ring:
  assumes "heap s (bk_at x) = Some k" and "k \<noteq> x" and "heap s (fd_at x) = Some f"
    and "heap s (bk_at f) = Some x" and "heap s (fd_at k) = Some x" and "ok_address s f"
  shows "take_out s x = Some (k, s\<lparr>heap := unringed (heap s) k f\<rparr>)"
  using assms
  by (simp add: take_out_def ld_def link_is_def st_has has_def upd_def unringed_def)

text \<open>A chunk that is not the base of its ring.\<close>

lemma ring_member_out:
  assumes n: "node_at h i par n c (ps @ x # qs) a b" and sep: "separate (c # ps @ x # qs)"
  defines "k \<equiv> last (c # ps)" and "f \<equiv> hd (qs @ [c])"
  shows "h (bk_at x) = Some k" and "k \<noteq> x" and "h (fd_at x) = Some f" and "h (bk_at f) = Some x"
    and "h (fd_at k) = Some x" and "f \<in> set (c # ps @ x # qs)" and "k \<in> set (c # ps @ x # qs)"
    and "node_at (unringed h k f) i par n c (ps @ qs) a b"
proof -
  have l: "links h c ps x" "links h x qs c" using n by (auto simp: node_at_def)
  show "h (bk_at x) = Some k" "h (fd_at k) = Some x"
    using links_last [OF l(1)] links_last_fd [OF l(1)] by (simp_all add: k_def)
  show "h (fd_at x) = Some f" "h (bk_at f) = Some x"
    using links_first [OF l(2)] links_first_bk [OF l(2)] by (simp_all add: f_def)
  show f: "f \<in> set (c # ps @ x # qs)" by (cases qs) (auto simp: f_def)
  have k': "k \<in> set (c # ps)" unfolding k_def by (rule last_in_set) simp
  then show k: "k \<in> set (c # ps @ x # qs)" by auto
  show "k \<noteq> x" using k' separate_distinct [OF sep] by auto
  have "links (unringed h k f) c (ps @ qs) c"
    unfolding unringed_def k_def f_def using n separate_distinct [OF sep] separate_apart [OF sep]
    by (intro links_unlink) (auto simp: node_at_def)
  moreover note unringed_other [OF sep f k]
  ultimately show "node_at (unringed h k f) i par n c (ps @ qs) a b"
    using n unfolding node_at_def sized_def folds by simp
qed

text \<open>The base of a ring of several chunks: the last chunk becomes the base.\<close>

lemma ring_base_out:
  assumes n: "node_at h i par n c (bs @ [k]) a b" and sep: "separate (c # bs @ [k])"
  defines "f \<equiv> hd (bs @ [k])"
  shows "h (bk_at c) = Some k" and "k \<noteq> c" and "h (fd_at c) = Some f" and "h (bk_at f) = Some c"
    and "h (fd_at k) = Some c" and "f \<in> set (c # bs @ [k])"
    and "links (unringed h k f) k bs k"
proof -
  have l: "links h c bs k" "links h k [] c" using n by (auto simp: node_at_def)
  show "h (bk_at c) = Some k" "h (fd_at k) = Some c" using l(2) by auto
  show "h (fd_at c) = Some f" "h (bk_at f) = Some c"
    using links_first [OF l(1)] links_first_bk [OF l(1)] by (simp_all add: f_def)
  show "f \<in> set (c # bs @ [k])" by (cases bs) (auto simp: f_def)
  show "k \<noteq> c" using separate_distinct [OF sep] by auto
  have "links h k ([] @ c # bs) k" using l by simp
  moreover have "separate (k # [] @ c # bs)" using sep by auto
  ultimately show "links (unringed h k f) k bs k"
    using links_unlink [of h k "[]" c bs] separate_distinct separate_apart
    unfolding unringed_def f_def by (metis append_Nil last.simps)
qed

text \<open>The slot that points at the rightmost leaf.\<close>

fun leaf_slot :: "u64 \<Rightarrow> ttree \<Rightarrow> u64" where
  "leaf_slot q Tip = q"
| "leaf_slot q (Nd n c cs l r) =
     (if r \<noteq> Tip then leaf_slot (cell c Right) r
      else if l \<noteq> Tip then leaf_slot (cell c Left) l else q)"

lemma tree_leaf_eq:
  "shape (heap s) i par t \<Longrightarrow> t \<noteq> Tip \<Longrightarrow> pop t = ((m, d, ds), t') \<Longrightarrow>
    tree_leaf s (root t) q = Some (d, leaf_slot q t)"
proof (induction t arbitrary: par q t')
  case (Nd n c cs l r)
  have ch: "ld s (child_at c 0) = Some (root l)" "ld s (child_at c 1) = Some (root r)"
    using Nd.prems(1) by (auto simp: node_at_def ld_def)
  have z: "root l = 0 \<longleftrightarrow> l = Tip" "root r = 0 \<longleftrightarrow> r = Tip"
    using Nd.prems(1) node_ptr by auto
  show ?case
    using Nd.prems Nd.IH(1) [of c _ "child_at c 0"] Nd.IH(2) [of c _ "child_at c 1"] ch z
    by (subst tree_leaf.simps) (auto simp: folds [symmetric] split: prod.splits)
qed simp

lemma leaf_slot_cases:
  "leaf_slot q t = q \<or> (\<exists>p\<in>set (chunks t). \<exists>b. leaf_slot q t = cell p (side b))"
proof (induction t arbitrary: q)
  case (Nd n c cs l r)
  have "cell c Left = cell c (side False)" "cell c Right = cell c (side True)" by (simp_all add: side_def)
  then show ?case using Nd.IH(1) [of "cell c Left"] Nd.IH(2) [of "cell c Right"] by auto
qed simp

lemma leaf_slot_in: "leaf_slot q t \<in> insert q (area (chunks t))"
  using leaf_slot_cases [of q t] cell_area [of _ "chunks t"] by auto

lemma pop_shape:
  "shape h i par t \<Longrightarrow> t \<noteq> Tip \<Longrightarrow> pop t = ((m, d, ds), t') \<Longrightarrow> separate (chunks t) \<Longrightarrow>
    q \<notin> area (chunks t) \<Longrightarrow> h q = Some (root t) \<Longrightarrow>
    shape (h(leaf_slot q t \<mapsto> 0)) i par t' \<and> (h(leaf_slot q t \<mapsto> 0)) q = Some (root t')
    \<and> (\<exists>p. node_at (h(leaf_slot q t \<mapsto> 0)) i p m d ds 0 0)"
proof (induction t arbitrary: par q t')
  case (Nd n c cs l r)
  have node: "node_at h i par n c cs (root l) (root r)" and sl: "shape h i c l" and sr: "shape h i c r"
    using Nd.prems(1) by auto
  have hc: "h (cell c Left) = Some (root l)" "h (cell c Right) = Some (root r)"
    using node by (auto simp: node_at_def folds)
  have sep: "separate (c # cs)" using Nd.prems(4) by auto
  consider (leaf) "r = Tip" "l = Tip" | (left) "r = Tip" "l \<noteq> Tip" | (right) "r \<noteq> Tip" by blast
  then show ?case
  proof cases
    case leaf
    have "node_at (h(q \<mapsto> 0)) i par n c cs 0 0 \<longleftrightarrow> node_at h i par n c cs 0 0"
      using Nd.prems(5) by (intro node_at_cong) auto
    then have "node_at (h(q \<mapsto> 0)) i par n c cs 0 0" using node leaf by simp
    then show ?thesis using leaf Nd.prems(3) by (auto simp del: fun_upd_apply) simp_all
  next
    case left
    then obtain l' where l': "pop l = ((m, d, ds), l')" "t' = Nd n c cs l' r"
      using Nd.prems(3) by (auto split: prod.splits)
    have pre: "separate (chunks l)" "cell c Left \<notin> area (chunks l)"
      using Nd.prems(4) cellI [of c Left] by (auto simp del: cellI)
    define a where "a = leaf_slot (cell c Left) l"
    define h' where "h' = h(a \<mapsto> 0)"
    note ih = Nd.IH(1) [OF sl left(2) l'(1) pre hc(1), folded a_def, folded h'_def]
    have a: "a \<in> insert (cell c Left) (area (chunks l))" unfolding a_def by (rule leaf_slot_in)
    then have fr: "\<forall>x. x \<in> area (c # cs) \<longrightarrow> x \<noteq> cell c Left \<longrightarrow> h' x = h x"
      using Nd.prems(4) by (auto simp: h'_def)
    have "node_at h' i par n c cs (root l') (root r)"
      using node_at_new_child(1) [OF node sep _ fr] ih by simp
    moreover have "h' q = h q" using a Nd.prems(5) cellI [of c Left] by (auto simp: h'_def simp del: cellI)
    ultimately show ?thesis
      using ih Nd.prems(6) left l'(2) by (auto simp: a_def [symmetric] h'_def [symmetric])
  next
    case right
    then obtain r' where r': "pop r = ((m, d, ds), r')" "t' = Nd n c cs l r'"
      using Nd.prems(3) by (auto split: prod.splits)
    have pre: "separate (chunks r)" "cell c Right \<notin> area (chunks r)"
      using Nd.prems(4) cellI [of c Right] by (auto simp del: cellI)
    define a where "a = leaf_slot (cell c Right) r"
    define h' where "h' = h(a \<mapsto> 0)"
    note ih = Nd.IH(2) [OF sr right r'(1) pre hc(2), folded a_def, folded h'_def]
    have a: "a \<in> insert (cell c Right) (area (chunks r))" unfolding a_def by (rule leaf_slot_in)
    then have fr: "\<forall>x. x \<in> area (c # cs) \<longrightarrow> x \<noteq> cell c Right \<longrightarrow> h' x = h x"
      using Nd.prems(4) by (auto simp: h'_def)
    have "node_at h' i par n c cs (root l) (root r')"
      using node_at_new_child(2) [OF node sep _ fr] ih by simp
    moreover have "shape h' i c l"
      using a Nd.prems(4) cellI [of c Right]
      by (intro shape_frame [OF sl]) (auto simp: h'_def simp del: cellI)
    moreover have "h' q = h q" using a Nd.prems(5) cellI [of c Right] by (auto simp: h'_def simp del: cellI)
    ultimately show ?thesis
      using ih Nd.prems(6) right r'(2) by (auto simp: a_def [symmetric] h'_def [symmetric])
  qed
qed simp


section \<open>Putting the replacement in place\<close>

definition adopted :: "heap \<Rightarrow> u64 \<Rightarrow> fld \<Rightarrow> ttree \<Rightarrow> heap" where
  "adopted h d F t = (if t = Tip then h else h(cell d F \<mapsto> root t, cell (root t) Parent \<mapsto> d))"

lemma root_in [simp]: "t \<noteq> Tip \<Longrightarrow> root t \<in> set (chunks t)"
  by (cases t) auto

lemma adopted_frame: "a \<noteq> cell d F \<Longrightarrow> a \<notin> area (chunks t) \<Longrightarrow> adopted h d F t a = h a"
  using cell_area [of "root t" "chunks t" Parent] by (auto simp: adopted_def)

lemma node_at_parent:
  assumes "node_at h i p n c cs a b" and "separate (c # cs)"
  shows "node_at (h(cell c Parent \<mapsto> p')) i p' n c cs a b"
proof -
  note ci = cell_iff [OF assms(2)]
  have "links (h(cell c Parent \<mapsto> p')) c cs c \<longleftrightarrow> links h c cs c"
    by (rule links_cong) (auto simp: folds ci)
  moreover have "c \<notin> set cs" using separate_distinct [OF assms(2)] by simp
  ultimately show ?thesis using assms(1) unfolding node_at_def sized_def folds by (auto simp: ci)
qed

lemma shape_reparent:
  assumes "shape h i p t" and "t \<noteq> Tip" and "separate (chunks t)"
  shows "shape (h(cell (root t) Parent \<mapsto> d)) i d t"
proof (cases t)
  case (Nd n c cs l r)
  have sep: "separate (c # cs)" and out: "cell c Parent \<notin> area (chunks l)" "cell c Parent \<notin> area (chunks r)"
    using assms(3) cellI [of c Parent] unfolding Nd by (auto simp del: cellI)
  have "node_at (h(cell c Parent \<mapsto> d)) i d n c cs (root l) (root r)"
    using assms(1) sep unfolding Nd by (auto intro: node_at_parent)
  moreover have "shape (h(cell c Parent \<mapsto> d)) i c l" "shape (h(cell c Parent \<mapsto> d)) i c r"
    using assms(1) out unfolding Nd by (auto intro!: shape_frame [of h i c])
  ultimately show ?thesis unfolding Nd by simp
qed (use assms in simp)

lemma adopted_shape:
  assumes "shape h i p t" and "separate (chunks t)" and "cell d F \<notin> area (chunks t)"
  shows "shape (adopted h d F t) i d t"
proof (cases "t = Tip")
  case False
  have "shape (h(cell d F \<mapsto> root t)) i p t"
    using assms by (intro shape_frame [OF assms(1)]) auto
  from shape_reparent [OF this False assms(2)] False show ?thesis by (simp add: adopted_def)
qed simp

lemma adopted_node:
  assumes n: "node_at h i p m d ds a b" and sep: "separate (d # ds @ chunks t)"
  shows "a = 0 \<Longrightarrow> node_at (adopted h d Left t) i p m d ds (root t) b"
    and "b = 0 \<Longrightarrow> node_at (adopted h d Right t) i p m d ds a (root t)"
proof -
  have fr: "\<forall>y. y \<in> area (d # ds) \<longrightarrow> y \<noteq> cell d F \<longrightarrow> adopted h d F t y = h y" for F
    using sep by (auto intro!: adopted_frame)
  have s1: "separate (d # ds)" using sep by auto
  have at: "adopted h d F t (cell d F) = Some (root t)" if "t \<noteq> Tip" for F
  proof -
    have "root t \<in> set (d # ds @ chunks t)" "d \<notin> set (chunks t)"
      using that separate_distinct [OF sep] by auto
    then show ?thesis using that cell_iff [OF sep, of d "root t"] by (auto simp: adopted_def)
  qed
  show "a = 0 \<Longrightarrow> node_at (adopted h d Left t) i p m d ds (root t) b"
    using node_at_new_child(1) [where h' = "adopted h d Left t", OF n s1 at fr] n
    by (cases "t = Tip") (simp_all, simp add: adopted_def)
  show "b = 0 \<Longrightarrow> node_at (adopted h d Right t) i p m d ds a (root t)"
    using node_at_new_child(2) [where h' = "adopted h d Right t", OF n s1 at fr] n
    by (cases "t = Tip") (simp_all, simp add: adopted_def)
qed

definition placed :: "heap \<Rightarrow> u64 \<Rightarrow> u64 \<Rightarrow> u64 \<Rightarrow> ttree \<Rightarrow> ttree \<Rightarrow> heap" where
  "placed h q par d l r = adopted (adopted (h(q \<mapsto> d, cell d Parent \<mapsto> par)) d Left l) d Right r"

lemma placed_frame:
  "a \<noteq> q \<Longrightarrow> a \<notin> cells d \<Longrightarrow> a \<notin> area (chunks l) \<Longrightarrow> a \<notin> area (chunks r) \<Longrightarrow>
    placed h q par d l r a = h a"
proof -
  assume a: "a \<noteq> q" "a \<notin> cells d" "a \<notin> area (chunks l)" "a \<notin> area (chunks r)"
  then have "a \<noteq> cell d F" for F by auto
  then show ?thesis using a by (simp add: placed_def adopted_frame)
qed

lemma placed_shape:
  assumes n: "node_at h i p m d ds 0 0" and l: "shape h i x l" and r: "shape h i y r"
    and sep: "separate (d # ds @ chunks l @ chunks r)" and q: "q \<notin> area (d # ds @ chunks l @ chunks r)"
  shows "shape (placed h q par d l r) i par (Nd m d ds l r)"
    and "placed h q par d l r q = Some d"
proof -
  have out: "cell d F \<notin> area ds" "cell d F \<notin> area (chunks l)" "cell d F \<notin> area (chunks r)" for F
    using sep cellI [of d F] by (auto simp del: cellI)
  have dis: "area (chunks l) \<inter> area (chunks r) = {}" using sep by auto
  define h1 where "h1 = h(q \<mapsto> d, cell d Parent \<mapsto> par)"
  define h2 where "h2 = adopted h1 d Left l"
  have h3: "placed h q par d l r = adopted h2 d Right r" by (simp add: placed_def h2_def h1_def)
  have "node_at (h(q \<mapsto> d)) i p m d ds 0 0"
    using n q node_at_cong [of d ds "h(q \<mapsto> d)" h] by auto
  then have n1: "node_at h1 i par m d ds 0 0" unfolding h1_def using sep by (intro node_at_parent) auto
  have l1: "shape h1 i x l" and r1: "shape h1 i y r"
    using q out by (auto intro!: shape_frame [OF l] shape_frame [OF r] simp: h1_def)
  have n2: "node_at h2 i par m d ds (root l) 0"
    unfolding h2_def using sep by (intro adopted_node(1) [OF n1]) auto
  have l2: "shape h2 i d l"
    unfolding h2_def using sep out by (intro adopted_shape [OF l1]) auto
  have r2: "shape h2 i y r"
    unfolding h2_def using dis out by (intro shape_frame [OF r1] adopted_frame) auto
  have "node_at (placed h q par d l r) i par m d ds (root l) (root r)"
    unfolding h3 using sep by (intro adopted_node(2) [OF n2]) auto
  moreover have "shape (placed h q par d l r) i d l"
    unfolding h3 using dis out by (intro shape_frame [OF l2] adopted_frame) auto
  moreover have "shape (placed h q par d l r) i d r"
    unfolding h3 using sep out by (intro adopted_shape [OF r2]) auto
  ultimately show "shape (placed h q par d l r) i par (Nd m d ds l r)" by simp
  have "q \<noteq> cell d F" for F using q by auto
  then show "placed h q par d l r q = Some d"
    using q by (simp add: placed_def adopted_frame)
qed


lemma leaf_slot_holds:
  "shape h i par t \<Longrightarrow> t \<noteq> Tip \<Longrightarrow> pop t = ((m, d, ds), t') \<Longrightarrow> h q = Some (root t) \<Longrightarrow>
    h (leaf_slot q t) = Some d"
proof (induction t arbitrary: par q t')
  case (Nd n c cs l r)
  have "h (cell c Left) = Some (root l)" "h (cell c Right) = Some (root r)"
    using Nd.prems(1) by (auto simp: node_at_def folds)
  then show ?case
    using Nd.prems Nd.IH(1) [of c _ "cell c Left"] Nd.IH(2) [of c _ "cell c Right"]
    by (auto split: prod.splits if_splits)
qed simp

text \<open>What \<open>take_out\<close> leaves for the base \<open>c\<close> of a node: the new base, its ring and two tries.\<close>

definition taken :: "heap \<Rightarrow> nat \<Rightarrow> u64 \<Rightarrow> ttree \<Rightarrow> bool" where
  "taken h i c t \<longleftrightarrow> (case t of Tip \<Rightarrow> True | Nd m d ds l r \<Rightarrow>
     (\<exists>p. node_at h i p m d ds 0 0) \<and> shape h i c l \<and> shape h i c r
     \<and> h (cell c Left) = Some (root l) \<and> h (cell c Right) = Some (root r))"

lemma tree_replacement_eq:
  assumes sh: "shape (heap s) i par (Nd n c cs l r)" and ck: "\<forall>y\<in>set (chunks (Nd n c cs l r)). chunk_ok s y"
  shows "r \<noteq> Tip \<Longrightarrow> pop r = ((m, d, ds), t') \<Longrightarrow> tree_replacement s c
      = Some (d, s\<lparr>heap := (heap s)(leaf_slot (cell c Right) r \<mapsto> 0)\<rparr>)"
    and "r = Tip \<Longrightarrow> l \<noteq> Tip \<Longrightarrow> pop l = ((m, d, ds), t') \<Longrightarrow> tree_replacement s c
      = Some (d, s\<lparr>heap := (heap s)(leaf_slot (cell c Left) l \<mapsto> 0)\<rparr>)"
    and "r = Tip \<Longrightarrow> l = Tip \<Longrightarrow> tree_replacement s c = Some (0, s)"
proof -
  have hc: "heap s (cell c Left) = Some (root l)" "heap s (cell c Right) = Some (root r)"
    using sh by (auto simp: node_at_def folds)
  have sl: "shape (heap s) i c l" and sr: "shape (heap s) i c r" using sh by auto
  have z: "root l = 0 \<longleftrightarrow> l = Tip" "root r = 0 \<longleftrightarrow> r = Tip" using node_ptr sl sr by auto
  have oks: "ok_address s (cell p (side b))" if "p \<in> set (chunks (Nd n c cs l r))" for p b
    using ck that by (auto simp: chunk_ok_def folds side_def)
  have okl: "ok_address s (leaf_slot (cell c Left) l)"
    using leaf_slot_cases [of "cell c Left" l] oks [of _ False] oks by (auto simp: side_def)
  have okr: "ok_address s (leaf_slot (cell c Right) r)"
    using leaf_slot_cases [of "cell c Right" r] oks [of _ True] oks by (auto simp: side_def)
  show "tree_replacement s c = Some (d, s\<lparr>heap := (heap s)(leaf_slot (cell c Right) r \<mapsto> 0)\<rparr>)"
    if "r \<noteq> Tip" "pop r = ((m, d, ds), t')"
    using that z hc okr tree_leaf_eq [OF sr that] leaf_slot_holds [OF sr that hc(2)]
    by (simp add: tree_replacement_def folds ld_def st_def)
  show "tree_replacement s c = Some (d, s\<lparr>heap := (heap s)(leaf_slot (cell c Left) l \<mapsto> 0)\<rparr>)"
    if "r = Tip" "l \<noteq> Tip" "pop l = ((m, d, ds), t')"
    using that z hc okl tree_leaf_eq [OF sl that(2,3)] leaf_slot_holds [OF sl that(2,3) hc(1)]
    by (simp add: tree_replacement_def folds ld_def st_def)
  show "tree_replacement s c = Some (0, s)" if "r = Tip" "l = Tip"
    using that hc by (simp add: tree_replacement_def folds ld_def)
qed

lemma take_out_base:
  assumes sh: "shape (heap s) i par (Nd n c cs l r)" and sep: "separate (chunks (Nd n c cs l r))"
    and ck: "\<forall>y\<in>set (chunks (Nd n c cs l r)). chunk_ok s y"
  defines "t' \<equiv> drop_base (Nd n c cs l r)"
  shows "\<exists>h1. take_out s c = Some (root t', s\<lparr>heap := h1\<rparr>) \<and> taken h1 i c t'
    \<and> (\<forall>a. a \<notin> area (chunks (Nd n c cs l r)) \<longrightarrow> h1 a = heap s a)
    \<and> h1 (cell c Index) = heap s (cell c Index)"
proof -
  let ?h = "heap s"
  have node: "node_at ?h i par n c cs (root l) (root r)" and sl: "shape ?h i c l" and sr: "shape ?h i c r"
    using sh by auto
  have hc: "?h (cell c Left) = Some (root l)" "?h (cell c Right) = Some (root r)"
    using node by (auto simp: node_at_def folds)
  consider (ring) "cs \<noteq> []" | (leaf) "cs = []" "r = Tip" "l = Tip" | (left) "cs = []" "r = Tip" "l \<noteq> Tip"
    | (right) "cs = []" "r \<noteq> Tip" by blast
  then show ?thesis
  proof cases
    case ring
    then obtain bs k where cs: "cs = bs @ [k]" by (metis append_butlast_last_id)
    define f where "f = hd (bs @ [k])"
    have sep': "separate (c # bs @ [k])" using sep cs by auto
    note ro = ring_base_out [OF node [unfolded cs] sep', folded f_def]
    have "ok_address s f" using ro(6) ck by (auto simp: chunk_ok_def cs)
    note to = take_out_ring [OF ro(1-5) this]
    have un: "unringed ?h k f (cell y g) = ?h (cell y g)" if "y \<in> set (c # bs @ [k])" "g \<notin> {Fd, Bk}" for y g
      using unringed_other [OF sep' ro(6) _ that] by simp
    have fr: "unringed ?h k f a = ?h a" if "a \<notin> area (c # bs @ [k])" for a
      using unringed_frame [OF ro(6) _ that] by simp
    have "node_at (unringed ?h k f) i 0 n k bs 0 0"
      using node ro(7) unfolding node_at_def sized_def folds by (simp add: cs un)
    moreover have "shape (unringed ?h k f) i c l" "shape (unringed ?h k f) i c r"
      using sep cs by (auto intro!: shape_frame [OF sl] shape_frame [OF sr] fr)
    ultimately have "taken (unringed ?h k f) i c (Nd n k bs l r)"
      using hc by (auto simp: taken_def un)
    then show ?thesis
      using to fr un cs unfolding t'_def by (intro exI [of _ "unringed ?h k f"]) simp
  next
    case leaf
    have b: "ld s (bk_at c) = Some c" using node leaf by (auto simp: node_at_def ld_def)
    show ?thesis
      using leaf b tree_replacement_eq(3) [OF sh ck] unfolding t'_def
      by (intro exI [of _ ?h]) (simp add: take_out_def taken_def)
  next
    case left
    obtain m d ds l' where p: "pop l = ((m, d, ds), l')" using pop_eq_pair by blast
    have b: "ld s (bk_at c) = Some c" using node left by (auto simp: node_at_def ld_def)
    define a where "a = leaf_slot (cell c Left) l"
    have pre: "separate (chunks l)" "cell c Left \<notin> area (chunks l)"
      using sep cellI [of c Left] by (auto simp del: cellI)
    note ps = pop_shape [OF sl left(3) p pre hc(1), folded a_def]
    have a: "a \<in> insert (cell c Left) (area (chunks l))" unfolding a_def by (rule leaf_slot_in)
    have ne: "a \<noteq> cell c Index" "a \<noteq> cell c Right"
      using a sep cellI [of c Index] cellI [of c Right] by (auto simp del: cellI)
    have "taken (?h(a \<mapsto> 0)) i c t'"
      using ps p left hc(2) ne(2) by (auto simp: t'_def taken_def)
    then show ?thesis
      using tree_replacement_eq(2) [OF sh ck left(2,3) p, folded a_def] left p b ne a cellI [of c Left]
      unfolding t'_def by (intro exI [of _ "?h(a \<mapsto> 0)"]) (auto simp: take_out_def simp del: cellI)
  next
    case right
    obtain m d ds r' where p: "pop r = ((m, d, ds), r')" using pop_eq_pair by blast
    have b: "ld s (bk_at c) = Some c" using node right by (auto simp: node_at_def ld_def)
    define a where "a = leaf_slot (cell c Right) r"
    have pre: "separate (chunks r)" "cell c Right \<notin> area (chunks r)"
      using sep cellI [of c Right] by (auto simp del: cellI)
    note ps = pop_shape [OF sr right(2) p pre hc(2), folded a_def]
    have a: "a \<in> insert (cell c Right) (area (chunks r))" unfolding a_def by (rule leaf_slot_in)
    have ne: "a \<noteq> cell c Index" "a \<noteq> cell c Left"
      using a sep cellI [of c Index] cellI [of c Left] by (auto simp del: cellI)
    have "shape (?h(a \<mapsto> 0)) i c l"
      using a sep cellI [of c Right] by (intro shape_frame [OF sl]) (auto simp del: cellI)
    then have "taken (?h(a \<mapsto> 0)) i c t'"
      using ps p right hc(1) ne(2) by (auto simp: t'_def taken_def)
    then show ?thesis
      using tree_replacement_eq(1) [OF sh ck right(2) p, folded a_def] right p b ne a cellI [of c Right]
      unfolding t'_def by (intro exI [of _ "?h(a \<mapsto> 0)"]) (auto simp: take_out_def simp del: cellI)
  qed
qed


section \<open>Relinking\<close>

lemma adopt_child_eq:
  assumes "heap s (cell x F) = Some (root t)" and "root t = 0 \<longleftrightarrow> t = Tip"
    and "t \<noteq> Tip \<Longrightarrow> ok_address s (root t) \<and> has s (cell d F) \<and> has s (cell (root t) Parent)"
  shows "F = Left \<Longrightarrow> adopt_child s x d 0 = Some (s\<lparr>heap := adopted (heap s) d F t\<rparr>)"
    and "F = Right \<Longrightarrow> adopt_child s x d 1 = Some (s\<lparr>heap := adopted (heap s) d F t\<rparr>)"
  using assms
  by (auto simp: adopt_child_def folds ld_def st_has adopted_def upd_def) (auto simp: st_def has_def)

text \<open>The word that points at the base \<open>x\<close>: the bin, or a child field of the parent.\<close>

definition points_at :: "'o dl \<Rightarrow> nat \<Rightarrow> u64 \<Rightarrow> u64 \<Rightarrow> u64 \<Rightarrow> bool" where
  "points_at s i x xp q \<longleftrightarrow>
     (if heap s (slot_of s i) = Some x then q = slot_of s i
      else ok_address s xp \<and> heap s (cell xp Left) \<noteq> None
        \<and> q = (if heap s (cell xp Left) = Some x then cell xp Left else cell xp Right))"

lemma relink_eq:
  assumes i: "i < 32" "heap s (cell x Index) = Some (of_nat i)" and tp: "heap s (slot_of s i) = Some tp"
    and q: "points_at s i x xp q" "has s q"
  shows "relink s x xp 0 = Some (s\<lparr>heap := (heap s)(q \<mapsto> 0),
      treemap := (if x = tp then treemap s AND NOT (idx2bit (of_nat i)) else treemap s)\<rparr>)"
    and "d \<noteq> 0 \<Longrightarrow> ok_address s d \<Longrightarrow> \<forall>F. has s (cell d F) \<Longrightarrow>
      heap s (cell x Left) = Some (root l) \<Longrightarrow> heap s (cell x Right) = Some (root r) \<Longrightarrow>
      shape (heap s) i y l \<Longrightarrow> shape (heap s) i z r \<Longrightarrow> \<forall>v\<in>set (chunks l @ chunks r). chunk_ok s v \<Longrightarrow>
      separate (x # d # chunks l @ chunks r) \<Longrightarrow> q \<notin> cells x \<Longrightarrow>
      relink s x xp d = Some (s\<lparr>heap := placed (heap s) q xp d l r\<rparr>)"
proof -
  have ui: "(ucast (of_nat i :: u64) :: u32) = of_nat i"
    using i(1) by (simp add: word_unat_eq_iff unsigned_ucast_eq unat_of_nat take_bit_nat_eq_self)
  have slot: "treebin_at s (of_nat i) = slot_of s i" by (simp add: slot_of_def)
  define wr where "wr d = s\<lparr>heap := (heap s)(q \<mapsto> d),
      treemap := (if x = tp \<and> d = 0 then treemap s AND NOT (idx2bit (of_nat i)) else treemap s)\<rparr>" for d
  have w: "(if x = tp then do { s' \<leftarrow> st s (treebin_at s (of_nat i)) d;
                 Some (if d = 0 then clear_treemap s' (of_nat i) else s') }
       else if ok_address s xp then do {
                 c0 \<leftarrow> ld s (child_at xp 0);
                 if c0 = x then st s (child_at xp 0) d else st s (child_at xp 1) d }
       else None) = Some (wr d)" for d
    using q tp unfolding points_at_def folds slot
    by (cases "x = tp") (auto simp: st_has ld_def clear_treemap_def upd_def wr_def split: if_splits)
  have a: "ld s (index_at x) = Some (of_nat i)" "ld s (treebin_at s (of_nat i)) = Some tp"
    using i(2) tp by (simp_all add: ld_def folds slot)
  have rl: "relink s x xp d = (if d \<noteq> 0 then
      if ok_address (wr d) d then do { s' \<leftarrow> st (wr d) (parent_at d) xp; s' \<leftarrow> adopt_child s' x d 0;
        adopt_child s' x d 1 } else None else Some (wr d))" for d
    unfolding relink_def by (simp only: a ui Let_def Option.bind.bind_lunit w)
  show "relink s x xp 0 = Some (s\<lparr>heap := (heap s)(q \<mapsto> 0),
      treemap := (if x = tp then treemap s AND NOT (idx2bit (of_nat i)) else treemap s)\<rparr>)"
    by (simp add: rl) (simp add: wr_def)
  show "relink s x xp d = Some (s\<lparr>heap := placed (heap s) q xp d l r\<rparr>)"
    if d: "d \<noteq> 0" "ok_address s d" "\<forall>F. has s (cell d F)"
      and ch: "heap s (cell x Left) = Some (root l)" "heap s (cell x Right) = Some (root r)"
      and sh: "shape (heap s) i y l" "shape (heap s) i z r"
      and ck: "\<forall>v\<in>set (chunks l @ chunks r). chunk_ok s v"
      and sep: "separate (x # d # chunks l @ chunks r)" and qx: "q \<notin> cells x"
  proof -
    have z: "root l = 0 \<longleftrightarrow> l = Tip" "root r = 0 \<longleftrightarrow> r = Tip"
      using node_ptr sh by auto
    define s1 where "s1 = s\<lparr>heap := (heap s)(q \<mapsto> d, cell d Parent \<mapsto> xp)\<rparr>"
    define s2 where "s2 = s1\<lparr>heap := adopted (heap s1) d Left l\<rparr>"
    have same: "heap s1 (cell x F) = heap s (cell x F)" "heap s2 (cell x F) = heap s1 (cell x F)" for F
    proof -
      have "cell x F \<noteq> cell d G" "cell x F \<noteq> q" "cell x F \<notin> area (chunks l)" for G
        using sep qx cellI [of x F] cellI [of d G] by (auto simp del: cellI)
      then show "heap s1 (cell x F) = heap s (cell x F)" "heap s2 (cell x F) = heap s1 (cell x F)"
        by (simp_all add: s1_def s2_def adopted_frame)
    qed
    have ok: "ok_address s1 a = ok_address s a" "ok_address s2 a = ok_address s a" for a
      by (simp_all add: s1_def s2_def ok_address_def)
    have mp: "has s a \<Longrightarrow> has s1 a" "has s1 a \<Longrightarrow> has s2 a" for a
      by (auto simp: s1_def s2_def has_def adopted_def)
    have root: "ok_address s (root t) \<and> has s (cell (root t) Parent)"
      if "shape (heap s) i p t" "t \<noteq> Tip" "\<forall>v\<in>set (chunks t). chunk_ok s v" for t p
      using that by (cases t) (auto simp: node_at_def folds has_def chunk_ok_def)
    have "wr d = s\<lparr>heap := (heap s)(q \<mapsto> d)\<rparr>" using d(1) by (simp add: wr_def)
    moreover have "st (s\<lparr>heap := (heap s)(q \<mapsto> d)\<rparr>) (parent_at d) xp = Some s1"
      using d(3) unfolding folds by (auto simp: st_def s1_def has_def)
    moreover have "adopt_child s1 x d 0 = Some s2"
      unfolding s2_def using d(3) ch(1) z(1) root [OF sh(1)] ck
      by (intro adopt_child_eq) (auto simp: same ok intro: mp)
    moreover have "adopt_child s2 x d 1 = Some (s2\<lparr>heap := adopted (heap s2) d Right r\<rparr>)"
      using d(3) ch(2) z(2) root [OF sh(2)] ck
      by (intro adopt_child_eq(2)) (auto simp: same ok intro: mp)
    moreover have "s2\<lparr>heap := adopted (heap s2) d Right r\<rparr> = s\<lparr>heap := placed (heap s) q xp d l r\<rparr>"
      by (simp add: s2_def s1_def placed_def)
    moreover have "ok_address (s\<lparr>heap := (heap s)(q \<mapsto> d)\<rparr>) d" using d(2) by (simp add: ok_address_def)
    ultimately show ?thesis
      using d(1) unfolding rl by simp
  qed
qed


section \<open>The node of a chunk\<close>

text \<open>The parent of the node that holds \<open>x\<close>, the word that points at it, and the trie below.\<close>

fun locate :: "u64 \<Rightarrow> u64 \<Rightarrow> ttree \<Rightarrow> u64 \<Rightarrow> u64 \<times> u64 \<times> ttree" where
  "locate par q Tip x = (par, q, Tip)"
| "locate par q (Nd n c cs l r) x =
     (if x \<in> set (c # cs) then (par, q, Nd n c cs l r)
      else if x \<in> set (chunks l) then locate c (cell c Left) l x
      else locate c (cell c Right) r x)"

definition node_of :: "u64 \<Rightarrow> ttree \<Rightarrow> bool" where
  "node_of x t \<longleftrightarrow> (case t of Tip \<Rightarrow> False | Nd n c cs l r \<Rightarrow> x \<in> set (c # cs))"

lemma locate_node:
  "shape h i par t \<Longrightarrow> separate (chunks t) \<Longrightarrow> x \<in> set (chunks t) \<Longrightarrow> h q = Some (root t) \<Longrightarrow>
    q \<notin> area (chunks t) \<Longrightarrow> par \<noteq> 0 \<Longrightarrow> locate par q t x = (p, q', t0) \<Longrightarrow>
    shape h i p t0 \<and> h q' = Some (root t0) \<and> q' \<notin> area (chunks t0) \<and> separate (chunks t0)
    \<and> set (chunks t0) \<subseteq> set (chunks t) \<and> node_of x t0 \<and> p \<noteq> 0"
proof (induction t arbitrary: par q)
  case (Nd n c cs l r)
  have hc: "h (cell c Left) = Some (root l)" "h (cell c Right) = Some (root r)" "c \<noteq> 0"
    using Nd.prems(1) by (auto simp: node_at_def folds)
  have out: "cell c F \<notin> area (chunks l)" "cell c F \<notin> area (chunks r)" for F
    using Nd.prems(2) cellI [of c F] by (auto simp del: cellI)
  consider "x \<in> set (c # cs)" | "x \<notin> set (c # cs)" "x \<in> set (chunks l)"
    | "x \<notin> set (c # cs)" "x \<notin> set (chunks l)" "x \<in> set (chunks r)" using Nd.prems(3) by auto
  then show ?case
  proof cases
    case 1
    then have e: "p = par" "q' = q" "t0 = Nd n c cs l r" using Nd.prems(7) by (auto split: if_splits)
    show ?thesis using Nd.prems(1-6) 1 unfolding e node_of_def by simp
  next
    case 2
    have "shape h i c l" "separate (chunks l)" using Nd.prems(1,2) by auto
    moreover have "locate c (cell c Left) l x = (p, q', t0)" using Nd.prems(7) 2 by auto
    ultimately show ?thesis using Nd.IH(1) [of c "cell c Left"] hc out 2 by auto
  next
    case 3
    have "shape h i c r" "separate (chunks r)" using Nd.prems(1,2) by auto
    moreover have "locate c (cell c Right) r x = (p, q', t0)" using Nd.prems(7) 3 by auto
    ultimately show ?thesis using Nd.IH(2) [of c "cell c Right"] hc out 3 by auto
  qed
qed simp

lemma locate_inside:
  "x \<in> set (chunks t) \<Longrightarrow> locate par q t x = (p, q', t0) \<Longrightarrow>
    set (chunks t0) \<subseteq> set (chunks t) \<and> t0 \<noteq> Tip \<and> (q' = q \<or> q' \<in> area (chunks t))"
proof (induction t arbitrary: par q)
  case (Nd n c cs l r)
  have c: "cell c F \<in> area (chunks (Nd n c cs l r))" for F by (rule cell_area) simp
  consider "x \<in> set (c # cs)" | "x \<notin> set (c # cs)" "x \<in> set (chunks l)"
    | "x \<notin> set (c # cs)" "x \<notin> set (chunks l)" "x \<in> set (chunks r)" using Nd.prems(1) by auto
  then show ?case
  proof cases
    case 1
    then show ?thesis using Nd.prems(2) by (auto split: if_splits)
  next
    case 2
    then show ?thesis using Nd.IH(1) [of c "cell c Left"] Nd.prems(2) by auto
  next
    case 3
    then show ?thesis using Nd.IH(2) [of c "cell c Right"] Nd.prems(2) by auto
  qed
qed simp

text \<open>Which word it is that points at the node.\<close>

definition pointed :: "heap \<Rightarrow> ttree \<Rightarrow> u64 \<Rightarrow> u64 \<Rightarrow> u64 \<Rightarrow> bool" where
  "pointed h t0 c p q' \<longleftrightarrow> h (cell p Left) \<noteq> None \<and> cells p \<inter> area (chunks t0) = {}
     \<and> q' = (if h (cell p Left) = Some c then cell p Left else cell p Right)"

lemma locate_pointer:
  "shape h i par t \<Longrightarrow> separate (chunks t) \<Longrightarrow> x \<in> set (chunks t) \<Longrightarrow>
    locate par q t x = (p, q', t0) \<Longrightarrow>
    (p = par \<and> q' = q \<and> t0 = t) \<or> (root t0 \<noteq> root t \<and> p \<in> set (chunks t) \<and> pointed h t0 (root t0) p q')"
proof (induction t arbitrary: par q)
  case (Nd n c cs l r)
  have hc: "h (cell c Left) = Some (root l)" and sl: "shape h i c l" and sr: "shape h i c r"
    using Nd.prems(1) by (auto simp: node_at_def folds)
  have dis: "cells c \<inter> area (chunks l) = {}" "cells c \<inter> area (chunks r) = {}"
    "distinct (c # cs @ chunks l @ chunks r)" "separate (chunks l)" "separate (chunks r)"
    using Nd.prems(2) separate_distinct [OF Nd.prems(2)] by auto
  consider "x \<in> set (c # cs)" | "x \<notin> set (c # cs)" "x \<in> set (chunks l)"
    | "x \<notin> set (c # cs)" "x \<notin> set (chunks l)" "x \<in> set (chunks r)" using Nd.prems(3) by auto
  then show ?case
  proof cases
    case 1
    then show ?thesis using Nd.prems(4) by (auto split: if_splits)
  next
    case 2
    have lc: "locate c (cell c Left) l x = (p, q', t0)" using Nd.prems(4) 2 by auto
    have in0: "root t0 \<in> set (chunks l)" using locate_inside [OF 2(2) lc] root_in [of t0] by auto
    then have "root t0 \<noteq> c" using dis(3) by auto
    moreover from Nd.IH(1) [OF sl dis(4) 2(2) lc]
    have "p \<in> set (chunks (Nd n c cs l r)) \<and> pointed h t0 (root t0) p q'"
      using hc dis(1) by (auto simp: pointed_def)
    ultimately show ?thesis by auto
  next
    case 3
    have lc: "locate c (cell c Right) r x = (p, q', t0)" using Nd.prems(4) 3 by auto
    have in0: "root t0 \<in> set (chunks r)" using locate_inside [OF 3(3) lc] root_in [of t0] by auto
    then have "root t0 \<noteq> c" using dis(3) by auto
    moreover have "root l \<noteq> root t0" if "t0 = r"
    proof (cases "l = Tip")
      case True
      have "r \<noteq> Tip" using 3(3) by auto
      then show ?thesis using True node_ptr [OF sr] that by auto
    next
      case False
      then have "root l \<in> set (chunks l)" by simp
      then show ?thesis using in0 dis(3) by auto
    qed
    with Nd.IH(2) [OF sr dis(5) 3(3) lc]
    have "p \<in> set (chunks (Nd n c cs l r)) \<and> pointed h t0 (root t0) p q'"
      using hc dis(2) by (auto simp: pointed_def)
    ultimately show ?thesis by auto
  qed
qed simp

text \<open>Replacing the node in place.\<close>

lemma locate_replace:
  "shape h i par t \<Longrightarrow> separate (chunks t) \<Longrightarrow> x \<in> set (chunks t) \<Longrightarrow> h q = Some (root t) \<Longrightarrow>
    q \<notin> area (chunks t) \<Longrightarrow> locate par q t x = (p, q', t0) \<Longrightarrow>
    shape h' i p (del_node x t0) \<Longrightarrow> h' q' = Some (root (del_node x t0)) \<Longrightarrow>
    (\<And>a. a \<notin> area (chunks t0) \<Longrightarrow> a \<noteq> q' \<Longrightarrow> h' a = h a) \<Longrightarrow>
    shape h' i par (tdel x t) \<and> h' q = Some (root (tdel x t))"
proof (induction t arbitrary: par q)
  case (Nd n c cs l r)
  have node: "node_at h i par n c cs (root l) (root r)" and sl: "shape h i c l" and sr: "shape h i c r"
    and hc: "h (cell c Left) = Some (root l)" "h (cell c Right) = Some (root r)"
    using Nd.prems(1) by (auto simp: node_at_def folds)
  have out: "cell c F \<notin> area (chunks l)" "cell c F \<notin> area (chunks r)" for F
    using Nd.prems(2) cellI [of c F] by (auto simp del: cellI)
  have sep: "separate (c # cs)" "separate (chunks l)" "separate (chunks r)"
    "area (c # cs) \<inter> area (chunks l) = {}" "area (c # cs) \<inter> area (chunks r) = {}"
    "area (chunks l) \<inter> area (chunks r) = {}" using Nd.prems(2) by auto
  have qc: "q \<noteq> cell c F" "q \<notin> area (chunks l)" "q \<notin> area (chunks r)" for F
    using Nd.prems(5) cellI [of c F] by (auto simp del: cellI)
  consider "x \<in> set (c # cs)" | "x \<notin> set (c # cs)" "x \<in> set (chunks l)"
    | "x \<notin> set (c # cs)" "x \<notin> set (chunks l)" "x \<in> set (chunks r)" using Nd.prems(3) by auto
  then show ?case
  proof cases
    case 1
    then show ?thesis using Nd.prems(6-8) by (auto split: if_splits)
  next
    case 2
    have lc: "locate c (cell c Left) l x = (p, q', t0)" using Nd.prems(6) 2 by auto
    note ins = locate_inside [OF 2(2) lc]
    have fr: "h' a = h a" if "a \<notin> area (chunks l)" "a \<noteq> cell c Left" for a
      using Nd.prems(9) [of a] that ins area_mono [of "chunks t0" "chunks l"] by auto
    note ih = Nd.IH(1) [OF sl sep(2) 2(2) hc(1) out(1) lc Nd.prems(7,8)]
    have ih: "shape h' i c (tdel x l)" "h' (cell c Left) = Some (root (tdel x l))"
      using ih Nd.prems(9) by auto
    have "\<forall>a. a \<in> area (c # cs) \<longrightarrow> a \<noteq> cell c Left \<longrightarrow> h' a = h a" using fr sep(4) by blast
    from node_at_new_child(1) [OF node sep(1) ih(2) this]
    have "node_at h' i par n c cs (root (tdel x l)) (root r)" by simp
    moreover have "shape h' i c r" using out sep(6) by (intro shape_frame [OF sr] fr) auto
    ultimately show ?thesis using ih(1) fr [OF qc(2,1)] Nd.prems(4) 2 by auto
  next
    case 3
    have lc: "locate c (cell c Right) r x = (p, q', t0)" using Nd.prems(6) 3 by auto
    note ins = locate_inside [OF 3(3) lc]
    have fr: "h' a = h a" if "a \<notin> area (chunks r)" "a \<noteq> cell c Right" for a
      using Nd.prems(9) [of a] that ins area_mono [of "chunks t0" "chunks r"] by auto
    note ih = Nd.IH(2) [OF sr sep(3) 3(3) hc(2) out(2) lc Nd.prems(7,8)]
    have ih: "shape h' i c (tdel x r)" "h' (cell c Right) = Some (root (tdel x r))"
      using ih Nd.prems(9) by auto
    have "\<forall>a. a \<in> area (c # cs) \<longrightarrow> a \<noteq> cell c Right \<longrightarrow> h' a = h a" using fr sep(5) by blast
    from node_at_new_child(2) [OF node sep(1) ih(2) this]
    have "node_at h' i par n c cs (root l) (root (tdel x r))" by simp
    moreover have "shape h' i c l" using out sep(6) by (intro shape_frame [OF sl] fr) auto
    ultimately show ?thesis using ih(1) fr [OF qc(3,1)] Nd.prems(4) 3 by auto
  qed
qed simp


section \<open>Unlinking a chunk of the tree bins\<close>

text \<open>The heap after the whole operation, for the node \<open>t0\<close> that holds the chunk.\<close>

definition unlinked_at :: "'o dl \<Rightarrow> nat \<Rightarrow> u64 \<Rightarrow> u64 \<Rightarrow> u64 \<Rightarrow> ttree \<Rightarrow> 'o dl \<Rightarrow> bool" where
  "unlinked_at s i x p q t0 s' \<longleftrightarrow> shape (heap s') i p (del_node x t0)
     \<and> heap s' q = Some (root (del_node x t0))
     \<and> (\<forall>a. a \<notin> area (chunks t0) \<longrightarrow> a \<noteq> q \<longrightarrow> heap s' a = heap s a)
     \<and> s' = s\<lparr>heap := heap s', treemap := treemap s'\<rparr>
     \<and> treemap s' = (if heap s (slot_of s i) = Some x \<and> del_node x t0 = Tip
          then treemap s AND NOT (idx2bit (of_nat i)) else treemap s)"

lemma unlink_ring_member:
  assumes sh: "shape (heap s) i p (Nd n c cs l r)" and sep: "separate (chunks (Nd n c cs l r))"
    and x: "x \<in> set cs" and q: "heap s q = Some c" "q \<notin> area (chunks (Nd n c cs l r))"
    and ck: "\<forall>y\<in>set (chunks (Nd n c cs l r)). chunk_ok s y"
  shows "\<exists>s'. unlink_large_chunk s x = Some s' \<and> unlinked_at s i x p q (Nd n c cs l r) s'"
proof -
  obtain ps qs where cs: "cs = ps @ x # qs" "remove1 x cs = ps @ qs"
    using x by (rule remove1_split)
  have node: "node_at (heap s) i p n c (ps @ x # qs) (root l) (root r)"
    and sl: "shape (heap s) i c l" and sr: "shape (heap s) i c r" using sh cs by auto
  have sep': "separate (c # ps @ x # qs)" using sep cs by auto
  define k where "k = last (c # ps)"
  define f where "f = hd (qs @ [c])"
  note ro = ring_member_out [OF node sep', folded k_def f_def]
  let ?h = "unringed (heap s) k f"
  have xc: "x \<noteq> c" using separate_distinct [OF sep'] by auto
  have fr: "?h a = heap s a" if "a \<notin> area (c # ps @ x # qs)" for a
    using unringed_frame [OF ro(6,7) that] .
  have "ok_address s f" using ro(6) ck by (auto simp: chunk_ok_def cs)
  note to = take_out_ring [OF ro(1-5) this]
  have "ld s (parent_at x) = Some 0" using node by (auto simp: node_at_def ld_def)
  then have u: "unlink_large_chunk s x = Some (s\<lparr>heap := ?h\<rparr>)"
    using to by (simp add: unlink_large_chunk_def)
  have d: "del_node x (Nd n c cs l r) = Nd n c (ps @ qs) l r" using xc cs(2) by (simp add: del_node_def)
  have "shape ?h i c l" "shape ?h i c r"
    using sep cs by (auto intro!: shape_frame [OF sl] shape_frame [OF sr] fr)
  then have "unlinked_at s i x p q (Nd n c cs l r) (s\<lparr>heap := ?h\<rparr>)"
    using ro(8) q fr cs(1) unfolding unlinked_at_def d by auto
  with u show ?thesis by blast
qed

lemma unlink_base:
  assumes i: "i < 32" and tp: "heap s (slot_of s i) = Some tp" "slot_of s i \<notin> area (chunks (Nd n x cs l r))"
    and sh: "shape (heap s) i p (Nd n x cs l r)" and sep: "separate (chunks (Nd n x cs l r))"
    and q: "heap s q = Some x" "q \<notin> area (chunks (Nd n x cs l r))" and p: "p \<noteq> 0"
    and ck: "\<forall>y\<in>set (chunks (Nd n x cs l r)). chunk_ok s y"
    and pos: "if x = tp then q = slot_of s i else ok_address s p \<and> pointed (heap s) (Nd n x cs l r) x p q"
  shows "\<exists>s'. unlink_large_chunk s x = Some s' \<and> unlinked_at s i x p q (Nd n x cs l r) s'"
proof -
  define t' where "t' = drop_base (Nd n x cs l r)"
  have d: "del_node x (Nd n x cs l r) = t'" by (simp add: del_node_def t'_def)
  have node: "node_at (heap s) i p n x cs (root l) (root r)" using sh by auto
  obtain h1 where to: "take_out s x = Some (root t', s\<lparr>heap := h1\<rparr>)" and tk: "taken h1 i x t'"
    and fr: "\<And>a. a \<notin> area (chunks (Nd n x cs l r)) \<Longrightarrow> h1 a = heap s a"
    and ix: "h1 (cell x Index) = heap s (cell x Index)"
    using take_out_base [OF sh sep ck, folded t'_def] by blast
  define s1 where "s1 = s\<lparr>heap := h1\<rparr>"
  have sl1: "slot_of s1 i = slot_of s i" by (simp add: s1_def slot_of_def treebin_at_def)
  have "ld s (parent_at x) = Some p" using node by (auto simp: node_at_def ld_def)
  then have u: "unlink_large_chunk s x = relink s1 x p (root t')"
    using to p by (simp add: unlink_large_chunk_def s1_def)
  have i1: "heap s1 (cell x Index) = Some (of_nat i)"
    using node ix by (simp add: node_at_def folds s1_def)
  have tp1: "heap s1 (slot_of s1 i) = Some tp"
    using tp(1) fr [OF tp(2)] unfolding sl1 by (simp add: s1_def)
  have q1: "points_at s1 i x p q" "has s1 q"
  proof -
    have "cell p Left \<notin> area (chunks (Nd n x cs l r))" if "x \<noteq> tp"
      using pos that cellI [of p Left] by (auto simp: pointed_def simp del: cellI)
    then show "points_at s1 i x p q"
      using pos tp1 fr unfolding points_at_def sl1 s1_def
      by (auto simp: pointed_def ok_address_def sl1 [unfolded s1_def])
    show "has s1 q" using q fr [OF q(2)] by (simp add: has_def s1_def)
  qed
  note rl = relink_eq [OF i i1 tp1 q1]
  have ar: "area (chunks (Nd n x cs l r)) = cells x \<union> area (chunks t')"
    and sx: "separate (x # chunks t')"
    using drop_base_area drop_base_separate [OF sep] by (simp_all add: t'_def)
  show ?thesis
  proof (cases t')
    case Tip
    define s' where "s' = s1\<lparr>heap := h1(q \<mapsto> 0),
      treemap := (if x = tp then treemap s1 AND NOT (idx2bit (of_nat i)) else treemap s1)\<rparr>"
    have "unlink_large_chunk s x = Some s'" using u rl(1) Tip by (simp add: s'_def) (simp add: s1_def)
    moreover have "unlinked_at s i x p q (Nd n x cs l r) s'"
      using tp fr unfolding unlinked_at_def d by (auto simp: Tip s'_def s1_def)
    ultimately show ?thesis by blast
  next
    case (Nd m b bs l' r')
    have tk': "\<exists>p'. node_at h1 i p' m b bs 0 0" "shape h1 i x l'" "shape h1 i x r'"
      "heap s1 (cell x Left) = Some (root l')" "heap s1 (cell x Right) = Some (root r')"
      using tk unfolding Nd taken_def by (auto simp: s1_def)
    then obtain p' where nb: "node_at h1 i p' m b bs 0 0" by blast
    have sub: "set (chunks t') \<subseteq> set (chunks (Nd n x cs l r))"
      using drop_base_content [of n x cs l r] snd_content unfolding t'_def [symmetric]
      by (metis image_mono subset_insertI)
    have ck1: "chunk_ok s1 v" if "v \<in> set (chunks t')" for v
      using ck sub that by (auto simp: chunk_ok_def ok_address_def s1_def)
    have mb: "\<forall>F. has s1 (cell b F)"
    proof
      fix F
      have "h1 (cell b Fd) \<noteq> None" "h1 (cell b Bk) \<noteq> None"
        using links_mapped [of h1 b bs b] nb by (auto simp: node_at_def folds)
      then show "has s1 (cell b F)"
        using nb by (cases F) (auto simp: node_at_def folds sized_def has_def s1_def)
    qed
    have "relink s1 x p b = Some (s1\<lparr>heap := placed (heap s1) q p b l' r'\<rparr>)"
    proof (rule rl(2))
      show "b \<noteq> 0" using nb by (simp add: node_at_def)
      show "ok_address s1 b" using ck1 [of b] by (simp add: Nd chunk_ok_def)
      show "\<forall>v\<in>set (chunks l' @ chunks r'). chunk_ok s1 v" using ck1 by (simp add: Nd)
      show "separate (x # b # chunks l' @ chunks r')" using sx by (simp add: Nd) blast
      show "q \<notin> cells x" using q(2) by simp
      show "shape (heap s1) i x l'" "shape (heap s1) i x r'" using tk'(2,3) by (simp_all add: s1_def)
    qed (use tk' mb in auto)
    moreover define s' where "s' = s1\<lparr>heap := placed h1 q p b l' r'\<rparr>"
    ultimately have u': "unlink_large_chunk s x = Some s'" using u Nd by (simp add: s'_def) (simp add: s1_def)
    have q2: "q \<notin> area (b # bs @ chunks l' @ chunks r')" using q(2) unfolding ar by (simp add: Nd)
    have "separate (b # bs @ chunks l' @ chunks r')" using sx Nd by simp
    note pl = placed_shape [OF nb tk'(2,3) this q2, of p]
    have "heap s' a = heap s a" if "a \<notin> area (chunks (Nd n x cs l r))" "a \<noteq> q" for a
    proof -
      have "a \<notin> cells b" "a \<notin> area (chunks l')" "a \<notin> area (chunks r')"
        using that(1) unfolding ar Nd by auto
      then show ?thesis using placed_frame that fr by (simp add: s'_def)
    qed
    then have "unlinked_at s i x p q (Nd n x cs l r) s'"
      using pl unfolding unlinked_at_def d by (simp add: Nd s'_def) (simp add: s1_def)
    with u' show ?thesis by blast
  qed
qed


lemma tdel_Tip: "tdel x t = Tip \<longleftrightarrow> t = Tip \<or> (node_of x t \<and> del_node x t = Tip)"
  by (cases t) (auto simp: node_of_def)

lemma locate_root: "node_of x t \<Longrightarrow> locate par q t x = (par, q, t)"
  by (cases t) (auto simp: node_of_def)

lemma locate_base: "t \<noteq> Tip \<Longrightarrow> locate par q t (root t) = (par, q, t)"
  by (cases t) auto

lemma del_node_member: "x \<noteq> c \<Longrightarrow> del_node x (Nd n c cs l r) = Nd n c (remove1 x cs) l r"
  by (simp add: del_node_def)

lemma unlink_located:
  assumes ok: "trees_ok s ts" and i: "i < 32" and x: "x \<in> set (chunks (ts ! i))"
    and lc: "locate (slot_of s i) (slot_of s i) (ts ! i) x = (p, q, t0)"
  shows "\<exists>s'. unlink_large_chunk s x = Some s' \<and> unlinked_at s i x p q t0 s'"
proof -
  note o = trees_okD [OF ok i]
  have th: "shape (heap s) i (slot_of s i) (ts ! i)" "heap s (slot_of s i) = Some (root (ts ! i))"
    "slot_of s i \<noteq> 0" using o(1) by (auto simp: tree_holds_def)
  note ln = locate_node [OF th(1) o(2) x th(2) o(4) [OF i] th(3) lc]
  obtain n c cs l r where t0: "t0 = Nd n c cs l r" and xin: "x \<in> set (c # cs)"
    using ln by (cases t0) (auto simp: node_of_def)
  have ck: "\<forall>y\<in>set (chunks t0). chunk_ok s y" using ln o(3) by auto
  show ?thesis
  proof (cases "x = c")
    case False
    then show ?thesis using unlink_ring_member [of s i p n c cs l r x q] ln ck xin by (auto simp: t0)
  next
    case True
    have sl: "slot_of s i \<notin> area (chunks t0)"
      using ln area_mono [of "chunks t0" "chunks (ts ! i)"] o(4) [OF i] by auto
    have "if x = root (ts ! i) then q = slot_of s i
        else ok_address s p \<and> pointed (heap s) t0 x p q"
    proof (cases "x = root (ts ! i)")
      case True
      have "ts ! i \<noteq> Tip" using x by auto
      from locate_base [OF this] have "locate (slot_of s i) (slot_of s i) (ts ! i) x
          = (slot_of s i, slot_of s i, ts ! i)" using True by simp
      with lc have "q = slot_of s i" by (metis prod.inject)
      then show ?thesis using True by simp
    next
      case False
      have "root t0 = x" using t0 \<open>x = c\<close> by simp
      with locate_pointer [OF th(1) o(2) x lc] False
      have "p \<in> set (chunks (ts ! i)) \<and> pointed (heap s) t0 x p q" by auto
      then show ?thesis using False o(3) [of p] by (simp add: chunk_ok_def)
    qed
    then show ?thesis
      using unlink_base [of i s "root (ts ! i)" n x cs l r p q] i th(2) sl ln ck unfolding t0 True by auto
  qed
qed

lemma unlink_large_chunk_refines:
  assumes ok: "trees_ok s ts" and i: "i < 32" and x: "x \<in> set (chunks (ts ! i))"
  shows "\<exists>s'. unlink_large_chunk s x = Some s' \<and> trees_ok s' (ts[i := tdel x (ts ! i)])
    \<and> (\<forall>a. a \<notin> area (chunks (ts ! i)) \<longrightarrow> a \<noteq> slot_of s i \<longrightarrow> heap s' a = heap s a)
    \<and> (\<exists>h m. s' = s\<lparr>heap := h, treemap := m\<rparr>)"
proof -
  let ?t = "ts ! i"
  note o = trees_okD [OF ok i]
  have th: "shape (heap s) i (slot_of s i) ?t" "heap s (slot_of s i) = Some (root ?t)"
    "slot_of s i \<noteq> 0" "bit (treemap s) i" "trie (bin_lo i) (bin_width i) ?t"
    "\<forall>n \<in> sizes ?t. bin_min i \<le> unat n"
    using o(1) x by (auto simp: tree_holds_def)
  obtain p q t0 where lc: "locate (slot_of s i) (slot_of s i) ?t x = (p, q, t0)" by (metis prod.exhaust)
  obtain s' where s': "unlink_large_chunk s x = Some s'" "unlinked_at s i x p q t0 s'"
    using unlink_located [OF ok i x lc] by blast
  note un = s'(2) [unfolded unlinked_at_def]
  note ins = locate_inside [OF x lc]
  have fr: "heap s' a = heap s a" if "a \<notin> area (chunks ?t)" "a \<noteq> slot_of s i" for a
    using un ins that area_mono [of "chunks t0" "chunks ?t"] by auto
  have eq: "s' = s\<lparr>heap := heap s', treemap := treemap s'\<rparr>" using un by blast
  have sel: "gm s' = gm s" "least_addr s' = least_addr s" by (subst eq, simp)+
  have tm: "treemap s' = (if heap s (slot_of s i) = Some x \<and> del_node x t0 = Tip
      then treemap s AND NOT (idx2bit (of_nat i)) else treemap s)"
    using un by blast
  have sh: "shape (heap s') i (slot_of s i) (tdel x ?t)" "heap s' (slot_of s i) = Some (root (tdel x ?t))"
    using locate_replace [OF th(1) o(2) x th(2) o(4) [OF i] lc, of "heap s'"] un by auto
  have tip: "tdel x ?t = Tip \<longleftrightarrow> heap s (slot_of s i) = Some x \<and> del_node x t0 = Tip"
  proof (cases "node_of x ?t")
    case True
    then have t0: "t0 = ?t" using lc locate_root by auto
    have "x = root ?t" if "del_node x ?t = Tip"
      using that True by (cases ?t) (auto simp: del_node_def node_of_def split: if_splits)
    moreover have "?t \<noteq> Tip" using x by auto
    ultimately show ?thesis using True th(2) by (auto simp: tdel_Tip t0)
  next
    case False
    then have "x \<noteq> root ?t" using x by (cases ?t) (auto simp: node_of_def)
    then show ?thesis using False th(2) x by (auto simp: tdel_Tip)
  qed
  have bits: "bit (treemap s') j \<longleftrightarrow> bit (treemap s) j \<and> (j = i \<longrightarrow> tdel x ?t \<noteq> Tip)" for j
    using tree.bit_clear [of "of_nat i" s j] i th(4) unfolding tm tip [symmetric]
    by (auto simp: clear_treemap_def unat_of_nat take_bit_nat_eq_self)
  note td = tdel_content [OF x o(2)]
  have "sizes (tdel x ?t) \<subseteq> sizes ?t"
    using td by (metis fst_content image_mono subset_insertI)
  then have mn: "\<forall>n \<in> sizes (tdel x ?t). bin_min i \<le> unat n" using th(6) by blast
  have "trees_ok s' (ts[i := tdel x ?t])"
  proof (rule trees_ok_change [OF ok i sel, where A = "{}"])
    have "slot_of s' i = slot_of s i" by (simp add: slot_of_def treebin_at_def sel)
    then show "tree_holds s' i (tdel x ?t)"
      using sh th(3,4,5) mn bits trie_tdel by (simp add: tree_holds_def)
    show "chunk_ok s y" if "y \<in> set (chunks (tdel x ?t))" for y
    proof -
      have "set (chunks (tdel x ?t)) \<subseteq> set (chunks ?t)"
        using td by (metis image_mono snd_content subset_insertI)
      then show ?thesis using that o(3) by auto
    qed
  qed (use td fr bits in auto)
  then show ?thesis using s'(1) fr eq by blast
qed


section \<open>The tree bins refine an array of tries\<close>

text \<open>A state with empty tree bins and one free chunk of 512 bytes, for the closed instances.\<close>

definition one_large :: "unit dl" where
  "one_large = upd blank 0x100008 0x201"

lemma one_large_sel [simp]: "gm one_large = 4096" "treemap one_large = 0" "least_addr one_large = 0"
  "heap one_large a = Some (if a = 0x100008 then 0x201 else 0)"
  by (simp_all add: one_large_def)

lemma one_large_slot: "i < 32 \<Longrightarrow> unat (slot_of one_large i) = 4696 + 8 * i"
  by (simp add: slot_of_eq unat_word_ariths unat_of_nat)

lemma one_large_cell: "unat (cell 0x100000 f) = 0x100000 + unat (off f)"
  by (cases f) (simp_all add: cell_def)

lemma one_large_trees: "trees_ok one_large (replicate 32 Tip)"
proof -
  have "slot_of one_large i \<noteq> 0 \<and> heap one_large (slot_of one_large i) = Some 0" if i: "i < 32" for i
  proof -
    have "unat (slot_of one_large i) \<noteq> unat (0 :: u64)" "unat (slot_of one_large i) \<noteq> unat (0x100008 :: u64)"
      using one_large_slot [OF i] i by simp_all
    then show ?thesis by auto
  qed
  then show ?thesis by (simp add: trees_ok_def tree_holds_def)
qed

lemma one_large_chunk: "in_no_tree one_large (replicate 32 Tip) 0x200 0x100000"
proof -
  have "slot_of one_large i \<noteq> cell 0x100000 f" if i: "i < 32" for i f
  proof -
    have "unat (slot_of one_large i) \<noteq> unat (cell 0x100000 f)"
      using one_large_slot [OF i] one_large_cell [of f] i by simp
    then show ?thesis by auto
  qed
  then show ?thesis
    by (auto simp: in_no_tree_def cells_def chunk_ok_def ok_address_def sized_def head_at_def
        has_def head_size_def)
qed

text \<open>C9. Inserting a free chunk of 256 bytes or more (and less than a tebibyte) into the
  tree bins adds it to the trie of the bin of its size, at the place the bits of the size
  say, and leaves every other bin as it is; the trie of the bin stays ordered.\<close>

theorem treebin_insert_refines:
  assumes "trees_ok s ts" and "in_no_tree s ts n x" and "256 \<le> unat n" and "unat n < 2 ^ 40"
  defines "i \<equiv> unat (compute_tree_index n)"
  shows "\<exists>s' t'. insert_large_chunk s x n = Some s' \<and> trees_ok s' (ts[i := t'])
    \<and> t' = tins (bin_width i) x n (ts ! i) \<and> content t' = insert (n, x) (content (ts ! i))"
  using insert_large_chunk_refines [OF assms(1-4), folded i_def] content_tins by blast

theorem treebin_insert_refines_witness:
  "\<exists>s'. insert_large_chunk one_large 0x100000 0x200 = Some s'
    \<and> trees_ok s' ((replicate 32 Tip)[2 := Nd 0x200 0x100000 [] Tip Tip])"
proof -
  have i: "unat (compute_tree_index 0x200) = 2"
    using compute_tree_index_eq(1) [of "0x200" 1] by (simp add: tree_bin_spec_def)
  show ?thesis
    using treebin_insert_refines [OF one_large_trees one_large_chunk] by (simp add: i)
qed

text \<open>C10. Unlinking a chunk of a tree bin, whether it is in the ring of a node, the base
  of a ring, a leaf or an inner node, removes exactly that chunk from the trie of the bin,
  clears the mark of the bin when it was the last one, and leaves every other bin as it is;
  no corruption check fires and the trie stays ordered.\<close>

theorem treebin_unlink_refines:
  assumes "trees_ok s ts" and "i < 32" and "x \<in> set (chunks (ts ! i))"
  shows "\<exists>s' t' n. unlink_large_chunk s x = Some s' \<and> trees_ok s' (ts[i := t'])
    \<and> content (ts ! i) = insert (n, x) (content t') \<and> x \<notin> set (chunks t')"
proof -
  note td = tdel_content [OF assms(3) trees_okD(2) [OF assms(1,2)]]
  have "distinct (x # chunks (tdel x (ts ! i)))" using td separate_distinct by blast
  then show ?thesis using unlink_large_chunk_refines [OF assms] td by auto
qed

theorem treebin_unlink_refines_witness:
  "\<exists>s s'. insert_large_chunk one_large 0x100000 0x200 = Some s
    \<and> unlink_large_chunk s 0x100000 = Some s'"
proof -
  have i: "unat (compute_tree_index 0x200) = 2"
    using compute_tree_index_eq(1) [of "0x200" 1] by (simp add: tree_bin_spec_def)
  obtain s where s: "insert_large_chunk one_large 0x100000 0x200 = Some s"
    "trees_ok s ((replicate 32 Tip)[2 := Nd 0x200 0x100000 [] Tip Tip])"
    using insert_large_chunk_refines [OF one_large_trees one_large_chunk] by (auto simp: i)
  show ?thesis using treebin_unlink_refines [OF s(2), of 2 "0x100000"] s(1) by auto
qed

end
