(* ===== verification/DlFit.thy ===== *)
theory DlFit
  imports DlMalloc DlTreeUnlink
begin

text \<open>
  The searches of \<open>tmalloc_small\<close> and \<open>tmalloc_large\<close> find the best fit: a smallest chunk
  of the tree bins among those that are large enough.
\<close>

section \<open>The walk to the left\<close>

fun leftbest :: "u64 \<Rightarrow> ttree \<Rightarrow> u64 \<times> u64 \<Rightarrow> u64 \<times> u64" where
  "leftbest nb Tip vr = vr"
| "leftbest nb (Nd n c cs l r) vr =
     (let vr = (if n - nb < snd vr then (c, n - nb) else vr)
      in if l \<noteq> Tip then leftbest nb l vr else leftbest nb r vr)"

lemma leftmost_walk_eq:
  "shape (heap s) i p t \<Longrightarrow> leftmost_walk s nb (root t) v rs = Some (leftbest nb t (v, rs))"
proof (induction t arbitrary: p v rs)
  case Tip
  then show ?case by (subst leftmost_walk.simps) simp
next
  case (Nd n c cs l r)
  have c: "c \<noteq> 0" "chunksize s c = Some n" "ld s (child_at c 0) = Some (root l)"
    "ld s (child_at c 1) = Some (root r)"
    using Nd.prems by (auto simp: node_at_def ld_def sized_chunksize)
  have z: "root l = 0 \<longleftrightarrow> l = Tip" using Nd.prems node_ptr by auto
  show ?case
    using Nd.IH(1) [of c] Nd.IH(2) [of c] Nd.prems c z
    by (subst leftmost_walk.simps) (auto simp: leftmost_child_def Let_def)
qed

text \<open>What a search has found: nothing better than \<open>vr\<close>, or a chunk of the set with its remainder.\<close>

definition found :: "u64 \<Rightarrow> (u64 \<times> u64) set \<Rightarrow> u64 \<times> u64 \<Rightarrow> u64 \<times> u64 \<Rightarrow> bool" where
  "found nb C vr vr' \<longleftrightarrow> vr' = vr \<or>
     (\<exists>n. (n, fst vr') \<in> C \<and> unat nb \<le> unat n \<and> snd vr' = n - nb \<and> snd vr' < snd vr)"

lemma found_mono: "found nb C vr vr' \<Longrightarrow> C \<subseteq> D \<Longrightarrow> found nb D vr vr'"
  by (auto simp: found_def)

lemma found_trans: "found nb C a b \<Longrightarrow> found nb C b c \<Longrightarrow> found nb C a c"
  by (auto simp: found_def)

lemma found_le: "found nb C vr vr' \<Longrightarrow> snd vr' \<le> snd vr"
  by (auto simp: found_def)

lemma sub_mono: "unat nb \<le> unat m \<Longrightarrow> unat m \<le> unat n \<Longrightarrow> m - nb \<le> n - (nb :: u64)"
  by (simp add: word_le_nat_alt unat_sub)

lemma leftbest_least:
  "trie lo w t \<Longrightarrow> \<forall>n \<in> sizes t. unat nb \<le> unat n \<Longrightarrow> found nb (content t) vr (leftbest nb t vr)
    \<and> (\<forall>n \<in> sizes t. snd (leftbest nb t vr) \<le> n - nb)"
proof (induction t arbitrary: lo w vr)
  case (Nd n c cs l r)
  define vr1 where "vr1 = (if n - nb < snd vr then (c, n - nb) else vr)"
  define sub where "sub = (if l \<noteq> Tip then l else r)"
  have eq: "leftbest nb (Nd n c cs l r) vr = leftbest nb sub vr1"
    by (simp add: vr1_def sub_def Let_def)
  have f1: "found nb (content (Nd n c cs l r)) vr vr1" "snd vr1 \<le> n - nb"
    using Nd.prems(2) by (auto simp: found_def vr1_def)
  have sub: "\<exists>lo w. trie lo w sub" "\<forall>n \<in> sizes sub. unat nb \<le> unat n"
    "content sub \<subseteq> content (Nd n c cs l r)"
    using Nd.prems by (cases "w = 0"; auto simp: sub_def)+
  then obtain lo' w' where "trie lo' w' sub" by blast
  with sub(2) have ih: "found nb (content sub) vr1 (leftbest nb sub vr1)
      \<and> (\<forall>n \<in> sizes sub. snd (leftbest nb sub vr1) \<le> n - nb)"
    using Nd.IH unfolding sub_def by (cases "l = Tip") auto
  have "found nb (content (Nd n c cs l r)) vr (leftbest nb sub vr1)"
    using found_trans [OF f1(1)] found_mono [OF _ sub(3)] ih by blast
  moreover have "snd (leftbest nb sub vr1) \<le> m - nb" if m: "m \<in> sizes (Nd n c cs l r)" for m
  proof -
    consider "m = n" | "m \<in> sizes sub" | "l \<noteq> Tip" "m \<in> sizes r"
      using m unfolding sub_def by (cases "l = Tip") auto
    then show ?thesis
    proof cases
      case 1
      then show ?thesis using found_le [of nb _ vr1] ih f1(2) by (meson order_trans)
    next
      case 2
      then show ?thesis using ih by blast
    next
      case 3
      then obtain k where k: "k \<in> sizes l" by (cases l) auto
      have w: "trie lo (w - 1) l" "trie (lo + 2 ^ (w - 1)) (w - 1) r"
        using Nd.prems(1) 3 by (auto split: if_splits)
      have "unat k \<le> unat m" using trie_sizes [OF w(1) k] trie_sizes [OF w(2) 3(2)] by simp
      then have "k - nb \<le> m - nb" using Nd.prems(2) k by (intro sub_mono) auto
      moreover have "snd (leftbest nb sub vr1) \<le> k - nb" using ih k 3(1) by (auto simp: sub_def)
      ultimately show ?thesis by simp
    qed
  qed
  ultimately show ?case unfolding eq by blast
qed (simp add: found_def)


section \<open>The walk for an exact size\<close>

lemma wrapped_remainder:
  assumes "n - nb < rs" and "unat rs + unat nb \<le> 2 ^ 64"
  shows "unat nb \<le> unat (n :: u64)"
proof (rule ccontr)
  assume "\<not> unat nb \<le> unat n"
  then have "unat (n - nb) = 2 ^ 64 + unat n - unat nb"
    by (simp add: unat_sub_if')
  with assms show False by (simp add: word_less_nat_alt)
qed

text \<open>\<open>walked\<close> says what the walk returns for the trie \<open>t\<close> and an untaken subtree \<open>rst\<close>: a
  subtree \<open>t'\<close> and a best chunk, such that every large enough size is matched by the chunk
  or by a size in \<open>t'\<close> that is not larger. After an exact fit \<open>t'\<close> does not matter.\<close>

definition walked :: "u64 \<Rightarrow> ttree \<Rightarrow> ttree \<Rightarrow> u64 \<times> u64 \<Rightarrow> ttree \<Rightarrow> u64 \<times> u64 \<Rightarrow> bool" where
  "walked nb t rst vr t' vr' \<longleftrightarrow> found nb (content t) vr vr'
     \<and> content t' \<subseteq> content t \<union> content rst
     \<and> (snd vr' = 0 \<or> (\<forall>k \<in> sizes t'. unat nb \<le> unat k))
     \<and> (\<forall>m \<in> sizes t \<union> sizes rst. unat nb \<le> unat m \<longrightarrow>
          snd vr' \<le> m - nb \<or> (\<exists>k \<in> sizes t'. unat k \<le> unat m))"

definition walk_result :: "heap \<Rightarrow> nat \<Rightarrow> u64 \<Rightarrow> ttree \<Rightarrow> ttree \<Rightarrow> u64 \<times> u64 \<Rightarrow>
    (u64 \<times> u64 \<times> u64) option \<Rightarrow> bool" where
  "walk_result h i nb t rst vr res \<longleftrightarrow> (\<exists>t' vr'. res = Some (root t', vr') \<and> walked nb t rst vr t' vr'
     \<and> (\<exists>q. shape h i q t') \<and> (\<exists>a b. trie a b t'))"

lemma walk_resultI:
  "res = Some (root t', vr') \<Longrightarrow> walked nb t rst vr t' vr' \<Longrightarrow> shape h i q t' \<Longrightarrow> trie a b t' \<Longrightarrow>
    walk_result h i nb t rst vr res"
  unfolding walk_result_def by blast

lemma walk_step:
  assumes node: "node_at (heap s) i p n c cs (root l) (root r)" and w: "0 < w" "w \<le> 64"
    and nz: "r \<noteq> Tip \<Longrightarrow> root r \<noteq> 0 \<and> root r \<noteq> root l" and z: "root sub = 0 \<longleftrightarrow> sub = Tip"
    and nf: "\<not> (n - nb < rs \<and> n - nb = 0)"
    and b: "b = bit nb (w - 1)" and vr: "vr = (if n - nb < rs then (c, n - nb) else (v, rs))"
    and sub: "sub = (if b then r else l)" and rst1: "rst1 = (if \<not> b \<and> r \<noteq> Tip then r else rst)"
  shows "tree_walk s nb c v rs (push_bit (64 - w) nb) (root rst) =
    (if sub = Tip then Some (root rst1, fst vr, snd vr)
     else tree_walk s nb (root sub) (fst vr) (snd vr) (push_bit (64 - (w - 1)) nb) (root rst1))"
proof -
  have m: "chunksize s c = Some n" "ld s (child_at c 1) = Some (root r)"
    "ld s (child_at c (drop_bit 63 (push_bit (64 - w) nb) AND 1)) = Some (root sub)"
  proof -
    show "chunksize s c = Some n" "ld s (child_at c 1) = Some (root r)"
      using node by (auto simp: node_at_def ld_def sized_chunksize)
    show "ld s (child_at c (drop_bit 63 (push_bit (64 - w) nb) AND 1)) = Some (root sub)"
      using node unfolding next_bit [OF w] b [symmetric] sub
      by (cases b) (auto simp: node_at_def ld_def)
  qed
  have rs1: "(if root r \<noteq> 0 \<and> root r \<noteq> root sub then root r else root rst) = root rst1"
    using nz by (cases b; cases "r = Tip") (auto simp: sub rst1)
  show ?thesis
    by (subst tree_walk.simps)
      (simp only: m Option.bind.bind_lunit Let_def nf if_False rs1 next_bits [OF w] z vr [symmetric]
        split_beta)
qed

lemma tree_walk_walked:
  assumes "shape (heap s) i p t" and "t \<noteq> Tip" and "trie lo w t" and "lo mod 2 ^ w = 0"
    and "lo \<le> unat nb" and "unat nb < lo + 2 ^ w" and "w \<le> 64"
    and "shape (heap s) i p' rst" and "trie lo' w' rst" and "\<forall>k \<in> sizes rst. lo + 2 ^ w \<le> unat k"
    and "0 < rs" and "unat rs + unat nb \<le> 2 ^ 64" and "distinct (chunks t)"
  shows "walk_result (heap s) i nb t rst (v, rs)
    (tree_walk s nb (root t) v rs (push_bit (64 - w) nb) (root rst))"
  using assms
proof (induction t arbitrary: p lo w p' rst lo' w' v rs)
  case (Nd n c cs l r)
  have node: "chunksize s c = Some n" "ld s (cell c Right) = Some (root r)" "ld s (cell c Left) = Some (root l)"
    and sl: "shape (heap s) i c l" and sr: "shape (heap s) i c r"
    using Nd.prems(1) by (auto simp: node_at_def ld_def sized_chunksize folds)
  have z: "root l = 0 \<longleftrightarrow> l = Tip" "root r = 0 \<longleftrightarrow> r = Tip" using sl sr node_ptr by auto
  have big: "unat nb \<le> unat k" if "k \<in> sizes rst" for k
    using Nd.prems(6,10) that by (meson le_less_trans less_imp_le order_trans)
  let ?step = "tree_walk s nb c v rs (push_bit (64 - w) nb) (root rst)"
  show ?case
  proof (cases "n - nb < rs \<and> n - nb = 0")
    case True
    then have "?step = Some (c, c, 0)"
      using node Nd.prems(11) by (subst tree_walk.simps) (simp add: folds)
    moreover have "walked nb (Nd n c cs l r) rst (v, rs) (Nd n c cs l r) (c, 0)"
      using True by (auto simp: walked_def found_def)
    ultimately show ?thesis
      using Nd.prems(1,3) by (intro walk_resultI [where t' = "Nd n c cs l r"]) (simp_all only: root.simps)
  next
    case False
    define vr where "vr = (if n - nb < rs then (c, n - nb) else (v, rs))"
    have vr: "0 < snd vr" "unat (snd vr) + unat nb \<le> 2 ^ 64" "snd vr \<le> rs"
    proof -
      show "0 < snd vr" using False Nd.prems(11) by (auto simp: vr_def word_gt_0)
      show "snd vr \<le> rs" by (auto simp: vr_def)
      then have "unat (snd vr) \<le> unat rs" by (simp only: word_le_nat_alt)
      then show "unat (snd vr) + unat nb \<le> 2 ^ 64" using Nd.prems(12) by linarith
    qed
    have fv: "found nb (content (Nd n c cs l r)) (v, rs) vr"
      using wrapped_remainder [OF _ Nd.prems(12)] by (auto simp: found_def vr_def)
    have nv: "snd vr \<le> n - nb" by (auto simp: vr_def)
    note nf = False
    have w: "0 < w"
    proof (rule ccontr)
      assume "\<not> 0 < w"
      then have "unat n = unat nb" using Nd.prems(3,5,6) by simp
      then have "n = nb" by (simp only: word_unat_eq_iff)
      then show False using nf Nd.prems(11) by simp
    qed
    define b where "b = bit nb (w - 1)"
    define sub where "sub = (if b then r else l)"
    define rst1 where "rst1 = (if \<not> b \<and> r \<noteq> Tip then r else rst)"
    define lo1 where "lo1 = (if b then lo + 2 ^ (w - 1) else lo)"
    note w2 = two_halves [OF w] and half = half_aligned [OF Nd.prems(4) w]
    note bi = bit_interval [OF Nd.prems(4-6) w, folded b_def]
    have tl: "trie lo (w - 1) l" and tr: "trie (lo + 2 ^ (w - 1)) (w - 1) r"
      using Nd.prems(3) w by auto
    note ts = trie_sizes [OF tl] trie_sizes [OF tr]
    have pre: "trie lo1 (w - 1) sub" "lo1 mod 2 ^ (w - 1) = 0" "lo1 \<le> unat nb" "unat nb < lo1 + 2 ^ (w - 1)"
      "shape (heap s) i c sub" "distinct (chunks sub)"
      using tl tr half bi Nd.prems(5,6,13) w2 sl sr by (auto simp: sub_def lo1_def)
    have r1: "\<exists>q. shape (heap s) i q rst1" "\<exists>a b. trie a b rst1" "\<forall>k \<in> sizes rst1. lo1 + 2 ^ (w - 1) \<le> unat k"
    proof -
      show "\<exists>q. shape (heap s) i q rst1" "\<exists>a b. trie a b rst1"
        using sr tr Nd.prems(8,9) by (auto simp: rst1_def)
      show "\<forall>k \<in> sizes rst1. lo1 + 2 ^ (w - 1) \<le> unat k"
      proof
        fix k assume "k \<in> sizes rst1"
        then show "lo1 + 2 ^ (w - 1) \<le> unat k"
          using ts(2) [of k] Nd.prems(10) w2 by (fastforce simp: rst1_def lo1_def split: if_splits)
      qed
    qed
    have ge: "unat nb \<le> unat k" if "k \<in> sizes rst1" for k
      using r1(3) pre(4) that by (meson less_imp_le order_trans)
    have roots: "root r \<noteq> root l" if "r \<noteq> Tip"
    proof (cases "l = Tip")
      case False
      then show ?thesis using root_in [OF that] root_in [OF False] Nd.prems(13) by (auto simp: disjoint_iff)
    qed (use that z in simp)
    have step: "?step = (if sub = Tip then Some (root rst1, fst vr, snd vr)
        else tree_walk s nb (root sub) (fst vr) (snd vr) (push_bit (64 - (w - 1)) nb) (root rst1))"
    proof (rule walk_step)
      show "node_at (heap s) i p n c cs (root l) (root r)" using Nd.prems(1) by simp
      show "root sub = 0 \<longleftrightarrow> sub = Tip" using z by (simp add: sub_def)
      show "\<not> (n - nb < rs \<and> n - nb = 0)" by (rule nf)
    qed (use w Nd.prems(7) roots z in \<open>auto simp: sub_def rst1_def b_def vr_def\<close>)
    have "walk_result (heap s) i nb sub rst1 vr ?step"
    proof (cases "sub = Tip")
      case True
      have "walked nb sub rst1 vr rst1 vr"
        using True ge by (auto simp: walked_def found_def)
      then show ?thesis using step True r1 by (auto intro: walk_resultI)
    next
      case False
      obtain q a e where q: "shape (heap s) i q rst1" "trie a e rst1" using r1 by blast
      have "w - 1 \<le> 64" using Nd.prems(7) by simp
      then have "walk_result (heap s) i nb sub rst1 (fst vr, snd vr)
        (tree_walk s nb (root sub) (fst vr) (snd vr) (push_bit (64 - (w - 1)) nb) (root rst1))"
        using Nd.IH(1) [where p = c and v = "fst vr", OF _ _ _ pre(2-4) _ q r1(3) vr(1,2)]
          Nd.IH(2) [where p = c and v = "fst vr", OF _ _ _ pre(2-4) _ q r1(3) vr(1,2)] pre(1,5,6) False
        unfolding sub_def by (cases b) simp_all
      then show ?thesis using step False by simp
    qed
    then obtain t' vr' where t': "?step = Some (root t', vr')" "walked nb sub rst1 vr t' vr'"
      "\<exists>q. shape (heap s) i q t'" "\<exists>a b. trie a b t'" unfolding walk_result_def by blast
    have "walked nb (Nd n c cs l r) rst (v, rs) t' vr'"
      unfolding walked_def
    proof (intro conjI ballI impI)
      note wk = t'(2) [unfolded walked_def]
      have cs: "content sub \<subseteq> content (Nd n c cs l r)" by (auto simp: sub_def)
      show "found nb (content (Nd n c cs l r)) (v, rs) vr'"
        using found_trans [OF fv found_mono [OF _ cs]] wk by blast
      show "content t' \<subseteq> content (Nd n c cs l r) \<union> content rst"
        using wk cs by (auto simp: rst1_def split: if_splits)
      show "snd vr' = 0 \<or> (\<forall>k\<in>sizes t'. unat nb \<le> unat k)" using wk by blast
      fix m assume m: "m \<in> sizes (Nd n c cs l r) \<union> sizes rst" "unat nb \<le> unat m"
      have ih: "snd vr' \<le> k - nb \<or> (\<exists>j\<in>sizes t'. unat j \<le> unat k)"
        if "k \<in> sizes sub \<union> sizes rst1" "unat nb \<le> unat k" for k using wk that by blast
      consider "m = n" | "m \<in> sizes sub \<union> sizes rst1" | "b" "m \<in> sizes l"
        | "\<not> b" "r \<noteq> Tip" "m \<in> sizes rst"
        using m(1) by (cases b; cases "r = Tip") (auto simp: sub_def rst1_def)
      then show "snd vr' \<le> m - nb \<or> (\<exists>k\<in>sizes t'. unat k \<le> unat m)"
      proof cases
        case 1
        have "snd vr' \<le> snd vr" using wk found_le by blast
        with nv 1 show ?thesis by (meson order_trans)
      next
        case 2
        then show ?thesis using ih m(2) by blast
      next
        case 3
        then show ?thesis using ts(1) [of m] bi m(2) by simp
      next
        case 4
        then obtain k where k: "k \<in> sizes r" by (cases r) auto
        have km: "unat k \<le> unat m" using ts(2) [OF k] Nd.prems(10) 4(3) w2 by fastforce
        have nk: "unat nb \<le> unat k" using ts(2) [OF k] bi 4(1) by simp
        have "k \<in> sizes rst1" using k 4 by (simp add: rst1_def)
        then have "snd vr' \<le> k - nb \<or> (\<exists>j\<in>sizes t'. unat j \<le> unat k)" using ih nk by blast
        moreover have "k - nb \<le> m - nb" using nk km by (rule sub_mono)
        ultimately show ?thesis using km by (meson order_trans)
      qed
    qed
    with t' show ?thesis unfolding root.simps by (auto intro: walk_resultI)
  qed
qed simp


lemma leftbest_zero: "snd vr = 0 \<Longrightarrow> leftbest nb t vr = vr"
  by (induction t) auto

section \<open>The bins are ordered\<close>

lemma bin_min_Suc: "bin_min (Suc i) = bin_min i + 2 ^ (i div 2 + 7)"
proof (cases "even i")
  case True
  then have "Suc i div 2 = i div 2" "Suc i mod 2 = 1" "i mod 2 = 0" by (auto elim: evenE)
  then show ?thesis by (simp add: bin_min_def)
next
  case False
  then have "Suc i div 2 = Suc (i div 2)" "Suc i mod 2 = 0" "i mod 2 = 1" by (auto elim: oddE)
  then show ?thesis by (simp add: bin_min_def power_add)
qed

lemma bin_min_mono: "i \<le> j \<Longrightarrow> bin_min i \<le> bin_min j"
  by (rule lift_Suc_mono_le [of bin_min]) (simp_all add: bin_min_Suc)

lemma bin_min_256: "256 \<le> bin_min i"
  using bin_min_mono [of 0 i] by (simp add: bin_min_def)

lemma tree_bin_sizes:
  assumes "trees_ok s ts" and "i < 32" and "n \<in> sizes (ts ! i)"
  shows "bin_min i \<le> unat n" and "i < j \<Longrightarrow> j < 32 \<Longrightarrow> unat n < bin_min j"
proof -
  have h: "trie (bin_lo i) (bin_width i) (ts ! i)" "\<forall>n \<in> sizes (ts ! i). bin_min i \<le> unat n"
    using trees_okD(1) [OF assms(1,2)] by (auto simp: tree_holds_def)
  show "bin_min i \<le> unat n" using h(2) assms(3) by blast
  show "unat n < bin_min j" if "i < j" "j < 32"
  proof -
    have "i \<noteq> 31" using that by simp
    then have "unat n < bin_min (Suc i)"
      using trie_sizes [OF h(1) assms(3)] by (simp add: bin_lo_def bin_width_def bin_min_Suc)
    also have "\<dots> \<le> bin_min j" using that(1) by (intro bin_min_mono) simp
    finally show ?thesis .
  qed
qed

definition stored :: "ttree list \<Rightarrow> (u64 \<times> u64) set" where
  "stored ts = (\<Union>i<32. content (ts ! i))"

text \<open>The smallest chunk that has \<open>nb\<close> bytes.\<close>

definition best_fit :: "ttree list \<Rightarrow> u64 \<Rightarrow> u64 \<Rightarrow> u64 \<Rightarrow> bool" where
  "best_fit ts nb n v \<longleftrightarrow> (n, v) \<in> stored ts \<and> nb \<le> n \<and> (\<forall>(m, y) \<in> stored ts. nb \<le> m \<longrightarrow> n \<le> m)"

lemma stored_size: "(m, y) \<in> stored ts \<Longrightarrow> \<exists>i<32. m \<in> sizes (ts ! i)"
  unfolding stored_def by (force simp: fst_content [symmetric])

lemma content_nonzero:
  "shape h i p t \<Longrightarrow> (n, v) \<in> content t \<Longrightarrow> v \<noteq> 0"
  by (induction t arbitrary: p) (auto simp: node_at_def)

lemma tree_of:
  assumes "trees_ok s ts" and "i < 32"
  shows "ld s (treebin_at s (of_nat i)) = Some (root (ts ! i))"
    and "\<exists>p. shape (heap s) i p (ts ! i)" and "trie (bin_lo i) (bin_width i) (ts ! i)"
    and "bit (treemap s) i \<longleftrightarrow> ts ! i \<noteq> Tip" and "distinct (chunks (ts ! i))"
  using trees_okD(1,2) [OF assms] separate_distinct by (auto simp: tree_holds_def slot_of_def ld_def)

lemma sub_le_cancel:
  assumes "unat nb \<le> unat n" and "unat nb \<le> unat m" and "n - nb \<le> m - (nb :: u64)"
  shows "n \<le> m"
  using assms by (simp add: word_le_nat_alt unat_sub)

text \<open>A best chunk of a bin is a best chunk of all when the lower bins are too small.\<close>

lemma best_fit_of_bin:
  assumes ok: "trees_ok s ts" and i: "i < 32" and v: "(n, v) \<in> content (ts ! i)" and nb: "nb \<le> n"
    and least: "\<And>m. m \<in> sizes (ts ! i) \<Longrightarrow> nb \<le> m \<Longrightarrow> n \<le> m"
    and low: "\<And>j m. j < i \<Longrightarrow> m \<in> sizes (ts ! j) \<Longrightarrow> \<not> nb \<le> m"
  shows "best_fit ts nb n v"
proof -
  have ni: "n \<in> sizes (ts ! i)" using v by (force simp: fst_content [symmetric])
  have "n \<le> m" if m: "(m, y) \<in> stored ts" "nb \<le> m" for m y
  proof -
    obtain j where j: "j < 32" "m \<in> sizes (ts ! j)" using stored_size [OF m(1)] by blast
    consider "j < i" | "j = i" | "i < j" by linarith
    then show ?thesis
    proof cases
      case 3
      have "unat n < unat m"
        using tree_bin_sizes(2) [OF ok i ni 3 j(1)] tree_bin_sizes(1) [OF ok j] by simp
      then show ?thesis by (simp add: word_le_nat_alt)
    qed (use j m least low in auto)
  qed
  then show ?thesis using v nb i by (auto simp: best_fit_def stored_def)
qed

section \<open>A small request\<close>

lemma tmalloc_small_search:
  assumes ok: "trees_ok s ts" and tm: "treemap s \<noteq> 0" and nb: "unat nb \<le> 256"
  shows "\<exists>n v. best_fit ts nb n v \<and> tmalloc_small s nb = split_tree_chunk s v nb (n - nb) replace_dv"
proof -
  define i where "i = builtin_ctz (treemap s)"
  have k: "compute_bit2idx (least_bit (treemap s)) = of_nat i"
    using unat_compute_bit2idx [OF tm] by (metis i_def of_nat_unat ucast_id)
  note c = builtin_ctz_least [OF tm, folded i_def]
  note tf = tree_of [OF ok c(2)]
  obtain p where sh: "shape (heap s) i p (ts ! i)" using tf(2) by blast
  obtain n0 c0 cs l r where t: "ts ! i = Nd n0 c0 cs l r" using tf(4) c(1) by (cases "ts ! i") auto
  have ge: "unat nb \<le> unat m" if "m \<in> sizes (ts ! i)" for m
    using tree_bin_sizes(1) [OF ok c(2) that] nb bin_min_256 [of i] by linarith
  define sub where "sub = (if l \<noteq> Tip then l else r)"
  define vr where "vr = leftbest nb (ts ! i) (c0, n0 - nb)"
  have vr': "vr = leftbest nb sub (c0, n0 - nb)" by (simp add: vr_def t sub_def)
  have ch: "ld s (child_at c0 0) = Some (root l)" "ld s (child_at c0 1) = Some (root r)"
    "chunksize s c0 = Some n0" "root l = 0 \<longleftrightarrow> l = Tip" "shape (heap s) i c0 sub"
    using sh node_ptr [of "heap s" i c0 l] unfolding t
    by (auto simp: node_at_def ld_def sized_chunksize sub_def)
  have "leftmost_child s c0 = Some (root sub)" using ch by (simp add: leftmost_child_def sub_def)
  then have eq: "tmalloc_small s nb = split_tree_chunk s (fst vr) nb (snd vr) replace_dv"
    using tf(1) ch(3) leftmost_walk_eq [OF ch(5)]
    by (simp add: tmalloc_small_def k t vr' split_beta)
  have lb: "found nb (content (ts ! i)) (c0, n0 - nb) vr" "\<forall>m \<in> sizes (ts ! i). snd vr \<le> m - nb"
    using leftbest_least [OF tf(3), of nb "(c0, n0 - nb)"] ge by (simp_all add: vr_def)
  obtain n where n: "(n, fst vr) \<in> content (ts ! i)" "unat nb \<le> unat n" "snd vr = n - nb"
    using lb(1) ge [of n0] unfolding found_def t by auto
  have "best_fit ts nb n (fst vr)"
  proof (rule best_fit_of_bin [OF ok c(2) n(1)])
    show "n \<le> m" if "m \<in> sizes (ts ! i)" for m
      using sub_le_cancel [OF n(2) ge [OF that]] lb(2) that n(3) by simp
    show "\<not> nb \<le> m" if "j < i" "m \<in> sizes (ts ! j)" for j m
      using tree_of(4) [OF ok, of j] c(2,3) that by auto
  qed (use n(2) in \<open>simp add: word_le_nat_alt\<close>)
  with eq n(3) show ?thesis by auto
qed

section \<open>A large request\<close>

lemma neg_remainder:
  assumes "unat nb \<le> unat m" and "0 < unat (nb :: u64)"
  shows "m - nb < - nb"
proof -
  have "unat (- nb) = 2 ^ 64 - unat nb"
    using unat_sub_if' [of 0 nb] assms(2) by simp
  moreover have "unat m < 2 ^ 64" "unat (m - nb) = unat m - unat nb"
    using unsigned_less [of m] assms(1) by (simp_all add: unat_sub word_le_nat_alt)
  ultimately show ?thesis using assms(1) unfolding word_less_nat_alt by linarith
qed

text \<open>The search in the bin of the request itself.\<close>

lemma own_bin_search:
  assumes ok: "trees_ok s ts" and nb: "256 \<le> unat nb" "unat nb < 2 ^ 40"
  defines "idx \<equiv> compute_tree_index nb"
  defines "t \<equiv> ts ! unat idx"
  shows "walk_result (heap s) (unat idx) nb t Tip (0, - nb)
    (if root t \<noteq> 0 then tree_walk s nb (root t) 0 (- nb) (push_bit (leftshift_for_tree_index idx) nb) 0
     else Some (root t, 0, - nb))"
proof -
  note iv = tree_bin_interval [OF nb, folded idx_def]
  note tf = tree_of [OF ok iv(1), folded t_def]
  obtain p where sh: "shape (heap s) (unat idx) p t" using tf(2) by blast
  show ?thesis
  proof (cases "t = Tip")
    case True
    have "walked nb Tip Tip (0, - nb) Tip (0, - nb)" by (simp add: walked_def found_def)
    then show ?thesis using True by (intro walk_resultI [where t' = Tip]) auto
  next
    case False
    have "0 < unat nb" using nb(1) by simp
    moreover have "unat nb < 2 ^ 64" using unsigned_less [of nb] by simp
    ultimately have un: "unat (- nb) = 2 ^ 64 - unat nb" "unat nb < 2 ^ 64"
      using unat_sub_if' [of 0 nb] by simp_all
    then have u: "unat (- nb) + unat nb \<le> 2 ^ 64" "0 < - nb"
      unfolding word_less_nat_alt by simp_all
    have "walk_result (heap s) (unat idx) nb t Tip (0, - nb)
      (tree_walk s nb (root t) 0 (- nb) (push_bit (64 - bin_width (unat idx)) nb) (root Tip))"
      by (rule tree_walk_walked [OF sh False tf(3) bin_lo_aligned iv(2,3) bin_width_le [OF iv(1)] _ _ _ u(2,1) tf(5)])
        simp_all
    then show ?thesis
      using node_ptr [OF sh] False leftshift_width [of idx] iv(1) by simp
  qed
qed


lemma next_root_eq:
  assumes ok: "trees_ok s ts" and i: "unat idx < 32"
  shows "\<exists>u. next_tree_root s idx = Some (root u) \<and>
    (u = Tip \<and> (\<forall>j<32. unat idx < j \<longrightarrow> ts ! j = Tip)
     \<or> (\<exists>k<32. unat idx < k \<and> u = ts ! k \<and> u \<noteq> Tip \<and> (\<forall>j<k. unat idx < j \<longrightarrow> ts ! j = Tip)))"
proof (cases "left_bits (idx2bit idx) AND treemap s = 0")
  case True
  have "ts ! j = Tip" if "j < 32" "unat idx < j" for j
  proof -
    have "\<not> bit (left_bits (idx2bit idx) AND treemap s) j" using True by simp
    then show ?thesis
      using tree_of(4) [OF ok that(1)] that by (simp add: bit_and_iff bit_left_bits_idx2bit [OF i])
  qed
  then show ?thesis using True by (intro exI [of _ Tip]) (simp add: next_tree_root_def)
next
  case False
  define kw where "kw = compute_bit2idx (least_bit (left_bits (idx2bit idx) AND treemap s))"
  note nm = next_marked_bin [OF i False, folded kw_def]
  define k where "k = unat kw"
  have "next_tree_root s idx = Some (root (ts ! k))"
    using False tree_of(1) [OF ok, of k] nm by (simp add: next_tree_root_def kw_def [symmetric] k_def)
  moreover have "ts ! j = Tip" if "j < k" "unat idx < j" for j
    using nm that tree_of(4) [OF ok, of j] by (auto simp: k_def)
  moreover have "ts ! k \<noteq> Tip" using nm tree_of(4) [OF ok, of k] by (auto simp: k_def)
  ultimately show ?thesis using nm by (intro exI [of _ "ts ! k"]) (auto simp: k_def)
qed

lemma large_pick_best:
  assumes ok: "trees_ok s ts" and nb: "256 \<le> unat nb" "unat nb < 2 ^ 40"
  shows "(\<exists>n v. best_fit ts nb n v \<and> v \<noteq> 0 \<and> large_pick s nb = Some (v, n - nb))
    \<or> ((\<forall>(m, y) \<in> stored ts. m < nb) \<and> (\<exists>rs. large_pick s nb = Some (0, rs)))"
proof -
  define idx where "idx = compute_tree_index nb"
  define i where "i = unat idx"
  define t where "t = ts ! i"
  note iv = tree_bin_interval [OF nb, folded idx_def, folded i_def]
  note tf = tree_of [OF ok iv(1), folded t_def]
  have ii: "of_nat i = idx" by (simp add: i_def)
  obtain t' vr' p a e where w: "(if root t \<noteq> 0 then tree_walk s nb (root t) 0 (- nb)
        (push_bit (leftshift_for_tree_index idx) nb) 0 else Some (root t, 0, - nb)) = Some (root t', vr')"
    and wk: "walked nb t Tip (0, - nb) t' vr'" and sh: "shape (heap s) i p t'" and tr: "trie a e t'"
    using own_bin_search [OF ok nb] unfolding walk_result_def idx_def [symmetric] i_def [symmetric] t_def [symmetric]
    by blast
  have start: "large_pick s nb = do { u \<leftarrow> (if root t' = 0 \<and> fst vr' = 0 then next_tree_root s idx
      else Some (root t')); leftmost_walk s nb u (fst vr') (snd vr') }"
  proof -
    have "ld s (treebin_at s idx) = Some (root t)" using tf(1) by (simp add: ii)
    then show ?thesis
      unfolding large_pick_def Let_def idx_def [symmetric]
      by (simp only: Option.bind.bind_lunit w split_beta fst_conv snd_conv)
  qed
  have low: "\<not> nb \<le> m" if "j < i" "m \<in> sizes (ts ! j)" for j m
    using tree_bin_sizes(2) [OF ok _ that(2,1) iv(1)] that(1) iv(1,4) by (simp add: word_le_nat_alt)
  have pick: "\<exists>n v. best_fit ts nb n v \<and> v \<noteq> 0 \<and> Some vr = Some (v, n - nb)"
    if f: "found nb (content (ts ! k)) (0, - nb) vr" "vr \<noteq> (0, - nb)" and k: "k < 32"
      and le: "\<forall>m \<in> sizes (ts ! k). unat nb \<le> unat m \<longrightarrow> snd vr \<le> m - nb"
      and lo: "\<And>j m. j < k \<Longrightarrow> m \<in> sizes (ts ! j) \<Longrightarrow> \<not> nb \<le> m" for vr k
  proof -
    obtain n where n: "(n, fst vr) \<in> content (ts ! k)" "unat nb \<le> unat n" "snd vr = n - nb"
      using f by (auto simp: found_def)
    have "best_fit ts nb n (fst vr)"
      using le n sub_le_cancel [of nb n]
      by (intro best_fit_of_bin [OF ok k n(1) _ _ lo]) (auto simp: word_le_nat_alt)
    moreover have "fst vr \<noteq> 0" using content_nonzero n(1) tree_of(2) [OF ok k] by blast
    ultimately show ?thesis using n(3) by (metis prod.collapse)
  qed
  have nb0: "0 < unat nb" using nb(1) by simp
  show ?thesis
  proof (cases "t' = Tip \<and> fst vr' = 0")
    case True
    have v0: "vr' = (0, - nb)"
      using wk content_nonzero tf(2) True unfolding walked_def found_def by fastforce
    have none: "\<not> nb \<le> m" if m: "m \<in> sizes (ts ! i)" for m
    proof
      assume "nb \<le> m"
      then have le: "unat nb \<le> unat m" by (simp add: word_le_nat_alt)
      then have "- nb \<le> m - nb" using wk True m unfolding walked_def t_def v0 by auto
      with neg_remainder [OF le nb0] show False by simp
    qed
    obtain u where u: "next_tree_root s idx = Some (root u)"
      "u = Tip \<and> (\<forall>j<32. i < j \<longrightarrow> ts ! j = Tip)
       \<or> (\<exists>k<32. i < k \<and> u = ts ! k \<and> u \<noteq> Tip \<and> (\<forall>j<k. i < j \<longrightarrow> ts ! j = Tip))"
      using next_root_eq [OF ok iv(1) [unfolded i_def]] unfolding i_def by blast
    have st: "large_pick s nb = leftmost_walk s nb (root u) 0 (- nb)"
      using start True u(1) by (simp add: v0)
    from u(2) show ?thesis
    proof (elim disjE exE conjE)
      assume e: "u = Tip" "\<forall>j<32. i < j \<longrightarrow> ts ! j = Tip"
      have "m < nb" if m: "(m, y) \<in> stored ts" for m y
      proof -
        obtain j where j: "j < 32" "m \<in> sizes (ts ! j)" using stored_size [OF m] by blast
        consider "j < i" | "j = i" | "i < j" by linarith
        then show ?thesis
        proof cases
          case 1
          then show ?thesis using low j(2) not_le by blast
        next
          case 2
          then show ?thesis using none j(2) not_le by blast
        next
          case 3
          then have "ts ! j = Tip" using e(2) j(1) by blast
          then show ?thesis using j(2) by simp
        qed
      qed
      moreover have "large_pick s nb = Some (0, - nb)"
        using st leftmost_walk_eq [of s i 0 Tip nb 0 "- nb"] by (simp add: e(1))
      ultimately show ?thesis by blast
    next
      fix k assume k: "k < 32" "i < k" "u = ts ! k" "u \<noteq> Tip" "\<forall>j<k. i < j \<longrightarrow> ts ! j = Tip"
      have ge: "unat nb \<le> unat m" if "m \<in> sizes (ts ! k)" for m
      proof -
        have "unat nb < bin_lo i + 2 ^ bin_width i" by (rule iv(3))
        also have "\<dots> \<le> bin_min k"
          using bin_min_mono [of "Suc i" k] k(1,2) by (simp add: bin_lo_def bin_width_def bin_min_Suc)
        also have "\<dots> \<le> unat m" by (rule tree_bin_sizes(1) [OF ok k(1) that])
        finally show ?thesis by simp
      qed
      note tk = tree_of [OF ok k(1)]
      obtain q where "shape (heap s) k q (ts ! k)" using tk(2) by blast
      from leftmost_walk_eq [OF this]
      have lp: "large_pick s nb = Some (leftbest nb (ts ! k) (0, - nb))" using st k(3) by simp
      have lb: "found nb (content (ts ! k)) (0, - nb) (leftbest nb (ts ! k) (0, - nb))"
        "\<forall>m \<in> sizes (ts ! k). snd (leftbest nb (ts ! k) (0, - nb)) \<le> m - nb"
        using leftbest_least [OF tk(3), of nb "(0, - nb)"] ge by simp_all
      obtain m where m: "m \<in> sizes (ts ! k)" using k(3,4) by (cases "ts ! k") auto
      have "snd (leftbest nb (ts ! k) (0, - nb)) < - nb"
        using lb(2) m neg_remainder [OF ge [OF m] nb0] by (meson le_less_trans)
      then have ne: "leftbest nb (ts ! k) (0, - nb) \<noteq> (0, - nb)" by auto
      have lo: "\<not> nb \<le> m" if "j < k" "m \<in> sizes (ts ! j)" for j m
      proof -
        consider "j < i" | "j = i" | "i < j" by linarith
        then show ?thesis using low none k(5) that by cases auto
      qed
      show ?thesis using pick [OF lb(1) ne k(1) _ lo] lb(2) lp by auto
    qed
  next
    case False
    define vr where "vr = leftbest nb t' vr'"
    have "\<not> (root t' = 0 \<and> fst vr' = 0)" using node_ptr [OF sh] False by simp
    then have lp: "large_pick s nb = Some vr"
      unfolding start vr_def
      using leftmost_walk_eq [OF sh, of nb "fst vr'" "snd vr'"] by (simp only: if_not_P) simp
    have sub: "content t' \<subseteq> content t" using wk by (auto simp: walked_def)
    have gen: "found nb (content t) vr' vr \<and> (snd vr' \<noteq> 0 \<longrightarrow> (\<forall>k \<in> sizes t'. snd vr \<le> k - nb))"
    proof (cases "snd vr' = 0")
      case True
      then show ?thesis using leftbest_zero by (simp add: vr_def found_def)
    next
      case False
      then have "\<forall>k \<in> sizes t'. unat nb \<le> unat k" using wk by (simp add: walked_def)
      from leftbest_least [OF tr this, of vr'] show ?thesis
        using found_mono [OF _ sub] by (simp add: vr_def)
    qed
    have f: "found nb (content t) (0, - nb) vr"
      using found_trans [of nb "content t" "(0, - nb)" vr' vr] gen wk by (simp add: walked_def)
    have lev: "snd vr \<le> snd vr'" using gen found_le by blast
    have le: "snd vr \<le> m - nb" if m: "m \<in> sizes t" "unat nb \<le> unat m" for m
    proof -
      consider "snd vr' \<le> m - nb" | k where "snd vr' \<noteq> 0" "k \<in> sizes t'" "unat k \<le> unat m"
        using wk m unfolding walked_def by (metis UnI1 word_zero_le)
      then show ?thesis
      proof cases
        case 1
        then show ?thesis using lev by simp
      next
        case 2
        have "unat nb \<le> unat k" using 2 wk by (auto simp: walked_def)
        then have "k - nb \<le> m - nb" using 2(3) by (rule sub_mono)
        then show ?thesis using gen 2 by (meson order_trans)
      qed
    qed
    have "vr \<noteq> (0, - nb)"
    proof
      assume e: "vr = (0, - nb)"
      have "vr' = (0, - nb)"
      proof (rule ccontr)
        assume "vr' \<noteq> (0, - nb)"
        then have "snd vr' < - nb" using wk by (auto simp: walked_def found_def)
        with lev e show False by simp
      qed
      then have "t' \<noteq> Tip" using False by simp
      then obtain k where k: "k \<in> sizes t'" by (cases t') auto
      have "snd vr' \<noteq> 0" using \<open>vr' = (0, - nb)\<close> nb0 by auto
      then have "unat nb \<le> unat k" "snd vr \<le> k - nb" using wk gen k by (auto simp: walked_def)
      with neg_remainder [OF _ nb0, of k] e show False by simp
    qed
    from pick [OF f [unfolded t_def] this iv(1) _ low] le lp show ?thesis by (auto simp: t_def)
  qed
qed


section \<open>Best fit\<close>

text \<open>C12. A small request that goes to the tree bins is cut off a smallest chunk of all
  the tree bins, and what remains becomes the designated victim.\<close>

theorem tmalloc_small_best_fit:
  assumes "trees_ok s ts" and "treemap s \<noteq> 0" and "unat nb \<le> 256"
  shows "\<exists>n v. best_fit ts nb n v \<and> tmalloc_small s nb = split_tree_chunk s v nb (n - nb) replace_dv"
  by (rule tmalloc_small_search [OF assms])

text \<open>C11. A large request (below a tebibyte) is cut off a smallest chunk of the tree bins
  among those that are large enough, unless the designated victim fits as well; if no chunk of
  the tree bins is large enough the search returns null and changes nothing.\<close>

theorem tmalloc_large_best_fit:
  assumes "trees_ok s ts" and "256 \<le> unat nb" and "unat nb < 2 ^ 40"
  shows "(\<exists>n v. best_fit ts nb n v \<and> tmalloc_large s nb =
      (if n - nb < dvsize s - nb then split_tree_chunk s v nb (n - nb) insert_chunk else Some (0, s)))
    \<or> ((\<forall>(m, y) \<in> stored ts. m < nb) \<and> tmalloc_large s nb = Some (0, s))"
  using large_pick_best [OF assms] by (fastforce simp: tmalloc_large_def)

text \<open>The closed instances: one chunk of 512 bytes.\<close>

lemma one_large_inserted:
  "\<exists>s. insert_large_chunk one_large 0x100000 0x200 = Some s
    \<and> trees_ok s ((replicate 32 Tip)[2 := Nd 0x200 0x100000 [] Tip Tip])"
proof -
  have "unat (compute_tree_index 0x200) = 2"
    using compute_tree_index_eq(1) [of "0x200" 1] by (simp add: tree_bin_spec_def)
  with insert_large_chunk_refines [OF one_large_trees one_large_chunk] show ?thesis by simp blast
qed

lemma one_large_stored:
  "stored ((replicate 32 Tip)[2 := Nd 0x200 0x100000 [] Tip Tip]) = {(0x200, 0x100000)}"
  by (auto simp: stored_def nth_list_update split: if_splits)

theorem tmalloc_small_best_fit_witness:
  "\<exists>s. insert_large_chunk one_large 0x100000 0x200 = Some s
    \<and> tmalloc_small s 0x40 = split_tree_chunk s 0x100000 0x40 0x1C0 replace_dv"
proof -
  obtain s where s: "insert_large_chunk one_large 0x100000 0x200 = Some s"
    "trees_ok s ((replicate 32 Tip)[2 := Nd 0x200 0x100000 [] Tip Tip])"
    using one_large_inserted by blast
  have "bit (treemap s) 2" using tree_of(4) [OF s(2), of 2] by simp
  then have "treemap s \<noteq> 0" by auto
  from tmalloc_small_best_fit [OF s(2) this, of "0x40"] show ?thesis
    using s(1) by (auto simp: best_fit_def one_large_stored)
qed

theorem tmalloc_large_best_fit_witness:
  "\<exists>s. insert_large_chunk one_large 0x100000 0x200 = Some s
    \<and> tmalloc_large s 0x300 = Some (0, s)"
proof -
  obtain s where s: "insert_large_chunk one_large 0x100000 0x200 = Some s"
    "trees_ok s ((replicate 32 Tip)[2 := Nd 0x200 0x100000 [] Tip Tip])"
    using one_large_inserted by blast
  from tmalloc_large_best_fit [OF s(2), of "0x300"] show ?thesis
    using s(1) by (auto simp: best_fit_def one_large_stored)
qed

end
