(* ===== verification/DlPool.thy ===== *)
theory DlPool
  imports DlFit
begin

text \<open>
  The small bins and the tree bins together: the pool of free chunks. \<open>pool s fr\<close> says that
  the bins of the state hold the chunks \<open>fr\<close>, pairs of an address and a size, and that no
  two of them overlap. Inserting and unlinking a chunk of any size are the insertion and
  the removal of a pair, and store only inside free chunks and in the static bins.
\<close>

section \<open>The words of a chunk\<close>

text \<open>A chunk owns its head and everything up to the head of the next one; the links of a
  free chunk lie strictly inside, between its head and its foot.\<close>

definition own :: "u64 \<Rightarrow> u64 \<Rightarrow> u64 set" where
  "own p n = {a. unat p + 8 \<le> unat a \<and> unat a < unat p + unat n + 8}"

definition inner :: "u64 \<Rightarrow> u64 \<Rightarrow> u64 set" where
  "inner p n = {a. unat p + 16 \<le> unat a \<and> unat a < unat p + unat n}"

definition statics :: "'o dl \<Rightarrow> u64 set" where
  "statics s = {a. unat (gm s) \<le> unat a \<and> unat a < unat (gm s) + 856}"

definition fits :: "'o dl \<Rightarrow> u64 \<Rightarrow> u64 \<Rightarrow> bool" where
  "fits s p n \<longleftrightarrow> 0 < unat p \<and> ok_address s p \<and> 32 \<le> unat n \<and> unat n mod 16 = 0
     \<and> unat n < 2 ^ 40 \<and> unat p + unat n + 8 < 2 ^ 64 \<and> own p n \<inter> statics s = {}"

definition spaced :: "'o dl \<Rightarrow> (u64 \<times> u64) set \<Rightarrow> bool" where
  "spaced s fr \<longleftrightarrow> unat (gm s) + 856 \<le> 2 ^ 64 \<and> (\<forall>p n. (p, n) \<in> fr \<longrightarrow> fits s p n)
     \<and> (\<forall>p n q m. (p, n) \<in> fr \<longrightarrow> (q, m) \<in> fr \<longrightarrow> (p, n) \<noteq> (q, m) \<longrightarrow> own p n \<inter> own q m = {})"

lemma unat_nat64: "k < 2 ^ 64 \<Longrightarrow> unat (of_nat k :: u64) = k"
  by (simp add: unsigned_of_nat take_bit_nat_eq_self)

lemma eq_nat64: "k < 2 ^ 64 \<Longrightarrow> (n :: u64) = of_nat k \<longleftrightarrow> unat n = k"
  by (simp only: word_unat_eq_iff unat_nat64)

lemma inner_own: "inner p n \<subseteq> own p n"
  by (auto simp: inner_def own_def)

lemma unat_cell:
  assumes "unat p + 64 < 2 ^ 64"
  shows "unat (cell p f) = unat p + unat (off f)"
  using assms by (cases f) (simp_all add: cell_def unat_word_ariths)

lemma links_inner:
  assumes "32 \<le> unat n" "unat p + unat n + 8 < 2 ^ 64"
  shows "fd_at p \<in> inner p n" "bk_at p \<in> inner p n" "head_at p \<in> own p n" "head_at p \<notin> inner p n"
  using assms by (auto simp: inner_def own_def fd_at_def bk_at_def head_at_def unat_word_ariths)

lemma foot_own:
  assumes "32 \<le> unat n" "unat p + unat n + 8 < 2 ^ 64"
  shows "p + n \<in> own p n" "p + n \<notin> inner p n" "p + n \<noteq> head_at p"
proof -
  have "unat (p + n) = unat p + unat n" using assms by (simp add: unat_word_ariths)
  then show "p + n \<in> own p n" "p + n \<notin> inner p n" using assms by (auto simp: own_def inner_def)
  then show "p + n \<noteq> head_at p" using assms by (auto simp: own_def head_at_def)
qed

lemma cells_own:
  assumes "256 \<le> unat n" "unat p + unat n + 8 < 2 ^ 64"
  shows "cells p \<subseteq> own p n" "a \<in> cells p \<Longrightarrow> a \<noteq> head_at p \<Longrightarrow> a \<in> inner p n"
proof -
  have u: "unat (cell p f) = unat p + unat (off f)" for f using assms by (intro unat_cell) simp
  have b: "unat (off f) \<ge> 8 \<and> unat (off f) \<le> 56 \<and> (f \<noteq> Head \<longrightarrow> 16 \<le> unat (off f))" for f
    by (cases f) simp_all
  have "cell p f \<in> own p n" for f using u [of f] b [of f] assms by (simp add: own_def)
  then show "cells p \<subseteq> own p n" by (auto simp: cells_def)
  show "a \<in> inner p n" if "a \<in> cells p" "a \<noteq> head_at p"
  proof -
    obtain f where f: "a = cell p f" using \<open>a \<in> cells p\<close> unfolding cells_def by blast
    have "f \<noteq> Head" using that(2) f by (auto simp: folds)
    then show ?thesis using u b [of f] assms by (auto simp: f inner_def)
  qed
qed

lemma bin_node_static:
  assumes "unat (gm s) + 856 \<le> 2 ^ 64" and "i < 32"
  shows "fd_at (bin_node s i) \<in> statics s" "bk_at (bin_node s i) \<in> statics s"
    and "j < 32 \<Longrightarrow> fd_at (bin_node s i) \<noteq> slot_of s j" "j < 32 \<Longrightarrow> bk_at (bin_node s i) \<noteq> slot_of s j"
proof -
  have u: "unat (gm s + of_nat k) = unat (gm s) + k" if "k < 856" for k
    using assms(1) unat_nat64 [of k] that by (simp add: unat_word_ariths)
  have eq: "fd_at (bin_node s i) = gm s + of_nat (88 + 16 * i)" "bk_at (bin_node s i) = gm s + of_nat (96 + 16 * i)"
    by (simp_all add: fd_at_def bk_at_def bin_node_eq assms)
  show "fd_at (bin_node s i) \<in> statics s" "bk_at (bin_node s i) \<in> statics s"
    unfolding eq statics_def using u [of "88 + 16 * i"] u [of "96 + 16 * i"] assms(2) by simp_all
  show "fd_at (bin_node s i) \<noteq> slot_of s j" "bk_at (bin_node s i) \<noteq> slot_of s j" if "j < 32"
    unfolding eq slot_of_eq [OF that] add_left_cancel
    using assms(2) that by (subst of_nat_u64_eq_iff; simp)+
qed

lemma slot_static:
  assumes "unat (gm s) + 856 \<le> 2 ^ 64" and "j < 32"
  shows "slot_of s j \<in> statics s"
proof -
  have "unat (of_nat (600 + 8 * j) :: u64) = 600 + 8 * j"
    using assms(2) by (intro unat_nat64) simp
  then have "unat (gm s + of_nat (600 + 8 * j)) = unat (gm s) + (600 + 8 * j)"
    using assms by (simp add: unat_word_ariths)
  then show ?thesis using assms unfolding slot_of_eq [OF assms(2)] statics_def by simp
qed

section \<open>The pool of free chunks\<close>

definition binned :: "u64 list list \<Rightarrow> ttree list \<Rightarrow> (u64 \<times> u64) set" where
  "binned ls ts = {(p, n). (\<exists>i<32. p \<in> set (ls ! i) \<and> n = of_nat (8 * i)) \<or> (n, p) \<in> stored ts}"

definition pool :: "'o dl \<Rightarrow> (u64 \<times> u64) set \<Rightarrow> bool" where
  "pool s fr \<longleftrightarrow> spaced s fr \<and> (\<exists>ls ts. bins_ok s ls \<and> trees_ok s ts \<and> binned ls ts = fr)"

lemma is_small_iff: "is_small n \<longleftrightarrow> unat n < 256"
proof -
  have "unat (drop_bit 3 n) = unat n div 8" by (simp only: unat_drop_bit) simp
  then show ?thesis by (auto simp: is_small_def word_less_nat_alt)
qed

lemma unat_small_index_eq: "is_small n \<Longrightarrow> unat (small_index n) = unat n div 8"
proof -
  assume "is_small n"
  moreover have "unat (drop_bit 3 n) = unat n div 8" by (simp only: unat_drop_bit) simp
  ultimately show ?thesis
    by (simp add: is_small_iff small_index_def unsigned_ucast_eq take_bit_nat_eq_self)
qed

lemma stored_big: "trees_ok s ts \<Longrightarrow> (n, p) \<in> stored ts \<Longrightarrow> 256 \<le> unat n"
  using stored_size tree_bin_sizes(1) bin_min_256 by (meson order_trans)

lemma binned_small:
  assumes "trees_ok s ts" "is_small n" "unat n mod 8 = 0"
  shows "(p, n) \<in> binned ls ts \<longleftrightarrow> p \<in> set (ls ! unat (small_index n))"
proof -
  define k where "k = unat n div 8"
  have lt: "unat n < 256" using assms(2) by (simp add: is_small_iff)
  then have k: "k < 32" "unat n = 8 * k" using assms(3) by (auto simp: k_def)
  have n: "n = of_nat (8 * i) \<longleftrightarrow> i = k" if "i < 32" for i
  proof -
    have "n = of_nat (8 * i) \<longleftrightarrow> unat n = 8 * i" using that by (intro eq_nat64) simp
    then show ?thesis unfolding k(2) by auto
  qed
  have "(n, p) \<notin> stored ts" using stored_big [OF assms(1), of n p] lt by linarith
  then show ?thesis
    using n k(1) unfolding unat_small_index_eq [OF assms(2)] k_def [symmetric] binned_def mem_Collect_eq prod.case
    by blast
qed

lemma binned_large: "\<not> is_small n \<Longrightarrow> (p, n) \<in> binned ls ts \<longleftrightarrow> (n, p) \<in> stored ts"
proof -
  assume n: "\<not> is_small n"
  have "n \<noteq> of_nat (8 * i)" if "i < 32" for i
    using n that unat_nat64 [of "8 * i"] by (auto simp: is_small_iff)
  then show ?thesis by (auto simp: binned_def)
qed

lemma binned_member: "i < 32 \<Longrightarrow> p \<in> set (ls ! i) \<Longrightarrow> (p, of_nat (8 * i)) \<in> binned ls ts"
  by (auto simp: binned_def)

lemma binned_chunk: "i < 32 \<Longrightarrow> p \<in> set (chunks (ts ! i)) \<Longrightarrow> \<exists>n. (p, n) \<in> binned ls ts \<and> (n, p) \<in> content (ts ! i)"
  unfolding binned_def stored_def snd_content [symmetric] by fastforce

lemma binned_insert_small:
  assumes "length ls = 32" "i < 32"
  shows "binned (ls[i := p # ls ! i]) ts = insert (p, of_nat (8 * i)) (binned ls ts)"
proof -
  have "(\<exists>j<32. q \<in> set (ls[i := p # ls ! i] ! j) \<and> n = of_nat (8 * j))
    \<longleftrightarrow> (q = p \<and> n = of_nat (8 * i)) \<or> (\<exists>j<32. q \<in> set (ls ! j) \<and> n = of_nat (8 * j))" for q and n :: u64
    using assms by (auto simp: nth_list_update split: if_splits)
  then show ?thesis by (auto simp: binned_def)
qed

lemma binned_insert_large:
  assumes "length ts = 32" "i < 32" "content t = insert (n, p) (content (ts ! i))"
  shows "binned ls (ts[i := t]) = insert (p, n) (binned ls ts)"
proof -
  have "stored (ts[i := t]) = insert (n, p) (stored ts)"
    using assms by (auto simp: stored_def nth_list_update split: if_splits)
  then show ?thesis by (auto simp: binned_def)
qed

lemma binned_unlink_small:
  assumes ok: "bins_ok s ls" "trees_ok s ts" and i: "i < 32" and l: "ls ! i = ps @ p # qs"
  shows "binned (ls[i := ps @ qs]) ts = binned ls ts - {(p, of_nat (8 * i))}"
proof -
  have len: "length ls = 32" using ok(1) by (simp add: bins_ok_def)
  have d: "p \<notin> set ps" "p \<notin> set qs" using bins_okD(1) [OF ok(1) i] by (auto simp: ring_def l)
  have eq: "(of_nat (8 * j) :: u64) = of_nat (8 * i) \<longleftrightarrow> j = i" if "j < 32" for j
    using that i by (subst of_nat_u64_eq_iff) simp_all
  have "unat (of_nat (8 * i) :: u64) = 8 * i" using i by (intro unat_nat64) simp
  then have "(of_nat (8 * i), p) \<notin> stored ts" using stored_big [OF ok(2), of "of_nat (8 * i)" p] i by auto
  moreover have "(\<exists>j<32. q \<in> set (ls[i := ps @ qs] ! j) \<and> n = of_nat (8 * j))
    \<longleftrightarrow> (\<exists>j<32. q \<in> set (ls ! j) \<and> n = of_nat (8 * j)) \<and> (q, n) \<noteq> (p, of_nat (8 * i))" for q and n :: u64
  proof -
    have "q \<in> set (ls[i := ps @ qs] ! j) \<longleftrightarrow> q \<in> set (ls ! j) \<and> (j = i \<longrightarrow> q \<noteq> p)" if "j < 32" for j
      using d len i that by (cases "j = i") (auto simp: l)
    then show ?thesis using eq by auto
  qed
  ultimately show ?thesis by (auto simp: binned_def)
qed

lemma binned_unlink_large:
  assumes ok: "trees_ok s ts" and i: "i < 32"
    and t: "content (ts ! i) = insert (n, x) (content t)" "x \<notin> set (chunks t)"
  shows "binned ls (ts[i := t]) = binned ls ts - {(x, n)}"
proof -
  have len: "length ts = 32" using ok by (simp add: trees_ok_def)
  have xi: "x \<in> set (chunks (ts ! i))" using t(1) unfolding snd_content [symmetric] by simp
  have other: "(m, x) \<notin> content (ts ! j)" if "j < 32" "j \<noteq> i" for j m
  proof
    assume "(m, x) \<in> content (ts ! j)"
    then have "x \<in> set (chunks (ts ! j))" unfolding snd_content [symmetric] by force
    then show False
      using trees_okD(5) [OF ok i that(1)] that(2) cell_area [OF xi, of Head] cell_area [of x "chunks (ts ! j)" Head] by blast
  qed
  have self: "(m, x) \<notin> content t" for m using t(2) unfolding snd_content [symmetric] by force
  have small: "(\<exists>j<32. x \<in> set (ls ! j) \<and> n = of_nat (8 * j)) \<Longrightarrow> False"
  proof -
    assume "\<exists>j<32. x \<in> set (ls ! j) \<and> n = of_nat (8 * j)"
    then obtain j where j: "j < 32" "n = of_nat (8 * j)" by blast
    have "n \<in> sizes (ts ! i)" using t(1) by (simp add: fst_content [symmetric])
    from tree_bin_sizes(1) [OF ok i this] have "256 \<le> unat n" using bin_min_256 [of i] by linarith
    then show False using j unat_nat64 [of "8 * j"] by simp
  qed
  have "stored (ts[i := t]) = stored ts - {(n, x)}"
  proof -
    have "(m, y) \<in> content (ts[i := t] ! j) \<longleftrightarrow> (m, y) \<in> content (ts ! j) \<and> (m, y) \<noteq> (n, x)" if "j < 32" for j m y
      using that len i t(1) self other [OF that] by (cases "j = i") auto
    then show ?thesis unfolding stored_def by (auto simp del: nth_list_update)
  qed
  then show ?thesis using small by (auto simp: binned_def)
qed

section \<open>What the bins do not depend on\<close>

definition link_words :: "(u64 \<times> u64) set \<Rightarrow> u64 set" where
  "link_words fr = (\<Union>(p, n) \<in> fr. inner p n)"

definition words_of :: "(u64 \<times> u64) set \<Rightarrow> u64 set" where
  "words_of fr = (\<Union>(p, n) \<in> fr. own p n)"

lemma link_words_of: "link_words fr \<subseteq> words_of fr"
  using inner_own unfolding link_words_def words_of_def by fast

text \<open>Only the heap and the bin maps differ.\<close>

definition bins_only :: "'o dl \<Rightarrow> 'o dl \<Rightarrow> bool" where
  "bins_only s s' \<longleftrightarrow> s' = s\<lparr>heap := heap s', smallmap := smallmap s', treemap := treemap s'\<rparr>"

lemma bins_only_sel:
  assumes "bins_only s s'"
  shows "gm s' = gm s" "least_addr s' = least_addr s" "dv s' = dv s" "dvsize s' = dvsize s"
    "topc s' = topc s" "topsize s' = topsize s" "trim_check s' = trim_check s"
    "release_checks s' = release_checks s" "footprint s' = footprint s"
  by (subst assms [unfolded bins_only_def], simp)+

lemma bins_onlyI [intro]: "bins_only s (s\<lparr>heap := h, smallmap := m\<rparr>)" "bins_only s (s\<lparr>heap := h, treemap := m\<rparr>)"
  "bins_only s (s\<lparr>heap := h\<rparr>)" "bins_only s (s\<lparr>smallmap := m\<rparr>)" "bins_only s s"
  by (simp_all add: bins_only_def)

lemma bins_only_upd: "bins_only s s' \<Longrightarrow> bins_only s (upd s' a v)"
  unfolding bins_only_def upd_def by (erule ssubst) simp

lemma bins_only_trans: "bins_only s s' \<Longrightarrow> bins_only s' s'' \<Longrightarrow> bins_only s s''"
  unfolding bins_only_def by (cases s; cases s'; cases s'') simp

lemma trees_ok_cong:
  assumes ok: "trees_ok s ts" and sel: "gm s' = gm s" "least_addr s' = least_addr s" "treemap s' = treemap s"
    and h: "\<And>i. i < 32 \<Longrightarrow> heap s' (slot_of s i) = heap s (slot_of s i)"
      "\<And>i a. i < 32 \<Longrightarrow> a \<in> area (chunks (ts ! i)) \<Longrightarrow> heap s' a = heap s a"
  shows "trees_ok s' ts"
proof -
  have sl: "slot_of s' j = slot_of s j" for j by (simp add: slot_of_def treebin_at_def sel)
  have ck: "chunk_ok s' x = chunk_ok s x" for x by (simp add: chunk_ok_def ok_address_def sel)
  have "tree_holds s' i (ts ! i)" if i: "i < 32" for i
  proof -
    have "tree_holds s i (ts ! i)" by (rule trees_okD(1) [OF ok i])
    moreover from this have "shape (heap s') i (slot_of s i) (ts ! i)"
      unfolding tree_holds_def using h(2) [OF i] by (blast intro: shape_frame)
    ultimately show ?thesis using h(1) [OF i] by (simp add: tree_holds_def sl sel)
  qed
  then show ?thesis using ok unfolding trees_ok_def sl ck by blast
qed

lemma spacedD:
  assumes "spaced s fr" "(p, n) \<in> fr"
  shows "fits s p n" "32 \<le> unat n" "unat n mod 16 = 0" "unat p + unat n + 8 < 2 ^ 64" "own p n \<inter> statics s = {}"
    and "\<And>q m. (q, m) \<in> fr \<Longrightarrow> (p, n) \<noteq> (q, m) \<Longrightarrow> own p n \<inter> own q m = {}"
  using assms unfolding spaced_def fits_def by blast+

lemma spaced_static: "spaced s fr \<Longrightarrow> unat (gm s) + 856 \<le> 2 ^ 64"
  by (simp add: spaced_def)

lemma ring_member:
  assumes sp: "spaced s (binned ls ts)" and i: "i < 32" and x: "x \<in> set (ring s ls i)"
  shows "x = bin_node s i \<or>
    (\<exists>n. (x, n) \<in> binned ls ts \<and> n = of_nat (8 * i) \<and> fd_at x \<in> inner x n \<and> bk_at x \<in> inner x n)"
proof (cases "x = bin_node s i")
  case False
  then have "(x, of_nat (8 * i)) \<in> binned ls ts" using x i by (intro binned_member) (simp_all add: ring_def)
  with spacedD(2,4) [OF sp this] links_inner show ?thesis by blast
qed simp

lemma tree_word:
  assumes ok: "trees_ok s ts" and sp: "spaced s (binned ls ts)" and i: "i < 32"
    and a: "a \<in> area (chunks (ts ! i))"
  shows "\<exists>p n. (p, n) \<in> binned ls ts \<and> \<not> is_small n \<and> a \<in> cells p \<and> a \<in> own p n
    \<and> p \<in> set (chunks (ts ! i)) \<and> (a \<noteq> head_at p \<longrightarrow> a \<in> inner p n)"
proof -
  obtain p where p: "p \<in> set (chunks (ts ! i))" "a \<in> cells p" using a by (auto simp: area_def)
  obtain n where n: "(p, n) \<in> binned ls ts" "(n, p) \<in> content (ts ! i)" using binned_chunk [of _ _ ts, OF i p(1)] by blast
  have "256 \<le> unat n" using stored_big [OF ok, of n p] n(2) i by (auto simp: stored_def)
  with cells_own [OF this spacedD(4) [OF sp n(1)]] n(1) p show ?thesis
    by (intro exI [of _ p] exI [of _ n]) (auto simp: is_small_iff)
qed

text \<open>The words of the rings are static or strictly inside small chunks, and none of them is a
  word of a tree.\<close>

lemma ring_word:
  assumes ok: "trees_ok s ts" and sp: "spaced s (binned ls ts)" and a: "\<not> not_link s ls a"
  shows "a \<in> statics s \<union> link_words (binned ls ts)"
    and "\<And>i. i < 32 \<Longrightarrow> a \<noteq> slot_of s i \<and> a \<notin> area (chunks (ts ! i))"
proof -
  obtain k x where x: "k < 32" "x \<in> set (ring s ls k)" "a = fd_at x \<or> a = bk_at x"
    using a by (auto simp: not_link_def)
  note st = bin_node_static [OF spaced_static [OF sp] x(1)]
  show "a \<in> statics s \<union> link_words (binned ls ts)"
    using ring_member [OF sp x(1,2)] x(3) st(1,2) by (auto simp: link_words_def)
  show "a \<noteq> slot_of s i \<and> a \<notin> area (chunks (ts ! i))" if i: "i < 32" for i
  proof (cases "x = bin_node s k")
    case True
    have "a \<notin> area (chunks (ts ! i))"
    proof
      assume "a \<in> area (chunks (ts ! i))"
      then obtain p n where "(p, n) \<in> binned ls ts" "a \<in> own p n" using tree_word [OF ok sp i] by blast
      then show False using spacedD(5) [OF sp] st(1,2) True x(3) by blast
    qed
    then show ?thesis using st(3,4) [OF i] True x(3) by auto
  next
    case False
    then obtain m where m: "(x, m) \<in> binned ls ts" "m = of_nat (8 * k)" "a \<in> own x m"
      using ring_member [OF sp x(1,2)] x(3) inner_own by blast
    have "unat m < 256" using m(2) x(1) unat_nat64 [of "8 * k"] by simp
    have "a \<notin> area (chunks (ts ! i))"
    proof
      assume "a \<in> area (chunks (ts ! i))"
      then obtain p n where p: "(p, n) \<in> binned ls ts" "a \<in> own p n" "\<not> is_small n" using tree_word [OF ok sp i] by blast
      then have "(p, n) \<noteq> (x, m)" using \<open>unat m < 256\<close> by (auto simp: is_small_iff)
      then show False using spacedD(6) [OF sp p(1) m(1)] p(2) m(3) by blast
    qed
    moreover have "a \<noteq> slot_of s i"
      using spacedD(5) [OF sp m(1)] m(3) slot_static [OF spaced_static [OF sp] i] by auto
    ultimately show ?thesis by blast
  qed
qed

section \<open>Inserting and unlinking a chunk of any size\<close>

text \<open>Between two states only words of \<open>W\<close> differ, and no word is unmapped.\<close>

definition touches :: "'o dl \<Rightarrow> 'o dl \<Rightarrow> u64 set \<Rightarrow> bool" where
  "touches s s' W \<longleftrightarrow> (\<forall>a. a \<notin> W \<longrightarrow> heap s' a = heap s a) \<and> (\<forall>a. has s a \<longrightarrow> has s' a)"

lemma touches_trans: "touches s s' W \<Longrightarrow> touches s' s'' V \<Longrightarrow> W \<union> V \<subseteq> U \<Longrightarrow> touches s s'' U"
  unfolding touches_def by (metis Un_iff subset_iff)

lemma touches_refl [simp]: "touches s s W"
  by (simp add: touches_def)

lemma touches_mono: "touches s s' W \<Longrightarrow> W \<subseteq> V \<Longrightarrow> touches s s' V"
  by (auto simp: touches_def)

lemma touches_upd: "touches s s' W \<Longrightarrow> a \<in> W \<Longrightarrow> touches s (upd s' a v) W"
  by (auto simp: touches_def)

lemma spaced_cong: "gm s' = gm s \<Longrightarrow> least_addr s' = least_addr s \<Longrightarrow> spaced s' fr = spaced s fr"
  by (simp add: spaced_def fits_def statics_def ok_address_def)

lemma spaced_subset: "spaced s fr \<Longrightarrow> fr' \<subseteq> fr \<Longrightarrow> spaced s fr'"
  unfolding spaced_def by blast

lemma pool_frame:
  assumes p: "pool s fr" and sel: "gm s' = gm s" "least_addr s' = least_addr s"
      "smallmap s' = smallmap s" "treemap s' = treemap s"
    and h: "\<And>a. a \<in> statics s \<union> words_of fr \<Longrightarrow> heap s' a = heap s a"
  shows "pool s' fr"
proof -
  obtain ls ts where o: "bins_ok s ls" "trees_ok s ts" "binned ls ts = fr" and sp: "spaced s fr"
    using p by (auto simp: pool_def)
  have spb: "spaced s (binned ls ts)" using sp o(3) by simp
  note rw = ring_word [OF o(2) spb, unfolded o(3)] and tw = tree_word [OF o(2) spb, unfolded o(3)]
  have "bins_ok s' ls"
    using rw(1) link_words_of by (intro bins_ok_cong [OF o(1) sel(1-3)] h) blast
  moreover have "trees_ok s' ts"
  proof (rule trees_ok_cong [OF o(2) sel(1,2,4)])
    show "heap s' (slot_of s i) = heap s (slot_of s i)" if "i < 32" for i
      using slot_static [OF spaced_static [OF sp] that] by (intro h) simp
    show "heap s' a = heap s a" if "i < 32" "a \<in> area (chunks (ts ! i))" for i a
      using tw [OF that] by (intro h) (auto simp: words_of_def)
  qed
  ultimately show ?thesis using o(3) sp spaced_cong [OF sel(1,2)] by (auto simp: pool_def)
qed

lemma outside_others:
  assumes sp: "spaced s (insert (p, n) fr)" and new: "(p, n) \<notin> fr" and a: "a \<in> own p n"
  shows "a \<notin> statics s" and "a \<notin> words_of fr"
  using spacedD(5,6) [OF sp, of p n] a new by (auto simp: words_of_def)

lemma tree_words_of:
  assumes "trees_ok s ts" "spaced s (binned ls ts)" "i < 32"
  shows "area (chunks (ts ! i)) \<subseteq> words_of (binned ls ts)"
  using tree_word [OF assms] by (fastforce simp: words_of_def)

lemma pool_insert_small:
  assumes p: "pool s fr" and sp: "spaced s (insert (p, n) fr)" and new: "(p, n) \<notin> fr" and n: "is_small n"
    and map: "\<And>a. a \<in> own p n \<Longrightarrow> has s a"
  shows "\<exists>s'. insert_small_chunk s p n = Some s' \<and> pool s' (insert (p, n) fr) \<and> bins_only s s'
    \<and> touches s s' (statics s \<union> link_words (insert (p, n) fr))"
proof -
  obtain ls ts where o: "bins_ok s ls" "trees_ok s ts" "binned ls ts = fr" and spf: "spaced s fr"
    using p by (auto simp: pool_def)
  have spb: "spaced s (binned ls ts)" using spf o(3) by simp
  note rw = ring_word [OF o(2) spb, unfolded o(3)] and tw = tree_words_of [OF o(2) spb, unfolded o(3)]
  define i where "i = unat (small_index n)"
  note f = spacedD [OF sp insertI1]
  have n8: "of_nat (8 * i) = n"
  proof -
    have "unat n = 8 * i" using f(3) unfolding i_def unat_small_index_eq [OF n] by auto
    then show ?thesis by (metis of_nat_unat ucast_id)
  qed
  have i: "i < 32" using unat_small_index(1) [OF n] by (simp add: i_def)
  have lk: "fd_at p \<in> inner p n" "bk_at p \<in> inner p n" using links_inner [OF f(2,4)] by blast+
  then have lo: "fd_at p \<in> own p n" "bk_at p \<in> own p n" using inner_own by blast+
  have far: "not_link s ls a" if "a \<in> own p n" for a
  proof (rule ccontr)
    assume "\<not> not_link s ls a"
    then have "a \<in> statics s \<union> link_words fr" using rw(1) by blast
    then show False
      using outside_others [OF sp new that] link_words_of by blast
  qed
  have loose: "loose s ls p"
    unfolding loose_def
  proof (intro conjI allI impI ballI)
    show "heap s (fd_at p) \<noteq> None" "heap s (bk_at p) \<noteq> None" using map lo by (auto simp: has_def)
    show "ok_address s p" using f(1) by (simp add: fits_def)
    fix j x assume "j < 32" "x \<in> set (ring s ls j)"
    then show "x \<noteq> p" "fd_at x \<noteq> bk_at p" "fd_at p \<noteq> bk_at x"
      using far [OF lo(1)] far [OF lo(2)] unfolding not_link_def by metis+
  qed
  define b where "b = bin_node s i"
  define g where "g = hd (ls ! i @ [b])"
  define s' where "s' = s\<lparr>heap := inserted (heap s) b g p, smallmap := smallmap s OR idx2bit (small_index n)\<rparr>"
  have eq: "insert_small_chunk s p n = Some s'"
    using insert_small_chunk_eq [OF o(1) loose n] by (simp add: s'_def g_def b_def i_def)
  have ok': "bins_ok s' (ls[i := p # ls ! i])"
    using insert_small_chunk_refines [OF o(1) loose n] eq by (simp add: i_def)
  have diff: "\<not> not_link s ls a \<or> a = fd_at p \<or> a = bk_at p" if "heap s' a \<noteq> heap s a" for a
  proof -
    have "b \<in> set (ring s ls i)" "g \<in> set (ring s ls i)"
      by (cases "ls ! i"; auto simp: g_def ring_def b_def)+
    then show ?thesis using that i by (auto simp: s'_def inserted_def not_link_def split: if_splits)
  qed
  have sel: "gm s' = gm s" "least_addr s' = least_addr s" "treemap s' = treemap s" by (simp_all add: s'_def)
  have "trees_ok s' ts"
  proof (rule trees_ok_cong [OF o(2) sel])
    show "heap s' (slot_of s j) = heap s (slot_of s j)" if j: "j < 32" for j
    proof (rule ccontr)
      assume "heap s' (slot_of s j) \<noteq> heap s (slot_of s j)"
      then show False
        using diff rw(2) [OF _ j] lo outside_others(1) [OF sp new]
          slot_static [OF spaced_static [OF sp] j] by metis
    qed
    show "heap s' a = heap s a" if j: "j < 32" and a: "a \<in> area (chunks (ts ! j))" for a j
    proof (rule ccontr)
      assume "heap s' a \<noteq> heap s a"
      then have "a = fd_at p \<or> a = bk_at p"
        using diff rw(2) [OF _ j] a by metis
      then show False
        using lo outside_others(2) [OF sp new] tw [OF j] a by blast
    qed
  qed
  moreover have "binned (ls[i := p # ls ! i]) ts = insert (p, n) fr"
    using binned_insert_small [of ls i p ts] o(1,3) i n8 by (simp add: bins_ok_def)
  ultimately have "pool s' (insert (p, n) fr)"
    using ok' sp spaced_cong [OF sel(1,2)] by (auto simp: pool_def)
  moreover have "touches s s' (statics s \<union> link_words (insert (p, n) fr))"
  proof -
    have "heap s' a = heap s a" if "a \<notin> statics s \<union> link_words (insert (p, n) fr)" for a
      using diff [of a] rw(1) [of a] that lk by (auto simp: link_words_def)
    moreover have "has s a \<Longrightarrow> has s' a" for a by (auto simp: has_def s'_def inserted_def)
    ultimately show ?thesis by (simp add: touches_def)
  qed
  moreover have "bins_only s s'" by (auto simp: s'_def)
  ultimately show ?thesis using eq by blast
qed

text \<open>Large chunks: every word of a tree is mapped, and the heads are what the sizes say.\<close>

lemma shape_sized: "shape h i par t \<Longrightarrow> (n, x) \<in> content t \<Longrightarrow> sized h n x"
  by (induction t arbitrary: par) (auto simp: node_at_def)

lemma node_mapped:
  assumes "node_at h i par n c cs a b" and "x \<in> set (c # cs)"
  shows "h (cell x f) \<noteq> None"
proof -
  have "links h c cs c" using assms(1) by (simp add: node_at_def)
  then have "h (fd_at x) \<noteq> None" "h (bk_at x) \<noteq> None" using links_mapped assms(2) by fastforce+
  moreover have "h (parent_at x) \<noteq> None" "h (child_at x 0) \<noteq> None" "h (child_at x 1) \<noteq> None"
    using assms by (auto simp: node_at_def)
  ultimately show ?thesis using assms by (cases f) (auto simp: node_at_def sized_def folds)
qed

lemma shape_mapped: "shape h i par t \<Longrightarrow> a \<in> area (chunks t) \<Longrightarrow> h a \<noteq> None"
proof (induction t arbitrary: par)
  case (Nd n c cs l r)
  have "h a \<noteq> None" if a: "a \<in> area (c # cs)"
  proof -
    obtain x f where "x \<in> set (c # cs)" "a = cell x f" using a unfolding area_def cells_def by blast
    then show ?thesis using node_mapped [of h i par n c cs] Nd.prems(1) by auto
  qed
  with Nd show ?case by auto
qed simp

lemma tree_head:
  assumes "trees_ok s ts" and "(n, p) \<in> stored ts"
  shows "heap s (head_at p) = Some (n OR PINUSE_BIT)"
proof -
  obtain i where i: "i < 32" "(n, p) \<in> content (ts ! i)" using assms(2) by (auto simp: stored_def)
  then show ?thesis
    using trees_okD(1) [OF assms(1) i(1)] shape_sized [of "heap s" i _ "ts ! i" n p]
    unfolding tree_holds_def sized_def by blast
qed

lemma tree_area_mapped: "trees_ok s ts \<Longrightarrow> i < 32 \<Longrightarrow> a \<in> area (chunks (ts ! i)) \<Longrightarrow> has s a"
  using trees_okD(1) shape_mapped unfolding tree_holds_def has_def by blast

lemma slot_mapped: "trees_ok s ts \<Longrightarrow> i < 32 \<Longrightarrow> has s (slot_of s i)"
  using trees_okD(1) unfolding tree_holds_def has_def by fastforce

lemma size_AND_7: "unat n mod 16 = 0 \<Longrightarrow> n AND 7 = (0 :: u64)"
proof -
  assume "unat n mod 16 = 0"
  then have "8 dvd unat n" by presburger
  then show ?thesis by (simp only: AND_7_dvd)
qed

lemma pool_insert_large:
  assumes p: "pool s fr" and sp: "spaced s (insert (p, n) fr)" and new: "(p, n) \<notin> fr" and n: "\<not> is_small n"
    and map: "\<And>a. a \<in> own p n \<Longrightarrow> has s a" and hd: "heap s (head_at p) = Some (n OR PINUSE_BIT)"
  shows "\<exists>s'. insert_large_chunk s p n = Some s' \<and> pool s' (insert (p, n) fr) \<and> bins_only s s'
    \<and> touches s s' (statics s \<union> link_words (insert (p, n) fr))"
proof -
  obtain ls ts where o: "bins_ok s ls" "trees_ok s ts" "binned ls ts = fr" and spf: "spaced s fr"
    using p by (auto simp: pool_def)
  have spb: "spaced s (binned ls ts)" using spf o(3) by simp
  note rw = ring_word [OF o(2) spb, unfolded o(3)] and tw = tree_words_of [OF o(2) spb, unfolded o(3)]
  note f = spacedD [OF sp insertI1]
  have n256: "256 \<le> unat n" using n by (simp add: is_small_iff)
  note cl = cells_own [OF n256 f(4)]
  have ino: "in_no_tree s ts n p"
    unfolding in_no_tree_def
  proof (intro conjI ballI allI impI)
    show "p \<noteq> 0" using f(1) by (auto simp: fits_def)
    have "least_addr s \<le> p" using f(1) by (simp add: fits_def ok_address_def)
    moreover have "unat (child_at p 0) = unat p + 32" "unat (child_at p 1) = unat p + 40"
      using f(2,4) n256 by (simp_all add: child_at_def unat_word_ariths)
    ultimately show "chunk_ok s p" by (simp add: chunk_ok_def ok_address_def word_le_nat_alt)
    show "sized (heap s) n p" using hd size_AND_7 [OF f(3)] by (simp add: sized_def)
    show "has s a" if "a \<in> cells p" for a using that map cl(1) by blast
    show "slot_of s i \<notin> cells p" if "i < 32" for i
      using slot_static [OF spaced_static [OF sp] that] f(5) cl(1) by blast
    show "cells p \<inter> area (chunks (ts ! i)) = {}" if "i < 32" for i
      using tw [OF that] outside_others(2) [OF sp new] cl(1) by blast
  qed
  define i where "i = unat (compute_tree_index n)"
  have n40: "unat n < 2 ^ 40" using f(1) by (simp add: fits_def)
  have i: "i < 32" using tree_bin_interval(1) [OF n256 n40] by (simp add: i_def)
  define t where "t = tins (bin_width i) p n (ts ! i)"
  obtain s' where s': "insert_large_chunk s p n = Some s'" "trees_ok s' (ts[i := t])"
    "\<And>a. a \<notin> cells p \<union> area (chunks (ts ! i)) \<Longrightarrow> a \<noteq> slot_of s i \<Longrightarrow> heap s' a = heap s a"
    "\<exists>h m. s' = s\<lparr>heap := h, treemap := m\<rparr>"
    using insert_large_chunk_refines [OF o(2) ino n256 n40] unfolding i_def [symmetric] t_def [symmetric] by blast
  have bo: "bins_only s s'" using s'(4) by auto
  note sel = bins_only_sel [OF bo]
  have sm: "smallmap s' = smallmap s" using s'(4) by auto
  have len: "length ts = 32" using o(2) by (simp add: trees_ok_def)
  have bin': "binned ls (ts[i := t]) = insert (p, n) fr"
    using binned_insert_large [OF len i, of t n p ls] o(3) by (simp add: t_def content_tins)
  have "bins_ok s' ls"
  proof (rule bins_ok_cong [OF o(1) sel(1,2) sm])
    fix a assume a: "\<not> not_link s ls a"
    have "a \<notin> cells p"
      using rw(1) [OF a] outside_others [OF sp new] cl(1) link_words_of by blast
    then show "heap s' a = heap s a" using rw(2) [OF a i] by (intro s'(3)) auto
  qed
  then have pool': "pool s' (insert (p, n) fr)"
    using s'(2) bin' sp spaced_cong [OF sel(1,2)] by (auto simp: pool_def)
  have hds: "heap s' (head_at q) = heap s (head_at q)" if "(q, m) \<in> insert (p, n) fr" "\<not> is_small m" for q m
  proof -
    have "(m, q) \<in> stored (ts[i := t])" using that bin' binned_large [of m q ls "ts[i := t]"] by simp
    then have "heap s' (head_at q) = Some (m OR PINUSE_BIT)" by (rule tree_head [OF s'(2)])
    moreover have "heap s (head_at q) = Some (m OR PINUSE_BIT)"
      using that hd tree_head [OF o(2)] binned_large [of m q ls ts] o(3) by auto
    ultimately show ?thesis by simp
  qed
  have "touches s s' (statics s \<union> link_words (insert (p, n) fr))"
    unfolding touches_def
  proof (intro conjI allI impI)
    fix a assume a: "a \<notin> statics s \<union> link_words (insert (p, n) fr)"
    show "heap s' a = heap s a"
    proof (cases "a \<in> cells p \<union> area (chunks (ts ! i))")
      case True
      then have "\<exists>q m. (q, m) \<in> insert (p, n) fr \<and> \<not> is_small m \<and> (a \<noteq> head_at q \<longrightarrow> a \<in> inner q m)"
        using cl(2) [of a] n tree_word [OF o(2) spb i, of a] unfolding o(3) by blast
      then show ?thesis using hds a by (fastforce simp: link_words_def)
    next
      case False
      then show ?thesis using a slot_static [OF spaced_static [OF sp] i] by (intro s'(3)) auto
    qed
  next
    fix a assume a: "has s a"
    have "area (chunks t) = cells p \<union> area (chunks (ts ! i))" by (simp add: t_def area_tins)
    then show "has s' a"
      using a tree_area_mapped [OF s'(2) i, of a] slot_mapped [OF s'(2) i] s'(3) [of a] len i sel(1)
      by (cases "a = slot_of s i"; cases "a \<in> cells p \<union> area (chunks (ts ! i))")
        (auto simp: has_def slot_of_def treebin_at_def)
  qed
  then show ?thesis using s'(1) pool' bo by blast
qed

lemma pool_insert:
  assumes "pool s fr" "spaced s (insert (p, n) fr)" "(p, n) \<notin> fr" "\<And>a. a \<in> own p n \<Longrightarrow> has s a"
    "heap s (head_at p) = Some (n OR PINUSE_BIT)"
  shows "\<exists>s'. insert_chunk s p n = Some s' \<and> pool s' (insert (p, n) fr) \<and> bins_only s s'
    \<and> touches s s' (statics s \<union> link_words (insert (p, n) fr))"
  using pool_insert_small [OF assms(1-3) _ assms(4)] pool_insert_large [OF assms(1-3) _ assms(4,5)]
  by (cases "is_small n") (simp_all add: insert_chunk_def)

lemma pool_unlinked:
  assumes o: "bins_ok s ls" "trees_ok s ts" and sp: "spaced s (binned ls ts)"
    and i: "unat i < 32" and l: "ls ! unat i = ps @ p # qs"
  defines "s' \<equiv> unlinked s i ps qs"
  shows "pool s' (binned ls ts - {(p, of_nat (8 * unat i))})" and "bins_only s s'"
    and "touches s s' (statics s \<union> link_words (binned ls ts))"
proof -
  define b where "b = smallbin_at s i"
  define f where "f = hd (qs @ [b])"
  define k where "k = last (b # ps)"
  note rw = ring_word [OF o(2) sp]
  have bn: "bin_node s (unat i) = b" by (simp add: bin_node_def b_def)
  have r: "f \<in> set (ring s ls (unat i))" "k \<in> set (ring s ls (unat i))"
    by (cases qs; auto simp: f_def k_def ring_def bn l)+
  have s'_eq: "s' = (if ps = [] \<and> qs = [] then clear_smallmap s i else upd (upd s (bk_at f) k) (fd_at k) f)"
    by (simp add: s'_def unlinked_def Let_def b_def f_def k_def)
  have diff: "\<not> not_link s ls a" if "heap s' a \<noteq> heap s a" for a
    using that r i by (auto simp: s'_eq not_link_def clear_smallmap_def split: if_splits)
  have sel: "gm s' = gm s" "least_addr s' = least_addr s" "treemap s' = treemap s"
    by (simp_all add: s'_eq clear_smallmap_def)
  have "trees_ok s' ts"
  proof (rule trees_ok_cong [OF o(2) sel])
    show "heap s' (slot_of s j) = heap s (slot_of s j)" if "j < 32" for j
      using diff [of "slot_of s j"] rw(2) [OF _ that, of "slot_of s j"] by blast
    show "heap s' a = heap s a" if "j < 32" "a \<in> area (chunks (ts ! j))" for a j
      using diff [of a] rw(2) [OF _ that(1), of a] that(2) by blast
  qed
  moreover have "bins_ok s' (ls[unat i := ps @ qs])" unfolding s'_def by (rule unlinked_frame [OF o(1) i l])
  ultimately show "pool s' (binned ls ts - {(p, of_nat (8 * unat i))})"
    using binned_unlink_small [OF o i l] spaced_subset [OF sp] spaced_cong [OF sel(1,2)]
    unfolding pool_def by (metis Diff_subset)
  show "bins_only s s'" by (auto simp: s'_eq clear_smallmap_def intro!: bins_only_upd)
  have "has s a \<Longrightarrow> has s' a" for a by (auto simp: s'_eq clear_smallmap_def)
  then show "touches s s' (statics s \<union> link_words (binned ls ts))"
    using diff rw(1) unfolding touches_def by blast
qed

lemma pool_unlink_small:
  assumes p: "pool s fr" and m: "(p, n) \<in> fr" and n: "is_small n"
  shows "\<exists>s'. unlink_small_chunk s p n = Some s' \<and> pool s' (fr - {(p, n)}) \<and> bins_only s s'
    \<and> touches s s' (statics s \<union> link_words fr)"
proof -
  obtain ls ts where o: "bins_ok s ls" "trees_ok s ts" "binned ls ts = fr" and sp: "spaced s fr"
    using p by (auto simp: pool_def)
  note f = spacedD [OF sp m]
  have n8: "of_nat (8 * unat (small_index n)) = n"
  proof -
    have "unat n = 8 * unat (small_index n)" using f(3) unfolding unat_small_index_eq [OF n] by auto
    then show ?thesis by (metis of_nat_unat ucast_id)
  qed
  have "unat n mod 8 = 0" using f(3) by presburger
  then have "p \<in> set (ls ! unat (small_index n))" using binned_small [OF o(2) n, of p ls] m o(3) by simp
  then obtain ps qs where l: "ls ! unat (small_index n) = ps @ p # qs" by (metis split_list)
  have spb: "spaced s (binned ls ts)" using sp o(3) by simp
  note u = pool_unlinked [OF o(1,2) spb unat_small_index(1) [OF n] l, unfolded n8 o(3)]
  show ?thesis using unlink_small_chunk_eq [OF o(1) n l] u by blast
qed

lemma unlink_first_pool:
  assumes p: "pool s fr" and i: "unat i < 32" and b: "bit (smallmap s) (unat i)"
  shows "\<exists>p s'. ld s (fd_at (smallbin_at s i)) = Some p \<and> (p, of_nat (8 * unat i)) \<in> fr
    \<and> unlink_first_small_chunk s (smallbin_at s i) p i = Some s'
    \<and> pool s' (fr - {(p, of_nat (8 * unat i))}) \<and> bins_only s s' \<and> touches s s' (statics s \<union> link_words fr)"
proof -
  obtain ls ts where o: "bins_ok s ls" "trees_ok s ts" "binned ls ts = fr" and sp: "spaced s fr"
    using p by (auto simp: pool_def)
  have "ls ! unat i \<noteq> []" using bins_okD(3) [OF o(1) i] b by (auto simp: bin_holds_def)
  then obtain p qs where l: "ls ! unat i = [] @ p # qs" by (metis append_Nil neq_Nil_conv)
  have spb: "spaced s (binned ls ts)" using sp o(3) by simp
  note u = pool_unlinked [OF o(1,2) spb i l, unfolded o(3)]
  have "ld s (fd_at (smallbin_at s i)) = Some p" using bin_links(5) [OF o(1) i l] by simp
  moreover have "(p, of_nat (8 * unat i)) \<in> fr" using binned_member [OF i, of p ls ts] l o(3) by simp
  ultimately show ?thesis using unlink_first_small_chunk_eq [OF o(1) i] l u by (metis append_Nil)
qed

text \<open>Stores never unmap a word.\<close>

lemma adopt_child_has: "adopt_child s x r i = Some s' \<Longrightarrow> has s a \<Longrightarrow> has s' a"
  by (auto simp: adopt_child_def st_Some_iff bind_eq_Some_conv split: if_splits)

lemma take_out_has: "take_out s x = Some (r, s') \<Longrightarrow> has s a \<Longrightarrow> has s' a"
  by (auto simp: take_out_def tree_replacement_def st_Some_iff bind_eq_Some_conv split: if_splits prod.splits)

lemma relink_has: "relink s x xp r = Some s' \<Longrightarrow> has s a \<Longrightarrow> has s' a"
  by (auto simp: relink_def Let_def st_Some_iff bind_eq_Some_conv clear_treemap_def
      dest!: adopt_child_has [where a = a] split: if_splits)

lemma unlink_large_chunk_has: "unlink_large_chunk s x = Some s' \<Longrightarrow> has s a \<Longrightarrow> has s' a"
  unfolding unlink_large_chunk_def
  by (auto simp: bind_eq_Some_conv split: if_splits prod.splits dest: take_out_has relink_has)

lemma pool_unlink_large:
  assumes p: "pool s fr" and m: "(p, n) \<in> fr" and n: "\<not> is_small n"
  shows "\<exists>s'. unlink_large_chunk s p = Some s' \<and> pool s' (fr - {(p, n)}) \<and> bins_only s s'
    \<and> touches s s' (statics s \<union> link_words fr \<union> own p n)"
proof -
  obtain ls ts where o: "bins_ok s ls" "trees_ok s ts" "binned ls ts = fr" and sp: "spaced s fr"
    using p by (auto simp: pool_def)
  have spb: "spaced s (binned ls ts)" using sp o(3) by simp
  note rw = ring_word [OF o(2) spb, unfolded o(3)] and tw = tree_word [OF o(2) spb, unfolded o(3)]
  have "(n, p) \<in> stored ts" using m n binned_large o(3) by blast
  then obtain i where i: "i < 32" "(n, p) \<in> content (ts ! i)" by (auto simp: stored_def)
  then have pi: "p \<in> set (chunks (ts ! i))" unfolding snd_content [symmetric] by force
  define t where "t = tdel p (ts ! i)"
  have td: "separate (p # chunks t)" "\<exists>n. content (ts ! i) = insert (n, p) (content t)"
    using tdel_content [OF pi trees_okD(2) [OF o(2) i(1)]] by (auto simp: t_def)
  have pt: "p \<notin> set (chunks t)" using separate_distinct [OF td(1)] by simp
  then have "(n, p) \<notin> content t" unfolding snd_content [symmetric] by force
  then have ct: "content (ts ! i) = insert (n, p) (content t)" using td(2) i(2) by auto
  obtain s' where s': "unlink_large_chunk s p = Some s'" "trees_ok s' (ts[i := t])"
    "\<And>a. a \<notin> area (chunks (ts ! i)) \<Longrightarrow> a \<noteq> slot_of s i \<Longrightarrow> heap s' a = heap s a"
    "\<exists>h m. s' = s\<lparr>heap := h, treemap := m\<rparr>"
    using unlink_large_chunk_refines [OF o(2) i(1) pi] unfolding t_def [symmetric] by blast
  have bo: "bins_only s s'" using s'(4) by auto
  note sel = bins_only_sel [OF bo]
  have sm: "smallmap s' = smallmap s" using s'(4) by auto
  have bin': "binned ls (ts[i := t]) = fr - {(p, n)}"
    using binned_unlink_large [OF o(2) i(1) ct pt, of ls] o(3) by simp
  have "bins_ok s' ls"
    using rw(2) [OF _ i(1)] by (intro bins_ok_cong [OF o(1) sel(1,2) sm] s'(3)) blast+
  then have pool': "pool s' (fr - {(p, n)})"
    using s'(2) bin' spaced_subset [OF sp, of "fr - {(p, n)}"] spaced_cong [OF sel(1,2)] by (auto simp: pool_def)
  have hds: "heap s' (head_at q) = heap s (head_at q)" if "(q, m) \<in> fr" "\<not> is_small m" "(q, m) \<noteq> (p, n)" for q m
  proof -
    have "(m, q) \<in> stored (ts[i := t])" using that bin' binned_large [of m q ls "ts[i := t]"] by simp
    then have "heap s' (head_at q) = Some (m OR PINUSE_BIT)" by (rule tree_head [OF s'(2)])
    moreover have "heap s (head_at q) = Some (m OR PINUSE_BIT)"
      using that tree_head [OF o(2)] binned_large [of m q ls ts] o(3) by auto
    ultimately show ?thesis by simp
  qed
  have "heap s' a = heap s a" if a: "a \<notin> statics s \<union> link_words fr \<union> own p n" for a
  proof (cases "a \<in> area (chunks (ts ! i))")
    case True
    then obtain q m where q: "(q, m) \<in> fr" "\<not> is_small m" "a \<in> own q m" "a \<noteq> head_at q \<longrightarrow> a \<in> inner q m"
      using tw [OF i(1)] by blast
    then have "a = head_at q" "(q, m) \<noteq> (p, n)" using a by (auto simp: link_words_def)
    then show ?thesis using hds q by simp
  next
    case False
    then show ?thesis using a slot_static [OF spaced_static [OF sp] i(1)] by (intro s'(3)) auto
  qed
  then have "touches s s' (statics s \<union> link_words fr \<union> own p n)"
    using unlink_large_chunk_has [OF s'(1)] by (simp add: touches_def)
  then show ?thesis using s'(1) pool' bo by blast
qed

lemma pool_unlink:
  assumes "pool s fr" "(p, n) \<in> fr"
  shows "\<exists>s'. unlink_chunk s p n = Some s' \<and> pool s' (fr - {(p, n)}) \<and> bins_only s s'
    \<and> touches s s' (statics s \<union> link_words fr \<union> own p n)"
  using pool_unlink_small [OF assms] pool_unlink_large [OF assms] touches_mono
  by (cases "is_small n") (simp_all add: unlink_chunk_def, blast)

section \<open>The bin maps of the pool\<close>

lemma smallmap_pool:
  assumes p: "pool s fr" and i: "i < 32"
  shows "bit (smallmap s) i \<longleftrightarrow> (\<exists>p. (p, of_nat (8 * i)) \<in> fr)"
proof -
  obtain ls ts where o: "bins_ok s ls" "trees_ok s ts" "binned ls ts = fr"
    using p by (auto simp: pool_def)
  have u: "unat (of_nat (8 * i) :: u64) = 8 * i" using i by (intro unat_nat64) simp
  have sm: "is_small (of_nat (8 * i))" unfolding is_small_iff u using i by simp
  have "unat (small_index (of_nat (8 * i))) = i" unfolding unat_small_index_eq [OF sm] u by simp
  then have "(p, of_nat (8 * i)) \<in> fr \<longleftrightarrow> p \<in> set (ls ! i)" for p
    using binned_small [OF o(2) sm, of p ls] u o(3) by simp
  then show ?thesis
    using bins_okD(3) [OF o(1) i] by (cases "ls ! i") (auto simp: bin_holds_def)
qed

lemma treemap_pool:
  assumes p: "pool s fr"
  shows "treemap s \<noteq> 0 \<longleftrightarrow> (\<exists>p n. (p, n) \<in> fr \<and> \<not> is_small n)"
proof -
  obtain ls ts where o: "bins_ok s ls" "trees_ok s ts" "binned ls ts = fr"
    using p by (auto simp: pool_def)
  have "treemap s \<noteq> 0 \<longleftrightarrow> (\<exists>i<32. bit (treemap s) i)" using word_eq_0_bits [of "treemap s"] by auto
  also have "\<dots> \<longleftrightarrow> (\<exists>i<32. ts ! i \<noteq> Tip)" using tree_of(4) [OF o(2)] by blast
  also have "\<dots> \<longleftrightarrow> (\<exists>n p. (n, p) \<in> stored ts)"
  proof -
    have "t \<noteq> Tip \<longleftrightarrow> (\<exists>n p. (n, p) \<in> content t)" for t by (cases t) auto
    then show ?thesis unfolding stored_def by blast
  qed
  also have "\<dots> \<longleftrightarrow> (\<exists>p n. (p, n) \<in> fr \<and> \<not> is_small n)"
    using binned_large [of _ _ ls ts] stored_big [OF o(2)] unfolding o(3) is_small_iff by (meson not_le)
  finally show ?thesis .
qed

end
