(* ===== verification/DlLayout.thy ===== *)
theory DlLayout
  imports DlPool
begin

text \<open>
  The chunks of a segment laid out one after the other: \<open>tiled\<close> says that a list of blocks,
  used and free, fills an interval of the heap, that every head has the size of its block
  and the flags of the block and of its predecessor, that a free block is followed by a copy
  of its size, and that no two free blocks are adjacent.
\<close>

section \<open>Head words\<close>

definition flags :: "bool \<Rightarrow> bool \<Rightarrow> u64" where
  "flags pu u = (if pu then PINUSE_BIT else 0) OR (if u then CINUSE_BIT else 0)"

definition head_word :: "u64 \<Rightarrow> bool \<Rightarrow> bool \<Rightarrow> u64" where
  "head_word n pu u = n OR flags pu u"

lemma flags_values: "flags True True = 3" "flags True False = 1" "flags False True = 2" "flags False False = 0"
  by (simp_all add: flags_def)

lemma head_word_eqs:
  "n OR PINUSE_BIT = head_word n True False" "n OR PINUSE_BIT OR CINUSE_BIT = head_word n True True"
  "(n OR PINUSE_BIT) OR CINUSE_BIT = head_word n True True"
  by (simp_all add: head_word_def flags_values or.assoc)

lemma head_word_fields:
  assumes "unat n mod 16 = 0"
  shows "head_size (head_word n pu u) = n" and "head_cinuse (head_word n pu u) \<longleftrightarrow> u"
    and "head_pinuse (head_word n pu u) \<longleftrightarrow> pu" and "head_is_inuse (head_word n pu u) \<longleftrightarrow> u \<or> \<not> pu"
    and "head_is_mmapped (head_word n pu u) \<longleftrightarrow> \<not> u \<and> \<not> pu"
    and "head_word n pu u AND INUSE_BITS = INUSE_BITS \<longleftrightarrow> u \<and> pu"
proof -
  have f: "flags pu u AND NOT 7 = 0" by (cases pu; cases u) (simp_all add: flags_values)
  note w = head_words [OF size_AND_7 [OF assms] f, folded head_word_def]
  show "head_size (head_word n pu u) = n" by (rule w(1))
  show "head_cinuse (head_word n pu u) \<longleftrightarrow> u" "head_pinuse (head_word n pu u) \<longleftrightarrow> pu"
    "head_is_inuse (head_word n pu u) \<longleftrightarrow> u \<or> \<not> pu" "head_is_mmapped (head_word n pu u) \<longleftrightarrow> \<not> u \<and> \<not> pu"
    "head_word n pu u AND INUSE_BITS = INUSE_BITS \<longleftrightarrow> u \<and> pu"
    unfolding head_cinuse_def head_pinuse_def head_is_inuse_def head_is_mmapped_def flag_values w(2-4)
    by (cases pu; cases u; simp add: flags_values)+
qed

lemma head_word_pinuse:
  assumes "unat n mod 16 = 0"
  shows "head_word n pu u AND NOT PINUSE_BIT = head_word n False u" and "head_word n pu u OR PINUSE_BIT = head_word n True u"
proof -
  have n: "\<not> bit n 0"
  proof -
    have "\<not> bit (n AND 7) 0" by (simp add: size_AND_7 [OF assms])
    then show ?thesis by (simp add: bit_and_iff)
  qed
  have "(3 :: u64) = mask 2" by (simp add: mask_eq_exp_minus_1)
  then have b3: "bit (3 :: u64) i \<longleftrightarrow> i = 0 \<or> i = 1" for i
    by (simp only: bit_mask_iff) auto
  have "(2 :: u64) = push_bit 1 1" by simp
  then have b2: "bit (2 :: u64) i \<longleftrightarrow> i = 1" for i
    by (simp only: bit_push_bit_iff bit_1_iff) auto
  have b1: "bit (1 :: u64) i \<longleftrightarrow> i = 0" for i by (simp add: bit_1_iff)
  have fb: "bit (flags pu u) i \<longleftrightarrow> (pu \<and> i = 0) \<or> (u \<and> i = 1)" for pu u i
    by (cases pu; cases u; simp only: flags_values b1 b2 b3 bit_0_eq bot_apply bot_bool_def; simp)
  show "head_word n pu u OR PINUSE_BIT = head_word n True u"
    by (rule bit_word_eqI) (auto simp: head_word_def fb b1 bit_or_iff)
  show "head_word n pu u AND NOT PINUSE_BIT = head_word n False u"
    by (rule bit_word_eqI) (use n in \<open>auto simp: head_word_def fb b1 bit_or_iff bit_and_iff bit_not_iff intro: gr0I\<close>)
qed

section \<open>Blocks side by side\<close>

text \<open>A block: its address, its size, and whether it is in use.\<close>

type_synonym block = "u64 \<times> u64 \<times> bool"

fun tiled :: "heap \<Rightarrow> u64 \<Rightarrow> bool \<Rightarrow> block list \<Rightarrow> u64 \<Rightarrow> bool \<Rightarrow> bool" where
  "tiled h a pu [] e eu \<longleftrightarrow> a = e \<and> pu = eu"
| "tiled h a pu ((p, n, u) # bs) e eu \<longleftrightarrow> p = a \<and> 32 \<le> unat n \<and> unat n mod 16 = 0
     \<and> unat p + unat n + 8 < 2 ^ 64 \<and> h (head_at p) = Some (head_word n pu u)
     \<and> (\<not> u \<longrightarrow> pu \<and> h (p + n) = Some n) \<and> tiled h (p + n) u bs e eu"

definition payload :: "u64 \<Rightarrow> u64 \<Rightarrow> u64 set" where
  "payload p n = {a. unat p + 16 \<le> unat a \<and> unat a < unat p + unat n + 8}"

text \<open>The words of a block that no list or tree of free chunks uses.\<close>

fun firm :: "block \<Rightarrow> u64 set" where
  "firm (p, n, u) = insert (head_at p) (if u then payload p n else {p + n})"

definition frees :: "block list \<Rightarrow> (u64 \<times> u64) set" where
  "frees bs = {(p, n). (p, n, False) \<in> set bs}"

definition useds :: "block list \<Rightarrow> (u64 \<times> u64) set" where
  "useds bs = {(p, n). (p, n, True) \<in> set bs}"

lemma frees_simps [simp]:
  "frees [] = {}" "frees ((p, n, u) # bs) = (if u then frees bs else insert (p, n) (frees bs))"
  "frees (xs @ ys) = frees xs \<union> frees ys"
  by (auto simp: frees_def)

lemma useds_simps [simp]:
  "useds [] = {}" "useds ((p, n, u) # bs) = (if u then insert (p, n) (useds bs) else useds bs)"
  "useds (xs @ ys) = useds xs \<union> useds ys"
  by (auto simp: useds_def)

lemma tiled_append:
  "tiled h a pu (xs @ ys) e eu \<longleftrightarrow> (\<exists>m mu. tiled h a pu xs m mu \<and> tiled h m mu ys e eu)"
  by (induction h a pu xs e eu rule: tiled.induct) auto

lemma unat_sum: "unat p + unat n + 8 < 2 ^ 64 \<Longrightarrow> unat (p + n) = unat p + unat (n :: u64)"
  by (simp add: unat_word_ariths)

lemma tiled_le: "tiled h a pu bs e eu \<Longrightarrow> unat a \<le> unat e"
proof (induction h a pu bs e eu rule: tiled.induct)
  case (2 h a pu p n u bs e eu)
  then have "unat (p + n) = unat p + unat n" by (intro unat_sum) auto
  moreover have "unat (p + n) \<le> unat e" "p = a" using 2 by auto
  ultimately show ?case by simp
qed simp

lemma tiled_range:
  "tiled h a pu bs e eu \<Longrightarrow> (p, n, u) \<in> set bs \<Longrightarrow>
    unat a \<le> unat p \<and> unat p + unat n \<le> unat e \<and> 32 \<le> unat n \<and> unat n mod 16 = 0
    \<and> unat p + unat n + 8 < 2 ^ 64 \<and> unat (p + n) = unat p + unat n
    \<and> unat p mod 16 = unat a mod 16"
proof (induction h a pu bs e eu rule: tiled.induct)
  case (2 h a pu q m v bs e eu)
  have q: "unat (q + m) = unat q + unat m" "tiled h (q + m) v bs e eu" "q = a"
    "32 \<le> unat m" "unat m mod 16 = 0" "unat q + unat m + 8 < 2 ^ 64"
    using 2(2) unat_sum [of q m] by auto
  show ?case
  proof (cases "(p, n, u) = (q, m, v)")
    case True
    then show ?thesis using q tiled_le [OF q(2)] by auto
  next
    case False
    then have "(p, n, u) \<in> set bs" using 2(3) by auto
    note r = 2(1) [OF q(2) this]
    have "(unat q + unat m) mod 16 = unat q mod 16" using q(5) by (metis add.right_neutral mod_add_right_eq)
    moreover have qa: "unat q = unat a" using q(3) by simp
    ultimately have "unat p mod 16 = unat a mod 16" using r unfolding q(1) by metis
    moreover have "unat a \<le> unat p" using r qa unfolding q(1) by linarith
    ultimately show ?thesis using r by blast
  qed
qed simp

lemma tiled_head:
  "tiled h a pu bs e eu \<Longrightarrow> (p, n, u) \<in> set bs \<Longrightarrow> \<exists>pu. h (head_at p) = Some (head_word n pu u) \<and> (\<not> u \<longrightarrow> pu)"
  by (induction h a pu bs e eu rule: tiled.induct) auto

lemma tiled_disjoint:
  "tiled h a pu bs e eu \<Longrightarrow> (p, n, u) \<in> set bs \<Longrightarrow> (q, m, v) \<in> set bs \<Longrightarrow> (p, n, u) \<noteq> (q, m, v) \<Longrightarrow>
    own p n \<inter> own q m = {}"
proof (induction h a pu bs e eu rule: tiled.induct)
  case (2 h a pu r k w bs e eu)
  have t: "unat (r + k) = unat r + unat k" "tiled h (r + k) w bs e eu"
    using 2(2) unat_sum [of r k] by auto
  have far: "own r k \<inter> own p' n' = {}" if "(p', n', u') \<in> set bs" for p' n' u'
    using tiled_range [OF t(2) that] t(1) by (auto simp: own_def)
  show ?case using 2(1) [OF t(2)] 2(3-5) far by (auto dest: far)
qed simp

lemma tiled_distinct: "tiled h a pu bs e eu \<Longrightarrow> (p, n, u) \<in> set bs \<Longrightarrow> (p, m, v) \<in> set bs \<Longrightarrow> n = m \<and> u = v"
proof (rule ccontr)
  assume t: "tiled h a pu bs e eu" "(p, n, u) \<in> set bs" "(p, m, v) \<in> set bs" and "\<not> (n = m \<and> u = v)"
  then have "own p n \<inter> own p m = {}" using tiled_disjoint [OF t] by auto
  moreover have "head_at p \<in> own p n" "head_at p \<in> own p m"
    using tiled_range [OF t(1) t(2)] tiled_range [OF t(1) t(3)] links_inner(3) by blast+
  ultimately show False by blast
qed

lemma tiled_last: "tiled h a pu bs e eu \<Longrightarrow> eu = (if bs = [] then pu else snd (snd (last bs)))"
  by (induction h a pu bs e eu rule: tiled.induct) auto

lemma tiled_cong:
  "tiled h a pu bs e eu \<Longrightarrow> \<forall>b \<in> set bs. \<forall>x \<in> firm b. h' x = h x \<Longrightarrow> tiled h' a pu bs e eu"
  by (induction h a pu bs e eu rule: tiled.induct) auto

lemma firm_own:
  assumes "32 \<le> unat n" "unat p + unat n + 8 < 2 ^ 64"
  shows "firm (p, n, u) \<subseteq> own p n" and "\<not> u \<Longrightarrow> firm (p, n, u) \<inter> inner p n = {}"
  using links_inner [OF assms] foot_own [OF assms] by (auto simp: own_def payload_def)

end
