(* ===== verification/DlArena.thy ===== *)
theory DlArena
  imports DlLayout
begin

text \<open>
  The invariant of the allocator between two calls, \<open>arena s lay\<close>: the segment of the state is
  tiled by the blocks \<open>lay\<close> up to the top chunk, and the free blocks are the designated victim and
  the chunks of the bins. Inside a call some of it is being rewritten: \<open>hole\<close> is
  the invariant with an interval about which nothing is said.
\<close>

section \<open>The invariant\<close>

definition top_end :: "'o dl \<Rightarrow> nat" where
  "top_end s = unat (topc s) + unat (topsize s)"

text \<open>The only segment, up to the 80 bytes at its end that the code keeps free, and its record: mapped,
  apart from the static data, below a tebibyte, and not above the size at which memory is given
  back.\<close>

definition seg_words :: "'o dl \<Rightarrow> u64 set" where
  "seg_words s = {a. unat (gm s) + 888 \<le> unat a \<and> unat a < unat (gm s) + 920}"

definition seg_rec :: "'o dl \<Rightarrow> bool" where
  "seg_rec s \<longleftrightarrow> ld s (sbase_at (seg_at s)) = Some (least_addr s)
     \<and> ld s (ssize_at (seg_at s)) = Some (of_nat (top_end s + 80 - unat (least_addr s)))
     \<and> ld s (snext_at (seg_at s)) = Some 0 \<and> ld s (sflags_at (seg_at s)) = Some 0"

definition segment :: "'o dl \<Rightarrow> bool" where
  "segment s \<longleftrightarrow> 0 < unat (least_addr s) \<and> unat (least_addr s) mod 16 = 0 \<and> top_end s + 80 < 2 ^ 64
     \<and> top_end s < unat (least_addr s) + 2 ^ 40 \<and> top_end s \<le> unat (least_addr s) + unat (trim_check s)
     \<and> (\<forall>a. unat (least_addr s) + 8 \<le> unat a \<and> unat a < top_end s + 80 \<longrightarrow> has s a)
     \<and> unat (gm s) + 920 \<le> 2 ^ 64
     \<and> (unat (gm s) + 920 \<le> unat (least_addr s) + 8 \<or> top_end s + 80 \<le> unat (gm s))
     \<and> seg_rec s"

lemma unat_seg_words:
  assumes "unat (gm s) + 920 \<le> 2 ^ 64"
  shows "unat (sbase_at (seg_at s)) = unat (gm s) + 888" "unat (ssize_at (seg_at s)) = unat (gm s) + 896"
    "unat (snext_at (seg_at s)) = unat (gm s) + 904" "unat (sflags_at (seg_at s)) = unat (gm s) + 912"
  using assms by (simp_all add: seg_at_def ssize_at_def snext_at_def sflags_at_def unat_word_ariths)

lemma seg_rec_cong:
  assumes r: "seg_rec s" and u: "unat (gm s) + 920 \<le> 2 ^ 64"
    and sel: "gm s' = gm s" "least_addr s' = least_addr s" "top_end s' = top_end s"
    and h: "\<And>a. a \<in> seg_words s \<Longrightarrow> heap s' a = heap s a"
  shows "seg_rec s'"
proof -
  have sg: "seg_at s' = seg_at s" by (simp add: seg_at_def sel)
  have "sbase_at (seg_at s) \<in> seg_words s" "ssize_at (seg_at s) \<in> seg_words s"
    "snext_at (seg_at s) \<in> seg_words s" "sflags_at (seg_at s) \<in> seg_words s"
    unfolding seg_words_def mem_Collect_eq unat_seg_words [OF u] by simp_all
  then show ?thesis using r by (simp add: seg_rec_def sg sel ld_def h)
qed

definition top_ok :: "'o dl \<Rightarrow> bool" where
  "top_ok s \<longleftrightarrow> 0 < unat (topsize s) \<and> unat (topsize s) mod 16 = 0
     \<and> ld s (head_at (topc s)) = Some (head_word (topsize s) True False)"

text \<open>The designated victim is none, or a free block; \<open>d\<close> says that it is in the hole.\<close>

definition victim :: "bool \<Rightarrow> 'o dl \<Rightarrow> block list \<Rightarrow> bool" where
  "victim d s bs \<longleftrightarrow>
     (if d then \<forall>n u. (dv s, n, u) \<notin> set bs
      else (dv s = 0 \<and> dvsize s = 0) \<or> (dv s, dvsize s, False) \<in> set bs)"

definition arena :: "'o dl \<Rightarrow> block list \<Rightarrow> bool" where
  "arena s lay \<longleftrightarrow> segment s \<and> top_ok s \<and> tiled (heap s) (least_addr s) True lay (topc s) True
     \<and> victim False s lay \<and> pool s (frees lay - {(dv s, dvsize s)})"

text \<open>The blocks \<open>xs\<close>, an interval of \<open>k\<close> bytes at \<open>b\<close>, and the blocks \<open>ys\<close>, the first of which (or
  the top chunk) has the flag \<open>v\<close> for its predecessor.\<close>

definition gap :: "'o dl \<Rightarrow> bool \<Rightarrow> block list \<Rightarrow> u64 \<Rightarrow> u64 \<Rightarrow> bool \<Rightarrow> block list \<Rightarrow> bool" where
  "gap s d xs b k v ys \<longleftrightarrow> segment s \<and> top_ok s \<and> tiled (heap s) (least_addr s) True xs b True
     \<and> tiled (heap s) (b + k) v ys (topc s) True \<and> unat k mod 16 = 0 \<and> unat b + unat k + 8 < 2 ^ 64
     \<and> victim d s (xs @ ys)"

definition hole :: "'o dl \<Rightarrow> bool \<Rightarrow> block list \<Rightarrow> u64 \<Rightarrow> u64 \<Rightarrow> bool \<Rightarrow> block list \<Rightarrow> bool" where
  "hole s d xs b k v ys \<longleftrightarrow> gap s d xs b k v ys \<and> pool s (frees (xs @ ys) - {(dv s, dvsize s)})"

text \<open>The contents of the blocks in use are the same, and so is what does not belong to any block.\<close>

definition settings :: "'o dl \<Rightarrow> u64 \<times> u64 \<times> u64 \<times> nat \<times> malloc_params \<times> u32 \<times> u64 \<times> 'o" where
  "settings s = (gm s, least_addr s, trim_check s, top_end s, mparams s, mflags s, footprint_limit s, os s)"

lemma settings_upd [simp]: "settings (upd s a v) = settings s"
  by (simp add: settings_def top_end_def upd_def)

lemma settings_fields [simp]:
  "settings (s\<lparr>dv := x\<rparr>) = settings s" "settings (s\<lparr>dvsize := n\<rparr>) = settings s"
  "settings (s\<lparr>release_checks := n\<rparr>) = settings s"
  by (simp_all add: settings_def top_end_def)

lemma settings_bins: "bins_only s s' \<Longrightarrow> settings s' = settings s"
  unfolding bins_only_def by (erule ssubst) (simp add: settings_def top_end_def)

definition keeps :: "'o dl \<Rightarrow> 'o dl \<Rightarrow> block list \<Rightarrow> bool" where
  "keeps s s' bs \<longleftrightarrow> settings s' = settings s \<and> (\<forall>(p, n) \<in> useds bs. \<forall>a \<in> payload p n. heap s' a = heap s a)"

lemma keeps_refl [simp]: "keeps s s bs"
  by (simp add: keeps_def)

lemma keepsI: "settings s' = settings s \<Longrightarrow> (\<And>p n a. (p, n, True) \<in> set bs \<Longrightarrow> a \<in> payload p n \<Longrightarrow> heap s' a = heap s a) \<Longrightarrow> keeps s s' bs"
  unfolding keeps_def useds_def by blast

lemma keeps_trans: "keeps s s' bs \<Longrightarrow> keeps s' s'' bs \<Longrightarrow> keeps s s'' bs"
  unfolding keeps_def by fastforce

lemma keeps_mono: "keeps s s' bs \<Longrightarrow> useds bs' \<subseteq> useds bs \<Longrightarrow> keeps s s' bs'"
  unfolding keeps_def by blast

section \<open>Where everything is\<close>

lemma gap_range:
  assumes g: "gap s d xs b k v ys"
  shows "unat (least_addr s) \<le> unat b" "unat (b + k) = unat b + unat k" "unat b + unat k \<le> unat (topc s)"
    and "(p, n, u) \<in> set (xs @ ys) \<Longrightarrow> unat (least_addr s) \<le> unat p \<and> unat p + unat n \<le> unat (topc s)
      \<and> (unat p + unat n \<le> unat b \<or> unat b + unat k \<le> unat p) \<and> 32 \<le> unat n \<and> unat n mod 16 = 0
      \<and> unat p + unat n + 8 < 2 ^ 64 \<and> unat p mod 16 = 0"
    and "unat b mod 16 = 0"
proof -
  have t: "tiled (heap s) (least_addr s) True xs b True" "tiled (heap s) (b + k) v ys (topc s) True"
    and k: "unat k mod 16 = 0" "unat b + unat k + 8 < 2 ^ 64" and al: "unat (least_addr s) mod 16 = 0"
    using g by (auto simp: gap_def segment_def)
  show le: "unat (least_addr s) \<le> unat b" by (rule tiled_le [OF t(1)])
  show bk: "unat (b + k) = unat b + unat k" by (rule unat_sum [OF k(2)])
  show le2: "unat b + unat k \<le> unat (topc s)" using tiled_le [OF t(2)] bk by simp
  show b16: "unat b mod 16 = 0"
  proof (cases xs rule: rev_cases)
    case Nil
    then show ?thesis using t(1) al by simp
  next
    case (snoc zs z)
    obtain p n u where z: "z = (p, n, u)" by (cases z) auto
    have "(p, n, u) \<in> set xs" by (simp add: snoc z)
    note r = tiled_range [OF t(1) this]
    have "b = p + n" using t(1) by (auto simp: snoc z tiled_append)
    then have "unat b = unat p + unat n" using r by simp
    then show ?thesis using r al by (metis mod_add_eq add_0 mod_0)
  qed
  show "unat (least_addr s) \<le> unat p \<and> unat p + unat n \<le> unat (topc s)
      \<and> (unat p + unat n \<le> unat b \<or> unat b + unat k \<le> unat p) \<and> 32 \<le> unat n \<and> unat n mod 16 = 0
      \<and> unat p + unat n + 8 < 2 ^ 64 \<and> unat p mod 16 = 0" if "(p, n, u) \<in> set (xs @ ys)"
  proof (cases "(p, n, u) \<in> set xs")
    case True
    then show ?thesis using tiled_range [OF t(1) True] le le2 al by simp
  next
    case False
    then have "(p, n, u) \<in> set ys" using that by simp
    note r = tiled_range [OF t(2) this]
    have "unat p mod 16 = 0" using r bk k(1) b16 by (metis mod_add_eq add_0 mod_0)
    then show ?thesis using r le bk by simp
  qed
qed

lemma gap_disjoint:
  assumes g: "gap s d xs b k v ys" and m: "(p, n, u) \<in> set (xs @ ys)"
  shows "own p n \<inter> own b k = {}" and "own p n \<inter> statics s = {}" and "head_at (topc s) \<notin> own p n"
    and "seg_words s \<inter> own p n = {}"
    and "(q, m, w) \<in> set (xs @ ys) \<Longrightarrow> (p, n, u) \<noteq> (q, m, w) \<Longrightarrow> own p n \<inter> own q m = {}"
proof -
  note r = gap_range(4) [OF g m] and rg = gap_range(1-3) [OF g]
  have sg: "unat (gm s) + 920 \<le> 2 ^ 64" "unat (gm s) + 920 \<le> unat (least_addr s) + 8 \<or> top_end s + 80 \<le> unat (gm s)"
    "top_end s + 80 < 2 ^ 64" using g by (auto simp: gap_def segment_def)
  have te: "unat (topc s) \<le> top_end s" by (simp add: top_end_def)
  show "own p n \<inter> own b k = {}" using r by (auto simp: own_def)
  show "own p n \<inter> statics s = {}" using r sg(2) te by (auto simp: own_def statics_def)
  have "unat (head_at (topc s)) = unat (topc s) + 8" using sg(3) te by (simp add: head_at_def unat_word_ariths)
  then show "head_at (topc s) \<notin> own p n" using r by (auto simp: own_def)
  show "seg_words s \<inter> own p n = {}" using r sg(2) te by (auto simp: own_def seg_words_def)
  have t: "tiled (heap s) (least_addr s) True xs b True" "tiled (heap s) (b + k) v ys (topc s) True"
    using g by (auto simp: gap_def)
  show "own p n \<inter> own q m = {}" if q: "(q, m, w) \<in> set (xs @ ys)" and ne: "(p, n, u) \<noteq> (q, m, w)"
  proof -
    have across: "own p n \<inter> own q m = {}" if "(p, n, u) \<in> set xs" "(q, m, w) \<in> set ys" for p n u q m w
      using tiled_range [OF t(1) that(1)] tiled_range [OF t(2) that(2)] rg(2) by (auto simp: own_def)
    from q m consider "(p, n, u) \<in> set xs" "(q, m, w) \<in> set xs" | "(p, n, u) \<in> set xs" "(q, m, w) \<in> set ys"
      | "(p, n, u) \<in> set ys" "(q, m, w) \<in> set xs" | "(p, n, u) \<in> set ys" "(q, m, w) \<in> set ys" by auto
    then show ?thesis
    proof cases
      case 1
      then show ?thesis using tiled_disjoint [OF t(1) 1 ne] by simp
    next
      case 4
      then show ?thesis using tiled_disjoint [OF t(2) 4 ne] by simp
    qed (use across in blast)+
  qed
qed

lemma gap_hole_words:
  assumes g: "gap s d xs b k v ys"
  shows "own b k \<inter> statics s = {}" "head_at (topc s) \<notin> own b k" "seg_words s \<inter> own b k = {}"
    and "head_at (topc s) \<notin> statics s" "seg_words s \<inter> statics s = {}" "a \<in> own b k \<Longrightarrow> has s a"
proof -
  note rg = gap_range(1-3) [OF g]
  have sg: "unat (gm s) + 920 \<le> 2 ^ 64" "unat (gm s) + 920 \<le> unat (least_addr s) + 8 \<or> top_end s + 80 \<le> unat (gm s)"
    "top_end s + 80 < 2 ^ 64" "0 < unat (topsize s)" "\<And>a. unat (least_addr s) + 8 \<le> unat a \<Longrightarrow> unat a < top_end s + 80 \<Longrightarrow> has s a"
    using g by (auto simp: gap_def segment_def top_ok_def)
  have te: "unat (topc s) < top_end s" using sg(4) by (simp add: top_end_def)
  have u: "unat (head_at (topc s)) = unat (topc s) + 8"
    using sg(3) te by (simp add: head_at_def unat_word_ariths)
  show "own b k \<inter> statics s = {}" "head_at (topc s) \<notin> own b k" "seg_words s \<inter> own b k = {}"
    "head_at (topc s) \<notin> statics s" "seg_words s \<inter> statics s = {}"
    using rg sg(2) te by (auto simp: own_def statics_def seg_words_def u)
  show "a \<in> own b k \<Longrightarrow> has s a" using rg te by (intro sg(5)) (auto simp: own_def)
qed

lemma gap_firm:
  assumes g: "gap s d xs b k v ys" and m: "(p, n, u) \<in> set (xs @ ys)" and x: "x \<in> firm (p, n, u)"
  shows "x \<notin> statics s \<union> link_words (frees (xs @ ys)) \<union> own b k"
proof -
  note r = gap_range(4) [OF g m]
  have f: "firm (p, n, u) \<subseteq> own p n" "\<not> u \<Longrightarrow> firm (p, n, u) \<inter> inner p n = {}"
    using r firm_own [of n p u] by blast+
  have "x \<notin> inner q m" if q: "(q, m, False) \<in> set (xs @ ys)" for q m
  proof (cases "(p, n, u) = (q, m, False)")
    case True
    then show ?thesis using f(2) x by auto
  next
    case False
    then show ?thesis using gap_disjoint(5) [OF g assms(2) q] f(1) x inner_own by blast
  qed
  then have "x \<notin> link_words (frees (xs @ ys))" by (auto simp: link_words_def frees_def)
  then show ?thesis using gap_disjoint(1,2) [OF g m] f(1) x by blast
qed

lemma gap_other_words:
  assumes g: "gap s d xs b k v ys"
  shows "head_at (topc s) \<notin> statics s \<union> link_words (frees (xs @ ys)) \<union> own b k"
    and "x \<in> seg_words s \<Longrightarrow> x \<notin> statics s \<union> link_words (frees (xs @ ys)) \<union> own b k"
proof -
  have "x \<notin> link_words (frees (xs @ ys))" if "\<And>p n u. (p, n, u) \<in> set (xs @ ys) \<Longrightarrow> x \<notin> own p n" for x
    using that inner_own unfolding link_words_def frees_def by fast
  then show "head_at (topc s) \<notin> statics s \<union> link_words (frees (xs @ ys)) \<union> own b k"
    "x \<in> seg_words s \<Longrightarrow> x \<notin> statics s \<union> link_words (frees (xs @ ys)) \<union> own b k"
    using gap_hole_words [OF g] gap_disjoint(3,4) [OF g] by blast+
qed

lemma gap_touch:
  assumes g: "gap s d xs b k v ys" and bo: "bins_only s s'"
    and t: "touches s s' (statics s \<union> link_words (frees (xs @ ys)) \<union> own b k)"
  shows "gap s' d xs b k v ys" and "keeps s s' (xs @ ys)"
proof -
  note sel = bins_only_sel [OF bo]
  have same: "heap s' a = heap s a" if "a \<notin> statics s \<union> link_words (frees (xs @ ys)) \<union> own b k" for a
    using t that by (simp add: touches_def)
  have mono: "has s a \<Longrightarrow> has s' a" for a using t by (simp add: touches_def)
  have fm: "heap s' x = heap s x" if "c \<in> set (xs @ ys)" "x \<in> firm c" for c x
  proof -
    obtain p n u where c: "c = (p, n, u)" by (cases c) auto
    show ?thesis by (rule same [OF gap_firm [OF g that [unfolded c]]])
  qed
  have te: "top_end s' = top_end s" by (simp add: top_end_def sel)
  have u: "unat (gm s) + 920 \<le> 2 ^ 64" "seg_rec s" using g by (simp_all add: gap_def segment_def)
  have "seg_rec s'" by (rule seg_rec_cong [OF u(2,1) sel(1,2) te same [OF gap_other_words(2) [OF g]]])
  then have "segment s'" using g mono unfolding gap_def segment_def te sel by blast
  moreover have "top_ok s'"
    using g same [OF gap_other_words(1) [OF g]] by (auto simp: gap_def top_ok_def sel ld_def)
  moreover have "victim d s' (xs @ ys)" using g unfolding gap_def victim_def sel by blast
  moreover have "tiled (heap s') (least_addr s) True xs b True" "tiled (heap s') (b + k) v ys (topc s) True"
    using g tiled_cong fm unfolding gap_def by (metis Un_iff set_append)+
  ultimately show "gap s' d xs b k v ys" using g by (simp add: gap_def sel)
  show "keeps s s' (xs @ ys)"
    using fm by (intro keepsI settings_bins [OF bo]) fastforce
qed

section \<open>Opening, growing and closing the hole\<close>

definition pin :: "block list \<Rightarrow> bool" where
  "pin xs \<longleftrightarrow> xs = [] \<or> snd (snd (last xs))"

lemma tiled_pin: "tiled h a True xs e eu \<Longrightarrow> eu = pin xs"
  by (drule tiled_last) (simp add: pin_def)

lemma arena_open:
  assumes "arena s (xs @ (p, n, u) # ys)" and "pin xs"
  shows "hole s False xs p 0 True ((p, n, u) # ys)"
proof -
  have t: "tiled (heap s) (least_addr s) True (xs @ (p, n, u) # ys) (topc s) True"
    using assms(1) by (simp add: arena_def)
  then obtain m mu where m: "tiled (heap s) (least_addr s) True xs m mu" "tiled (heap s) m mu ((p, n, u) # ys) (topc s) True"
    unfolding tiled_append by blast
  have "mu" using tiled_pin [OF m(1)] assms(2) by simp
  moreover have "m = p" using m(2) by simp
  ultimately show ?thesis using assms(1) m by (simp add: arena_def hole_def gap_def)
qed

lemma arena_end:
  assumes "arena s xs"
  shows "hole s False xs (topc s) 0 True []"
proof -
  have "top_end s + 80 < 2 ^ 64" using assms by (simp add: arena_def segment_def)
  then have "unat (topc s) + 8 < 2 ^ 64" by (simp add: top_end_def)
  then show ?thesis using assms by (simp add: arena_def hole_def gap_def)
qed

lemma arena_pin:
  assumes "arena s (xs @ (p, n, u) # ys)"
  shows "heap s (head_at p) = Some (head_word n (pin xs) u)" and "\<not> u \<Longrightarrow> pin xs"
    and "pin (xs @ (p, n, u) # ys)" and "0 < unat p" "ok_address s p"
proof -
  have t: "tiled (heap s) (least_addr s) True (xs @ (p, n, u) # ys) (topc s) True" "0 < unat (least_addr s)"
    using assms by (simp_all add: arena_def segment_def)
  then obtain m mu where m: "tiled (heap s) (least_addr s) True xs m mu" "tiled (heap s) m mu ((p, n, u) # ys) (topc s) True"
    unfolding tiled_append by blast
  then show "heap s (head_at p) = Some (head_word n (pin xs) u)" "\<not> u \<Longrightarrow> pin xs"
    using tiled_pin [OF m(1)] by auto
  show "pin (xs @ (p, n, u) # ys)" using tiled_pin [OF t(1)] by simp
  have "unat (least_addr s) \<le> unat p" using tiled_le [OF m(1)] m(2) by simp
  then show "0 < unat p" "ok_address s p" using t(2) by (simp_all add: ok_address_def word_le_nat_alt)
qed

lemma gap_grow:
  assumes g: "gap s d xs b k v ((p, n, u) # ys)"
  shows "p = b + k" "unat (k + n) = unat k + unat n" "b + (k + n) = p + n" "32 \<le> unat n"
    "unat b + unat (k + n) + 8 < 2 ^ 64" "unat (k + n) mod 16 = 0"
    "tiled (heap s) (b + (k + n)) u ys (topc s) True" "own p n \<subseteq> own b (k + n)" "own b k \<subseteq> own b (k + n)"
    "(q, m, w) \<in> set (xs @ ys) \<Longrightarrow> q \<noteq> p"
proof -
  have t: "tiled (heap s) (b + k) v ((p, n, u) # ys) (topc s) True" "unat k mod 16 = 0"
    "tiled (heap s) (least_addr s) True xs b True" using g unfolding gap_def by blast+
  note bk = gap_range(2) [OF g]
  show pb: "p = b + k" using t(1) by simp
  have n: "32 \<le> unat n" "unat n mod 16 = 0" "unat p + unat n + 8 < 2 ^ 64" using t(1) by auto
  then show "32 \<le> unat n" by simp
  have pbu: "unat p = unat b + unat k" using bk pb by simp
  then show kn: "unat (k + n) = unat k + unat n" using n(3) by (intro unat_sum) simp
  show eq: "b + (k + n) = p + n" by (simp add: pb)
  show "tiled (heap s) (b + (k + n)) u ys (topc s) True" unfolding eq using t(1) by auto
  show "unat b + unat (k + n) + 8 < 2 ^ 64" using n(3) pbu kn by simp
  show "unat (k + n) mod 16 = 0" using n(2) t(2) unfolding kn by (metis mod_add_eq add_0 mod_0)
  show "own p n \<subseteq> own b (k + n)" "own b k \<subseteq> own b (k + n)" using pbu kn by (auto simp: own_def)
  have after: "tiled (heap s) (p + n) u ys (topc s) True" "unat (p + n) = unat p + unat n"
    using t(1) unat_sum [OF n(3)] by auto
  show "q \<noteq> p" if "(q, m, w) \<in> set (xs @ ys)"
  proof (cases "(q, m, w) \<in> set xs")
    case True
    then show ?thesis using tiled_range [OF t(3) True] pbu by auto
  next
    case False
    then have "(q, m, w) \<in> set ys" using that by simp
    from tiled_range [OF after(1) this] show ?thesis using after(2) n(1) by auto
  qed
qed

lemma gap_swallow:
  assumes g: "gap s d xs b k v ((p, n, u) # ys)"
  shows "victim d' s (xs @ ys) \<Longrightarrow> gap s d' xs b (k + n) u ys"
  using g gap_grow(5-7) [OF g] by (simp add: gap_def)

lemma gap_unique:
  assumes g: "gap s d xs b k v ys" and "(p, n, u) \<in> set (xs @ ys)" "(p, m, w) \<in> set (xs @ ys)"
  shows "n = m" "u = w"
proof -
  have "head_at p \<in> own p n" "head_at p \<in> own p m"
    using gap_range(4) [OF g assms(2)] gap_range(4) [OF g assms(3)] links_inner(3) by blast+
  then show "n = m" "u = w" using gap_disjoint(5) [OF g assms(2,3)] by blast+
qed

lemma hole_used:
  assumes h: "hole s d xs b k v ((p, n, True) # ys)"
  shows "hole s d xs b (k + n) True ys"
proof -
  have g: "gap s d xs b k v ((p, n, True) # ys)" using h by (simp add: hole_def)
  have "victim d s (xs @ ys)" using g by (auto simp: gap_def victim_def)
  then show ?thesis using h gap_swallow [OF g] by (simp add: hole_def)
qed

lemma hole_victim:
  assumes h: "hole s False xs b k v ((p, n, False) # ys)" and p: "p = dv s"
  shows "hole s True xs b (k + n) False ys" and "n = dvsize s"
proof -
  have g: "gap s False xs b k v ((p, n, False) # ys)" using h by (simp add: hole_def)
  have m: "(p, n, False) \<in> set (xs @ (p, n, False) # ys)" by simp
  have "0 < unat p" using gap_range(4) [OF g m] g by (simp add: gap_def segment_def)
  then have "(dv s, dvsize s, False) \<in> set (xs @ (p, n, False) # ys)" using g p by (auto simp: gap_def victim_def)
  then show n: "n = dvsize s" using gap_unique(1) [OF g m] p by blast
  have "(p, m, w) \<notin> set (xs @ ys)" for m w using gap_grow(10) [OF g] by blast
  then have "victim True s (xs @ ys)" by (auto simp: victim_def p)
  moreover have "frees (xs @ (p, n, False) # ys) - {(dv s, dvsize s)} = frees (xs @ ys) - {(dv s, dvsize s)}"
    using n p by auto
  ultimately show "hole s True xs b (k + n) False ys" using h gap_swallow [OF g] by (simp add: hole_def)
qed

text \<open>A binned neighbour leaves its bin and becomes part of the hole.\<close>

lemma hole_unlinked:
  assumes h: "hole s d xs b k v ((p, n, False) # ys)"
  defines "fr \<equiv> frees (xs @ (p, n, False) # ys) - {(dv s, dvsize s)}"
  assumes p: "p \<noteq> dv s" and s': "pool s' (fr - {(p, n)})" "bins_only s s'"
    and t: "touches s s' (statics s \<union> link_words fr \<union> own p n)"
  shows "hole s' d xs b (k + n) False ys" and "keeps s s' (xs @ ys)"
proof -
  have g: "gap s d xs b k v ((p, n, False) # ys)" using h by (simp add: hole_def)
  note gr = gap_grow [OF g]
  have "victim d s (xs @ ys)" using g p by (auto simp: gap_def victim_def split: if_splits)
  note g' = gap_swallow [OF g this]
  have "inner p n \<subseteq> own b (k + n)" using inner_own gr(8) by blast
  then have "link_words fr \<subseteq> link_words (frees (xs @ ys)) \<union> own b (k + n)"
    by (auto simp: link_words_def fr_def)
  then have t': "touches s s' (statics s \<union> link_words (frees (xs @ ys)) \<union> own b (k + n))"
    using gr(8) by (intro touches_mono [OF t]) blast
  note gt = gap_touch [OF g' s'(2) t']
  show "keeps s s' (xs @ ys)" by (rule gt(2))
  have "(p, n) \<notin> frees (xs @ ys)" using gr(10) [of p n False] by (auto simp: frees_def)
  then have "fr - {(p, n)} = frees (xs @ ys) - {(dv s, dvsize s)}" using p by (auto simp: fr_def)
  then show "hole s' d xs b (k + n) False ys"
    using gt(1) s'(1) bins_only_sel [OF s'(2)] by (simp add: hole_def)
qed

lemma hole_unlink:
  assumes h: "hole s d xs b k v ((p, n, False) # ys)" and p: "p \<noteq> dv s"
  shows "\<exists>s'. unlink_chunk s p n = Some s' \<and> hole s' d xs b (k + n) False ys \<and> keeps s s' (xs @ ys) \<and> bins_only s s'"
proof -
  have "pool s (frees (xs @ (p, n, False) # ys) - {(dv s, dvsize s)})" using h by (simp add: hole_def)
  moreover have "(p, n) \<in> frees (xs @ (p, n, False) # ys) - {(dv s, dvsize s)}" using p by simp
  ultimately show ?thesis using pool_unlink hole_unlinked [OF h p] by blast
qed

text \<open>Stores inside the hole.\<close>

lemma fresh_words:
  assumes g: "gap s d xs b k v ys" and a: "a \<in> own b k"
  shows "a \<notin> statics s \<union> words_of (frees (xs @ ys))"
  using gap_disjoint(1) [OF g] gap_hole_words(1) [OF g] a unfolding words_of_def frees_def by fast

lemma words_of_mono: "fr \<subseteq> fr' \<Longrightarrow> words_of fr \<subseteq> words_of fr'"
  by (auto simp: words_of_def)

lemma hole_upd:
  assumes h: "hole s d xs b k v ys" and a: "a \<in> own b k"
  shows "hole (upd s a x) d xs b k v ys" and "keeps s (upd s a x) (xs @ ys)" and "has s a"
proof -
  have g: "gap s d xs b k v ys" and p: "pool s (frees (xs @ ys) - {(dv s, dvsize s)})" using h by (auto simp: hole_def)
  have bo: "bins_only s (upd s a x)" by (intro bins_only_upd) auto
  have "touches s (upd s a x) (statics s \<union> link_words (frees (xs @ ys)) \<union> own b k)"
    using a by (intro touches_upd touches_refl) simp
  note gt = gap_touch [OF g bo this]
  have "pool (upd s a x) (frees (xs @ ys) - {(dv s, dvsize s)})"
    using fresh_words [OF g a] words_of_mono [of "frees (xs @ ys) - {(dv s, dvsize s)}" "frees (xs @ ys)"]
    by (intro pool_frame [OF p]) auto
  then show "hole (upd s a x) d xs b k v ys" using gt(1) by (simp add: hole_def)
  show "keeps s (upd s a x) (xs @ ys)" by (rule gt(2))
  show "has s a" by (rule gap_hole_words(6) [OF g a])
qed

lemma hole_own:
  assumes h: "hole s d xs b k v ys" and k: "32 \<le> unat k"
  shows "head_at b \<in> own b k" "b + k \<in> own b k" "b + k \<noteq> head_at b"
proof -
  have "unat b + unat k + 8 < 2 ^ 64" using h by (simp add: hole_def gap_def)
  then show "head_at b \<in> own b k" "b + k \<in> own b k" "b + k \<noteq> head_at b"
    using links_inner(3) [OF k] foot_own [OF k] by blast+
qed

definition filled :: "'o dl \<Rightarrow> u64 \<Rightarrow> u64 \<Rightarrow> bool" where
  "filled s b k \<longleftrightarrow> heap s (head_at b) = Some (head_word k True False) \<and> heap s (b + k) = Some k"

lemma hole_fill:
  assumes h: "hole s d xs b k v ys" and k: "32 \<le> unat k"
  shows "\<exists>s'. set_size_and_pinuse_of_free_chunk s b k = Some s' \<and> hole s' d xs b k v ys
    \<and> filled s' b k \<and> keeps s s' (xs @ ys) \<and> bins_only s s'"
proof -
  note o = hole_own [OF h k]
  note u1 = hole_upd(1,2) [OF h o(1), of "head_word k True False"]
  note u2 = hole_upd(1,2) [OF u1(1) o(2), of k]
  note m = hole_upd(3) [OF h o(1)] hole_upd(3) [OF u1(1) o(2)]
  let ?s = "upd (upd s (head_at b) (head_word k True False)) (b + k) k"
  have "set_size_and_pinuse_of_free_chunk s b k = Some ?s"
    using m by (simp add: set_size_and_pinuse_of_free_chunk_def set_foot_def st_has head_word_eqs del: flag_values)
  moreover have "filled ?s b k" using o(3) by (auto simp: filled_def)
  moreover have "bins_only s ?s" by (intro bins_only_upd) auto
  ultimately show ?thesis using u2(1) keeps_trans [OF u1(2) u2(2)] by blast
qed

text \<open>Cutting a block in use off the front of the hole.\<close>

lemma hole_cut:
  assumes h: "hole s d xs b k v ys" and n: "32 \<le> unat n" "unat n mod 16 = 0" "unat n \<le> unat k"
    and hd: "heap s (head_at b) = Some (head_word n True True)" and dn: "d \<Longrightarrow> dv s \<noteq> b"
  shows "hole s d (xs @ [(b, n, True)]) (b + n) (k - n) v ys"
proof -
  have g: "gap s d xs b k v ys" using h by (simp add: hole_def)
  have k: "unat k mod 16 = 0" "unat b + unat k + 8 < 2 ^ 64" using g by (simp_all add: gap_def)
  have kn: "unat (k - n) = unat k - unat n" using n(3) by (simp add: unat_sub word_le_nat_alt)
  have bn: "unat (b + n) = unat b + unat n" using n(3) k(2) by (intro unat_sum) simp
  have "tiled (heap s) (least_addr s) True (xs @ [(b, n, True)]) (b + n) True"
    using g n k(2) hd unfolding tiled_append gap_def by auto
  moreover have "(b + n) + (k - n) = b + k" by simp
  moreover have "unat (k - n) mod 16 = 0" using k(1) n(2,3) unfolding kn by (metis dvd_eq_mod_eq_0 dvd_diff_nat)
  moreover have "victim d s ((xs @ [(b, n, True)]) @ ys)"
    using g dn by (auto simp: gap_def victim_def split: if_splits)
  ultimately have "gap s d (xs @ [(b, n, True)]) (b + n) (k - n) v ys"
    using g kn bn n(3) k(2) by (simp add: gap_def)
  then show ?thesis using h by (simp add: hole_def)
qed

section \<open>The block after the hole\<close>

text \<open>The flag of the next block for its predecessor is rewritten.\<close>

lemma hole_mark_next:
  fixes v' :: bool
  assumes h: "hole s d xs b k v ((q, m, True) # ys)"
  defines "s' \<equiv> upd s (head_at q) (head_word m v' True)"
  shows "q = b + k" "ld s (head_at q) = Some (head_word m v True)" "unat m mod 16 = 0"
    and "hole s' d xs b k v' ((q, m, True) # ys)" and "keeps s s' (xs @ (q, m, True) # ys)"
    and "head_at q \<notin> own b k"
proof -
  let ?bs = "xs @ (q, m, True) # ys" and ?x = "head_at q"
  have g: "gap s d xs b k v ((q, m, True) # ys)" and p: "pool s (frees ?bs - {(dv s, dvsize s)})"
    using h by (auto simp: hole_def)
  note gr = gap_grow [OF g]
  have qm: "(q, m, True) \<in> set ?bs" by simp
  note r = gap_range(4) [OF g qm]
  show "q = b + k" by (rule gr(1))
  show m16: "unat m mod 16 = 0" using r by blast
  have t: "tiled (heap s) (least_addr s) True xs b True" "tiled (heap s) (b + k) v ((q, m, True) # ys) (topc s) True"
    using g unfolding gap_def by blast+
  show "ld s ?x = Some (head_word m v True)" using t(2) by (auto simp: ld_def)
  have xo: "?x \<in> own q m" using r links_inner(3) by blast
  note dj = gap_disjoint [OF g qm]
  have firm: "?x \<notin> firm c" if "c \<in> set (xs @ ys)" for c
  proof -
    obtain p n u where c: "c = (p, n, u)" by (cases c)
    have mem: "(p, n, u) \<in> set ?bs" "(q, m, True) \<noteq> (p, n, u)" using that gr(10) [of p n u] by (auto simp: c)
    have "own q m \<inter> own p n = {}" by (rule dj(5) [OF mem])
    moreover have "firm (p, n, u) \<subseteq> own p n"
      using gap_range(4) [OF g mem(1)] firm_own(1) [of n p u] by blast
    ultimately show ?thesis using xo unfolding c by blast
  qed
  have hs: "heap s' a = heap s a" if "a \<noteq> ?x" for a using that by (simp add: s'_def)
  have cong: "\<forall>c \<in> set zs. \<forall>x \<in> firm c. heap s' x = heap s x" if "set zs \<subseteq> set (xs @ ys)" for zs
  proof (intro ballI)
    fix c x assume c: "c \<in> set zs" "x \<in> firm c"
    then have "x \<noteq> ?x" using firm [of c] that by auto
    then show "heap s' x = heap s x" by (rule hs)
  qed
  have ty: "tiled (heap s) (q + m) True ys (topc s) True" using t(2) by auto
  have t': "tiled (heap s') (least_addr s) True xs b True" "tiled (heap s') (q + m) True ys (topc s) True"
    using tiled_cong [OF t(1) cong] tiled_cong [OF ty cong] by simp_all
  have "tiled (heap s') (b + k) v' ((q, m, True) # ys) (topc s) True"
    using t(2) t'(2) by (auto simp: s'_def)
  moreover have sel: "least_addr s' = least_addr s" "topc s' = topc s" "topsize s' = topsize s" "top_end s' = top_end s"
    "trim_check s' = trim_check s" "gm s' = gm s" "seg_at s' = seg_at s" "dv s' = dv s" "dvsize s' = dvsize s"
    by (simp_all add: s'_def top_end_def seg_at_def)
  moreover have "segment s'"
  proof -
    have u: "unat (gm s) + 920 \<le> 2 ^ 64" "seg_rec s" using g by (simp_all add: gap_def segment_def)
    have "heap s' a = heap s a" if "a \<in> seg_words s" for a using dj(4) xo that by (intro hs) blast
    from seg_rec_cong [OF u(2,1) sel(6,1,4) this] have "seg_rec s'" .
    moreover have "has s a \<Longrightarrow> has s' a" for a by (simp add: s'_def)
    ultimately show ?thesis using g by (simp add: gap_def segment_def sel)
  qed
  moreover have "top_ok s'"
  proof -
    have "head_at (topc s) \<noteq> ?x" using dj(3) xo by auto
    then show ?thesis using g hs by (simp add: gap_def top_ok_def sel ld_def)
  qed
  moreover have "victim d s' ?bs" using g unfolding gap_def victim_def sel by blast
  ultimately have g': "gap s' d xs b k v' ((q, m, True) # ys)" using g t'(1) unfolding gap_def sel by blast
  have "pool s' (frees ?bs - {(dv s, dvsize s)})"
  proof (rule pool_frame [OF p])
    fix a assume a: "a \<in> statics s \<union> words_of (frees ?bs - {(dv s, dvsize s)})"
    have "a \<noteq> ?x"
    proof
      assume "a = ?x"
      then consider "?x \<in> statics s" | p n where "(p, n) \<in> frees ?bs" "?x \<in> own p n"
        using a by (auto simp: words_of_def)
      then show False
      proof cases
        case (2 p n)
        then show ?thesis using dj(5) [of p n False] xo by (auto simp: frees_def)
      qed (use dj(2) xo in blast)
    qed
    then show "heap s' a = heap s a" by (rule hs)
  qed (simp_all add: s'_def)
  then show "hole s' d xs b k v' ((q, m, True) # ys)" using g' by (simp add: hole_def sel)
  have "?x \<notin> payload p n" if "(p, n, True) \<in> set ?bs" for p n
  proof (cases "(p, n, True) \<in> set (xs @ ys)")
    case True
    from firm [OF this] show ?thesis by simp
  next
    case False
    then have "p = q" "n = m" using that by auto
    moreover have "unat ?x = unat q + 8" using r by (simp add: head_at_def unat_word_ariths)
    ultimately show ?thesis by (simp add: payload_def)
  qed
  then show "keeps s s' ?bs" by (intro keepsI hs) (simp add: s'_def, blast)
  show "?x \<notin> own b k" using dj(1) xo by blast
qed

lemma upd_same: "ld s a = Some v \<Longrightarrow> upd s a v = s"
  by (simp add: upd_def ld_def fun_upd_idem)

lemma hole_top_next: "hole s d xs b k v [] \<Longrightarrow> v \<and> topc s = b + k \<and> ld s (head_at (b + k)) = Some (head_word (topsize s) True False)
    \<and> unat (topsize s) mod 16 = 0"
  by (simp add: hole_def gap_def top_ok_def)

lemma hole_or_next:
  assumes h: "hole s d xs b k v ys"
  shows "\<exists>s'. or_pinuse s (b + k) = Some s' \<and> hole s' d xs b k True ys \<and> keeps s s' (xs @ ys)
    \<and> (\<forall>a \<in> own b k. heap s' a = heap s a)"
proof (cases ys)
  case Nil
  note n = hole_top_next [OF h [unfolded Nil]]
  then have "or_pinuse s (b + k) = Some s"
    using ld_has [of s "head_at (b + k)"] upd_same [of s "head_at (b + k)"]
    by (auto simp: or_pinuse_def st_has head_word_pinuse(2) simp del: flag_values)
  then show ?thesis using h n by auto
next
  case (Cons c zs)
  obtain q m u where c: "c = (q, m, u)" by (cases c)
  show ?thesis
  proof (cases u)
    case True
    then have h': "hole s d xs b k v ((q, m, True) # zs)" using h by (simp add: Cons c)
    note hm = hole_mark_next(1-3,6) [OF h']
    note hm' = hole_mark_next(4,5) [OF h', of True]
    have "or_pinuse s (b + k) = Some (upd s (head_at q) (head_word m True True))"
      using hm(2) ld_has [OF hm(2)] unfolding hm(1) [symmetric]
      by (simp add: or_pinuse_def st_has head_word_pinuse(2) [OF hm(3)] del: flag_values)
    moreover have "\<forall>a \<in> own b k. heap (upd s (head_at q) x) a = heap s a" for x using hm(4) by auto
    ultimately show ?thesis using hm' True unfolding Cons c by auto
  next
    case False
    have "q = b + k" "v" "heap s (head_at q) = Some (head_word m v u)" "unat m mod 16 = 0"
      using h False by (auto simp: hole_def gap_def Cons c)
    then have "or_pinuse s (b + k) = Some s"
      using ld_has [of s "head_at q"] upd_same [of s "head_at q"]
      by (auto simp: or_pinuse_def st_has head_word_pinuse(2) ld_def simp del: flag_values)
    then show ?thesis using h \<open>v\<close> by auto
  qed
qed

lemma hole_close_used:
  assumes h: "hole s False xs b k True ys" and k: "32 \<le> unat k" and hd: "heap s (head_at b) = Some (head_word k True True)"
  shows "arena s (xs @ (b, k, True) # ys)"
proof -
  have g: "gap s False xs b k True ys" using h by (simp add: hole_def)
  have "tiled (heap s) b True ((b, k, True) # ys) (topc s) True"
    using g k hd by (simp add: gap_def)
  then have "tiled (heap s) (least_addr s) True (xs @ (b, k, True) # ys) (topc s) True"
    using g unfolding tiled_append gap_def by blast
  moreover have "victim False s (xs @ (b, k, True) # ys)" using g by (auto simp: gap_def victim_def)
  ultimately show ?thesis using h g by (simp add: arena_def hole_def gap_def)
qed

text \<open>The hole becomes a block in use.\<close>

lemma hole_use:
  assumes h: "hole s False xs b k v ys" and k: "32 \<le> unat k"
  shows "\<exists>s'. set_inuse_and_pinuse s b k = Some s' \<and> arena s' (xs @ (b, k, True) # ys) \<and> keeps s s' (xs @ ys)"
proof -
  note o = hole_own [OF h k]
  let ?s = "upd s (head_at b) (head_word k True True)"
  note u = hole_upd(1,2) [OF h o(1), of "head_word k True True"]
  obtain s' where s': "or_pinuse ?s (b + k) = Some s'" "hole s' False xs b k True ys" "keeps ?s s' (xs @ ys)"
    "\<forall>a \<in> own b k. heap s' a = heap ?s a"
    using hole_or_next [OF u(1)] by blast
  have "heap s' (head_at b) = Some (head_word k True True)" using s'(4) o(1) by simp
  note a = hole_close_used [OF s'(2) k this]
  have "set_inuse_and_pinuse s b k = Some s'"
    using hole_upd(3) [OF h o(1)] s'(1) by (simp add: set_inuse_and_pinuse_def st_has head_word_eqs del: flag_values)
  then show ?thesis using a keeps_trans [OF u(2) s'(3)] by blast
qed

lemma hole_free:
  assumes h: "hole s d xs b k True ((q, m, True) # ys)" and k: "32 \<le> unat k"
  shows "\<exists>s'. set_free_with_pinuse s b k q = Some s' \<and> hole s' d xs b k False ((q, m, True) # ys)
    \<and> filled s' b k \<and> keeps s s' (xs @ (q, m, True) # ys) \<and> bins_only s s'"
proof -
  note hm = hole_mark_next(1-3) [OF h] hole_mark_next(4,5) [OF h, of False]
  obtain s' where s': "set_size_and_pinuse_of_free_chunk (upd s (head_at q) (head_word m False True)) b k = Some s'"
    "hole s' d xs b k False ((q, m, True) # ys)" "filled s' b k"
    "keeps (upd s (head_at q) (head_word m False True)) s' (xs @ (q, m, True) # ys)"
    "bins_only (upd s (head_at q) (head_word m False True)) s'"
    using hole_fill [OF hm(4) k] by blast
  have "set_free_with_pinuse s b k q = Some s'"
    using hm(2) ld_has [OF hm(2)] s'(1)
    by (simp add: set_free_with_pinuse_def clear_pinuse_def st_has head_word_pinuse(1) [OF hm(3)] del: flag_values)
  moreover have "bins_only s (upd s (head_at q) (head_word m False True))" by (intro bins_only_upd) auto
  ultimately show ?thesis using s'(2,3) keeps_trans [OF hm(5) s'(4)] bins_only_trans s'(5) by blast
qed

end
