(* ===== verification/DlHole.thy ===== *)
theory DlHole
  imports DlArena
begin

text \<open>
  Closing the hole: as a free block in the bins, as the designated victim, or by moving the top
  chunk. Each lemma gives the invariant \<open>arena\<close> for the new list of blocks.
\<close>

section \<open>The hole becomes a free block\<close>

lemma hole_below:
  assumes h: "hole s d xs b k v ys"
  shows "0 < unat b" "ok_address s b" "unat b + unat k + 8 < 2 ^ 64" "unat k < 2 ^ 40" "unat k mod 16 = 0" "unat b mod 16 = 0"
proof -
  have g: "gap s d xs b k v ys" using h by (simp add: hole_def)
  note r = gap_range(1,3,5) [OF g]
  have sg: "0 < unat (least_addr s)" "top_end s < unat (least_addr s) + 2 ^ 40" using g by (auto simp: gap_def segment_def)
  have "unat (topc s) \<le> top_end s" by (simp add: top_end_def)
  then show "0 < unat b" "ok_address s b" "unat k < 2 ^ 40" "unat b mod 16 = 0"
    using r sg by (simp_all add: ok_address_def word_le_nat_alt)
  show "unat b + unat k + 8 < 2 ^ 64" "unat k mod 16 = 0" using g by (simp_all add: gap_def)
qed

lemma hole_not_dv:
  assumes h: "hole s False xs b k v ys" and k: "32 \<le> unat k"
  shows "b \<noteq> dv s"
proof
  assume b: "b = dv s"
  have g: "gap s False xs b k v ys" using h by (simp add: hole_def)
  have "b \<noteq> 0" using hole_below(1) [OF h] by auto
  then have m: "(b, dvsize s, False) \<in> set (xs @ ys)" using g b by (simp add: gap_def victim_def)
  have "head_at b \<in> own b (dvsize s)" using gap_range(4) [OF g m] links_inner(3) by blast
  then show False using gap_disjoint(1) [OF g m] hole_own(1) [OF h k] by blast
qed

lemma hole_spaced:
  assumes h: "hole s d xs b k v ys" and k: "32 \<le> unat k"
  shows "spaced s (insert (b, k) (frees (xs @ ys) - X))" and "(b, k) \<notin> frees (xs @ ys)"
proof -
  have g: "gap s d xs b k v ys" and p: "pool s (frees (xs @ ys) - {(dv s, dvsize s)})" using h by (auto simp: hole_def)
  note hb = hole_below [OF h]
  have sg: "0 < unat (least_addr s)" "top_end s < unat (least_addr s) + 2 ^ 40" "unat (gm s) + 920 \<le> 2 ^ 64"
    using g by (auto simp: gap_def segment_def)
  have te: "unat (topc s) \<le> top_end s" by (simp add: top_end_def)
  have ft: "fits s p n" if m: "(p, n) \<in> frees (xs @ ys)" for p n
  proof -
    have m': "(p, n, False) \<in> set (xs @ ys)" using m by (simp add: frees_def)
    show ?thesis
      using gap_range(4) [OF g m'] gap_disjoint(2) [OF g m'] sg(1,2) te by (auto simp: fits_def ok_address_def word_le_nat_alt)
  qed
  have fb: "fits s b k" using hb k gap_hole_words(1) [OF g] by (simp add: fits_def)
  have d1: "own p n \<inter> own b k = {}" if "(p, n) \<in> frees (xs @ ys)" for p n
    using gap_disjoint(1) [OF g, of p n False] that by (simp add: frees_def)
  have d2: "own p n \<inter> own q m = {}" if "(p, n) \<in> frees (xs @ ys)" "(q, m) \<in> frees (xs @ ys)" "(p, n) \<noteq> (q, m)" for p n q m
    using gap_disjoint(5) [OF g, of p n False q m False] that by (simp add: frees_def)
  show "spaced s (insert (b, k) (frees (xs @ ys) - X))"
    using ft fb d1 d2 sg(3) unfolding spaced_def by (simp add: Int_commute)
  show "(b, k) \<notin> frees (xs @ ys)" using d1 [of b k] hole_own(1) [OF h k] by blast
qed

lemma hole_close_free:
  assumes g: "gap s d xs b k False ys" and k: "32 \<le> unat k" and f: "filled s b k"
    and v: "victim False s (xs @ (b, k, False) # ys)"
    and p: "pool s (frees (xs @ (b, k, False) # ys) - {(dv s, dvsize s)})"
  shows "arena s (xs @ (b, k, False) # ys)"
proof -
  have "tiled (heap s) b True ((b, k, False) # ys) (topc s) True"
    using g k f by (simp add: gap_def filled_def)
  then have "tiled (heap s) (least_addr s) True (xs @ (b, k, False) # ys) (topc s) True"
    using g unfolding tiled_append gap_def by blast
  then show ?thesis using g v p by (simp add: arena_def gap_def)
qed

lemma hole_insert:
  assumes h: "hole s False xs b k False ys" and k: "32 \<le> unat k" and f: "filled s b k"
  shows "\<exists>s'. insert_chunk s b k = Some s' \<and> arena s' (xs @ (b, k, False) # ys) \<and> keeps s s' (xs @ ys) \<and> bins_only s s'"
proof -
  define fr where "fr = frees (xs @ ys) - {(dv s, dvsize s)}"
  have g: "gap s False xs b k False ys" and p: "pool s fr" using h by (auto simp: hole_def fr_def)
  have sp: "spaced s (insert (b, k) fr)" unfolding fr_def by (rule hole_spaced(1) [OF h k])
  have new: "(b, k) \<notin> fr" using hole_spaced(2) [OF h k] by (simp add: fr_def)
  have "heap s (head_at b) = Some (k OR PINUSE_BIT)" using f unfolding filled_def head_word_eqs by blast
  then obtain s' where s': "insert_chunk s b k = Some s'" "pool s' (insert (b, k) fr)" "bins_only s s'"
    "touches s s' (statics s \<union> link_words (insert (b, k) fr))"
    using pool_insert [OF p sp new] gap_hole_words(6) [OF g] by blast
  have "link_words (insert (b, k) fr) \<subseteq> link_words (frees (xs @ ys)) \<union> own b k"
    using inner_own [of b k] by (auto simp: link_words_def fr_def)
  then have "touches s s' (statics s \<union> link_words (frees (xs @ ys)) \<union> own b k)"
    by (intro touches_mono [OF s'(4)]) blast
  note gt = gap_touch [OF g s'(3) this] and sel = bins_only_sel [OF s'(3)]
  have kb: "unat b + unat k + 8 < 2 ^ 64" using hole_below(3) [OF h] .
  have same: "heap s' x = heap s x" if "x \<in> own b k" "x \<notin> inner b k" for x
  proof -
    have "x \<notin> link_words fr"
      using fresh_words [OF g that(1)] words_of_mono [of fr "frees (xs @ ys)"] link_words_of by (auto simp: fr_def)
    then have "x \<notin> statics s \<union> link_words (insert (b, k) fr)"
      using that fresh_words [OF g that(1)] by (auto simp: link_words_def)
    then show ?thesis using s'(4) by (simp add: touches_def)
  qed
  have "filled s' b k"
    using f same links_inner(3,4) [OF k kb] foot_own(1,2) [OF k kb] by (simp add: filled_def)
  moreover have "b \<noteq> dv s" by (rule hole_not_dv [OF h k])
  then have "frees (xs @ (b, k, False) # ys) - {(dv s', dvsize s')} = insert (b, k) fr"
    by (auto simp: fr_def sel)
  moreover have "victim False s' (xs @ (b, k, False) # ys)"
    using gt(1) by (auto simp: gap_def victim_def)
  ultimately have "arena s' (xs @ (b, k, False) # ys)"
    using hole_close_free [OF gt(1) k] s'(2) by simp
  then show ?thesis using s'(1,3) gt(2) by blast
qed

section \<open>The designated victim\<close>

lemma dv_swap: "s\<lparr>dvsize := k, dv := b\<rparr> = s\<lparr>dv := b, dvsize := k\<rparr>"
  by simp

lemma hole_dv_update:
  assumes h: "hole s d xs b k v ys" and s': "s' = s\<lparr>dv := x, dvsize := y\<rparr>" and vi: "victim d' s' (xs @ ys)"
    and fr: "frees (xs @ ys) - {(x, y)} = frees (xs @ ys) - {(dv s, dvsize s)}"
  shows "hole s' d' xs b k v ys" and "keeps s s' bs"
proof -
  have sel: "heap s' = heap s" "gm s' = gm s" "least_addr s' = least_addr s" "smallmap s' = smallmap s"
    "treemap s' = treemap s" "topc s' = topc s" "topsize s' = topsize s" "trim_check s' = trim_check s"
    "top_end s' = top_end s" "seg_at s' = seg_at s" "dv s' = x" "dvsize s' = y"
    by (simp_all add: s' top_end_def seg_at_def)
  have l: "ld s' a = ld s a" "has s' a = has s a" for a by (simp_all add: ld_def has_def sel)
  have g: "gap s' d' xs b k v ys"
    using h vi unfolding hole_def gap_def segment_def seg_rec_def top_ok_def sel l by blast
  have "pool s (frees (xs @ ys) - {(dv s, dvsize s)})" using h by (simp add: hole_def)
  then have "pool s' (frees (xs @ ys) - {(dv s, dvsize s)})" by (rule pool_frame) (simp_all add: sel)
  then show "hole s' d' xs b k v ys" using g fr by (simp add: hole_def sel)
  show "keeps s s' bs" by (simp add: keeps_def s')
qed

lemma hole_not_block:
  assumes h: "hole s d xs b k v ys" and k: "32 \<le> unat k"
  shows "(b, n, u) \<notin> set (xs @ ys)"
proof
  assume m: "(b, n, u) \<in> set (xs @ ys)"
  have g: "gap s d xs b k v ys" using h by (simp add: hole_def)
  have "head_at b \<in> own b n" using gap_range(4) [OF g m] links_inner(3) by blast
  then show False using gap_disjoint(1) [OF g m] hole_own(1) [OF h k] by blast
qed

text \<open>The victim was in the hole, or there was none, and it is the hole now, or none.\<close>

lemma hole_set_dv:
  assumes h: "hole s d xs b k v ys" and k: "32 \<le> unat k" and d: "d \<or> (dv s = 0 \<and> dvsize s = 0)"
  shows "hole (s\<lparr>dv := b, dvsize := n\<rparr>) True xs b k v ys" and "hole (s\<lparr>dv := 0, dvsize := 0\<rparr>) False xs b k v ys"
proof -
  have g: "gap s d xs b k v ys" using h by (simp add: hole_def)
  have nz: "(0, m, u) \<notin> set (xs @ ys)" for m u
    using gap_range(4) [OF g, of 0 m u] g by (auto simp: gap_def segment_def)
  have old: "(dv s, m, u) \<notin> set (xs @ ys)" for m u
    using d g nz by (auto simp: gap_def victim_def split: if_splits)
  have fr: "frees (xs @ ys) - {(x, y)} = frees (xs @ ys)" if "\<And>u. (x, y, u) \<notin> set (xs @ ys)" for x y
    using that [of False] by (auto simp: frees_def)
  note nb = hole_not_block [OF h k]
  show "hole (s\<lparr>dv := b, dvsize := n\<rparr>) True xs b k v ys"
    by (rule hole_dv_update(1) [OF h refl]) (use nb in \<open>simp add: victim_def\<close>, simp only: fr [OF nb] fr [OF old])
  show "hole (s\<lparr>dv := 0, dvsize := 0\<rparr>) False xs b k v ys"
    by (rule hole_dv_update(1) [OF h refl]) (simp add: victim_def, simp only: fr [OF nz] fr [OF old])
qed

lemma hole_close_dv:
  assumes h: "hole s True xs b k False ys" and k: "32 \<le> unat k" and f: "filled s b k" and dv: "dv s = b" "dvsize s = k"
  shows "arena s (xs @ (b, k, False) # ys)"
  using h hole_close_free [OF _ k f, of True xs ys] dv by (simp add: hole_def victim_def)

lemma filled_dv [simp]: "filled (s\<lparr>dv := x, dvsize := y\<rparr>) b k = filled s b k"
  by (simp add: filled_def)

lemma hole_replace_dv:
  assumes h: "hole s False xs b k False ys" and k: "32 \<le> unat k" and f: "filled s b k"
    and small: "is_small (dvsize s)"
  shows "\<exists>s'. replace_dv s b k = Some s' \<and> arena s' (xs @ (b, k, False) # ys) \<and> keeps s s' (xs @ ys)"
proof (cases "dvsize s = 0")
  case True
  have g: "gap s False xs b k False ys" using h by (simp add: hole_def)
  have "(dv s, 0, False) \<notin> set (xs @ ys)" using gap_range(4) [OF g, of "dv s" 0 False] by auto
  then have "dv s = 0" using g True by (auto simp: gap_def victim_def)
  then have "hole (s\<lparr>dv := b, dvsize := k\<rparr>) True xs b k False ys" using True by (intro hole_set_dv(1) [OF h k]) simp
  from hole_close_dv [OF this k] f have "arena (s\<lparr>dv := b, dvsize := k\<rparr>) (xs @ (b, k, False) # ys)" by simp
  moreover have "keeps s (s\<lparr>dv := b, dvsize := k\<rparr>) (xs @ ys)" by (simp add: keeps_def)
  ultimately show ?thesis using True by (simp add: replace_dv_def dv_swap)
next
  case False
  define D where "D = (dv s, dvsize s)"
  define fr where "fr = frees (xs @ ys) - {D}"
  have g: "gap s False xs b k False ys" and p: "pool s fr" using h by (auto simp: hole_def fr_def D_def)
  have m: "(dv s, dvsize s, False) \<in> set (xs @ ys)" using g False by (auto simp: gap_def victim_def)
  then have D: "D \<in> frees (xs @ ys)" by (simp add: frees_def D_def)
  then have fr': "insert D fr = frees (xs @ ys)" by (auto simp: fr_def)
  have "spaced s (insert (b, k) (frees (xs @ ys) - {}))" by (rule hole_spaced(1) [OF h k])
  then have sp: "spaced s (insert D fr)" unfolding fr' by (rule spaced_subset) auto
  have has: "has s a" if "a \<in> own (dv s) (dvsize s)" for a
  proof -
    have "unat (topc s) \<le> top_end s" by (simp add: top_end_def)
    then show ?thesis using that gap_range(4) [OF g m] g by (auto simp: gap_def segment_def own_def)
  qed
  obtain s' where s': "insert_small_chunk s (dv s) (dvsize s) = Some s'" "pool s' (insert D fr)" "bins_only s s'"
    "touches s s' (statics s \<union> link_words (insert D fr))"
    using pool_insert_small [OF p sp [unfolded D_def] _ small has] by (auto simp: fr_def D_def)
  have "touches s s' (statics s \<union> link_words (frees (xs @ ys)) \<union> own b k)"
    using fr' by (intro touches_mono [OF s'(4)]) auto
  note gt = gap_touch [OF g s'(3) this] and sel = bins_only_sel [OF s'(3)]
  have kb: "unat b + unat k + 8 < 2 ^ 64" using hole_below(3) [OF h] .
  have same: "heap s' x = heap s x" if "x \<in> own b k" for x
  proof -
    have "x \<notin> statics s \<union> link_words (insert D fr)"
      using fresh_words [OF g that] link_words_of unfolding fr' by blast
    then show ?thesis using s'(4) by (simp add: touches_def)
  qed
  have "filled s' b k" using f same hole_own [OF h k] by (simp add: filled_def)
  then have fl: "filled (s'\<lparr>dv := b, dvsize := k\<rparr>) b k" by simp
  have nb: "(b, n, u) \<notin> set (xs @ ys)" for n u by (rule hole_not_block [OF h k])
  have g2: "gap (s'\<lparr>dv := b, dvsize := k\<rparr>) True xs b k False ys"
  proof -
    have "ld (s'\<lparr>dv := b, dvsize := k\<rparr>) a = ld s' a" "has (s'\<lparr>dv := b, dvsize := k\<rparr>) a = has s' a" for a by simp_all
    moreover have "victim True (s'\<lparr>dv := b, dvsize := k\<rparr>) (xs @ ys)" using nb by (simp add: victim_def)
    ultimately show ?thesis
      using gt(1) unfolding gap_def segment_def seg_rec_def top_ok_def top_end_def seg_at_def by simp
  qed
  have "pool (s'\<lparr>dv := b, dvsize := k\<rparr>) (insert D fr)" by (rule pool_frame [OF s'(2)]) simp_all
  moreover have "frees (xs @ (b, k, False) # ys) - {(b, k)} = insert D fr"
    using nb unfolding fr' by (auto simp: frees_def)
  ultimately have "arena (s'\<lparr>dv := b, dvsize := k\<rparr>) (xs @ (b, k, False) # ys)"
    by (intro hole_close_free [OF g2 k fl]) (simp_all add: victim_def)
  moreover have "replace_dv s b k = Some (s'\<lparr>dv := b, dvsize := k\<rparr>)"
    using False s'(1) by (simp add: replace_dv_def dv_swap)
  moreover have "keeps s (s'\<lparr>dv := b, dvsize := k\<rparr>) (xs @ ys)" using gt(2) by (simp add: keeps_def)
  ultimately show ?thesis by blast
qed

section \<open>The top chunk\<close>

text \<open>The top chunk starts at another address; the hole is what is then between the blocks and it.\<close>

lemma hole_retop:
  assumes h: "hole s d xs b k v []" and t: "t = b + j" "unat b + unat j + unat z = top_end s"
    and z: "0 < unat z" "unat z mod 16 = 0" and j: "unat j mod 16 = 0"
  defines "s' \<equiv> upd (s\<lparr>topsize := z, topc := t\<rparr>) (head_at t) (head_word z True False)"
  shows "hole s' d xs b j True []" and "keeps s s' xs" and "has s (head_at t)" and "top_end s' = top_end s"
proof -
  have g: "gap s d xs b k v []" and p: "pool s (frees xs - {(dv s, dvsize s)})" using h by (auto simp: hole_def)
  have sg: "top_end s + 80 < 2 ^ 64" "unat (gm s) + 920 \<le> 2 ^ 64"
      "unat (gm s) + 920 \<le> unat (least_addr s) + 8 \<or> top_end s + 80 \<le> unat (gm s)"
      "\<And>a. unat (least_addr s) + 8 \<le> unat a \<Longrightarrow> unat a < top_end s + 80 \<Longrightarrow> has s a" "seg_rec s"
    using g by (auto simp: gap_def segment_def)
  have lb: "unat (least_addr s) \<le> unat b" by (rule gap_range(1) [OF g])
  have ut: "unat t = unat b + unat j" using t sg(1) by (simp add: unat_word_ariths)
  have uh: "unat (head_at t) = unat t + 8" using ut t(2) sg(1) by (simp add: head_at_def unat_word_ariths)
  show hh: "has s (head_at t)" using uh ut t(2) lb z(1) by (intro sg(4)) linarith+
  have below: "unat p + unat n \<le> unat b \<and> 32 \<le> unat n \<and> unat p + unat n + 8 < 2 ^ 64" if "(p, n, u) \<in> set xs" for p n u
    using tiled_range [OF _ that, of "heap s" "least_addr s" True b True] g by (auto simp: gap_def)
  have notin: "head_at t \<notin> own p n" if "(p, n, u) \<in> set xs" for p n u
    using below [OF that] uh ut by (auto simp: own_def)
  have sel: "least_addr s' = least_addr s" "topc s' = t" "topsize s' = z" "trim_check s' = trim_check s"
    "gm s' = gm s" "seg_at s' = seg_at s" "dv s' = dv s" "dvsize s' = dvsize s"
    by (simp_all add: s'_def seg_at_def)
  show te: "top_end s' = top_end s" using ut t(2) by (simp add: top_end_def sel)
  have hs: "heap s' a = heap s a" if "a \<noteq> head_at t" for a using that by (simp add: s'_def)
  have "head_at t \<notin> seg_words s" using uh ut t(2) lb z(1) sg(3) by (auto simp: seg_words_def)
  then have "heap s' a = heap s a" if "a \<in> seg_words s" for a using that by (intro hs) blast
  from seg_rec_cong [OF sg(5,2) sel(5,1) te this] have "seg_rec s'" .
  moreover have "has s a \<Longrightarrow> has s' a" for a by (simp add: s'_def has_def)
  ultimately have "segment s'" using g unfolding gap_def segment_def te sel by blast
  moreover have "top_ok s'" using z by (simp add: top_ok_def sel) (simp add: s'_def ld_def)
  moreover have "tiled (heap s') (least_addr s) True xs b True"
  proof (rule tiled_cong)
    show "tiled (heap s) (least_addr s) True xs b True" using g by (simp add: gap_def)
    show "\<forall>c \<in> set xs. \<forall>x \<in> firm c. heap s' x = heap s x"
    proof (intro ballI)
      fix c x assume c: "c \<in> set xs" "x \<in> firm c"
      obtain p n u where cc: "c = (p, n, u)" by (cases c)
      have "x \<in> own p n" using firm_own(1) [of n p u] below [of p n u] c unfolding cc by blast
      then show "heap s' x = heap s x" using notin [of p n u] c(1) unfolding cc by (intro hs) blast
    qed
  qed
  moreover have "victim d s' xs" using g unfolding gap_def victim_def sel append_Nil2 by blast
  moreover have "unat b + unat j + 8 < 2 ^ 64" using t(2) sg(1) by linarith
  ultimately have g': "gap s' d xs b j True []" using t(1) j by (simp add: gap_def sel)
  have "pool s' (frees xs - {(dv s, dvsize s)})"
  proof (rule pool_frame [OF p])
    fix a assume a: "a \<in> statics s \<union> words_of (frees xs - {(dv s, dvsize s)})"
    have "head_at t \<notin> statics s" using uh ut t(2) lb z(1) sg(3) by (auto simp: statics_def)
    moreover have "head_at t \<notin> words_of (frees xs)" using notin [of _ _ False] by (auto simp: words_of_def frees_def)
    ultimately have "a \<noteq> head_at t" using a words_of_mono [of "frees xs - {(dv s, dvsize s)}" "frees xs"] by blast
    then show "heap s' a = heap s a" by (rule hs)
  qed (simp_all add: s'_def)
  then show "hole s' d xs b j True []" using g' by (simp add: hole_def sel)
  show "keeps s s' xs"
  proof (intro keepsI hs)
    show "settings s' = settings s" using te by (simp add: settings_def sel) (simp add: s'_def)
  next
    fix p n a assume m: "(p, n, True) \<in> set xs" "a \<in> payload p n"
    then have "a \<in> own p n" by (auto simp: payload_def own_def)
    then show "a \<noteq> head_at t" using notin [OF m(1)] by blast
  qed
qed

lemma hole_empty:
  assumes "hole s False xs b 0 True []"
  shows "arena s xs"
  using assms by (auto simp: hole_def gap_def arena_def)

lemma hole_to_top:
  assumes h: "hole s d xs b k v []" and k: "32 \<le> unat k" and d: "d \<Longrightarrow> dv s = b"
  shows "\<exists>s'. merge_into_top s b k = Some s' \<and> arena s' xs \<and> keeps s s' xs \<and> topsize s' \<le> trim_check s'"
proof -
  have g: "gap s d xs b k v []" using h by (simp add: hole_def)
  have tz: "0 < unat (topsize s)" "unat (topsize s) mod 16 = 0" "topc s = b + k" "unat k mod 16 = 0"
    "top_end s + 80 < 2 ^ 64" using g by (auto simp: gap_def top_ok_def segment_def)
  have bk: "unat (b + k) = unat b + unat k" by (rule gap_range(2) [OF g])
  have kz: "unat (topsize s + k) = unat (topsize s) + unat k"
    using tz(3,5) bk by (intro unat_sum) (simp add: top_end_def)
  let ?z = "topsize s + k"
  let ?s = "upd (s\<lparr>topsize := ?z, topc := b\<rparr>) (head_at b) (head_word ?z True False)"
  have te: "unat b + unat (0 :: u64) + unat ?z = top_end s" using kz bk tz(3) by (simp add: top_end_def)
  have zz: "0 < unat ?z" "unat ?z mod 16 = 0" using kz tz(1,2,4) by (simp_all add: mod_add_eq [symmetric])
  note r = hole_retop [OF h _ te zz, of b, simplified]
  have m: "merge_into_top s b k = Some (if b = dv s then ?s\<lparr>dv := 0, dvsize := 0\<rparr> else ?s)"
    using r(3) by (simp add: merge_into_top_def Let_def st_has head_word_eqs del: flag_values)
  have le: "?z \<le> trim_check s"
  proof -
    have "top_end s \<le> unat (least_addr s) + unat (trim_check s)" "unat (least_addr s) \<le> unat b"
      using g gap_range(1) [OF g] by (simp_all add: gap_def segment_def)
    then show ?thesis using te by (simp add: word_le_nat_alt)
  qed
  show ?thesis
  proof (cases d)
    case True
    have "hole (?s\<lparr>dv := 0, dvsize := 0\<rparr>) False xs b 0 True []"
    proof (rule hole_dv_update(1) [OF r(1) refl])
      show "victim False (?s\<lparr>dv := 0, dvsize := 0\<rparr>) (xs @ [])" by (simp add: victim_def)
      have "(dv s, n, u) \<notin> set xs" for n u using g True by (simp add: gap_def victim_def)
      moreover have "(0, n, u) \<notin> set xs" for n u
        using gap_range(4) [OF g, of 0 n u] g by (auto simp: gap_def segment_def)
      ultimately show "frees (xs @ []) - {(0, 0)} = frees (xs @ []) - {(dv ?s, dvsize ?s)}"
        by (auto simp: frees_def)
    qed
    from hole_empty [OF this] m d [OF True] r(2) le show ?thesis by (simp add: keeps_def)
  next
    case False
    then have "b \<noteq> dv s" using hole_not_dv [OF _ k] h by simp
    then show ?thesis using hole_empty r(1,2) False m le by simp
  qed
qed

lemma arena_split_top:
  assumes a: "arena s lay" and n: "32 \<le> unat n" "unat n mod 16 = 0" "unat n < unat (topsize s)"
  shows "\<exists>s'. split_top s n = Some (chunk2mem (topc s), s') \<and> arena s' (lay @ [(topc s, n, True)]) \<and> keeps s s' lay"
proof -
  note h = arena_end [OF a]
  have g: "gap s False lay (topc s) 0 True []" using h by (simp add: hole_def)
  let ?z = "topsize s - n" and ?p = "topc s"
  have z: "unat ?z = unat (topsize s) - unat n" using n(3) by (simp add: unat_sub word_le_nat_alt)
  have tz: "unat (topsize s) mod 16 = 0" using g by (simp add: gap_def top_ok_def)
  have te: "unat ?p + unat n + unat ?z = top_end s" using z n(3) by (simp add: top_end_def)
  have zm: "0 < unat ?z" "unat ?z mod 16 = 0"
    using z n(2,3) tz by (simp_all, metis dvd_eq_mod_eq_0 dvd_diff_nat)
  define s1 where "s1 = upd (s\<lparr>topsize := ?z, topc := ?p + n\<rparr>) (head_at (?p + n)) (head_word ?z True False)"
  note r = hole_retop [OF h refl te zm n(2), folded s1_def]
  note u = hole_upd(1,2) [OF r(1) hole_own(1) [OF r(1) n(1)], of "head_word n True True"]
  note m = hole_upd(3) [OF r(1) hole_own(1) [OF r(1) n(1)]]
  have "arena (upd s1 (head_at ?p) (head_word n True True)) (lay @ [(?p, n, True)])"
    by (rule hole_close_used [OF u(1) n(1)]) simp
  moreover have "split_top s n = Some (chunk2mem ?p, upd s1 (head_at ?p) (head_word n True True))"
    using r(3) m by (simp add: split_top_def Let_def st_has set_size_and_pinuse_of_inuse_chunk_def head_word_eqs s1_def del: flag_values)
  moreover have "keeps s (upd s1 (head_at ?p) (head_word n True True)) lay"
    using keeps_trans [OF r(2), of _] u(2) by simp
  ultimately show ?thesis by blast
qed

end
