(* ===== verification/DlFreeOk.thy ===== *)
theory DlFreeOk
  imports DlHole
begin

text \<open>
  \<open>dlfree\<close> against the layout: freeing a block in use takes it off the list of blocks in use,
  merges it with its free neighbours and with the top chunk, and keeps the invariant and the
  contents of all other blocks.
\<close>

section \<open>Reading the neighbours\<close>

lemma hole_next_head:
  assumes "hole s d xs b k True ys"
  shows "\<exists>w. ld s (head_at (b + k)) = Some w \<and> head_pinuse w
    \<and> (head_cinuse w \<longleftrightarrow> (\<exists>r j zs. ys = (r, j, True) # zs)) \<and> (w AND INUSE_BITS = INUSE_BITS \<longleftrightarrow> head_cinuse w)"
proof (cases ys)
  case Nil
  note t = hole_top_next [OF assms [unfolded Nil]]
  then have "unat (topsize s) mod 16 = 0" by blast
  note f = head_word_fields [OF this, of True False]
  show ?thesis using t f Nil by (intro exI [of _ "head_word (topsize s) True False"]) simp
next
  case (Cons c zs)
  obtain r j u where c: "c = (r, j, u)" by (cases c)
  have t: "r = b + k" "unat j mod 16 = 0" "heap s (head_at r) = Some (head_word j True u)"
    using assms by (auto simp: hole_def gap_def Cons c)
  note f = head_word_fields [OF t(2), of True u]
  show ?thesis using t(1,3) f Cons c by (intro exI [of _ "head_word j True u"]) (simp add: ld_def)
qed

lemma arena_prev:
  assumes "arena s (xs @ (q, m, False) # (p, n, u) # ys)"
  shows "p = q + m" "ld s p = Some m" "unat m mod 16 = 0"
proof -
  obtain a pu where "tiled (heap s) a pu ((q, m, False) # (p, n, u) # ys) (topc s) True"
    using assms unfolding arena_def tiled_append by blast
  then show "p = q + m" "ld s p = Some m" "unat m mod 16 = 0" by (auto simp: ld_def)
qed

section \<open>Merging with the block before\<close>

text \<open>The two ways \<open>consolidate_backward\<close> can end.\<close>

definition merged_back :: "'o dl \<Rightarrow> block list \<Rightarrow> block list \<Rightarrow> u64 \<Rightarrow> ((u64 \<times> u64) \<times> 'o dl + 'o dl) \<Rightarrow> bool" where
  "merged_back s zs ys e r \<longleftrightarrow> (case r of
      Inl ((b, k), s') \<Rightarrow> \<exists>xs d. hole s' d xs b k True ys \<and> (d \<longrightarrow> dv s' = b \<and> (\<forall>q m rest. ys \<noteq> (q, m, True) # rest))
        \<and> 32 \<le> unat k \<and> b + k = e \<and> useds xs = useds zs \<and> keeps s s' (zs @ ys)
    | Inr s' \<Rightarrow> \<exists>xs b k. arena s' (xs @ (b, k, False) # ys) \<and> useds xs = useds zs \<and> keeps s s' (zs @ ys))"

lemma consolidate_victim:
  assumes h: "hole s True xs q k True ys" and q: "q = dv s" and k: "32 \<le> unat k" and zs: "useds xs = useds zs"
    and w: "ld s (head_at (q + k)) = Some w"
  shows "\<exists>r. (if w AND INUSE_BITS = INUSE_BITS then do {
        s \<leftarrow> set_free_with_pinuse (s\<lparr>dvsize := k\<rparr>) q k (q + k); Some (Inr s) }
      else Some (Inl ((q, k), s))) = Some r \<and> merged_back s zs ys (q + k) r"
proof (cases "w AND INUSE_BITS = INUSE_BITS")
  case True
  then obtain r j rest where ys: "ys = (r, j, True) # rest"
    using hole_next_head [OF h] w by auto
  have s1: "s\<lparr>dv := q, dvsize := k\<rparr> = s\<lparr>dvsize := k\<rparr>" using q by simp
  have h1: "hole (s\<lparr>dvsize := k\<rparr>) True xs q k True ((r, j, True) # rest)"
    using hole_set_dv(1) [OF h k, of k] s1 ys by simp
  obtain s' where s': "set_free_with_pinuse (s\<lparr>dvsize := k\<rparr>) q k r = Some s'"
    "hole s' True xs q k False ys" "filled s' q k" "keeps (s\<lparr>dvsize := k\<rparr>) s' (xs @ ys)"
    "bins_only (s\<lparr>dvsize := k\<rparr>) s'"
    using hole_free [OF h1 k] ys by blast
  have "dv s' = q" "dvsize s' = k" using bins_only_sel(3,4) [OF s'(5)] q by simp_all
  then have "arena s' (xs @ (q, k, False) # ys)" by (rule hole_close_dv [OF s'(2) k s'(3)])
  moreover have "keeps s s' (zs @ ys)" using s'(4) zs by (simp add: keeps_def)
  moreover have "r = q + k" using hole_mark_next(1) [OF h [unfolded ys]] .
  ultimately show ?thesis using True s'(1) zs unfolding merged_back_def by auto
next
  case False
  then have "\<forall>r j rest. ys \<noteq> (r, j, True) # rest" using hole_next_head [OF h] w by auto
  then show ?thesis using False h q k zs unfolding merged_back_def by auto
qed

lemma consolidate_backward_ok:
  assumes a: "arena s (zs @ (p, n, True) # ys)"
  shows "\<exists>r. consolidate_backward S s p n (p + n) = Some r \<and> merged_back s zs ys (p + n) r"
proof -
  note ap = arena_pin [OF a]
  have n: "unat n mod 16 = 0" "32 \<le> unat n"
    using tiled_range [of "heap s" "least_addr s" True "zs @ (p, n, True) # ys" "topc s" True p n True] a
    by (auto simp: arena_def)
  note f = head_word_fields [OF n(1)]
  have pu: "pinuse s p = Some (pin zs)" "is_mmapped s p = Some False"
    using ap(1) by (simp_all add: pinuse_def is_mmapped_def ld_def f)
  show ?thesis
  proof (cases "pin zs")
    case True
    have "hole s False zs p n True ys" using hole_used [OF arena_open [OF a True]] by simp
    then show ?thesis
      using pu True n(2) by (auto simp: consolidate_backward_def merged_back_def)
  next
    case False
    then obtain xs c where "zs = xs @ [c]" "\<not> snd (snd c)" by (cases zs rule: rev_cases) (auto simp: pin_def)
    then obtain q m where zs: "zs = xs @ [(q, m, False)]" by (cases c) auto
    have a': "arena s (xs @ (q, m, False) # (p, n, True) # ys)" using a zs by simp
    note pv = arena_prev [OF a'] and aq = arena_pin [OF a']
    have "pin xs" using aq(2) by simp
    note h = arena_open [OF a' this]
    have us: "useds xs = useds zs" by (simp add: zs)
    have q: "p - m = q" "q + (m + n) = p + n" by (simp_all add: pv)
    have cb: "consolidate_backward S s p n (p + n) =
      (if q \<noteq> dv s then do { s \<leftarrow> unlink_chunk s q m; Some (Inl ((q, n + m), s)) }
       else do { h \<leftarrow> ld s (head_at (p + n));
         if h AND INUSE_BITS = INUSE_BITS then do {
           s \<leftarrow> set_free_with_pinuse (s\<lparr>dvsize := n + m\<rparr>) q (n + m) (p + n); Some (Inr s) }
         else Some (Inl ((q, n + m), s)) })"
      using pu False pv(2) aq(5) by (simp add: consolidate_backward_def q Let_def cong: if_cong del: flag_values)
    show ?thesis
    proof (cases "q = dv s")
      case False
      obtain s' where s': "unlink_chunk s q m = Some s'" "hole s' False xs q m False ((p, n, True) # ys)"
        "keeps s s' (xs @ (p, n, True) # ys)"
        using hole_unlink [OF h False] by auto
      note h' = hole_used [OF s'(2)]
      have "unat (m + n) = unat m + unat n" using gap_grow(2) s'(2) unfolding hole_def by blast
      then have k: "32 \<le> unat (n + m)" using n(2) by (simp add: add.commute)
      have "keeps s s' (zs @ ys)" by (rule keeps_mono [OF s'(3)]) (auto simp: zs)
      moreover have "q + (n + m) = p + n" using q(2) by (simp add: add.commute)
      ultimately show ?thesis
        using cb s'(1) False k us h' by (auto simp: merged_back_def add.commute)
    next
      case True
      note hv = hole_victim [OF h True]
      have hv1: "hole s True xs q m False ((p, n, True) # ys)" using hv(1) by simp
      note h' = hole_used [OF hv1]
      have "unat (m + n) = unat m + unat n" using gap_grow(2) hv1 unfolding hole_def by blast
      then have k: "32 \<le> unat (m + n)" using n(2) by simp
      obtain w where w: "ld s (head_at (q + (m + n))) = Some w" using hole_next_head [OF h'] by blast
      have c: "n + m = m + n" by simp
      show ?thesis
        using consolidate_victim [OF h' True k us w] w unfolding cb q(2) c using True by simp
    qed
  qed
qed

section \<open>Storing the merged chunk\<close>

lemma release_single:
  "ld s (snext_at (seg_at s)) = Some 0 \<Longrightarrow>
    release_unused_segments S s = Some (0, s\<lparr>release_checks := MAX_RELEASE_CHECK_RATE\<rparr>)"
  by (simp add: release_unused_segments_def release_loop.simps MAX_RELEASE_CHECK_RATE_def)

lemma arena_release_checks:
  assumes "arena s lay"
  shows "arena (s\<lparr>release_checks := x\<rparr>) lay"
proof -
  have "pool s (frees lay - {(dv s, dvsize s)})" using assms by (simp add: arena_def)
  then have "pool (s\<lparr>release_checks := x\<rparr>) (frees lay - {(dv s, dvsize s)})" by (rule pool_frame) simp_all
  then show ?thesis
    using assms by (simp add: arena_def segment_def seg_rec_def top_ok_def victim_def top_end_def seg_at_def)
qed

lemma free_insert_ok:
  assumes h: "hole s False xs b k False ys" and k: "32 \<le> unat k" and f: "filled s b k"
  shows "\<exists>s'. free_insert S s b k = Some s' \<and> arena s' (xs @ (b, k, False) # ys) \<and> keeps s s' (xs @ ys)"
proof -
  obtain s1 where s1: "insert_chunk s b k = Some s1" "arena s1 (xs @ (b, k, False) # ys)" "keeps s s1 (xs @ ys)"
    using hole_insert [OF h k f] by blast
  show ?thesis
  proof (cases "is_small k")
    case True
    then show ?thesis using s1 by (simp add: free_insert_def insert_chunk_def)
  next
    case False
    define s2 where "s2 = s1\<lparr>release_checks := release_checks s1 - 1\<rparr>"
    define s3 where "s3 = (if release_checks s2 = 0 then s2\<lparr>release_checks := MAX_RELEASE_CHECK_RATE\<rparr> else s2)"
    have a2: "arena s2 (xs @ (b, k, False) # ys)" unfolding s2_def by (rule arena_release_checks [OF s1(2)])
    then have "ld s2 (snext_at (seg_at s2)) = Some 0" by (simp add: arena_def segment_def seg_rec_def)
    then have "release_unused_segments S s2 = Some (0, s2\<lparr>release_checks := MAX_RELEASE_CHECK_RATE\<rparr>)"
      by (rule release_single)
    moreover have "insert_large_chunk s b k = Some s1" using s1(1) False by (simp add: insert_chunk_def)
    ultimately have "free_insert S s b k = Some s3"
      unfolding free_insert_def Let_def if_not_P [OF False] s3_def
      by (cases "release_checks s2 = 0") (simp_all only: Option.bind.bind_lunit s2_def [symmetric] option.map snd_conv if_True if_False simp_thms)
    moreover have "arena s3 (xs @ (b, k, False) # ys)" using a2 by (simp add: s3_def arena_release_checks)
    moreover have "keeps s s3 (xs @ ys)" using s1(3) by (simp add: keeps_def s3_def s2_def)
    ultimately show ?thesis by blast
  qed
qed

lemma absorb_next_ok:
  assumes h: "hole s d xs b k True ((q, m, False) # ys)" and d: "d \<longrightarrow> dv s = b" and k: "32 \<le> unat k"
    and q: "q \<noteq> dv s"
  shows "\<exists>s'. absorb_next s b k q =
      Some (if b = dv s then Inr (s'\<lparr>dvsize := k + m\<rparr>) else Inl (k + m, s'))
    \<and> hole s' d xs b (k + m) False ys \<and> filled s' b (k + m) \<and> dv s' = dv s \<and> 32 \<le> unat (k + m) \<and> keeps s s' (xs @ ys)"
proof -
  have g: "gap s d xs b k True ((q, m, False) # ys)" using h by (simp add: hole_def)
  have m: "unat m mod 16 = 0" "heap s (head_at q) = Some (head_word m True False)" using g by (auto simp: gap_def)
  have c: "chunksize s q = Some m" using m by (simp add: chunksize_def ld_def head_word_fields)
  have km: "32 \<le> unat (k + m)" using gap_grow(2) [OF g] k by simp
  obtain s1 where s1: "unlink_chunk s q m = Some s1" "hole s1 d xs b (k + m) False ys" "keeps s s1 (xs @ ys)" "bins_only s s1"
    using hole_unlink [OF h q] by blast
  obtain s2 where s2: "set_size_and_pinuse_of_free_chunk s1 b (k + m) = Some s2" "hole s2 d xs b (k + m) False ys"
    "filled s2 b (k + m)" "keeps s1 s2 (xs @ ys)" "bins_only s1 s2"
    using hole_fill [OF s1(2) km] by blast
  have dv: "dv s2 = dv s" using bins_only_sel(3) [OF s1(4)] bins_only_sel(3) [OF s2(5)] by simp
  have "absorb_next s b k q = Some (if b = dv s then Inr (s2\<lparr>dvsize := k + m\<rparr>) else Inl (k + m, s2))"
    using c s1(1) s2(1) by (simp add: absorb_next_def Let_def dv)
  then show ?thesis using s2(2,3) dv km keeps_trans [OF s1(3) s2(4)] by blast
qed

lemma merge_into_dv_ok:
  assumes h: "hole s False xs b k True ((q, m, False) # ys)" and k: "32 \<le> unat k" and q: "q = dv s"
  shows "\<exists>s'. merge_into_dv s b k = Some s' \<and> arena s' (xs @ (b, k + m, False) # ys) \<and> keeps s s' (xs @ ys)"
proof -
  note hv = hole_victim [OF h q]
  have g: "gap s False xs b k True ((q, m, False) # ys)" using h by (simp add: hole_def)
  have km: "32 \<le> unat (k + m)" using gap_grow(2) [OF g] k by simp
  have "hole (s\<lparr>dv := b, dvsize := k + m\<rparr>) True xs b (k + m) False ys"
    by (rule hole_set_dv(1) [OF hv(1) km]) simp
  from hole_fill [OF this km]
  obtain s' where s': "set_size_and_pinuse_of_free_chunk (s\<lparr>dv := b, dvsize := k + m\<rparr>) b (k + m) = Some s'"
    "hole s' True xs b (k + m) False ys" "filled s' b (k + m)" "keeps (s\<lparr>dv := b, dvsize := k + m\<rparr>) s' (xs @ ys)"
    "bins_only (s\<lparr>dv := b, dvsize := k + m\<rparr>) s'" by blast
  have "dvsize s + k = k + m" using hv(2) by simp
  moreover have "merge_into_dv s b k
      = set_size_and_pinuse_of_free_chunk (s\<lparr>dv := b, dvsize := dvsize s + k\<rparr>) b (dvsize s + k)"
    by (simp add: merge_into_dv_def Let_def dv_swap)
  ultimately have "merge_into_dv s b k = Some s'" using s'(1) by (simp only:)
  moreover have "arena s' (xs @ (b, k + m, False) # ys)"
    using bins_only_sel(3,4) [OF s'(5)] by (intro hole_close_dv [OF s'(2) km s'(3)]) simp_all
  moreover have "keeps s s' (xs @ ys)" using s'(4) by (simp add: keeps_def)
  ultimately show ?thesis by blast
qed

section \<open>Merging with the block after\<close>

text \<open>The second half of \<open>dlfree\<close> and of \<open>dispose_chunk\<close>: the chunk \<open>(b, k)\<close> and what follows it.
  \<open>ins\<close> stores a chunk in the bins, \<open>trim\<close> looks at a top chunk that has grown.\<close>

definition merge_forward :: "('o dl \<Rightarrow> u64 \<Rightarrow> u64 \<Rightarrow> 'o dl option) \<Rightarrow> ('o dl \<Rightarrow> 'o dl option) \<Rightarrow>
    'o dl \<Rightarrow> u64 \<Rightarrow> u64 \<Rightarrow> u64 \<Rightarrow> 'o dl option" where
  "merge_forward ins trim s b k nx =
     do { c \<leftarrow> cinuse s nx;
          if \<not> c then
            if nx = topc s then do { s \<leftarrow> merge_into_top s b k; trim s }
            else if nx = dv s then merge_into_dv s b k
            else do { r \<leftarrow> absorb_next s b k nx;
                      case r of Inr s \<Rightarrow> Some s | Inl (k, s) \<Rightarrow> ins s b k }
          else do { s \<leftarrow> set_free_with_pinuse s b k nx; ins s b k } }"

definition stores_free :: "('o dl \<Rightarrow> u64 \<Rightarrow> u64 \<Rightarrow> 'o dl option) \<Rightarrow> bool" where
  "stores_free ins \<longleftrightarrow> (\<forall>s xs b k ys. hole s False xs b k False ys \<longrightarrow> 32 \<le> unat k \<longrightarrow> filled s b k \<longrightarrow>
     (\<exists>s'. ins s b k = Some s' \<and> arena s' (xs @ (b, k, False) # ys) \<and> keeps s s' (xs @ ys)))"

definition trims_nothing :: "('o dl \<Rightarrow> 'o dl option) \<Rightarrow> bool" where
  "trims_nothing trim \<longleftrightarrow> (\<forall>s. topsize s \<le> trim_check s \<longrightarrow> trim s = Some s)"

lemma stores_freeD:
  "stores_free ins \<Longrightarrow> hole s False xs b k False ys \<Longrightarrow> 32 \<le> unat k \<Longrightarrow> filled s b k \<Longrightarrow>
    \<exists>s'. ins s b k = Some s' \<and> arena s' (xs @ (b, k, False) # ys) \<and> keeps s s' (xs @ ys)"
  unfolding stores_free_def by blast

lemma stores_free_insert: "stores_free (free_insert S)" "stores_free insert_chunk"
  unfolding stores_free_def using free_insert_ok hole_insert by blast+

definition trim_if_large :: "'o sys \<Rightarrow> 'o dl \<Rightarrow> 'o dl option" where
  "trim_if_large S s = (if should_trim s (topsize s) then map_option snd (sys_trim S s 0) else Some s)"

lemma trims_nothing_cases: "trims_nothing (trim_if_large S)" "trims_nothing Some"
  by (auto simp: trims_nothing_def trim_if_large_def should_trim_def)

lemma dlfree_forward:
  assumes "mem2chunk mem = p" "mem \<noteq> 0" "ok_address s p" "is_inuse s p = Some True" "chunksize s p = Some n"
    and "consolidate_backward S s p n (p + n) = Some r"
  shows "dlfree S s mem = (case r of Inr s \<Rightarrow> Some s | Inl ((b, k), s) \<Rightarrow> do {
      okn \<leftarrow> (if ok_next b (p + n) then pinuse s (p + n) else Some False);
      if \<not> okn then None else merge_forward (free_insert S) (trim_if_large S) s b k (p + n) })"
  using assms unfolding dlfree_def merge_forward_def trim_if_large_def by (simp add: Let_def)

lemma dispose_forward:
  assumes "consolidate_backward S s p n (p + n) = Some r"
  shows "dispose_chunk S s p n = (case r of Inr s \<Rightarrow> Some s | Inl ((b, k), s) \<Rightarrow>
      if ok_address s (p + n) then merge_forward insert_chunk Some s b k (p + n) else None)"
  using assms unfolding dispose_chunk_def merge_forward_def Let_def
  by (simp split: sum.split prod.split cong: if_cong)

text \<open>The invariant after it, for the blocks without the chunk.\<close>

definition released :: "'o dl \<Rightarrow> block list \<Rightarrow> 'o dl option \<Rightarrow> bool" where
  "released s bs r \<longleftrightarrow> (\<exists>s' lay. r = Some s' \<and> arena s' lay \<and> useds lay = useds bs \<and> keeps s s' bs)"

lemma forward_start:
  assumes h: "hole s d xs b k True ys" and k: "32 \<le> unat k"
  shows "ok_next b (b + k)" "pinuse s (b + k) = Some True" "ok_address s (b + k)"
    and "cinuse s (b + k) = Some (\<exists>r j zs. ys = (r, j, True) # zs)"
proof -
  have u: "unat (b + k) = unat b + unat k" using hole_below(3) [OF h] by (intro unat_sum)
  then show "ok_next b (b + k)" using k by (simp add: ok_next_def word_less_nat_alt)
  show "ok_address s (b + k)" using hole_below(2) [OF h] u by (simp add: ok_address_def word_le_nat_alt)
  obtain w where w: "ld s (head_at (b + k)) = Some w" "head_pinuse w"
    "head_cinuse w = (\<exists>r j zs. ys = (r, j, True) # zs)"
    using hole_next_head [OF h] by blast
  then show "pinuse s (b + k) = Some True" "cinuse s (b + k) = Some (\<exists>r j zs. ys = (r, j, True) # zs)"
    by (simp_all add: pinuse_def cinuse_def)
qed

lemma forward_top:
  assumes I: "stores_free ins" and T: "trims_nothing trim" and h: "hole s d xs b k True []" and k: "32 \<le> unat k" and d: "d \<Longrightarrow> dv s = b"
  shows "released s xs (merge_forward ins trim s b k (b + k))"
proof -
  obtain s' where s': "merge_into_top s b k = Some s'" "arena s' xs" "keeps s s' xs" "topsize s' \<le> trim_check s'"
    using hole_to_top [OF h k d] by blast
  have "b + k = topc s" using h by (simp add: hole_def gap_def)
  then have "merge_forward ins trim s b k (b + k) = Some s'"
    using forward_start(4) [OF h k] s'(1,4) T by (simp add: merge_forward_def trims_nothing_def)
  then show ?thesis using s' by (auto simp: released_def)
qed

lemma forward_used:
  assumes I: "stores_free ins" and T: "trims_nothing trim" and h: "hole s False xs b k True ((q, m, True) # rest)" and k: "32 \<le> unat k"
  shows "released s (xs @ (q, m, True) # rest) (merge_forward ins trim s b k (b + k))"
proof -
  let ?ys = "(q, m, True) # rest"
  have q: "q = b + k" using h by (auto simp: hole_def gap_def)
  obtain s2 where s2: "set_free_with_pinuse s b k q = Some s2" "hole s2 False xs b k False ?ys" "filled s2 b k"
    "keeps s s2 (xs @ ?ys)"
    using hole_free [OF h k] by blast
  obtain s3 where s3: "ins s2 b k = Some s3" "arena s3 (xs @ (b, k, False) # ?ys)" "keeps s2 s3 (xs @ ?ys)"
    using stores_freeD [OF I s2(2) k s2(3)] by blast
  have "merge_forward ins trim s b k (b + k) = Some s3"
    using forward_start(4) [OF h k] s2(1) s3(1) by (simp add: q merge_forward_def)
  then show ?thesis
    using s3(2) keeps_trans [OF s2(4) s3(3)] unfolding released_def
    by (intro exI [of _ s3] exI [of _ "xs @ (b, k, False) # ?ys"]) simp
qed

text \<open>A free neighbour that is not the designated victim: the chunk is the victim (it was merged
  with it before), or it goes to the bins.\<close>

lemma forward_absorb:
  assumes I: "stores_free ins" and T: "trims_nothing trim" and h: "hole s d xs b k True ((q, m, False) # rest)" and k: "32 \<le> unat k" and d: "d \<Longrightarrow> dv s = b"
    and q: "q \<noteq> dv s"
  shows "\<exists>r. absorb_next s b k q = Some r \<and> released s (xs @ rest)
    (case r of Inr s \<Rightarrow> Some s | Inl (k, s) \<Rightarrow> ins s b k)"
proof -
  obtain s2 where s2: "absorb_next s b k q = Some (if b = dv s then Inr (s2\<lparr>dvsize := k + m\<rparr>) else Inl (k + m, s2))"
    "hole s2 d xs b (k + m) False rest" "filled s2 b (k + m)" "dv s2 = dv s" "32 \<le> unat (k + m)" "keeps s s2 (xs @ rest)"
    using absorb_next_ok [OF h _ k q] d by blast
  show ?thesis
  proof (cases "b = dv s")
    case True
    then have "d" using hole_not_dv [OF _ k, of s xs b True "(q, m, False) # rest"] h by (cases d) auto
    then have "hole s2 True xs b (k + m) False rest" using s2(2) by simp
    then have h2: "hole (s2\<lparr>dv := b, dvsize := k + m\<rparr>) True xs b (k + m) False rest"
      by (rule hole_set_dv(1) [OF _ s2(5)]) simp
    have "arena (s2\<lparr>dv := b, dvsize := k + m\<rparr>) (xs @ (b, k + m, False) # rest)"
      using s2(3) by (intro hole_close_dv [OF h2 s2(5)]) simp_all
    moreover have "s2\<lparr>dv := b, dvsize := k + m\<rparr> = s2\<lparr>dvsize := k + m\<rparr>" using s2(4) True by simp
    ultimately have ar: "arena (s2\<lparr>dvsize := k + m\<rparr>) (xs @ (b, k + m, False) # rest)" by simp
    have "keeps s (s2\<lparr>dvsize := k + m\<rparr>) (xs @ rest)" using s2(6) by (simp add: keeps_def)
    then have "released s (xs @ rest) (Some (s2\<lparr>dvsize := k + m\<rparr>))"
      using ar unfolding released_def
      by (intro exI [of _ "s2\<lparr>dvsize := k + m\<rparr>"] exI [of _ "xs @ (b, k + m, False) # rest"]) simp
    then show ?thesis using s2(1) True by simp
  next
    case False
    then have "\<not> d" using d by blast
    then have h2: "hole s2 False xs b (k + m) False rest" using s2(2) by simp
    obtain s3 where s3: "ins s2 b (k + m) = Some s3" "arena s3 (xs @ (b, k + m, False) # rest)"
      "keeps s2 s3 (xs @ rest)"
      using stores_freeD [OF I h2 s2(5,3)] by blast
    have "released s (xs @ rest) (Some s3)"
      using s3(2) keeps_trans [OF s2(6) s3(3)] unfolding released_def
      by (intro exI [of _ s3] exI [of _ "xs @ (b, k + m, False) # rest"]) simp
    then show ?thesis using s2(1) s3(1) False by simp
  qed
qed

lemma forward_free:
  assumes I: "stores_free ins" and T: "trims_nothing trim" and h: "hole s d xs b k True ((q, m, False) # rest)" and k: "32 \<le> unat k" and d: "d \<Longrightarrow> dv s = b"
  shows "released s (xs @ rest) (merge_forward ins trim s b k (b + k))"
proof -
  have g: "gap s d xs b k True ((q, m, False) # rest)" using h by (simp add: hole_def)
  have q: "q = b + k" by (rule gap_grow(1) [OF g])
  have nt: "b + k \<noteq> topc s" using gap_range(4) [OF g, of q m False] by (auto simp: q)
  have ff: "merge_forward ins trim s b k (b + k) =
      (if b + k = dv s then merge_into_dv s b k
       else do { r \<leftarrow> absorb_next s b k (b + k);
                 case r of Inr s \<Rightarrow> Some s | Inl (k, s) \<Rightarrow> ins s b k })"
    using forward_start(4) [OF h k] nt by (simp add: merge_forward_def)
  show ?thesis
  proof (cases "q = dv s")
    case True
    have "b \<noteq> q" using gap_range(2) [OF g] k by (auto simp: q)
    then have "\<not> d" using d True by auto
    then have h1: "hole s False xs b k True ((q, m, False) # rest)" using h by simp
    obtain s2 where s2: "merge_into_dv s b k = Some s2" "arena s2 (xs @ (b, k + m, False) # rest)" "keeps s s2 (xs @ rest)"
      using merge_into_dv_ok [OF h1 k True] by blast
    have "released s (xs @ rest) (Some s2)"
      using s2(2,3) unfolding released_def
      by (intro exI [of _ s2] exI [of _ "xs @ (b, k + m, False) # rest"]) simp
    then show ?thesis using ff True s2(1) q by simp
  next
    case False
    obtain r where "absorb_next s b k q = Some r"
      "released s (xs @ rest) (case r of Inr s \<Rightarrow> Some s | Inl (k, s) \<Rightarrow> ins s b k)"
      using forward_absorb [OF I T h k d False] by blast
    then show ?thesis using ff False q by simp
  qed
qed

lemma released_mono: "released s bs r \<Longrightarrow> useds bs = useds bs' \<Longrightarrow> released s bs' r"
  unfolding released_def keeps_def by simp

lemma forward_released:
  assumes I: "stores_free ins" and T: "trims_nothing trim" and h: "hole s d xs b k True ys" and k: "32 \<le> unat k"
    and d: "d \<longrightarrow> dv s = b \<and> (\<forall>q m rest. ys \<noteq> (q, m, True) # rest)"
  shows "released s (xs @ ys) (merge_forward ins trim s b k (b + k))"
proof (cases ys)
  case Nil
  then show ?thesis using forward_top [OF I T, of s d xs b k] h k d by simp
next
  case (Cons c rest)
  obtain q m u where c: "c = (q, m, u)" by (cases c)
  show ?thesis
  proof (cases u)
    case True
    then have "\<not> d" using d Cons c by auto
    then show ?thesis using forward_used [OF I T, of s xs b k q m rest] h k True Cons c by simp
  next
    case False
    then have ys: "ys = (q, m, False) # rest" using Cons c by simp
    have "released s (xs @ rest) (merge_forward ins trim s b k (b + k))"
      using forward_free [OF I T h [unfolded ys] k] d by blast
    then show ?thesis by (rule released_mono) (simp add: ys)
  qed
qed

section \<open>dlfree\<close>

text \<open>The state after freeing the block \<open>(p, n)\<close>: it is not in use any more, every other block in
  use still is and has its contents.\<close>

definition freed :: "'o dl \<Rightarrow> block list \<Rightarrow> u64 \<Rightarrow> u64 \<Rightarrow> 'o dl \<Rightarrow> bool" where
  "freed s lay p n s' \<longleftrightarrow> (\<exists>lay'. arena s' lay' \<and> useds lay' = useds lay - {(p, n)} \<and> keeps s s' lay')"

lemma used_once:
  assumes a: "arena s (zs @ (p, n, True) # ys)"
  shows "useds (zs @ ys) = useds (zs @ (p, n, True) # ys) - {(p, n)}"
proof -
  have t: "tiled (heap s) (least_addr s) True (zs @ (p, n, True) # ys) (topc s) True" using a by (simp add: arena_def)
  have "(p, n) \<notin> useds (zs @ ys)"
  proof
    assume m: "(p, n) \<in> useds (zs @ ys)"
    obtain b mu where b: "tiled (heap s) (least_addr s) True zs b mu" "tiled (heap s) b mu ((p, n, True) # ys) (topc s) True"
      using t unfolding tiled_append by blast
    have n: "32 \<le> unat n" "b = p" "tiled (heap s) (p + n) True ys (topc s) True" "unat (p + n) = unat p + unat n"
      using b(2) unat_sum [of p n] by auto
    consider "(p, n, True) \<in> set zs" | "(p, n, True) \<in> set ys" using m by (auto simp: useds_def)
    then show False
      by cases (use tiled_range [OF b(1)] tiled_range [OF n(3)] n in fastforce)+
  qed
  then show ?thesis by auto
qed

lemma freedI:
  assumes a: "arena s (zs @ (p, n, True) # ys)"
    and s': "arena s' lay'" "useds lay' = useds (zs @ ys)" "keeps s s' (zs @ ys)"
  shows "freed s (zs @ (p, n, True) # ys) p n s'"
  using s' used_once [OF a] unfolding freed_def keeps_def by (intro exI [of _ lay']) simp

text \<open>The whole of it, with a check \<open>ok\<close> between the two halves that is known to pass.\<close>

lemma merged_freed:
  assumes I: "stores_free ins" and T: "trims_nothing trim" and a: "arena s (zs @ (p, n, True) # ys)"
    and r: "merged_back s zs ys (p + n) r"
    and ok: "\<And>s1 d xs b k. hole s1 d xs b k True ys \<Longrightarrow> 32 \<le> unat k \<Longrightarrow> b + k = p + n \<Longrightarrow> ok s1 b = Some True"
  shows "\<exists>s'. (case r of Inr s \<Rightarrow> Some s
      | Inl ((b, k), s) \<Rightarrow> do { okn \<leftarrow> ok s b; if \<not> okn then None else merge_forward ins trim s b k (p + n) }) = Some s'
    \<and> freed s (zs @ (p, n, True) # ys) p n s'"
proof (cases r)
  case (Inr s')
  then show ?thesis using r freedI [OF a] by (auto simp: merged_back_def)
next
  case (Inl t)
  obtain b k s1 where t: "t = ((b, k), s1)" by (metis prod.exhaust)
  obtain xs d where h: "hole s1 d xs b k True ys" and d: "d \<longrightarrow> dv s1 = b \<and> (\<forall>q m rest. ys \<noteq> (q, m, True) # rest)"
    and k: "32 \<le> unat k" and e: "b + k = p + n" and us: "useds xs = useds zs" and ke: "keeps s s1 (zs @ ys)"
    using r unfolding merged_back_def Inl t by auto
  have "released s1 (zs @ ys) (merge_forward ins trim s1 b k (p + n))"
    using released_mono [OF forward_released [OF I T h k d]] us e by simp
  then obtain s' lay' where s': "merge_forward ins trim s1 b k (p + n) = Some s'" "arena s' lay'"
    "useds lay' = useds (zs @ ys)" "keeps s1 s' (zs @ ys)"
    unfolding released_def by blast
  from freedI [OF a s'(2,3) keeps_trans [OF ke s'(4)]] show ?thesis
    using ok [OF h k e] s'(1) unfolding Inl t by simp
qed

lemma used_split:
  assumes "arena s lay" and "(p, n) \<in> useds lay"
  obtains zs ys where "lay = zs @ (p, n, True) # ys" and "unat n mod 16 = 0" "unat p + unat n + 8 < 2 ^ 64" "32 \<le> unat n"
    and "heap s (head_at p) = Some (head_word n (pin zs) True)" "ok_address s p"
proof -
  obtain zs ys where lay: "lay = zs @ (p, n, True) # ys" using assms(2) by (auto simp: useds_def dest: split_list)
  note ap = arena_pin [OF assms(1) [unfolded lay]]
  have "unat n mod 16 = 0" "unat p + unat n + 8 < 2 ^ 64" "32 \<le> unat n"
    using tiled_range [of "heap s" "least_addr s" True lay "topc s" True p n True] assms(1)
    by (auto simp: arena_def lay segment_def)
  from that [OF lay this ap(1,5)] show ?thesis .
qed

lemma dlfree_ok:
  assumes a: "arena s lay" and m: "(p, n) \<in> useds lay"
  shows "\<exists>s'. dlfree S s (chunk2mem p) = Some s' \<and> freed s lay p n s'"
proof -
  obtain zs ys where lay: "lay = zs @ (p, n, True) # ys" and n: "unat n mod 16 = 0" "unat p + unat n + 8 < 2 ^ 64" "32 \<le> unat n"
    and hw: "heap s (head_at p) = Some (head_word n (pin zs) True)" "ok_address s p"
    using used_split [OF a m] .
  have hd: "is_inuse s p = Some True" "chunksize s p = Some n"
    using hw(1) by (simp_all add: is_inuse_def chunksize_def ld_def head_word_fields [OF n(1)])
  have "unat (p + 16) = unat p + 16" using n(2,3) by (simp add: unat_word_ariths)
  then have mem: "mem2chunk (chunk2mem p) = p" "chunk2mem p \<noteq> 0"
    by (auto simp: chunk2mem_def mem2chunk_def)
  obtain r where r: "consolidate_backward S s p n (p + n) = Some r" "merged_back s zs ys (p + n) r"
    using consolidate_backward_ok [OF a [unfolded lay]] by blast
  show ?thesis
    unfolding dlfree_forward [OF mem hw(2) hd r(1)] lay
    by (rule merged_freed [OF stores_free_insert(1) trims_nothing_cases(1) a [unfolded lay] r(2)])
      (use forward_start in \<open>fastforce simp: if_split\<close>)
qed

text \<open>\<open>dispose_chunk\<close> of a block in use does the same, without the trimming.\<close>

lemma dispose_chunk_ok:
  assumes a: "arena s lay" and m: "(p, n) \<in> useds lay"
  shows "\<exists>s'. dispose_chunk S s p n = Some s' \<and> freed s lay p n s'"
proof -
  obtain zs ys where lay: "lay = zs @ (p, n, True) # ys" using used_split [OF a m] .
  obtain r where r: "consolidate_backward S s p n (p + n) = Some r" "merged_back s zs ys (p + n) r"
    using consolidate_backward_ok [OF a [unfolded lay]] by blast
  obtain s' where s': "(case r of Inr s \<Rightarrow> Some s | Inl ((b, k), s) \<Rightarrow> do {
      okn \<leftarrow> Some (ok_address s (p + n)); if \<not> okn then None else merge_forward insert_chunk Some s b k (p + n) }) = Some s'"
    "freed s lay p n s'"
  proof -
    have "ok_address s1 (p + n)" if "hole s1 d xs b k True ys" "32 \<le> unat k" "b + k = p + n" for s1 d xs b k
      using forward_start(3) [OF that(1,2)] that(3) by simp
    then have "\<exists>s'. (case r of Inr s \<Rightarrow> Some s | Inl ((b, k), s) \<Rightarrow> do {
        okn \<leftarrow> Some (ok_address s (p + n)); if \<not> okn then None else merge_forward insert_chunk Some s b k (p + n) }) = Some s'
      \<and> freed s (zs @ (p, n, True) # ys) p n s'"
      by (intro merged_freed [OF stores_free_insert(2) trims_nothing_cases(2) a [unfolded lay] r(2)]) simp
    then show ?thesis using that unfolding lay by blast
  qed
  have "dispose_chunk S s p n = Some s'"
    unfolding dispose_forward [OF r(1)] s'(1) [symmetric] by (auto split: sum.split)
  then show ?thesis using s'(2) by blast
qed

end
