(* ===== verification/DlMallocOk.thy ===== *)
theory DlMallocOk
  imports DlHole
begin

text \<open>
  \<open>dlmalloc\<close> against the layout: as long as the top chunk is large enough a request is served,
  from whichever source the code picks, with a block that was free, and the contents of
  all blocks in use are kept.
\<close>

section \<open>Taking a free block\<close>

definition allocated :: "'o dl \<Rightarrow> block list \<Rightarrow> u64 \<Rightarrow> u64 \<Rightarrow> 'o dl \<Rightarrow> bool" where
  "allocated s lay nb mem s' \<longleftrightarrow> (\<exists>p n lay'. mem = chunk2mem p \<and> nb \<le> n \<and> arena s' lay'
     \<and> (p, n) \<notin> useds lay \<and> useds lay' = insert (p, n) (useds lay) \<and> keeps s s' lay)"

lemma allocatedI:
  assumes a: "arena s (xs @ (p, m, False) # ys)" and s': "arena s' lay'" "nb \<le> n"
    "useds lay' = insert (p, n) (useds (xs @ ys))" "keeps s s' (xs @ ys)"
  shows "allocated s (xs @ (p, m, False) # ys) nb (chunk2mem p) s'"
proof -
  have t: "tiled (heap s) (least_addr s) True (xs @ (p, m, False) # ys) (topc s) True"
    using a by (simp add: arena_def)
  have "(p, n) \<notin> useds (xs @ (p, m, False) # ys)"
    using tiled_distinct [OF t, of p m False n True] by (auto simp: useds_def)
  then show ?thesis
    using s' unfolding allocated_def by (intro exI [of _ p] exI [of _ n] exI [of _ lay']) (auto simp: keeps_def)
qed

lemma arena_take:
  assumes a: "arena s lay" and m: "(p, n) \<in> frees lay - {(dv s, dvsize s)}"
    and s': "pool s' (frees lay - {(dv s, dvsize s)} - {(p, n)})" "bins_only s s'"
    and t: "touches s s' (statics s \<union> link_words (frees lay - {(dv s, dvsize s)}) \<union> own p n)"
  shows "\<exists>xs ys. lay = xs @ (p, n, False) # ys \<and> hole s' False xs p n False ys \<and> keeps s s' (xs @ ys)"
proof -
  obtain xs ys where lay: "lay = xs @ (p, n, False) # ys" using m by (auto simp: frees_def dest: split_list)
  have "pin xs" using arena_pin(2) [OF a [unfolded lay]] by simp
  note h = arena_open [OF a [unfolded lay] this]
  have p: "p \<noteq> dv s"
  proof
    assume p: "p = dv s"
    from hole_victim(2) [OF h this] m p show False by simp
  qed
  show ?thesis
    using hole_unlinked [OF h p] s' t unfolding lay by auto
qed

lemma arena_pool: "arena s lay \<Longrightarrow> pool s (frees lay - {(dv s, dvsize s)})"
  by (simp add: arena_def)

lemma arena_unlink:
  assumes a: "arena s lay" and m: "(p, n) \<in> frees lay - {(dv s, dvsize s)}"
  shows "\<exists>xs ys s'. lay = xs @ (p, n, False) # ys \<and> unlink_chunk s p n = Some s' \<and> bins_only s s'
    \<and> hole s' False xs p n False ys \<and> keeps s s' (xs @ ys)"
  using pool_unlink [OF arena_pool [OF a] m] arena_take [OF a m] by blast

lemma arena_unlink_first:
  assumes a: "arena s lay" and i: "unat i < 32" "bit (smallmap s) (unat i)"
  defines "n \<equiv> of_nat (8 * unat i)"
  shows "\<exists>p xs ys s'. lay = xs @ (p, n, False) # ys \<and> ld s (fd_at (smallbin_at s i)) = Some p
    \<and> unlink_first_small_chunk s (smallbin_at s i) p i = Some s' \<and> bins_only s s'
    \<and> hole s' False xs p n False ys \<and> keeps s s' (xs @ ys)"
proof -
  obtain p s' where s': "ld s (fd_at (smallbin_at s i)) = Some p" "(p, n) \<in> frees lay - {(dv s, dvsize s)}"
    "unlink_first_small_chunk s (smallbin_at s i) p i = Some s'"
    "pool s' (frees lay - {(dv s, dvsize s)} - {(p, n)})" "bins_only s s'"
    "touches s s' (statics s \<union> link_words (frees lay - {(dv s, dvsize s)}))"
    using unlink_first_pool [OF arena_pool [OF a] i] unfolding n_def by blast
  have "touches s s' (statics s \<union> link_words (frees lay - {(dv s, dvsize s)}) \<union> own p n)"
    by (rule touches_mono [OF s'(6)]) blast
  from arena_take [OF a s'(2,4,5) this] show ?thesis using s'(1,3,5) by blast
qed

lemma arena_block:
  assumes "arena s (xs @ (p, n, u) # ys)"
  shows "32 \<le> unat n" "unat n mod 16 = 0" "unat p + unat n + 8 < 2 ^ 64" "unat p mod 16 = 0" "0 < unat p"
proof -
  have t: "tiled (heap s) (least_addr s) True (xs @ (p, n, u) # ys) (topc s) True"
    "0 < unat (least_addr s)" "unat (least_addr s) mod 16 = 0" using assms by (auto simp: arena_def segment_def)
  from tiled_range [OF t(1), of p n u] t(2,3)
  show "32 \<le> unat n" "unat n mod 16 = 0" "unat p + unat n + 8 < 2 ^ 64" "unat p mod 16 = 0" "0 < unat p" by auto
qed

text \<open>A block in use at the front of the hole, and the rest of it a free chunk.\<close>

lemma hole_split:
  assumes h: "hole s False xs b k False ys" and n: "32 \<le> unat n" "unat n mod 16 = 0" "unat n + 32 \<le> unat k"
  defines "r \<equiv> k - n"
  shows "\<exists>s1 s2. set_size_and_pinuse_of_inuse_chunk s b n = Some s1
    \<and> set_size_and_pinuse_of_free_chunk s1 (b + n) r = Some s2
    \<and> hole s2 False (xs @ [(b, n, True)]) (b + n) r False ys \<and> filled s2 (b + n) r \<and> 32 \<le> unat r
    \<and> keeps s s2 (xs @ ys) \<and> bins_only s s2"
proof -
  have k: "32 \<le> unat k" using n by simp
  note o = hole_own(1) [OF h k]
  let ?s = "upd s (head_at b) (head_word n True True)"
  note u = hole_upd(1,2) [OF h o, of "head_word n True True"]
  have "hole ?s False (xs @ [(b, n, True)]) (b + n) r False ys"
    unfolding r_def using n by (intro hole_cut [OF u(1)]) simp_all
  moreover have r: "32 \<le> unat r" using n by (simp add: r_def unat_sub word_le_nat_alt)
  ultimately obtain s2 where s2: "set_size_and_pinuse_of_free_chunk ?s (b + n) r = Some s2"
    "hole s2 False (xs @ [(b, n, True)]) (b + n) r False ys" "filled s2 (b + n) r"
    "keeps ?s s2 ((xs @ [(b, n, True)]) @ ys)" "bins_only ?s s2"
    using hole_fill by blast
  have "set_size_and_pinuse_of_inuse_chunk s b n = Some ?s"
    using hole_upd(3) [OF h o] by (simp add: set_size_and_pinuse_of_inuse_chunk_def st_has head_word_eqs del: flag_values)
  moreover have "keeps s s2 (xs @ ys)"
    by (rule keeps_trans [OF u(2) keeps_mono [OF s2(4)]]) auto
  moreover have "bins_only s s2" using bins_only_trans [OF bins_only_upd s2(5)] by auto
  ultimately show ?thesis using s2(1-3) r by blast
qed

section \<open>The small bins\<close>

lemma malloc_exact_ok:
  assumes a: "arena s lay" and idx: "unat idx \<le> 30" and hit: "drop_bit (unat idx) (smallmap s) AND 3 \<noteq> 0"
    and nb: "unat nb = 8 * unat idx"
  shows "\<exists>mem s'. malloc_exact s idx (drop_bit (unat idx) (smallmap s)) = Some (mem, s') \<and> allocated s lay nb mem s'"
proof -
  define j where "j = idx + (if bit (smallmap s) (unat idx) then 0 else 1)"
  have uj: "unat j = unat idx + (if bit (smallmap s) (unat idx) then 0 else 1)"
    using idx by (auto simp: j_def unat_word_ariths)
  have bj: "bit (smallmap s) (unat j)" "unat j < 32" using hit uj idx unfolding drop_AND_3 by auto
  define n where "n = (of_nat (8 * unat j) :: u64)"
  have sz: "small_index2size j = n"
    using unat_small_index2size [OF bj(2)] unfolding n_def by (metis of_nat_unat ucast_id)
  obtain p xs ys s1 where s1: "lay = xs @ (p, n, False) # ys" "ld s (fd_at (smallbin_at s j)) = Some p"
    "unlink_first_small_chunk s (smallbin_at s j) p j = Some s1" "hole s1 False xs p n False ys" "keeps s s1 (xs @ ys)"
    using arena_unlink_first [OF a bj(2,1)] unfolding n_def by blast
  note n32 = arena_block(1) [OF a [unfolded s1(1)]]
  obtain s2 where s2: "set_inuse_and_pinuse s1 p n = Some s2" "arena s2 (xs @ (p, n, True) # ys)" "keeps s1 s2 (xs @ ys)"
    using hole_use [OF s1(4) n32] by blast
  have "malloc_exact s idx (drop_bit (unat idx) (smallmap s)) = Some (chunk2mem p, s2)"
    unfolding malloc_exact_def NOT_AND_1 j_def [symmetric] Let_def using s1(2,3) s2(1) by (simp add: sz)
  moreover have "nb \<le> n" using unat_small_index2size [OF bj(2)] uj nb by (simp add: sz word_le_nat_alt)
  then have "allocated s lay nb (chunk2mem p) s2"
    using keeps_trans [OF s1(5) s2(3)] unfolding s1(1) by (intro allocatedI [OF a [unfolded s1(1)] s2(2)]) simp_all
  ultimately show ?thesis by blast
qed

lemma push_drop_left_bits:
  assumes "unat idx < 32"
  shows "push_bit (unat idx) (drop_bit (unat idx) m) AND left_bits (idx2bit idx) = left_bits (idx2bit idx) AND (m :: u32)"
  by (rule bit_word_eqI) (auto simp: bit_and_iff bit_push_bit_iff bit_drop_bit_eq bit_left_bits_idx2bit [OF assms])

lemma left_bits_nonzero:
  assumes idx: "unat idx \<le> 30" and miss: "drop_bit (unat idx) m AND 3 = 0" and nz: "drop_bit (unat idx) (m :: u32) \<noteq> 0"
  shows "left_bits (idx2bit idx) AND m \<noteq> 0"
proof -
  obtain i where i: "i < 32" "bit m (unat idx + i)" using nz unfolding word_eq_0_bits by (auto simp: bit_drop_bit_eq)
  have "\<not> bit m (unat idx)" using miss drop_AND_3 [of "unat idx" m] by blast
  then have "0 < i" using i(2) by (cases i) auto
  moreover have "unat idx + i < 32" using bit_imp_le_length [OF i(2)] by simp
  ultimately have "bit (left_bits (idx2bit idx) AND m) (unat idx + i)"
    using i(2) idx by (simp add: bit_and_iff bit_left_bits_idx2bit)
  then show ?thesis by auto
qed

lemma malloc_next_bin_ok:
  assumes a: "arena s lay" and idx: "unat idx \<le> 30" and miss: "drop_bit (unat idx) (smallmap s) AND 3 = 0"
    and nz: "drop_bit (unat idx) (smallmap s) \<noteq> 0"
    and nb: "unat nb = 8 * unat idx" "32 \<le> unat nb" "unat nb mod 16 = 0" and dvs: "is_small (dvsize s)"
  shows "\<exists>mem s'. malloc_next_bin s idx (drop_bit (unat idx) (smallmap s)) nb = Some (mem, s') \<and> allocated s lay nb mem s'"
proof -
  let ?m = "smallmap s"
  have i32: "unat idx < 32" using idx by simp
  define i where "i = compute_bit2idx (least_bit (left_bits (idx2bit idx) AND ?m))"
  note i = next_marked_bin [OF i32 left_bits_nonzero [OF idx miss nz], folded i_def]
  define n where "n = (of_nat (8 * unat i) :: u64)"
  have un: "unat (small_index2size i) = 8 * unat i" using i by (intro unat_small_index2size) simp
  then have sz: "small_index2size i = n" unfolding n_def by (metis of_nat_unat ucast_id)
  have un: "unat n = 8 * unat i" using un sz by simp
  obtain p xs ys s1 where s1: "lay = xs @ (p, n, False) # ys" "ld s (fd_at (smallbin_at s i)) = Some p"
    "unlink_first_small_chunk s (smallbin_at s i) p i = Some s1" "bins_only s s1"
    "hole s1 False xs p n False ys" "keeps s s1 (xs @ ys)"
    using arena_unlink_first [OF a, of i] i unfolding n_def by blast
  note n32 = arena_block(1) [OF a [unfolded s1(1)]]
  have le: "unat nb \<le> unat n" using i nb(1) un by simp
  have rs: "unat (n - nb) = unat n - unat nb" using le by (simp add: unat_sub word_le_nat_alt)
  have step: "malloc_next_bin s idx (drop_bit (unat idx) ?m) nb =
    do { s2 \<leftarrow> (if n - nb < MIN_CHUNK_SIZE then set_inuse_and_pinuse s1 p n
               else do { s \<leftarrow> set_size_and_pinuse_of_inuse_chunk s1 p nb;
                         s \<leftarrow> set_size_and_pinuse_of_free_chunk s (p + nb) (n - nb);
                         replace_dv s (p + nb) (n - nb) });
         Some (chunk2mem p, s2) }"
    using s1(2,3) unfolding malloc_next_bin_def Let_def push_drop_left_bits [OF i32] i_def [symmetric] sz
    by simp
  note A = allocatedI [OF a [unfolded s1(1)]]
  show ?thesis
  proof (cases "n - nb < MIN_CHUNK_SIZE")
    case True
    obtain s2 where s2: "set_inuse_and_pinuse s1 p n = Some s2" "arena s2 (xs @ (p, n, True) # ys)" "keeps s1 s2 (xs @ ys)"
      using hole_use [OF s1(5) n32] by blast
    have "allocated s lay nb (chunk2mem p) s2"
      using keeps_trans [OF s1(6) s2(3)] le unfolding s1(1) by (intro A [OF s2(2)]) (simp_all add: word_le_nat_alt)
    then show ?thesis using step True s2(1) by simp
  next
    case False
    then have "unat nb + 32 \<le> unat n" using rs le by (simp add: word_less_nat_alt)
    from hole_split [OF s1(5) nb(2,3) this]
    obtain s2 s3 where s3: "set_size_and_pinuse_of_inuse_chunk s1 p nb = Some s2"
      "set_size_and_pinuse_of_free_chunk s2 (p + nb) (n - nb) = Some s3"
      "hole s3 False (xs @ [(p, nb, True)]) (p + nb) (n - nb) False ys" "filled s3 (p + nb) (n - nb)"
      "32 \<le> unat (n - nb)" "keeps s1 s3 (xs @ ys)" "bins_only s1 s3" by blast
    have "is_small (dvsize s3)" using dvs bins_only_sel(4) [OF s1(4)] bins_only_sel(4) [OF s3(7)] by simp
    from hole_replace_dv [OF s3(3,5,4) this]
    obtain s4 where s4: "replace_dv s3 (p + nb) (n - nb) = Some s4"
      "arena s4 ((xs @ [(p, nb, True)]) @ (p + nb, n - nb, False) # ys)" "keeps s3 s4 ((xs @ [(p, nb, True)]) @ ys)" by blast
    have "keeps s s4 (xs @ ys)"
      by (rule keeps_trans [OF keeps_trans [OF s1(6) s3(6)] keeps_mono [OF s4(3)]]) auto
    then have "allocated s lay nb (chunk2mem p) s4"
      unfolding s1(1) by (intro A [OF s4(2)]) simp_all
    then show ?thesis using step False s3(1,2) s4(1) by simp
  qed
qed

section \<open>The tree bins\<close>

lemma best_fit_pool:
  assumes "trees_ok s ts" "binned ls ts = fr" "best_fit ts nb n v"
  shows "(v, n) \<in> fr" "\<not> is_small n" "nb \<le> n"
proof -
  have st: "(n, v) \<in> stored ts" "nb \<le> n" using assms(3) by (auto simp: best_fit_def)
  then show "nb \<le> n" "(v, n) \<in> fr" using assms(2) by (auto simp: binned_def)
  show "\<not> is_small n" using stored_big [OF assms(1) st(1)] by (simp add: is_small_iff)
qed

lemma tmalloc_small_pool:
  assumes p: "pool s fr" and t: "treemap s \<noteq> 0" and nb: "unat nb \<le> 256"
  shows "\<exists>n v. (v, n) \<in> fr \<and> \<not> is_small n \<and> nb \<le> n
    \<and> tmalloc_small s nb = split_tree_chunk s v nb (n - nb) replace_dv"
proof -
  obtain ls ts where o: "bins_ok s ls" "trees_ok s ts" "binned ls ts = fr"
    using p by (auto simp: pool_def)
  obtain n v where "best_fit ts nb n v" "tmalloc_small s nb = split_tree_chunk s v nb (n - nb) replace_dv"
    using tmalloc_small_search [OF o(2) t nb] by blast
  then show ?thesis using best_fit_pool [OF o(2,3)] by blast
qed

lemma tmalloc_large_pool:
  assumes p: "pool s fr" and nb: "256 \<le> unat nb" "unat nb < 2 ^ 40"
  shows "tmalloc_large s nb = Some (0, s) \<or> (\<exists>n v. (v, n) \<in> fr \<and> \<not> is_small n \<and> nb \<le> n
    \<and> tmalloc_large s nb = split_tree_chunk s v nb (n - nb) insert_chunk)"
proof -
  obtain ls ts where o: "bins_ok s ls" "trees_ok s ts" "binned ls ts = fr"
    using p by (auto simp: pool_def)
  from large_pick_best [OF o(2) nb] show ?thesis
  proof (elim disjE exE conjE)
    fix n v assume b: "best_fit ts nb n v" "v \<noteq> 0" "large_pick s nb = Some (v, n - nb)"
    note bf = best_fit_pool [OF o(2,3) b(1)]
    show ?thesis
    proof (cases "n - nb < dvsize s - nb")
      case True
      then have "tmalloc_large s nb = split_tree_chunk s v nb (n - nb) insert_chunk" using b by (simp add: tmalloc_large_def)
      then show ?thesis using bf by blast
    qed (use b in \<open>simp add: tmalloc_large_def\<close>)
  qed (simp add: tmalloc_large_def)
qed

text \<open>A way of storing the remainder of a split.\<close>

definition stores_rest :: "('o dl \<Rightarrow> u64 \<Rightarrow> u64 \<Rightarrow> 'o dl option) \<Rightarrow> u64 \<Rightarrow> bool" where
  "stores_rest keep dvs \<longleftrightarrow> (\<forall>s xs b k ys. hole s False xs b k False ys \<longrightarrow> 32 \<le> unat k \<longrightarrow> filled s b k
     \<longrightarrow> dvsize s = dvs \<longrightarrow> (\<exists>s'. keep s b k = Some s' \<and> arena s' (xs @ (b, k, False) # ys) \<and> keeps s s' (xs @ ys)))"

lemma stores_rest_insert: "stores_rest insert_chunk dvs"
  unfolding stores_rest_def using hole_insert by blast

lemma stores_rest_dv: "is_small dvs \<Longrightarrow> stores_rest replace_dv dvs"
  unfolding stores_rest_def using hole_replace_dv by blast

lemma split_tree_chunk_ok:
  assumes a: "arena s lay" and v: "(v, n) \<in> frees lay - {(dv s, dvsize s)}" "\<not> is_small n"
    and nb: "32 \<le> unat nb" "unat nb mod 16 = 0" "nb \<le> n" and keep: "stores_rest keep (dvsize s)"
  shows "\<exists>s'. split_tree_chunk s v nb (n - nb) keep = Some (chunk2mem v, s') \<and> allocated s lay nb (chunk2mem v) s'"
proof -
  obtain xs ys s1 where s1: "lay = xs @ (v, n, False) # ys" "unlink_chunk s v n = Some s1" "bins_only s s1"
    "hole s1 False xs v n False ys" "keeps s s1 (xs @ ys)"
    using arena_unlink [OF a v(1)] by blast
  note ab = arena_block [OF a [unfolded s1(1)]] and A = allocatedI [OF a [unfolded s1(1)]]
  have ul: "unlink_large_chunk s v = Some s1" using s1(2) v(2) by (simp add: unlink_chunk_def)
  have le: "unat nb \<le> unat n" using nb(3) by (simp add: word_le_nat_alt)
  have rs: "unat (n - nb) = unat n - unat nb" using nb(3) by (rule unat_sub)
  have "unat (v + nb) = unat v + unat nb" using le ab(3) by (intro unat_sum) simp
  then have nx: "ok_next v (v + nb)" using nb(1) by (simp add: ok_next_def word_less_nat_alt)
  have step: "split_tree_chunk s v nb (n - nb) keep =
    do { s2 \<leftarrow> (if n - nb < MIN_CHUNK_SIZE then set_inuse_and_pinuse s1 v n
               else do { s \<leftarrow> set_size_and_pinuse_of_inuse_chunk s1 v nb;
                         s \<leftarrow> set_size_and_pinuse_of_free_chunk s (v + nb) (n - nb);
                         keep s (v + nb) (n - nb) });
         Some (chunk2mem v, s2) }"
    using ul nx arena_pin(5) [OF a [unfolded s1(1)]] by (simp add: split_tree_chunk_def Let_def cong: if_cong)
  show ?thesis
  proof (cases "n - nb < MIN_CHUNK_SIZE")
    case True
    obtain s2 where s2: "set_inuse_and_pinuse s1 v n = Some s2" "arena s2 (xs @ (v, n, True) # ys)" "keeps s1 s2 (xs @ ys)"
      using hole_use [OF s1(4) ab(1)] by blast
    have "allocated s lay nb (chunk2mem v) s2"
      using keeps_trans [OF s1(5) s2(3)] nb(3) unfolding s1(1) by (intro A [OF s2(2)]) simp_all
    then show ?thesis using step True s2(1) by simp
  next
    case False
    then have "unat nb + 32 \<le> unat n" using rs le by (simp add: word_less_nat_alt)
    from hole_split [OF s1(4) nb(1,2) this]
    obtain s2 s3 where s3: "set_size_and_pinuse_of_inuse_chunk s1 v nb = Some s2"
      "set_size_and_pinuse_of_free_chunk s2 (v + nb) (n - nb) = Some s3"
      "hole s3 False (xs @ [(v, nb, True)]) (v + nb) (n - nb) False ys" "filled s3 (v + nb) (n - nb)"
      "32 \<le> unat (n - nb)" "keeps s1 s3 (xs @ ys)" "bins_only s1 s3" by blast
    have "dvsize s3 = dvsize s" using bins_only_sel(4) [OF s1(3)] bins_only_sel(4) [OF s3(7)] by simp
    then obtain s4 where s4: "keep s3 (v + nb) (n - nb) = Some s4"
      "arena s4 ((xs @ [(v, nb, True)]) @ (v + nb, n - nb, False) # ys)" "keeps s3 s4 ((xs @ [(v, nb, True)]) @ ys)"
      using keep s3(3-5) unfolding stores_rest_def by blast
    have "keeps s s4 (xs @ ys)"
      by (rule keeps_trans [OF keeps_trans [OF s1(5) s3(6)] keeps_mono [OF s4(3)]]) auto
    then have "allocated s lay nb (chunk2mem v) s4"
      unfolding s1(1) by (intro A [OF s4(2)]) simp_all
    then show ?thesis using step False s3(1,2) s4(1) by simp
  qed
qed

section \<open>The designated victim\<close>

lemma victim_block:
  assumes "arena s lay" and "dvsize s \<noteq> 0"
  shows "\<exists>xs ys. lay = xs @ (dv s, dvsize s, False) # ys \<and> hole s True xs (dv s) (dvsize s) False ys"
proof -
  have "(dv s, dvsize s, False) \<in> set lay" using assms by (auto simp: arena_def victim_def)
  then obtain xs ys where lay: "lay = xs @ (dv s, dvsize s, False) # ys" by (auto dest: split_list)
  have "pin xs" using arena_pin(2) [OF assms(1) [unfolded lay]] by simp
  from hole_victim(1) [OF arena_open [OF assms(1) [unfolded lay] this] refl] show ?thesis using lay by auto
qed

lemma split_victim:
  assumes h: "hole s True xs p k False ys" and p: "p = dv s"
    and n: "32 \<le> unat n" "unat n mod 16 = 0" "unat n + 32 \<le> unat k"
  defines "r \<equiv> p + n" and "m \<equiv> k - n"
  shows "\<exists>s1 s2. set_size_and_pinuse_of_free_chunk (s\<lparr>dv := r, dvsize := m\<rparr>) r m = Some s1
    \<and> set_size_and_pinuse_of_inuse_chunk s1 p n = Some s2
    \<and> arena s2 (xs @ (p, n, True) # (r, m, False) # ys) \<and> keeps s s2 (xs @ ys)"
proof -
  have g: "gap s True xs p k False ys" using h by (simp add: hole_def)
  have k: "32 \<le> unat k" using n by simp
  have pk: "unat p + unat k + 8 < 2 ^ 64" by (rule hole_below(3) [OF h])
  have um: "unat m = unat k - unat n" unfolding m_def using n(3) by (intro unat_sub) (simp add: word_le_nat_alt)
  have ur: "unat r = unat p + unat n" unfolding r_def using pk n(3) by (intro unat_sum) simp
  have rm: "r + m = p + k" by (simp add: r_def m_def)
  have nb: "(r, j, u) \<notin> set (xs @ ys)" for j u
  proof
    assume a: "(r, j, u) \<in> set (xs @ ys)"
    from gap_range(4) [OF g this] ur n show False by simp
  qed
  have old: "(dv s, j, u) \<notin> set (xs @ ys)" for j u using g by (simp add: gap_def victim_def)
  define s0 where "s0 = s\<lparr>dv := r, dvsize := m\<rparr>"
  have h0: "hole s0 True xs p k False ys"
  proof (rule hole_dv_update(1) [OF h s0_def])
    show "victim True s0 (xs @ ys)" using nb by (simp add: victim_def s0_def)
    show "frees (xs @ ys) - {(r, m)} = frees (xs @ ys) - {(dv s, dvsize s)}"
      using nb [of _ False] old [of _ False] by (auto simp: frees_def)
  qed
  have m32: "32 \<le> unat m" using um n(3) by simp
  have rm64: "unat r + unat m + 8 < 2 ^ 64" using ur um n(3) pk by simp
  have sub: "own r m \<subseteq> own p k" using ur um n(3) by (auto simp: own_def)
  have w: "head_at r \<in> own p k" "r + m \<in> own p k" "head_at p \<in> own p k" "r + m \<noteq> head_at r"
    using links_inner(3) [OF m32 rm64] foot_own(1,3) [OF m32 rm64] hole_own(1) [OF h k] sub by blast+
  have hp: "head_at p \<noteq> head_at r" using n(1) by (auto simp: head_at_def r_def)
  have pf: "head_at p \<noteq> r + m" using hole_own(3) [OF h k] rm by auto
  define s1 where "s1 = upd (upd s0 (head_at r) (head_word m True False)) (r + m) m"
  define s2 where "s2 = upd s1 (head_at p) (head_word n True True)"
  note u1 = hole_upd(1,2) [OF h0 w(1), of "head_word m True False"]
  note u2 = hole_upd(1,2) [OF u1(1) w(2), of m, folded s1_def]
  note u3 = hole_upd(1,2) [OF u2(1) w(3), of "head_word n True True", folded s2_def]
  have e1: "set_size_and_pinuse_of_free_chunk s0 r m = Some s1"
    using hole_upd(3) [OF h0 w(1)] hole_upd(3) [OF u1(1) w(2)]
    by (simp add: set_size_and_pinuse_of_free_chunk_def set_foot_def st_has head_word_eqs s1_def del: flag_values)
  have e2: "set_size_and_pinuse_of_inuse_chunk s1 p n = Some s2"
    using hole_upd(3) [OF u2(1) w(3)]
    by (simp add: set_size_and_pinuse_of_inuse_chunk_def st_has head_word_eqs s2_def del: flag_values)
  have sel: "dv s2 = r" "dvsize s2 = m" by (simp_all add: s2_def s1_def s0_def)
  have fl: "filled s2 r m" using w(4) hp pf by (simp add: filled_def s2_def s1_def)
  have hd: "heap s2 (head_at p) = Some (head_word n True True)" by (simp add: s2_def)
  have "dv s2 \<noteq> p" using ur n(1) by (auto simp: sel)
  then have "hole s2 True (xs @ [(p, n, True)]) r m False ys"
    unfolding r_def m_def using n(3) hd by (intro hole_cut [OF u3(1) n(1,2)]) simp_all
  from hole_close_dv [OF this m32 fl sel]
  have "arena s2 (xs @ (p, n, True) # (r, m, False) # ys)" by simp
  moreover have "keeps s0 s2 (xs @ ys)" using u1(2) u2(2) u3(2) keeps_trans by blast
  then have "keeps s s2 (xs @ ys)" by (simp add: keeps_def s0_def)
  ultimately show ?thesis using e1 e2 unfolding s0_def by blast
qed

lemma malloc_dv_ok:
  assumes a: "arena s lay" and nb: "32 \<le> unat nb" "unat nb mod 16 = 0" "nb \<le> dvsize s"
  shows "\<exists>mem s'. malloc_dv s nb = Some (mem, s') \<and> allocated s lay nb mem s'"
proof -
  define p where "p = dv s"
  define k where "k = dvsize s"
  have le: "unat nb \<le> unat k" using nb(3) by (simp add: word_le_nat_alt k_def)
  then have "dvsize s \<noteq> 0" using nb(1) by (auto simp: k_def)
  from victim_block [OF a this, folded p_def k_def]
  obtain xs ys where lay: "lay = xs @ (p, k, False) # ys" and h: "hole s True xs p k False ys" by blast
  note k32 = arena_block(1) [OF a [unfolded lay]] and A = allocatedI [OF a [unfolded lay]]
  have rs: "unat (k - nb) = unat k - unat nb" using nb(3) unfolding k_def by (rule unat_sub)
  show ?thesis
  proof (cases "k - nb \<ge> MIN_CHUNK_SIZE")
    case True
    then have "unat nb + 32 \<le> unat k" using rs le by (simp add: word_le_nat_alt)
    from split_victim [OF h p_def nb(1,2) this]
    obtain s1 s2 where s2: "set_size_and_pinuse_of_free_chunk (s\<lparr>dv := p + nb, dvsize := k - nb\<rparr>) (p + nb) (k - nb) = Some s1"
      "set_size_and_pinuse_of_inuse_chunk s1 p nb = Some s2"
      "arena s2 (xs @ (p, nb, True) # (p + nb, k - nb, False) # ys)" "keeps s s2 (xs @ ys)" by blast
    have "malloc_dv s nb = Some (chunk2mem p, s2)"
      using True s2(1,2) unfolding malloc_dv_def Let_def p_def [symmetric] k_def [symmetric] by simp
    moreover have "allocated s lay nb (chunk2mem p) s2"
      using s2(4) unfolding lay by (intro A [OF s2(3)]) simp_all
    ultimately show ?thesis by blast
  next
    case False
    have h0: "hole (s\<lparr>dv := 0, dvsize := 0\<rparr>) False xs p k False ys"
      by (rule hole_set_dv(2) [OF h k32]) simp
    obtain s1 where s1: "set_inuse_and_pinuse (s\<lparr>dv := 0, dvsize := 0\<rparr>) p k = Some s1"
      "arena s1 (xs @ (p, k, True) # ys)" "keeps (s\<lparr>dv := 0, dvsize := 0\<rparr>) s1 (xs @ ys)"
      using hole_use [OF h0 k32] by blast
    have "malloc_dv s nb = Some (chunk2mem p, s1)"
      using False s1(1) unfolding malloc_dv_def Let_def p_def [symmetric] k_def [symmetric] dv_swap by simp
    moreover have "allocated s lay nb (chunk2mem p) s1"
      using s1(3) le unfolding lay by (intro A [OF s1(2)]) (simp_all add: keeps_def word_le_nat_alt)
    ultimately show ?thesis by blast
  qed
qed

section \<open>dlmalloc\<close>

text \<open>Either the request is served from memory the allocator has, or the top chunk is too small
  and the result is that of \<open>sys_alloc\<close>.\<close>

definition served :: "'o sys \<Rightarrow> 'o dl \<Rightarrow> block list \<Rightarrow> u64 \<Rightarrow> (u64 \<times> 'o dl) option \<Rightarrow> bool" where
  "served S s lay nb r \<longleftrightarrow> (\<exists>mem s'. r = Some (mem, s') \<and> allocated s lay nb mem s')
     \<or> (topsize s \<le> nb \<and> r = sys_alloc S s nb)"

lemma servedI: "r = Some (mem, s') \<Longrightarrow> allocated s lay nb mem s' \<Longrightarrow> served S s lay nb r"
  by (simp add: served_def)

lemma split_top_allocated:
  assumes a: "arena s lay" and nb: "32 \<le> unat nb" "unat nb mod 16 = 0" "nb < topsize s"
  shows "\<exists>s'. split_top s nb = Some (chunk2mem (topc s), s') \<and> allocated s lay nb (chunk2mem (topc s)) s'"
proof -
  obtain s' where s': "split_top s nb = Some (chunk2mem (topc s), s')" "arena s' (lay @ [(topc s, nb, True)])" "keeps s s' lay"
    using arena_split_top [OF a nb(1,2)] nb(3) by (auto simp: word_less_nat_alt)
  have t: "tiled (heap s) (least_addr s) True lay (topc s) True" using a by (simp add: arena_def)
  have "(topc s, nb) \<notin> useds lay"
    using tiled_range [OF t, of "topc s" nb True] nb(1) by (auto simp: useds_def)
  then have "allocated s lay nb (chunk2mem (topc s)) s'"
    using s'(2,3) unfolding allocated_def by (intro exI [of _ "topc s"] exI [of _ nb] exI [of _ "lay @ [(topc s, nb, True)]"]) simp
  then show ?thesis using s'(1) by blast
qed

lemma malloc_tail_ok:
  assumes a: "arena s lay" and nb: "32 \<le> unat nb" "unat nb mod 16 = 0"
  shows "served S s lay nb (malloc_tail S s nb)"
proof -
  consider "nb \<le> dvsize s" | "\<not> nb \<le> dvsize s" "nb < topsize s" | "\<not> nb \<le> dvsize s" "topsize s \<le> nb" by force
  then show ?thesis
  proof cases
    case 1
    then show ?thesis using malloc_dv_ok [OF a nb] by (simp add: malloc_tail_def served_def)
  next
    case 2
    then show ?thesis using split_top_allocated [OF a nb 2(2)] by (auto simp: malloc_tail_def served_def)
  next
    case 3
    then have "\<not> nb < topsize s" by simp
    then show ?thesis using 3 by (simp add: malloc_tail_def served_def)
  qed
qed

lemma chunk2mem_nonzero:
  assumes "arena s lay" "(p, n) \<in> frees lay"
  shows "chunk2mem p \<noteq> 0"
proof -
  obtain xs ys where lay: "lay = xs @ (p, n, False) # ys" using assms(2) by (auto simp: frees_def dest: split_list)
  note b = arena_block [OF assms(1) [unfolded lay]]
  then have "unat (p + 16) = unat p + 16" by (simp add: unat_word_ariths)
  then show ?thesis by (auto simp: chunk2mem_def)
qed

lemma request_size:
  assumes "bytes < MAX_REQUEST"
  shows "32 \<le> unat (request2size bytes)" "unat (request2size bytes) mod 16 = 0"
    and "bytes \<le> MAX_SMALL_REQUEST \<longleftrightarrow> unat (request2size bytes) < 256"
    and "\<not> bytes \<le> MAX_SMALL_REQUEST \<Longrightarrow> request2size bytes = pad_request bytes"
proof -
  note u = unat_request2size [OF assms]
  show "32 \<le> unat (request2size bytes)" "unat (request2size bytes) mod 16 = 0" by (simp_all add: u max_def)
  show "bytes \<le> MAX_SMALL_REQUEST \<longleftrightarrow> unat (request2size bytes) < 256"
    unfolding u by (auto simp: word_le_nat_alt max_def)
  show "\<not> bytes \<le> MAX_SMALL_REQUEST \<Longrightarrow> request2size bytes = pad_request bytes"
    by (simp add: request2size_def word_le_nat_alt word_less_nat_alt)
qed

lemma dlmalloc_small_ok:
  assumes a: "arena s lay" and b: "bytes \<le> MAX_SMALL_REQUEST"
  shows "served S s lay (request2size bytes) (dlmalloc S s bytes)"
proof -
  define nb where "nb = request2size bytes"
  define idx where "idx = small_index nb"
  define sb where "sb = drop_bit (unat idx) (smallmap s)"
  have "bytes < MAX_REQUEST" using b by (simp add: word_le_nat_alt word_less_nat_alt)
  note r = request_size(1,2) [OF this, folded nb_def] and sr = small_request [OF b, folded nb_def, folded idx_def]
  have n256: "unat nb < 256" using sr(2) by (simp add: is_small_iff)
  have D: "dlmalloc S s bytes =
    (if sb AND 3 \<noteq> 0 then malloc_exact s idx sb
     else if nb > dvsize s then
       if sb \<noteq> 0 then malloc_next_bin s idx sb nb
       else if treemap s \<noteq> 0 then do {
         (mem, s) \<leftarrow> tmalloc_small s nb; if mem \<noteq> 0 then Some (mem, s) else malloc_tail S s nb }
       else malloc_tail S s nb
     else malloc_tail S s nb)"
    using b unfolding dlmalloc_def Let_def sr(1) idx_def [symmetric] sb_def [symmetric] by simp
  note tail = malloc_tail_ok [OF a r, of S]
  show ?thesis
    unfolding nb_def [symmetric]
  proof (cases "sb AND 3 \<noteq> 0 \<or> \<not> nb > dvsize s")
    case True
    then show "served S s lay nb (dlmalloc S s bytes)"
      using malloc_exact_ok [OF a sr(3), of nb] sr(4) tail D by (auto simp: sb_def served_def)
  next
    case False
    then have dvs: "is_small (dvsize s)" using n256 by (auto simp: is_small_iff word_less_nat_alt)
    consider "sb \<noteq> 0" | "sb = 0" "treemap s \<noteq> 0" | "sb = 0" "treemap s = 0" by blast
    then show "served S s lay nb (dlmalloc S s bytes)"
    proof cases
      case 1
      then show ?thesis
        using malloc_next_bin_ok [OF a sr(3) _ _ sr(4) [symmetric] r dvs] False D by (simp add: sb_def served_def)
    next
      case 2
      have "unat nb \<le> 256" using n256 by simp
      from tmalloc_small_pool [OF arena_pool [OF a] 2(2) this]
      obtain n v where v: "(v, n) \<in> frees lay - {(dv s, dvsize s)}" "\<not> is_small n" "nb \<le> n"
        "tmalloc_small s nb = split_tree_chunk s v nb (n - nb) replace_dv" by blast
      obtain s' where "split_tree_chunk s v nb (n - nb) replace_dv = Some (chunk2mem v, s')" "allocated s lay nb (chunk2mem v) s'"
        using split_tree_chunk_ok [OF a v(1,2) r v(3) stores_rest_dv [OF dvs]] by blast
      moreover have "chunk2mem v \<noteq> 0" using chunk2mem_nonzero [OF a] v(1) by blast
      ultimately show ?thesis using False 2 D v(4) by (simp add: served_def)
    next
      case 3
      then show ?thesis using False D tail by simp
    qed
  qed
qed

lemma dlmalloc_large_ok:
  assumes a: "arena s lay" and b: "\<not> bytes \<le> MAX_SMALL_REQUEST" "bytes < MAX_REQUEST"
    and n40: "unat (request2size bytes) < 2 ^ 40"
  shows "served S s lay (request2size bytes) (dlmalloc S s bytes)"
proof -
  define nb where "nb = request2size bytes"
  note r = request_size(1,2) [OF b(2), folded nb_def]
  have n256: "256 \<le> unat nb" using request_size(3) [OF b(2)] b(1) by (simp add: nb_def)
  have D: "dlmalloc S s bytes =
    (if treemap s \<noteq> 0 then do {
       (mem, s) \<leftarrow> tmalloc_large s nb; if mem \<noteq> 0 then Some (mem, s) else malloc_tail S s nb }
     else malloc_tail S s nb)"
    using b request_size(4) [OF b(2,1)] unfolding dlmalloc_def Let_def nb_def by (simp add: not_le [symmetric] cong: if_cong)
  note tail = malloc_tail_ok [OF a r, of S]
  from tmalloc_large_pool [OF arena_pool [OF a] n256 n40 [folded nb_def]]
  show ?thesis
    unfolding nb_def [symmetric]
  proof (elim disjE exE conjE)
    assume "tmalloc_large s nb = Some (0, s)"
    then show "served S s lay nb (dlmalloc S s bytes)"
      using D tail by simp
  next
    fix n v assume v: "(v, n) \<in> frees lay - {(dv s, dvsize s)}" "\<not> is_small n" "nb \<le> n"
      "tmalloc_large s nb = split_tree_chunk s v nb (n - nb) insert_chunk"
    obtain s' where "split_tree_chunk s v nb (n - nb) insert_chunk = Some (chunk2mem v, s')" "allocated s lay nb (chunk2mem v) s'"
      using split_tree_chunk_ok [OF a v(1,2) r v(3) stores_rest_insert] by blast
    moreover have "chunk2mem v \<noteq> 0" using chunk2mem_nonzero [OF a] v(1) by blast
    ultimately show "served S s lay nb (dlmalloc S s bytes)"
      using D v(4) tail by (cases "treemap s = 0") (auto simp: served_def)
  qed
qed

lemma dlmalloc_served:
  assumes "arena s lay" and "bytes < MAX_REQUEST" and "unat (request2size bytes) < 2 ^ 40"
  shows "served S s lay (request2size bytes) (dlmalloc S s bytes)"
  using dlmalloc_small_ok [OF assms(1)] dlmalloc_large_ok [OF assms(1) _ assms(2,3)] by blast

lemma dlmalloc_ok:
  assumes a: "arena s lay" and "bytes < MAX_REQUEST" and top: "request2size bytes < topsize s"
  shows "\<exists>mem s'. dlmalloc S s bytes = Some (mem, s') \<and> allocated s lay (request2size bytes) mem s'"
proof -
  have "unat (least_addr s) \<le> unat (topc s)" "top_end s < unat (least_addr s) + 2 ^ 40"
    using a tiled_le by (auto simp: arena_def segment_def)
  then have "unat (topsize s) < 2 ^ 40" by (simp add: top_end_def)
  then have "unat (request2size bytes) < 2 ^ 40" using top unfolding word_less_nat_alt by linarith
  from dlmalloc_served [OF a assms(2) this, of S] show ?thesis using top by (auto simp: served_def)
qed

end
