(* ===== verification/DlGrow.thy ===== *)
theory DlGrow
  imports DlFreeOk DlMallocOk
begin

text \<open>
  The system underneath: a process whose only source of memory is the break. \<open>sys_alloc\<close> asks
  it for pages after the end of the segment and appends them to the top chunk, and when it
  refuses a request fails with a null result and the allocator goes on with what it has.
\<close>

section \<open>A system with a break\<close>

definition mem_range :: "u64 \<Rightarrow> u64 \<Rightarrow> u64 set" where
  "mem_range a n = {x. unat a \<le> unat x \<and> unat x < unat a + unat n}"

text \<open>\<open>sbrk(0)\<close> is the break. \<open>sbrk(n)\<close> for a positive \<open>n\<close> maps \<open>n\<close> bytes at the break, leaves other
  memory alone and returns the old break, or fails; it always fails beyond the limit \<open>lim\<close>. \<open>mmap\<close>
  always fails.\<close>

definition brk_only :: "'o sys \<Rightarrow> ('o \<Rightarrow> u64) \<Rightarrow> nat \<Rightarrow> bool" where
  "brk_only S brk lim \<longleftrightarrow> lim < 2 ^ 64 - 1 \<and> sys_getpagesize S = 4096
     \<and> (\<forall>n h x. sys_mmap S n (h, x) = (MFAIL, (h, x)))
     \<and> (\<forall>h x. sys_sbrk S 0 (h, x) = (brk x, (h, x)))
     \<and> (\<forall>n h x. 0 < unat n \<and> unat n < 2 ^ 63 \<longrightarrow> sys_sbrk S n (h, x) = (MFAIL, (h, x))
          \<or> (\<exists>h' x'. sys_sbrk S n (h, x) = (brk x, (h', x')) \<and> unat (brk x) + unat n \<le> lim
               \<and> brk x' = brk x + n
               \<and> (\<forall>a. if a \<in> mem_range (brk x) n then h' a \<noteq> None else h' a = h a)))"

text \<open>The state after the system has granted \<open>n\<close> bytes.\<close>

definition granted :: "('o \<Rightarrow> u64) \<Rightarrow> nat \<Rightarrow> 'o dl \<Rightarrow> u64 \<Rightarrow> 'o dl \<Rightarrow> bool" where
  "granted brk lim s n s' \<longleftrightarrow> (\<exists>h x. s' = s\<lparr>heap := h, os := x\<rparr> \<and> unat (brk (os s)) + unat n \<le> lim
     \<and> brk x = brk (os s) + n \<and> (\<forall>a. if a \<in> mem_range (brk (os s)) n then h a \<noteq> None else h a = heap s a))"

lemma brk_calls:
  assumes S: "brk_only S brk lim"
  shows "call_mmap S n s = (MFAIL, s)" and "call_morecore S 0 s = (brk (os s), s)"
    and "0 < unat n \<Longrightarrow> unat n < 2 ^ 63 \<Longrightarrow> call_morecore S n s = (MFAIL, s)
      \<or> (\<exists>s'. call_morecore S n s = (brk (os s), s') \<and> granted brk lim s n s')"
proof -
  show "call_mmap S n s = (MFAIL, s)" "call_morecore S 0 s = (brk (os s), s)"
    using S by (simp_all add: brk_only_def call_mmap_def call_morecore_def with_heap_def)
  assume n: "0 < unat n" "unat n < 2 ^ 63"
  have "sys_sbrk S n (heap s, os s) = (MFAIL, (heap s, os s))
      \<or> (\<exists>h' x'. sys_sbrk S n (heap s, os s) = (brk (os s), (h', x')) \<and> unat (brk (os s)) + unat n \<le> lim
           \<and> brk x' = brk (os s) + n
           \<and> (\<forall>a. if a \<in> mem_range (brk (os s)) n then h' a \<noteq> None else h' a = heap s a))"
    using S n unfolding brk_only_def by blast
  then show "call_morecore S n s = (MFAIL, s) \<or> (\<exists>s'. call_morecore S n s = (brk (os s), s') \<and> granted brk lim s n s')"
  proof (elim disjE exE conjE)
    fix h x assume e: "sys_sbrk S n (heap s, os s) = (brk (os s), (h, x))" and g: "unat (brk (os s)) + unat n \<le> lim"
      "brk x = brk (os s) + n" "\<forall>a. if a \<in> mem_range (brk (os s)) n then h a \<noteq> None else h a = heap s a"
    have "granted brk lim s n (s\<lparr>heap := h, os := x\<rparr>)" using g unfolding granted_def by blast
    then show ?thesis using e by (simp add: call_morecore_def with_heap_def)
  qed (simp add: call_morecore_def with_heap_def)
qed

lemma align_4096:
  fixes n :: u64
  assumes "granularity (mparams s) = 4096" and "unat n + 4095 < 2 ^ 64"
  shows "unat n \<le> unat (granularity_align s n)" and "unat (granularity_align s n) mod 4096 = 0"
    and "unat (granularity_align s n) \<le> unat n + 4095"
proof -
  have m: "(4095 :: u64) = mask 12" by (simp add: mask_eq_exp_minus_1)
  have u: "unat (n + 4095) = unat n + 4095" using assms(2) by (simp add: unat_word_ariths)
  have g: "unat (granularity_align s n) = (unat n + 4095) div 4096 * 4096"
    using unat_and_not_mask [of "n + 4095" 12] u
    unfolding granularity_align_def assms(1) m [symmetric] by (simp add: minus_mod_eq_div_mult m [symmetric])
  show "unat n \<le> unat (granularity_align s n)" "unat (granularity_align s n) \<le> unat n + 4095" unfolding g by linarith+
  show "unat (granularity_align s n) mod 4096 = 0" unfolding g by simp
qed

section \<open>Where the segment ends\<close>

text \<open>The parameters are set, the break is the end of the segment, and all addresses below the
  limit are good for the segment.\<close>

definition sited :: "('o \<Rightarrow> u64) \<Rightarrow> nat \<Rightarrow> 'o dl \<Rightarrow> bool" where
  "sited brk lim s \<longleftrightarrow> mp_magic (mparams s) \<noteq> 0 \<and> page_size (mparams s) = 4096 \<and> granularity (mparams s) = 4096
     \<and> trim_threshold (mparams s) = trim_check s \<and> unat (brk (os s)) = top_end s + 80 \<and> top_end s + 80 \<le> lim
     \<and> lim \<le> unat (least_addr s) + unat (trim_check s) \<and> lim \<le> unat (least_addr s) + 2 ^ 40
     \<and> (unat (gm s) + 920 \<le> unat (least_addr s) + 8 \<or> lim \<le> unat (gm s))"

lemma sited_settings: "settings s' = settings s \<Longrightarrow> sited brk lim s' = sited brk lim s"
  by (simp add: settings_def sited_def)

lemma arena_record:
  assumes a: "arena s lay"
  shows "seg_at s \<noteq> 0" "ld s (seg_at s) = Some (least_addr s)" "ld s (sflags_at (seg_at s)) = Some 0"
    and "ld s (ssize_at (seg_at s)) = Some (of_nat (top_end s + 80 - unat (least_addr s)))"
    and "least_addr s + of_nat (top_end s + 80 - unat (least_addr s)) = of_nat (top_end s + 80)"
    and "unat (least_addr s) \<le> unat (topc s)" "topc s \<noteq> 0"
proof -
  have sg: "unat (gm s) + 920 \<le> 2 ^ 64" "seg_rec s" "0 < unat (least_addr s)" using a by (simp_all add: arena_def segment_def)
  then show "ld s (seg_at s) = Some (least_addr s)" "ld s (sflags_at (seg_at s)) = Some 0"
    "ld s (ssize_at (seg_at s)) = Some (of_nat (top_end s + 80 - unat (least_addr s)))"
    by (simp_all add: seg_rec_def)
  have "unat (seg_at s) \<noteq> 0" using unat_seg_words(1) [OF sg(1)] by simp
  then show "seg_at s \<noteq> 0" by auto
  show le: "unat (least_addr s) \<le> unat (topc s)" using a tiled_le by (auto simp: arena_def)
  then show "topc s \<noteq> 0" using sg(3) by auto
  have "unat (least_addr s) \<le> top_end s + 80" using le by (simp add: top_end_def)
  then show "least_addr s + of_nat (top_end s + 80 - unat (least_addr s)) = of_nat (top_end s + 80)"
    by (simp add: of_nat_diff)
qed

lemma top_held:
  assumes a: "arena s lay"
  shows "segment_holds s (seg_at s) (topc s) = Some True" and "segment_holding s (topc s) = Some (seg_at s)"
proof -
  note r = arena_record [OF a]
  have te: "top_end s + 80 < 2 ^ 64" using a by (simp add: arena_def segment_def)
  have "unat (of_nat (top_end s + 80) :: u64) = top_end s + 80" by (rule unat_nat64 [OF te])
  then have "topc s < of_nat (top_end s + 80)" unfolding word_less_nat_alt by (simp add: top_end_def)
  then show 1: "segment_holds s (seg_at s) (topc s) = Some True"
    using r by (simp add: segment_holds_def word_le_nat_alt)
  show "segment_holding s (topc s) = Some (seg_at s)"
    unfolding segment_holding_def by (subst segment_holding_from.simps) (simp add: 1)
qed

section \<open>Obtaining memory\<close>

text \<open>The results of \<open>morecore_extend\<close> and of \<open>sys_obtain\<close>: at least \<open>need\<close> bytes at the break, or
  none and an unchanged state, apart from the flag that \<open>sbrk\<close> has failed once.\<close>

definition extended :: "('o \<Rightarrow> u64) \<Rightarrow> nat \<Rightarrow> 'o dl \<Rightarrow> nat \<Rightarrow> ((u64 \<times> u64 \<times> u64) \<times> 'o dl) option \<Rightarrow> bool" where
  "extended brk lim s need r \<longleftrightarrow> (\<exists>n. r = Some ((MFAIL, MFAIL, n), s))
     \<or> (\<exists>n s'. r = Some ((brk (os s), brk (os s), n), s') \<and> granted brk lim s n s' \<and> need \<le> unat n \<and> unat n mod 16 = 0)"

definition obtained :: "('o \<Rightarrow> u64) \<Rightarrow> nat \<Rightarrow> 'o dl \<Rightarrow> nat \<Rightarrow> ((u64 \<times> u64 \<times> u32) \<times> 'o dl) option \<Rightarrow> bool" where
  "obtained brk lim s need r \<longleftrightarrow> (\<exists>m n f. r = Some ((MFAIL, n, f), s\<lparr>mflags := m\<rparr>))
     \<or> (\<exists>m n s'. r = Some ((brk (os s), n, 0), s') \<and> granted brk lim (s\<lparr>mflags := m\<rparr>) n s' \<and> need \<le> unat n
          \<and> unat n mod 16 = 0)"

lemma brk_not_MFAIL: "unat a \<le> lim \<Longrightarrow> lim < 2 ^ 64 - 1 \<Longrightarrow> a \<noteq> MFAIL"
  using unat_minus_1_u64 by (auto simp: MFAIL_def)

lemma noncontiguous_ok:
  assumes S: "brk_only S brk lim" and b: "unat (brk (os s)) \<le> lim"
    and n: "unat nb + 80 < unat asize" "unat asize < 2 ^ 63 + 4096"
  shows "sys_noncontiguous S s nb asize = ((MFAIL, 0), s)
    \<or> (\<exists>s'. sys_noncontiguous S s nb asize = ((brk (os s), asize), s') \<and> granted brk lim s asize s')"
proof (cases "asize < HALF_MAX_SIZE_T")
  case True
  have lim: "lim < 2 ^ 64 - 1" using S by (simp add: brk_only_def)
  have half: "0 < unat asize" "unat asize < 2 ^ 63" using True n by (simp_all add: word_less_nat_alt HALF_MAX_SIZE_T_def)
  from brk_calls(3) [OF S half, of s] show ?thesis
  proof (elim disjE exE conjE)
    assume "call_morecore S asize s = (MFAIL, s)"
    then show ?thesis using True by (simp add: sys_noncontiguous_def brk_calls(2) [OF S])
  next
    fix s' assume c: "call_morecore S asize s = (brk (os s), s')" and g: "granted brk lim s asize s'"
    then have e: "brk (os s') = brk (os s) + asize" "unat (brk (os s)) + unat asize \<le> lim" by (auto simp: granted_def)
    then have u: "unat (brk (os s')) = unat (brk (os s)) + unat asize" using lim by (simp add: unat_word_ariths)
    have "brk (os s) \<noteq> MFAIL" "brk (os s') \<noteq> MFAIL" using brk_not_MFAIL [OF _ lim] b e(2) u by simp_all
    moreover have "brk (os s) < brk (os s')" using u n(1) by (simp add: word_less_nat_alt)
    moreover have "nb + TOP_FOOT_SIZE < brk (os s') - brk (os s)"
      using n half(2) by (simp add: e(1) word_less_nat_alt unat_word_ariths)
    ultimately show ?thesis using True c g e(1) by (simp add: sys_noncontiguous_def brk_calls(2) [OF S])
  qed
next
  case False
  then show ?thesis by (simp add: sys_noncontiguous_def)
qed

lemma granted_mflags: "granted brk lim s n s' \<Longrightarrow> granted brk lim (s\<lparr>mflags := mflags s\<rparr>) n s'"
  by simp

lemma sys_obtain_ok:
  assumes S: "brk_only S brk lim" and b: "unat (brk (os s)) \<le> lim"
    and n: "unat nb + 80 < unat asize" "unat asize < 2 ^ 63 + 4096"
    and e: "extended brk lim s need (morecore_extend S s nb asize)" and need: "need \<le> unat asize" "unat asize mod 16 = 0"
  shows "obtained brk lim s need (sys_obtain S s nb asize)"
proof -
  have nf: "brk (os s) \<noteq> MFAIL" using b S brk_not_MFAIL by (auto simp: brk_only_def)
  have rest: "obtained brk lim s need (Some
      (let (mp, s) = call_mmap S asize (s\<lparr>mflags := m\<rparr>)
       in if mp \<noteq> MFAIL then ((mp, asize, USE_MMAP_BIT), s)
          else let ((br, n), s) = sys_noncontiguous S s nb asize in ((br, n, 0), s)))" for m
    using noncontiguous_ok [OF S, of "s\<lparr>mflags := m\<rparr>" nb asize] b n need
    by (auto simp: obtained_def brk_calls(1) [OF S])
  have c: "(\<exists>m. sys_contiguous S s nb asize = Some ((MFAIL, 0), s\<lparr>mflags := m\<rparr>))
    \<or> (\<exists>n s'. sys_contiguous S s nb asize = Some ((brk (os s), n), s') \<and> granted brk lim s n s' \<and> need \<le> unat n \<and> unat n mod 16 = 0)"
  proof (cases "use_noncontiguous s")
    case True
    then show ?thesis by (auto simp: sys_contiguous_def intro: exI [of _ "mflags s"])
  next
    case False
    from e show ?thesis unfolding extended_def
    proof (elim disjE exE conjE)
      fix n assume "morecore_extend S s nb asize = Some ((MFAIL, MFAIL, n), s)"
      then show ?thesis using False by (auto simp: sys_contiguous_def morecore_retry_def disable_contiguous_def)
    next
      fix n s' assume "morecore_extend S s nb asize = Some ((brk (os s), brk (os s), n), s')"
        "granted brk lim s n s'" "need \<le> unat n" "unat n mod 16 = 0"
      then show ?thesis using False nf by (auto simp: sys_contiguous_def)
    qed
  qed
  then show ?thesis
  proof (elim disjE exE conjE)
    fix m assume "sys_contiguous S s nb asize = Some ((MFAIL, 0), s\<lparr>mflags := m\<rparr>)"
    then show ?thesis using rest [of m] by (simp add: sys_obtain_def)
  next
    fix n s' assume c: "sys_contiguous S s nb asize = Some ((brk (os s), n), s')" and g: "granted brk lim s n s'" "need \<le> unat n" "unat n mod 16 = 0"
    have "sys_obtain S s nb asize = Some ((brk (os s), n, 0), s')" using c nf by (simp add: sys_obtain_def)
    then show ?thesis using granted_mflags [OF g(1)] g(2,3) unfolding obtained_def
      by (intro disjI2 exI [of _ "mflags s"] exI [of _ n] exI [of _ s'] conjI)
  qed
qed

text \<open>Extending the segment of the top chunk.\<close>

lemma extend_segment_ok:
  assumes S: "brk_only S brk lim" and a: "arena s lay" and st: "sited brk lim s"
    and nb: "topsize s \<le> nb" "unat nb < 2 ^ 62"
  shows "extended brk lim s (unat nb - unat (topsize s) + 96) (morecore_extend S s nb asize)"
proof -
  note r = arena_record [OF a] and h = top_held(2) [OF a]
  define x where "x = nb - topsize s + 96"
  have le: "unat (topsize s) \<le> unat nb" using nb(1) by (simp add: word_le_nat_alt)
  then have ux: "unat x = unat nb - unat (topsize s) + 96"
    using nb by (simp add: x_def unat_word_ariths unat_sub word_le_nat_alt)
  have g: "granularity (mparams s) = 4096" using st by (simp add: sited_def)
  define n where "n = granularity_align s x"
  have "unat x + 4095 < 2 ^ 64" using ux nb(2) by simp
  note n = align_4096 [OF g this, folded n_def]
  have half: "0 < unat n" "unat n < 2 ^ 63" "n < HALF_MAX_SIZE_T"
    using n(1,3) ux nb(2) by (simp_all add: word_less_nat_alt HALF_MAX_SIZE_T_def)
  have be: "brk (os s) = of_nat (top_end s + 80)"
  proof -
    have u: "unat (brk (os s)) = top_end s + 80" using st by (simp add: sited_def)
    show ?thesis unfolding u [symmetric] by simp
  qed
  have m: "morecore_extend S s nb asize = (case call_morecore S n s of
      (br, s) \<Rightarrow> do { b \<leftarrow> ld s (seg_at s); k \<leftarrow> ld s (ssize_at (seg_at s));
                      Some ((if br = b + k then br else MFAIL, br, n), s) })" if "seg_at (snd (call_morecore S n s)) = seg_at s"
    using r h half(3) that by (auto simp: morecore_extend_def x_def [symmetric] n_def [symmetric] split: prod.splits)
  from brk_calls(3) [OF S half(1,2), of s] show ?thesis
  proof (elim disjE exE conjE)
    assume "call_morecore S n s = (MFAIL, s)"
    then have "morecore_extend S s nb asize = Some ((MFAIL, MFAIL, n), s)" using m r(2,4) by simp
    then show ?thesis unfolding extended_def by blast
  next
    fix s' assume c: "call_morecore S n s = (brk (os s), s')" and gr: "granted brk lim s n s'"
    have sel: "seg_at s' = seg_at s" using gr by (auto simp: granted_def seg_at_def)
    have lm: "unat (brk (os s)) = top_end s + 80" "unat (brk (os s)) + unat n \<le> lim" "unat (least_addr s) \<le> top_end s"
      "unat (gm s) + 920 \<le> unat (least_addr s) + 8 \<or> lim \<le> unat (gm s)"
      using st gr r(6) by (auto simp: sited_def granted_def top_end_def)
    have out: "x \<notin> mem_range (brk (os s)) n" if "x \<in> seg_words s" for x
      using that lm unfolding mem_range_def seg_words_def by simp linarith
    have w: "ld s' x = ld s x" if "x \<in> seg_words s" for x
      using gr out [OF that] by (auto simp: granted_def ld_def)
    have u: "unat (gm s) + 920 \<le> 2 ^ 64" using a by (simp add: arena_def segment_def)
    have "seg_at s \<in> seg_words s" "ssize_at (seg_at s) \<in> seg_words s"
      using unat_seg_words [OF u] by (simp_all add: seg_words_def)
    then have "morecore_extend S s nb asize = Some ((brk (os s), brk (os s), n), s')"
      using m c sel w r(2,4,5) be by simp
    moreover have "unat n mod 16 = 0" using n(2) mod_mod_cancel [of 16 4096 "unat n"] by simp
    ultimately show ?thesis using gr n(1) ux unfolding extended_def by auto
  qed
qed

section \<open>The segment grows\<close>

lemma align_offset_0:
  assumes "unat p mod 16 = 0" and "unat p + 16 < 2 ^ 64"
  shows "align_offset (chunk2mem p) = 0"
proof -
  have "unat (chunk2mem p) = unat p + 16" using assms(2) by (simp add: chunk2mem_def unat_word_ariths)
  then have "(unat p + 16 + unat (align_offset (chunk2mem p))) mod 16 = 0" "unat (align_offset (chunk2mem p)) < 16"
    using unat_align_offset [of "chunk2mem p"] by simp_all
  then have "unat (align_offset (chunk2mem p)) = 0" using assms(1) by presburger
  then show ?thesis by (simp only: unat_eq_zero)
qed

lemma unat_head_at: "unat p + 16 < 2 ^ 64 \<Longrightarrow> unat (head_at p) = unat p + 8"
  by (simp add: head_at_def unat_word_ariths)

text \<open>The state after \<open>n\<close> bytes have been appended to the top chunk; \<open>h\<close> is the memory and \<open>x\<close> the
  system when they have been granted.\<close>

definition grown :: "'o dl \<Rightarrow> u64 \<Rightarrow> u32 \<Rightarrow> heap \<Rightarrow> 'o \<Rightarrow> 'o dl" where
  "grown s n m h x =
     (let t = add_footprint (s\<lparr>mflags := m, heap := h, os := x\<rparr>) n; z = topsize s + n;
          k = of_nat (top_end s + 80 - unat (least_addr s)) + n;
          t = upd t (ssize_at (seg_at s)) k;
          t = upd (t\<lparr>topsize := z\<rparr>) (head_at (topc s)) (head_word z True False);
          t = upd t (head_at (topc s + z)) 80
      in t\<lparr>trim_check := trim_threshold (mparams s)\<rparr>)"

lemma grown_sel:
  "heap (grown s n m h x) = h(ssize_at (seg_at s) \<mapsto> of_nat (top_end s + 80 - unat (least_addr s)) + n,
     head_at (topc s) \<mapsto> head_word (topsize s + n) True False, head_at (topc s + (topsize s + n)) \<mapsto> 80)"
  "gm (grown s n m h x) = gm s" "least_addr (grown s n m h x) = least_addr s" "topc (grown s n m h x) = topc s"
  "topsize (grown s n m h x) = topsize s + n" "dv (grown s n m h x) = dv s" "dvsize (grown s n m h x) = dvsize s"
  "smallmap (grown s n m h x) = smallmap s" "treemap (grown s n m h x) = treemap s"
  "trim_check (grown s n m h x) = trim_threshold (mparams s)" "mparams (grown s n m h x) = mparams s"
  "os (grown s n m h x) = x" "seg_at (grown s n m h x) = seg_at s"
  by (simp_all add: grown_def Let_def add_footprint_def seg_at_def)

lemma sys_merge_grows:
  assumes a: "arena s lay" and st: "sited brk lim s" and lim: "lim < 2 ^ 64 - 1"
    and g: "granted brk lim (s\<lparr>mflags := m\<rparr>) n s'"
  obtains h x where "sys_merge (add_footprint s' n) (brk (os s)) n 0 nb = Some (Inl (grown s n m h x))"
    and "brk x = brk (os s) + n" "unat (brk (os s)) + unat n \<le> lim"
    and "\<And>a. if a \<in> mem_range (brk (os s)) n then h a \<noteq> None else h a = heap s a"
proof -
  obtain h x where h: "s' = s\<lparr>mflags := m, heap := h, os := x\<rparr>" and x: "brk x = brk (os s) + n" "unat (brk (os s)) + unat n \<le> lim"
    and hm: "\<And>a. if a \<in> mem_range (brk (os s)) n then h a \<noteq> None else h a = heap s a"
    using g by (auto simp: granted_def)
  define t where "t = add_footprint s' n"
  note r = arena_record [OF a]
  have sg: "unat (gm s) + 920 \<le> 2 ^ 64" "unat (least_addr s) mod 16 = 0"
    "unat (gm s) + 920 \<le> unat (least_addr s) + 8 \<or> top_end s + 80 \<le> unat (gm s)"
    "\<And>a. unat (least_addr s) + 8 \<le> unat a \<Longrightarrow> unat a < top_end s + 80 \<Longrightarrow> has s a"
    using a by (auto simp: arena_def segment_def)
  have bu: "unat (brk (os s)) = top_end s + 80" using st by (simp add: sited_def)
  have be: "brk (os s) = of_nat (top_end s + 80)" unfolding bu [symmetric] by simp
  have old: "h a = heap s a" if "unat a < top_end s + 80 \<or> unat a \<ge> lim" for a
    using hm [of a] that x(2) by (auto simp: mem_range_def bu)
  have segw: "h a = heap s a" if "a \<in> seg_words s" for a
  proof -
    have "unat a < top_end s + 80 \<or> unat a \<ge> lim"
      using that st r(6) unfolding sited_def by (auto simp: seg_words_def top_end_def)
    then show ?thesis by (rule old)
  qed
  have ws: "seg_at s \<in> seg_words s" "ssize_at (seg_at s) \<in> seg_words s" "sflags_at (seg_at s) \<in> seg_words s"
    using unat_seg_words [OF sg(1)] by (simp_all add: seg_words_def)
  have sel: "seg_at t = seg_at s" "topc t = topc s" "topsize t = topsize s" "heap t = h" "mparams t = mparams s"
    "gm t = gm s"
    by (simp_all add: t_def h add_footprint_def Let_def seg_at_def)
  have ldt: "ld t (seg_at s) = Some (least_addr s)" "ld t (sflags_at (seg_at s)) = Some 0"
    "ld t (ssize_at (seg_at s)) = Some (of_nat (top_end s + 80 - unat (least_addr s)))"
    using segw [OF ws(1)] segw [OF ws(2)] segw [OF ws(3)] r(2-4) by (simp_all add: ld_def sel)
  have e1: "segment_ending_at t (seg_at t) (brk (os s)) = Some (seg_at s)"
    using r(1,5) by (subst segment_ending_at.simps) (simp add: sel ldt be)
  have e2: "can_extend t (seg_at s) 0 = Some True"
    using r(1) by (simp add: can_extend_def is_extern_segment_def ldt)
  have e3: "segment_holds t (seg_at s) (topc t) = Some True"
    using top_held(1) [OF a] r(2,4) by (simp add: segment_holds_def ldt sel split: if_splits)
  let ?z = "topsize s + n" and ?p = "topc s"
  have tm: "unat ?p mod 16 = 0" "unat ?p + 16 < 2 ^ 64"
  proof -
    have "hole s False lay (topc s) 0 True []" by (rule arena_end [OF a])
    then show "unat ?p mod 16 = 0" using gap_range(5) by (auto simp: hole_def)
    have "top_end s + 80 < 2 ^ 64" using a by (simp add: arena_def segment_def)
    then show "unat ?p + 16 < 2 ^ 64" by (simp add: top_end_def)
  qed
  have uz: "unat (?p + ?z) = top_end s + unat n"
  proof -
    have "unat ?z = unat (topsize s) + unat n" using x(2) lim bu by (intro unat_sum) (simp add: top_end_def)
    then show ?thesis using x(2) lim bu by (subst unat_sum) (simp_all add: top_end_def)
  qed
  have hh: "h (head_at ?p) \<noteq> None" "h (head_at (?p + ?z)) \<noteq> None"
  proof -
    have mapped: "h a \<noteq> None" if "unat (least_addr s) + 8 \<le> unat a" "unat a < top_end s + 80 + unat n" for a
      using sg(4) [OF that(1)] hm [of a] that(2) by (auto simp: mem_range_def bu has_def split: if_splits)
    have "unat (head_at ?p) = unat ?p + 8" "unat (head_at (?p + ?z)) = unat (?p + ?z) + 8"
      using tm(2) x(2) lim bu uz by (intro unat_head_at; simp)+
    then show "h (head_at ?p) \<noteq> None" "h (head_at (?p + ?z)) \<noteq> None"
      using r(6) uz by (intro mapped; simp add: top_end_def)+
  qed
  have "sys_merge t (brk (os s)) n 0 nb = Some (Inl (grown s n m h x))"
    unfolding sys_merge_def e1 e2 e3 Option.bind.bind_lunit if_True
    using ldt(3) hh align_offset_0 [OF tm]
    by (simp add: init_top_def Let_def sel st_has has_def ld_def head_word_eqs grown_def t_def h add_footprint_def del: flag_values)
  then show ?thesis using that x hm unfolding t_def by blast
qed

lemma unat_sum': "unat p + unat n < 2 ^ 64 \<Longrightarrow> unat (p + n) = unat p + unat (n :: u64)"
  by (simp add: unat_word_ariths)

lemma grown_arena:
  fixes m :: u32
  assumes a: "arena s lay" and st: "sited brk lim s" and lim: "lim < 2 ^ 64 - 1" and n: "unat n mod 16 = 0"
    and g: "brk x = brk (os s) + n" "unat (brk (os s)) + unat n \<le> lim"
      "\<And>a. if a \<in> mem_range (brk (os s)) n then h a \<noteq> None else h a = heap s a"
  defines "s' \<equiv> grown s n m h x"
  shows "arena s' lay" and "sited brk lim s'" and "unat (topsize s') = unat (topsize s) + unat n"
    and "(p, k) \<in> useds lay \<Longrightarrow> c \<in> payload p k \<Longrightarrow> heap s' c = heap s c"
proof -
  let ?z = "topsize s + n"
  note r = arena_record [OF a]
  have gp: "gap s False lay (topc s) 0 True []" using arena_end [OF a] by (simp add: hole_def)
  have sg: "unat (gm s) + 920 \<le> 2 ^ 64" "0 < unat (least_addr s)" "unat (least_addr s) mod 16 = 0" "seg_rec s"
    "\<And>a. unat (least_addr s) + 8 \<le> unat a \<Longrightarrow> unat a < top_end s + 80 \<Longrightarrow> has s a"
    using a by (auto simp: arena_def segment_def)
  have tk: "0 < unat (topsize s)" "unat (topsize s) mod 16 = 0" using a by (simp_all add: arena_def top_ok_def)
  have bu: "unat (brk (os s)) = top_end s + 80" using st by (simp add: sited_def)
  have lms: "lim \<le> unat (least_addr s) + unat (trim_check s)" "lim \<le> unat (least_addr s) + 2 ^ 40"
    "unat (gm s) + 920 \<le> unat (least_addr s) + 8 \<or> lim \<le> unat (gm s)" "trim_threshold (mparams s) = trim_check s"
    using st by (simp_all add: sited_def)
  note sel = grown_sel(2-) [of s n m h x, folded s'_def]
  show uz: "unat (topsize s') = unat (topsize s) + unat n"
    unfolding sel using g(2) lim bu by (intro unat_sum) (simp add: top_end_def)
  have te: "top_end s' = top_end s + unat n" using uz by (simp add: top_end_def sel)
  have ut: "unat (topc s + ?z) = top_end s + unat n"
    using uz g(2) lim bu unfolding sel by (subst unat_sum) (simp_all add: top_end_def)
  have le: "unat (topc s) \<le> top_end s" "unat (topc s) < top_end s" using tk(1) by (simp_all add: top_end_def)
  have uh: "unat (head_at (topc s)) = unat (topc s) + 8" "unat (head_at (topc s + ?z)) = top_end s + unat n + 8"
    using g(2) lim bu le ut by (simp_all add: unat_head_at)
  have us: "unat (ssize_at (seg_at s)) = unat (gm s) + 896" by (rule unat_seg_words(2) [OF sg(1)])
  have hs: "heap s' c = heap s c"
    if "c \<noteq> ssize_at (seg_at s)" "unat c < top_end s + 80 \<or> unat c \<ge> lim" "unat c < unat (topc s) + 8 \<or> unat c \<ge> lim" for c
  proof -
    have "c \<noteq> head_at (topc s)" "c \<noteq> head_at (topc s + ?z)"
      using that(3) uh le g(2) bu by auto
    moreover have "h c = heap s c" using g(3) [of c] that(2) g(2) by (auto simp: mem_range_def bu)
    ultimately show ?thesis using that(1) by (simp add: s'_def grown_sel(1))
  qed
  have stat: "unat c < unat (topc s) + 8 \<or> unat c \<ge> lim" "unat c < top_end s + 80 \<or> unat c \<ge> lim"
    if "unat (gm s) \<le> unat c" "unat c < unat (gm s) + 920" for c
    using that lms(3) r(6) le by auto
  have own: "heap s' c = heap s c" if m: "(p, k, u) \<in> set lay" and c: "c \<in> own p k" for p k u c
  proof (rule hs)
    have m': "(p, k, u) \<in> set (lay @ [])" using m by simp
    have "unat c < unat (topc s) + 8" using gap_range(4) [OF gp m'] c by (auto simp: own_def)
    then show "unat c < unat (topc s) + 8 \<or> unat c \<ge> lim" "unat c < top_end s + 80 \<or> unat c \<ge> lim" using le by auto
    have "ssize_at (seg_at s) \<in> seg_words s" using us by (simp add: seg_words_def)
    then show "c \<noteq> ssize_at (seg_at s)" using gap_disjoint(4) [OF gp m'] c by blast
  qed
  show "heap s' c = heap s c" if "(p, k) \<in> useds lay" "c \<in> payload p k"
    using own [of p k True c] that by (auto simp: useds_def payload_def own_def)
  have "tiled (heap s') (least_addr s) True lay (topc s) True"
  proof (rule tiled_cong)
    show "tiled (heap s) (least_addr s) True lay (topc s) True" using a by (simp add: arena_def)
    show "\<forall>b \<in> set lay. \<forall>y \<in> firm b. heap s' y = heap s y"
    proof (intro ballI)
      fix b y assume b: "b \<in> set lay" "y \<in> firm b"
      obtain p k u where bb: "b = (p, k, u)" by (cases b)
      have "(p, k, u) \<in> set (lay @ [])" using b(1) bb by simp
      then have "y \<in> own p k" using firm_own(1) [of k p u] gap_range(4) [OF gp] b(2) unfolding bb by blast
      then show "heap s' y = heap s y" using own [of p k u] b(1) bb by blast
    qed
  qed
  moreover have "pool s' (frees lay - {(dv s, dvsize s)})"
  proof (rule pool_frame)
    show "pool s (frees lay - {(dv s, dvsize s)})" by (rule arena_pool [OF a])
    fix y assume "y \<in> statics s \<union> words_of (frees lay - {(dv s, dvsize s)})"
    then consider "y \<in> statics s" | p k where "(p, k, False) \<in> set lay" "y \<in> own p k"
      by (auto simp: words_of_def frees_def)
    then show "heap s' y = heap s y"
    proof cases
      case 1
      then have "y \<noteq> ssize_at (seg_at s)" using us by (auto simp: statics_def)
      then show ?thesis using stat [of y] 1 by (intro hs) (auto simp: statics_def)
    qed (rule own)
  qed (simp_all add: sel)
  moreover have "victim False s' lay" using a by (simp add: arena_def victim_def sel)
  moreover have "top_ok s'"
  proof -
    have "head_at (topc s) \<noteq> head_at (topc s + ?z)" using uh le by auto
    then have "heap s' (head_at (topc s)) = Some (head_word ?z True False)"
      by (simp add: s'_def grown_sel(1))
    then show ?thesis using uz tk n by (simp add: top_ok_def sel ld_def mod_add_eq [symmetric])
  qed
  moreover have "segment s'"
  proof -
    have hh: "ssize_at (seg_at s) \<noteq> head_at (topc s)" "ssize_at (seg_at s) \<noteq> head_at (topc s + ?z)"
    proof -
      have "unat (ssize_at (seg_at s)) \<noteq> unat (head_at (topc s))"
        "unat (ssize_at (seg_at s)) \<noteq> unat (head_at (topc s + ?z))"
        unfolding uh us using lms(3) r(6) le g(2) bu by auto
      then show "ssize_at (seg_at s) \<noteq> head_at (topc s)" "ssize_at (seg_at s) \<noteq> head_at (topc s + ?z)" by auto
    qed
    have ldw: "ld s' c = ld s c" if "c \<in> seg_words s" "c \<noteq> ssize_at (seg_at s)" for c
      using stat [of c] that unfolding ld_def by (intro hs) (auto simp: seg_words_def)
    have "ld s' (ssize_at (seg_at s)) = Some (of_nat (top_end s + 80 - unat (least_addr s)) + n)"
      using hh by (simp add: ld_def s'_def grown_sel(1))
    moreover have "of_nat (top_end s + 80 - unat (least_addr s)) + n = of_nat (top_end s' + 80 - unat (least_addr s))"
    proof -
      have "top_end s' + 80 - unat (least_addr s) = top_end s + 80 - unat (least_addr s) + unat n"
        using r(6) le by (simp add: te)
      then show ?thesis by simp
    qed
    moreover have "seg_at s \<in> seg_words s" "snext_at (seg_at s) \<in> seg_words s" "sflags_at (seg_at s) \<in> seg_words s"
      "seg_at s \<noteq> ssize_at (seg_at s)" "snext_at (seg_at s) \<noteq> ssize_at (seg_at s)" "sflags_at (seg_at s) \<noteq> ssize_at (seg_at s)"
      using unat_seg_words [OF sg(1)] by (auto simp: seg_words_def)
    ultimately have rec: "seg_rec s'" using sg(4) ldw unfolding seg_rec_def sel by simp
    have "has s' c" if "unat (least_addr s) + 8 \<le> unat c" "unat c < top_end s' + 80" for c
      using sg(5) [OF that(1)] g(3) [of c] that(2) unfolding te
      by (auto simp: mem_range_def bu has_def s'_def grown_sel(1) split: if_splits)
    then show ?thesis using sg(1-3) rec lms g(2) lim bu by (auto simp: segment_def sel te)
  qed
  ultimately show "arena s' lay" by (simp add: arena_def sel)
  have "unat (brk x) = unat (brk (os s)) + unat n" unfolding g(1) using g(2) lim by (intro unat_sum') simp
  then show "sited brk lim s'" using st g(2) lms bu by (simp add: sited_def sel te)
qed

end
