(* ===== verification/DlStart.thy ===== *)
theory DlStart
  imports DlGrow
begin

text \<open>
  The whole life of the allocator in a process with a break: \<open>untouched\<close> is the state before the
  first request, \<open>owns\<close> the state of the client that has the blocks \<open>U\<close>, at any time. \<open>dlmalloc\<close> and
  \<open>dlfree\<close> lead from one such state to another; a request that cannot be served returns a
  null pointer.
\<close>

section \<open>Before the first request\<close>

definition tuned :: "malloc_params \<Rightarrow> bool" where
  "tuned mp \<longleftrightarrow> mp_magic mp \<noteq> 0 \<and> page_size mp = 4096 \<and> granularity mp = 4096
     \<and> trim_threshold mp = DEFAULT_TRIM_THRESHOLD"

text \<open>The fields of \<open>_gm_\<close> are zero, and so are the tree bins and the link of the segment record;
  the break is at a page, clear of the static data, and the limit is at most two megabytes above it.\<close>

definition untouched :: "('o \<Rightarrow> u64) \<Rightarrow> nat \<Rightarrow> 'o dl \<Rightarrow> bool" where
  "untouched brk lim s \<longleftrightarrow> topc s = 0 \<and> topsize s = 0 \<and> dv s = 0 \<and> dvsize s = 0 \<and> smallmap s = 0
     \<and> treemap s = 0 \<and> least_addr s = 0 \<and> (mp_magic (mparams s) = 0 \<or> tuned (mparams s))
     \<and> unat (gm s) + 920 \<le> 2 ^ 64
     \<and> (\<forall>i<32. has s (fd_at (bin_node s i)) \<and> has s (bk_at (bin_node s i)) \<and> heap s (slot_of s i) = Some 0)
     \<and> has s (sbase_at (seg_at s)) \<and> has s (ssize_at (seg_at s)) \<and> has s (sflags_at (seg_at s))
     \<and> ld s (snext_at (seg_at s)) = Some 0
     \<and> unat (brk (os s)) mod 4096 = 0 \<and> 0 < unat (brk (os s)) \<and> unat (brk (os s)) \<le> lim
     \<and> lim \<le> unat (brk (os s)) + 2 ^ 21
     \<and> (unat (gm s) + 920 \<le> unat (brk (os s)) \<or> lim \<le> unat (gm s))"

definition owns :: "('o \<Rightarrow> u64) \<Rightarrow> nat \<Rightarrow> 'o dl \<Rightarrow> (u64 \<times> u64) set \<Rightarrow> bool" where
  "owns brk lim s U \<longleftrightarrow> (untouched brk lim s \<and> U = {})
     \<or> (\<exists>lay. arena s lay \<and> sited brk lim s \<and> useds lay = U)"

definition contents_kept :: "'o dl \<Rightarrow> 'o dl \<Rightarrow> (u64 \<times> u64) set \<Rightarrow> bool" where
  "contents_kept s s' U \<longleftrightarrow> (\<forall>(p, n) \<in> U. \<forall>a \<in> payload p n. heap s' a = heap s a)"

text \<open>The result of a request for \<open>nb\<close> bytes: a null pointer and the same blocks, or a block of
  its own for the client.\<close>

definition outcome :: "('o \<Rightarrow> u64) \<Rightarrow> nat \<Rightarrow> 'o dl \<Rightarrow> (u64 \<times> u64) set \<Rightarrow> u64 \<Rightarrow> (u64 \<times> 'o dl) option \<Rightarrow> bool" where
  "outcome brk lim s U nb r \<longleftrightarrow> (\<exists>mem s'. r = Some (mem, s') \<and> contents_kept s s' U
     \<and> (mem = 0 \<and> owns brk lim s' U
        \<or> (\<exists>p n. mem = chunk2mem p \<and> mem \<noteq> 0 \<and> nb \<le> n \<and> (p, n) \<notin> U \<and> owns brk lim s' (insert (p, n) U))))"

lemma contents_refl [simp]: "contents_kept s s U"
  by (simp add: contents_kept_def)

lemma contents_trans: "contents_kept s s' U \<Longrightarrow> contents_kept s' s'' U \<Longrightarrow> contents_kept s s'' U"
  unfolding contents_kept_def by fastforce

lemma contents_same: "heap s' = heap s \<Longrightarrow> contents_kept s s' U"
  by (simp add: contents_kept_def)

lemma contents_subset: "contents_kept s s' U \<Longrightarrow> V \<subseteq> U \<Longrightarrow> contents_kept s s' V"
  unfolding contents_kept_def by blast

lemma keeps_contents: "keeps s s' lay \<Longrightarrow> contents_kept s s' (useds lay)"
  by (simp add: keeps_def contents_kept_def)

lemma keeps_settings: "keeps s s' lay \<Longrightarrow> settings s' = settings s"
  unfolding keeps_def by blast

lemma arena_same:
  assumes a: "arena s lay" and sel: "heap s' = heap s" "gm s' = gm s" "least_addr s' = least_addr s" "topc s' = topc s"
    "topsize s' = topsize s" "trim_check s' = trim_check s" "dv s' = dv s" "dvsize s' = dvsize s"
    "smallmap s' = smallmap s" "treemap s' = treemap s"
  shows "arena s' lay"
proof -
  have "pool s' (frees lay - {(dv s, dvsize s)})" by (rule pool_frame [OF arena_pool [OF a]]) (simp_all add: sel)
  moreover have "ld s' c = ld s c" "has s' c = has s c" for c by (simp_all add: ld_def has_def sel)
  ultimately show ?thesis
    using a by (simp add: arena_def segment_def seg_rec_def top_ok_def victim_def top_end_def seg_at_def sel)
qed

text \<open>A block of the client has an address.\<close>

lemma used_block:
  assumes "arena s lay" and "(p, n) \<in> useds lay"
  shows "32 \<le> unat n" "unat (least_addr s) \<le> unat p" "unat p + unat n \<le> unat (topc s)" "unat p mod 16 = 0"
    and "unat (chunk2mem p) = unat p + 16" "chunk2mem p \<noteq> 0" "unat p + unat n + 8 < 2 ^ 64"
proof -
  have g: "gap s False lay (topc s) 0 True []" using arena_end [OF assms(1)] by (simp add: hole_def)
  have "(p, n, True) \<in> set (lay @ [])" using assms(2) by (simp add: useds_def)
  note r = gap_range(4) [OF g this]
  then show "32 \<le> unat n" "unat (least_addr s) \<le> unat p" "unat p + unat n \<le> unat (topc s)" "unat p mod 16 = 0"
    "unat p + unat n + 8 < 2 ^ 64" by auto
  show u: "unat (chunk2mem p) = unat p + 16" using r by (simp add: chunk2mem_def unat_word_ariths)
  then show "chunk2mem p \<noteq> 0" by auto
qed

lemma outcome_null:
  assumes "owns brk lim s' U" "heap s' = heap s"
  shows "outcome brk lim s U nb (Some (0, s'))"
  using assms(1) contents_same [OF assms(2)] unfolding outcome_def
  by (intro exI [of _ 0] exI [of _ s'] conjI disjI1 refl)

lemma outcome_allocated:
  assumes al: "allocated s lay nb mem s'" and st: "sited brk lim s" and k: "contents_kept s0 s (useds lay)"
  shows "outcome brk lim s0 (useds lay) nb (Some (mem, s'))"
proof -
  obtain p n lay' where p: "mem = chunk2mem p" "nb \<le> n" "arena s' lay'" "(p, n) \<notin> useds lay"
    "useds lay' = insert (p, n) (useds lay)" "keeps s s' lay"
    using al unfolding allocated_def by blast
  have "sited brk lim s'" using st sited_settings [OF keeps_settings [OF p(6)]] by blast
  then have "owns brk lim s' (insert (p, n) (useds lay))" using p(3,5) unfolding owns_def by blast
  moreover have "mem \<noteq> 0" using used_block(6) [OF p(3), of p n] p(1,5) by simp
  ultimately show ?thesis
    using p(1,2,4) contents_trans [OF k keeps_contents [OF p(6)]] unfolding outcome_def by blast
qed

section \<open>sys_alloc\<close>

lemma sys_alloc_brk:
  assumes S: "brk_only S brk lim" and t: "ensure_initialization S s = Some t"
  shows "sys_alloc S s nb =
    (let asize = granularity_align t (nb + 96)
     in if asize \<le> nb \<or> \<not> within_limit t asize then Some (0, t)
        else do {
          ((tbase, tsize, mmap_flag), s) \<leftarrow> sys_obtain S t nb asize;
          if tbase \<noteq> MFAIL then do {
            let s = add_footprint s tsize;
            r \<leftarrow> (if \<not> is_initialized s then map_option Inl (sys_first s tbase tsize mmap_flag)
                  else sys_merge s tbase tsize mmap_flag nb);
            case r of Inr res \<Rightarrow> Some res
            | Inl s \<Rightarrow> (if nb < topsize s then split_top s nb else Some (0, malloc_failure_action s)) }
          else Some (0, malloc_failure_action s) })"
proof -
  have "mmap_alloc S t nb = Some (0, t)"
    using brk_calls(1) [OF S, of _ t] by (simp add: mmap_alloc_def Let_def)
  then show ?thesis unfolding sys_alloc_def t Option.bind.bind_lunit by (simp add: Let_def)
qed

lemma huge_request:
  assumes S: "brk_only S brk lim" and t: "ensure_initialization S s = Some t" "granularity (mparams t) = 4096"
  shows "sys_alloc S s MAX_SIZE_T = Some (0, t)"
proof -
  have "granularity_align t (MAX_SIZE_T + 96) \<le> MAX_SIZE_T"
    by simp
  then show ?thesis unfolding sys_alloc_brk [OF S t(1)] Let_def by simp
qed

text \<open>With a segment: the top chunk grows, or there is a null pointer.\<close>

lemma sys_alloc_arena:
  assumes S: "brk_only S brk lim" and a: "arena s lay" and st: "sited brk lim s"
    and nb: "32 \<le> unat nb" "unat nb mod 16 = 0" "unat nb < 2 ^ 62" "topsize s \<le> nb"
  shows "outcome brk lim s (useds lay) nb (sys_alloc S s nb)"
proof -
  have lim: "lim < 2 ^ 64 - 1" using S by (simp add: brk_only_def)
  have mp: "mp_magic (mparams s) \<noteq> 0" "granularity (mparams s) = 4096" "unat (brk (os s)) \<le> lim"
    using st by (simp_all add: sited_def)
  have t: "ensure_initialization S s = Some s" using mp(1) by (simp add: ensure_initialization_def)
  define asize where "asize = granularity_align s (nb + 96)"
  have u: "unat (nb + 96) = unat nb + 96" using nb(3) by (simp add: unat_word_ariths)
  have "unat (nb + 96) + 4095 < 2 ^ 64" using nb(3) by (simp add: u)
  note g = align_4096 [OF mp(2) this, folded asize_def, unfolded u]
  have sz: "unat nb + 80 < unat asize" "unat asize < 2 ^ 63 + 4096" "\<not> asize \<le> nb"
    using g nb(3) by (simp_all add: word_le_nat_alt)
  have a16: "unat asize mod 16 = 0" using g(2) mod_mod_cancel [of 16 4096 "unat asize"] by simp
  have other: "owns brk lim (s\<lparr>mflags := m, enomem := e\<rparr>) (useds lay)" for m e
  proof -
    have "arena (s\<lparr>mflags := m, enomem := e\<rparr>) lay" by (rule arena_same [OF a]) simp_all
    moreover have "sited brk lim (s\<lparr>mflags := m, enomem := e\<rparr>)" using st by (simp add: sited_def top_end_def)
    ultimately show ?thesis unfolding owns_def by blast
  qed
  have null: "outcome brk lim s (useds lay) nb (Some (0, s\<lparr>mflags := m, enomem := e\<rparr>))" for m e
    by (rule outcome_null [OF other]) simp
  note D = sys_alloc_brk [OF S t, of nb, folded asize_def, unfolded Let_def]
  show ?thesis
  proof (cases "within_limit s asize")
    case False
    have "s\<lparr>mflags := mflags s, enomem := enomem s\<rparr> = s" by simp
    then show ?thesis using D False null [where m = "mflags s" and e = "enomem s"] by simp
  next
    case True
    have need: "unat nb - unat (topsize s) + 96 \<le> unat asize" using g(1) by simp
    from sys_obtain_ok [OF S mp(3) sz(1,2) extend_segment_ok [OF S a st nb(4,3)] need a16]
    show ?thesis unfolding obtained_def
    proof (elim disjE exE conjE)
      fix m n f assume "sys_obtain S s nb asize = Some ((MFAIL, n, f), s\<lparr>mflags := m\<rparr>)"
      then show ?thesis using D True sz(3) null [where m = m and e = True] by (simp add: malloc_failure_action_def)
    next
      fix m n s1 assume o: "sys_obtain S s nb asize = Some ((brk (os s), n, 0), s1)"
        "granted brk lim (s\<lparr>mflags := m\<rparr>) n s1" "unat nb - unat (topsize s) + 96 \<le> unat n" "unat n mod 16 = 0"
      obtain h x where h: "sys_merge (add_footprint s1 n) (brk (os s)) n 0 nb = Some (Inl (grown s n m h x))"
        "brk x = brk (os s) + n" "unat (brk (os s)) + unat n \<le> lim"
        "\<And>a. if a \<in> mem_range (brk (os s)) n then h a \<noteq> None else h a = heap s a"
        using sys_merge_grows [OF a st lim o(2), of nb] by blast
      define s2 where "s2 = grown s n m h x"
      note ga = grown_arena [OF a st lim o(4) h(2-4), where m = m, folded s2_def]
      have "is_initialized (add_footprint s1 n)"
        using arena_record(7) [OF a] o(2) by (auto simp: is_initialized_def add_footprint_def Let_def granted_def)
      moreover have lt: "nb < topsize s2" using ga(3) o(3) by (simp add: word_less_nat_alt)
      moreover have "brk (os s) \<noteq> MFAIL" by (rule brk_not_MFAIL [OF mp(3) lim])
      ultimately have e: "sys_alloc S s nb = split_top s2 nb"
        using D True sz(3) o(1) h(1) by (simp add: s2_def)
      have "contents_kept s s2 (useds lay)" using ga(4) unfolding contents_kept_def by blast
      moreover obtain s' where "split_top s2 nb = Some (chunk2mem (topc s2), s')" "allocated s2 lay nb (chunk2mem (topc s2)) s'"
        using split_top_allocated [OF ga(1) nb(1,2) lt] by blast
      ultimately show ?thesis using outcome_allocated [OF _ ga(2)] e by simp
    qed
  qed
qed

section \<open>The first segment\<close>

lemma tuned_init:
  assumes "mp_magic (mparams s) = 0 \<or> tuned (mparams s)" and "sys_getpagesize S = 4096"
  shows "\<exists>mp m. ensure_initialization S s = Some (s\<lparr>mparams := mp, mflags := m\<rparr>) \<and> tuned mp"
proof (cases "mp_magic (mparams s) = 0")
  case True
  have "bit (((sys_time S XOR 0x55555555) OR 8) AND NOT 7) 3" by (simp add: bit_simps)
  then have "((sys_time S XOR 0x55555555) OR 8) AND NOT 7 \<noteq> 0" by (metis bit_0_eq bot_apply bot_bool_def)
  then show ?thesis
    using True assms(2)
    by (simp add: ensure_initialization_def init_mparams_def Let_def tuned_def)
      (intro exI conjI, rule refl, simp_all)
next
  case False
  then have "ensure_initialization S s = Some (s\<lparr>mparams := mparams s, mflags := mflags s\<rparr>)"
    by (simp add: ensure_initialization_def)
  then show ?thesis using assms(1) False by blast
qed

text \<open>\<open>sys_first\<close> on a state \<open>t\<close> that is untouched apart from the parameters and the memory granted.\<close>

lemma sys_first_arena:
  assumes z: "smallmap t = 0" "treemap t = 0" "least_addr t = 0" "dv t = 0" "dvsize t = 0" and mp: "tuned (mparams t)"
    and gm: "unat (gm t) + 920 \<le> 2 ^ 64"
    and bins: "\<forall>i<32. has t (fd_at (bin_node t i)) \<and> has t (bk_at (bin_node t i)) \<and> heap t (slot_of t i) = Some 0"
    and seg: "has t (seg_at t)" "has t (ssize_at (seg_at t))" "has t (sflags_at (seg_at t))" "ld t (snext_at (seg_at t)) = Some 0"
    and base: "unat base mod 16 = 0" "0 < unat base" "unat base + unat n \<le> lim" "lim < 2 ^ 64 - 1" "lim \<le> unat base + 2 ^ 21"
      "unat (gm t) + 920 \<le> unat base + 8 \<or> lim \<le> unat (gm t)" "unat (brk (os t)) = unat base + unat n"
    and n: "112 \<le> unat n" "unat n mod 16 = 0"
    and map: "\<And>a. a \<in> mem_range base n \<Longrightarrow> has t a"
  shows "\<exists>t'. sys_first t base n 0 = Some t' \<and> arena t' [] \<and> sited brk lim t' \<and> topsize t' = n - 80"
proof -
  have u80: "unat (n - 80) = unat n - 80" using n(1) by (subst unat_sub) (simp_all add: word_le_nat_alt)
  have bn: "unat (base + (n - 80)) = unat base + unat n - 80"
    using base(3,4) n(1) u80 by (subst unat_sum') simp_all
  have uh: "unat (head_at base) = unat base + 8" "unat (head_at (base + (n - 80))) = unat base + unat n - 72"
    using base(3,4) n(1) bn by (simp_all add: unat_head_at)
  have hd: "has t (head_at base)" "has t (head_at (base + (n - 80)))"
    using uh n(1) by (auto intro!: map simp: mem_range_def)
  have al: "base AND 15 = 0"
  proof -
    have "unat (base AND 15) = 0" unfolding unat_and_mask4 by (rule base(1))
    then show ?thesis by (simp only: unat_eq_zero)
  qed
  have cells: "\<forall>i<32. has t (fd_at (bin_node t i)) \<and> has t (bk_at (bin_node t i))" using bins by blast
  obtain h where h: "sys_first t base n 0 = Some (t\<lparr>heap := h, least_addr := base,
      gm_magic := mp_magic (mparams t), release_checks := MAX_RELEASE_CHECK_RATE,
      topc := base, topsize := n - 80, trim_check := trim_threshold (mparams t)\<rparr>)"
    "\<forall>a. has t a \<longrightarrow> h a \<noteq> None"
    "\<forall>a. (\<forall>j<32. a \<noteq> fd_at (bin_node t j) \<and> a \<noteq> bk_at (bin_node t j)) \<longrightarrow>
      h a = ((heap t)(seg_at t \<mapsto> base, ssize_at (seg_at t) \<mapsto> n, sflags_at (seg_at t) \<mapsto> 0,
        head_at base \<mapsto> (n - 80) OR PINUSE_BIT, head_at (base + (n - 80)) \<mapsto> TOP_FOOT_SIZE)) a"
    using sys_first_eq [OF z(1,3) cells seg(1-3) hd al] by blast
  define t' where "t' = t\<lparr>heap := h, least_addr := base, gm_magic := mp_magic (mparams t),
    release_checks := MAX_RELEASE_CHECK_RATE, topc := base, topsize := n - 80, trim_check := trim_threshold (mparams t)\<rparr>"
  have sel: "gm t' = gm t" "least_addr t' = base" "topc t' = base" "topsize t' = n - 80" "dv t' = 0" "dvsize t' = 0"
    "smallmap t' = 0" "treemap t' = 0" "heap t' = h" "seg_at t' = seg_at t" "mparams t' = mparams t" "os t' = os t"
    "trim_check t' = 0x200000" "bin_node t' i = bin_node t i" "slot_of t' i = slot_of t i" for i
    using mp by (simp_all add: t'_def z seg_at_def bin_node_def smallbin_at_def slot_of_def treebin_at_def tuned_def
      DEFAULT_TRIM_THRESHOLD_def)
  have te: "top_end t' = unat base + unat n - 80" using u80 n(1) by (simp add: top_end_def sel)
  have gm856: "unat (gm t) + 856 \<le> 2 ^ 64" using gm by simp
  have apart: "a \<noteq> head_at base \<and> a \<noteq> head_at (base + (n - 80))"
    if "unat (gm t) \<le> unat a" "unat a < unat (gm t) + 920" for a
    using that base(3,6) uh n(1) by auto
  have out: "h a = ((heap t)(seg_at t \<mapsto> base, ssize_at (seg_at t) \<mapsto> n, sflags_at (seg_at t) \<mapsto> 0,
        head_at base \<mapsto> (n - 80) OR PINUSE_BIT, head_at (base + (n - 80)) \<mapsto> TOP_FOOT_SIZE)) a"
    if a: "a \<notin> statics t" for a
  proof -
    have "a \<noteq> fd_at (bin_node t j) \<and> a \<noteq> bk_at (bin_node t j)" if "j < 32" for j
      using bin_node_static(1,2) [OF gm856 that] a by metis
    then show ?thesis using h(3) [rule_format, of a] by simp
  qed
  note us = unat_seg_words [OF gm]
  have segw: "h (seg_at t) = Some base" "h (ssize_at (seg_at t)) = Some n" "h (sflags_at (seg_at t)) = Some 0"
    "h (snext_at (seg_at t)) = Some 0"
  proof -
    have ns: "seg_at t \<notin> statics t" "ssize_at (seg_at t) \<notin> statics t" "sflags_at (seg_at t) \<notin> statics t"
      "snext_at (seg_at t) \<notin> statics t" by (simp_all add: statics_def us)
    have ap: "a \<noteq> head_at base \<and> a \<noteq> head_at (base + (n - 80))"
      if "a = seg_at t \<or> a = ssize_at (seg_at t) \<or> a = sflags_at (seg_at t) \<or> a = snext_at (seg_at t)" for a
      using that by (intro apart) (auto simp: us)
    have df: "seg_at t \<noteq> ssize_at (seg_at t)" "seg_at t \<noteq> sflags_at (seg_at t)" "seg_at t \<noteq> snext_at (seg_at t)"
      "ssize_at (seg_at t) \<noteq> sflags_at (seg_at t)" "ssize_at (seg_at t) \<noteq> snext_at (seg_at t)"
      "sflags_at (seg_at t) \<noteq> snext_at (seg_at t)"
      by (simp_all add: ssize_at_def sflags_at_def snext_at_def)
    show "h (seg_at t) = Some base" "h (ssize_at (seg_at t)) = Some n" "h (sflags_at (seg_at t)) = Some 0"
      "h (snext_at (seg_at t)) = Some 0"
      using out [OF ns(1)] out [OF ns(2)] out [OF ns(3)] out [OF ns(4)] ap df seg(4) by (simp_all add: ld_def)
  qed
  have slots: "h (slot_of t i) = Some 0" if i: "i < 32" for i
  proof -
    have st: "slot_of t i \<in> statics t" by (rule slot_static [OF gm856 i])
    then have "slot_of t i \<noteq> head_at base \<and> slot_of t i \<noteq> head_at (base + (n - 80))"
      by (intro apart) (auto simp: statics_def)
    moreover have "slot_of t i \<noteq> seg_at t" "slot_of t i \<noteq> ssize_at (seg_at t)" "slot_of t i \<noteq> sflags_at (seg_at t)"
      using st us by (auto simp: statics_def)
    moreover have "\<forall>j<32. slot_of t i \<noteq> fd_at (bin_node t j) \<and> slot_of t i \<noteq> bk_at (bin_node t j)"
      using bin_node_static(3,4) [OF gm856 _ i] by metis
    ultimately show ?thesis using h(3) bins i by simp
  qed
  have "trees_ok t' (replicate 32 Tip)"
  proof -
    have "slot_of t i \<noteq> 0" if i: "i < 32" for i
    proof -
      have "unat (of_nat (600 + 8 * i) :: u64) = 600 + 8 * i" using i by (intro unat_nat64) simp
      then have "unat (slot_of t i) = unat (gm t) + (600 + 8 * i)"
        using gm i unfolding slot_of_eq [OF i] by (subst unat_sum') simp_all
      then show ?thesis by auto
    qed
    then show ?thesis using slots by (simp add: trees_ok_def tree_holds_def sel)
  qed
  moreover have "bins_ok t' (replicate 32 [])"
    using cells h(2) by (intro bins_ok_empty) (simp_all add: sel has_def)
  moreover have "binned (replicate 32 []) (replicate 32 Tip) = {}" by (auto simp: binned_def stored_def)
  moreover have "spaced t' {}" using gm by (simp add: spaced_def sel)
  ultimately have "pool t' {}" unfolding pool_def by blast
  moreover have "top_ok t'"
  proof -
    have nb: "head_at base \<notin> statics t" "head_at base \<noteq> head_at (base + (n - 80))"
      using uh base(3,6) n(1) by (auto simp: statics_def)
    have "h (head_at base) = Some (head_word (n - 80) True False)"
      using out [OF nb(1)] nb(2) by (simp add: head_word_eqs del: flag_values)
    moreover have "16 dvd unat n - 80" using n(2) by (intro dvd_diff_nat) (simp_all add: dvd_eq_mod_eq_0)
    then have "unat (n - 80) mod 16 = 0" unfolding u80 by (simp add: dvd_eq_mod_eq_0)
    ultimately show ?thesis using u80 n(1) by (simp add: top_ok_def sel ld_def)
  qed
  moreover have "segment t'"
  proof -
    have "seg_rec t'"
      using segw te n(1) by (simp add: seg_rec_def sel ld_def)
    moreover have "has t' a" if "unat base + 8 \<le> unat a" "unat a < top_end t' + 80" for a
      using map [of a] that h(2) n(1) by (auto simp: te mem_range_def has_def sel)
    ultimately show ?thesis using base n(1) gm by (auto simp: segment_def sel te)
  qed
  ultimately have "arena t' []" by (simp add: arena_def sel victim_def)
  moreover have "sited brk lim t'" using mp base n(1) by (auto simp: sited_def sel te tuned_def DEFAULT_TRIM_THRESHOLD_def)
  ultimately show ?thesis using h(1) by (auto simp: t'_def)
qed

lemma extend_nothing_ok:
  assumes S: "brk_only S brk lim" and u: "untouched brk lim s" and mp: "tuned (mparams s)"
    and n: "unat nb < unat asize" "unat asize mod 16 = 0"
  shows "extended brk lim s (unat asize) (morecore_extend S s nb asize)"
proof -
  have b: "unat (brk (os s)) \<le> lim" "unat (brk (os s)) mod 4096 = 0" "topc s = 0" using u by (simp_all add: untouched_def)
  have nf: "brk (os s) \<noteq> MFAIL" using S b(1) brk_not_MFAIL by (auto simp: brk_only_def)
  have pa: "is_page_aligned s (brk (os s))"
  proof -
    have "unat (brk (os s) AND 4095) = unat (brk (os s)) mod 4096"
      using unat_take_bit [of 12 "brk (os s)"] by (simp add: take_bit_eq_mask mask_eq_exp_minus_1)
    then have "brk (os s) AND 4095 = 0" using b(2) by (metis unat_eq_zero)
    then show ?thesis using mp by (simp add: is_page_aligned_def tuned_def)
  qed
  show ?thesis
  proof (cases "asize < HALF_MAX_SIZE_T \<and> (footprint_limit s = 0
      \<or> (footprint s + asize > footprint s \<and> footprint s + asize \<le> footprint_limit s))")
    case True
    then have half: "0 < unat asize" "unat asize < 2 ^ 63"
      using n(1) by (simp_all add: word_less_nat_alt HALF_MAX_SIZE_T_def)
    have "nb < asize" using n(1) by (simp add: word_less_nat_alt)
    then have m: "morecore_extend S s nb asize = (case call_morecore S asize s of
        (br, s') \<Rightarrow> Some ((if br = brk (os s) then brk (os s) else MFAIL, br, asize), s'))"
      using True nf pa b(3) by (simp add: morecore_extend_def brk_calls(2) [OF S])
    from brk_calls(3) [OF S half, of s] show ?thesis
    proof (elim disjE exE conjE)
      assume "call_morecore S asize s = (MFAIL, s)"
      then have "morecore_extend S s nb asize = Some ((MFAIL, MFAIL, asize), s)" using m nf by simp
      then show ?thesis unfolding extended_def by blast
    next
      fix s' assume c: "call_morecore S asize s = (brk (os s), s')" "granted brk lim s asize s'"
      then have "morecore_extend S s nb asize = Some ((brk (os s), brk (os s), asize), s')" using m by simp
      then show ?thesis
        using c(2) n(2) unfolding extended_def by (intro disjI2 exI [of _ asize] exI [of _ s'] conjI order_refl)
    qed
  next
    case False
    then have "morecore_extend S s nb asize = Some ((MFAIL, MFAIL, asize), s)"
      using nf pa b(3) by (auto simp: morecore_extend_def brk_calls(2) [OF S])
    then show ?thesis unfolding extended_def by blast
  qed
qed

lemma untouched_fields:
  assumes "untouched brk lim s" and "mp_magic mp = 0 \<or> tuned mp"
  shows "untouched brk lim (s\<lparr>mparams := mp, mflags := m, enomem := e\<rparr>)"
  using assms by (simp add: untouched_def bin_node_def smallbin_at_def slot_of_def treebin_at_def seg_at_def has_def ld_def)

text \<open>The first grant makes the first segment.\<close>

lemma first_grant:
  assumes S: "brk_only S brk lim" and u: "untouched brk lim s" and mp: "tuned (mparams s)"
    and g: "granted brk lim (s\<lparr>mflags := m\<rparr>) n s'" and n: "112 \<le> unat n" "unat n mod 16 = 0"
  shows "\<exists>t'. sys_first (add_footprint s' n) (brk (os s)) n 0 = Some t' \<and> arena t' [] \<and> sited brk lim t'
    \<and> topsize t' = n - 80"
proof -
  have lim: "lim < 2 ^ 64 - 1" using S by (simp add: brk_only_def)
  have b: "unat (brk (os s)) mod 4096 = 0" "0 < unat (brk (os s))" "lim \<le> unat (brk (os s)) + 2 ^ 21"
    "unat (gm s) + 920 \<le> unat (brk (os s)) \<or> lim \<le> unat (gm s)" "unat (gm s) + 920 \<le> 2 ^ 64"
    using u by (simp_all add: untouched_def)
  obtain h x where h: "s' = s\<lparr>mflags := m, heap := h, os := x\<rparr>" "unat (brk (os s)) + unat n \<le> lim"
    "brk x = brk (os s) + n" "\<And>a. if a \<in> mem_range (brk (os s)) n then h a \<noteq> None else h a = heap s a"
    using g by (auto simp: granted_def)
  define t where "t = add_footprint s' n"
  have sel: "heap t = h" "gm t = gm s" "smallmap t = smallmap s" "treemap t = treemap s" "least_addr t = least_addr s"
    "dv t = dv s" "dvsize t = dvsize s" "mparams t = mparams s" "os t = x" "seg_at t = seg_at s"
    "bin_node t i = bin_node s i" "slot_of t i = slot_of s i" for i
    by (simp_all add: t_def h(1) add_footprint_def Let_def seg_at_def bin_node_def smallbin_at_def slot_of_def treebin_at_def)
  have old: "h a = heap s a" if "unat (gm s) \<le> unat a" "unat a < unat (gm s) + 920" for a
    using h(4) [of a] that b(4) h(2) n(1) by (auto simp: mem_range_def)
  have gm856: "unat (gm s) + 856 \<le> 2 ^ 64" using b(5) by simp
  have ost: "h a = heap s a" if "a \<in> statics s" for a using that by (intro old) (auto simp: statics_def)
  have bins: "\<forall>i<32. has t (fd_at (bin_node t i)) \<and> has t (bk_at (bin_node t i)) \<and> heap t (slot_of t i) = Some 0"
  proof (intro allI impI)
    fix i :: nat assume i: "i < 32"
    have "has s (fd_at (bin_node s i)) \<and> has s (bk_at (bin_node s i)) \<and> heap s (slot_of s i) = Some 0"
      using u i by (simp add: untouched_def)
    then show "has t (fd_at (bin_node t i)) \<and> has t (bk_at (bin_node t i)) \<and> heap t (slot_of t i) = Some 0"
      using ost [OF bin_node_static(1) [OF gm856 i]] ost [OF bin_node_static(2) [OF gm856 i]] ost [OF slot_static [OF gm856 i]]
      by (simp add: sel has_def)
  qed
  note us = unat_seg_words [OF b(5)]
  have seg: "has t (seg_at t)" "has t (ssize_at (seg_at t))" "has t (sflags_at (seg_at t))" "ld t (snext_at (seg_at t)) = Some 0"
    using u old [of "seg_at s"] old [of "ssize_at (seg_at s)"] old [of "sflags_at (seg_at s)"] old [of "snext_at (seg_at s)"]
    by (simp_all add: untouched_def sel has_def ld_def us)
  have brk': "unat (brk (os t)) = unat (brk (os s)) + unat n"
    using h(2,3) lim by (simp add: sel unat_sum')
  have z: "smallmap t = 0" "treemap t = 0" "least_addr t = 0" "dv t = 0" "dvsize t = 0" "tuned (mparams t)"
    using u mp by (simp_all add: untouched_def sel)
  have b16: "unat (brk (os s)) mod 16 = 0" using b(1) mod_mod_cancel [of 16 4096 "unat (brk (os s))"] by simp
  have mapped: "has t a" if "a \<in> mem_range (brk (os s)) n" for a using h(4) [of a] that by (simp add: sel has_def)
  have gmt: "unat (gm t) + 920 \<le> 2 ^ 64" "unat (gm t) + 920 \<le> unat (brk (os s)) + 8 \<or> lim \<le> unat (gm t)"
    using b(4,5) by (auto simp: sel)
  show ?thesis
    unfolding t_def [symmetric]
    by (rule sys_first_arena [where brk = brk, OF z gmt(1) bins seg b16 b(2) h(2) lim b(3) gmt(2) brk' n mapped])
qed

lemma sys_alloc_untouched:
  assumes S: "brk_only S brk lim" and u: "untouched brk lim s"
    and nb: "32 \<le> unat nb" "unat nb mod 16 = 0" "unat nb < 2 ^ 62"
  shows "outcome brk lim s {} nb (sys_alloc S s nb)"
proof -
  have lim: "lim < 2 ^ 64 - 1" "sys_getpagesize S = 4096" using S by (simp_all add: brk_only_def)
  have "mp_magic (mparams s) = 0 \<or> tuned (mparams s)" using u by (simp add: untouched_def)
  from tuned_init [OF this lim(2)] obtain mp m where t: "ensure_initialization S s = Some (s\<lparr>mparams := mp, mflags := m\<rparr>)"
    and mp: "tuned mp" by blast
  define t where "t = s\<lparr>mparams := mp, mflags := m\<rparr>"
  have other: "untouched brk lim (t\<lparr>mflags := m, enomem := e\<rparr>)" for m e
    using untouched_fields [OF u, where mp = mp and m = m and e = e] mp by (simp add: t_def)
  have ut: "untouched brk lim t" using other [where m = m and e = "enomem t"] by (simp add: t_def)
  have gr: "granularity (mparams t) = 4096" "tuned (mparams t)" "os t = os s" "heap t = heap s"
    using mp by (simp_all add: t_def tuned_def)
  have bl: "unat (brk (os t)) \<le> lim" using ut by (simp add: untouched_def)
  define asize where "asize = granularity_align t (nb + 96)"
  have ua: "unat (nb + 96) = unat nb + 96" using nb(3) by (simp add: unat_word_ariths)
  have "unat (nb + 96) + 4095 < 2 ^ 64" using nb(3) by (simp add: ua)
  note g = align_4096 [OF gr(1) this, folded asize_def, unfolded ua]
  have sz: "unat nb + 80 < unat asize" "unat asize < 2 ^ 63 + 4096" "\<not> asize \<le> nb" "unat nb < unat asize"
    using g nb(3) by (simp_all add: word_le_nat_alt)
  have a16: "unat asize mod 16 = 0" using g(2) mod_mod_cancel [of 16 4096 "unat asize"] by simp
  have null: "outcome brk lim s {} nb (Some (0, t\<lparr>mflags := m, enomem := e\<rparr>))" for m e
    by (rule outcome_null) (use other in \<open>auto simp: owns_def gr(4)\<close>)
  note D = sys_alloc_brk [OF S t, of nb, folded t_def, folded asize_def, unfolded Let_def]
  show ?thesis
  proof (cases "within_limit t asize")
    case False
    have "t\<lparr>mflags := mflags t, enomem := enomem t\<rparr> = t" by simp
    then show ?thesis using D False null [where m = "mflags t" and e = "enomem t"] by simp
  next
    case True
    from sys_obtain_ok [OF S bl sz(1,2) extend_nothing_ok [OF S ut gr(2) sz(4) a16] order_refl a16]
    show ?thesis unfolding obtained_def
    proof (elim disjE exE conjE)
      fix m n f assume "sys_obtain S t nb asize = Some ((MFAIL, n, f), t\<lparr>mflags := m\<rparr>)"
      then show ?thesis using D True sz(3) null [where m = m and e = True] by (simp add: malloc_failure_action_def)
    next
      fix m n s1 assume o: "sys_obtain S t nb asize = Some ((brk (os t), n, 0), s1)"
        "granted brk lim (t\<lparr>mflags := m\<rparr>) n s1" "unat asize \<le> unat n" "unat n mod 16 = 0"
      have n112: "112 \<le> unat n" "unat nb < unat n - 80" using o(3) sz(1) nb(1) by simp_all
      obtain s2 where s2: "sys_first (add_footprint s1 n) (brk (os t)) n 0 = Some s2" "arena s2 []" "sited brk lim s2"
        "topsize s2 = n - 80"
        using first_grant [OF S ut gr(2) o(2) n112(1) o(4)] by blast
      have "\<not> is_initialized (add_footprint s1 n)"
        using ut o(2) by (auto simp: is_initialized_def add_footprint_def Let_def granted_def untouched_def)
      moreover have "unat (n - 80) = unat n - 80" using n112(1) by (subst unat_sub) (simp_all add: word_le_nat_alt)
      then have lt: "nb < topsize s2" using n112(2) by (simp add: s2(4) word_less_nat_alt)
      moreover have "brk (os t) \<noteq> MFAIL" by (rule brk_not_MFAIL [OF bl lim(1)])
      ultimately have e: "sys_alloc S s nb = split_top s2 nb"
        using D True sz(3) o(1) s2(1) by simp
      have "contents_kept s s2 (useds [])" by (simp add: contents_kept_def)
      moreover obtain s' where "split_top s2 nb = Some (chunk2mem (topc s2), s')" "allocated s2 [] nb (chunk2mem (topc s2)) s'"
        using split_top_allocated [OF s2(2) nb(1,2) lt] by blast
      ultimately show ?thesis using outcome_allocated [OF _ s2(3), of "[]"] e by simp
    qed
  qed
qed

section \<open>dlmalloc and dlfree at any time\<close>

lemma request_bound:
  assumes "unat bytes < 2 ^ 39"
  shows "bytes < MAX_REQUEST" "unat (request2size bytes) < 2 ^ 40"
proof -
  show "bytes < MAX_REQUEST" using assms by (simp add: word_less_nat_alt)
  then show "unat (request2size bytes) < 2 ^ 40" using assms by (simp add: unat_request2size)
qed

lemma owns_init:
  assumes "owns brk lim s U" and "sys_getpagesize S = 4096"
  shows "\<exists>t. ensure_initialization S s = Some t \<and> granularity (mparams t) = 4096 \<and> owns brk lim t U \<and> heap t = heap s"
proof -
  from assms(1) [unfolded owns_def] show ?thesis
  proof (elim disjE exE conjE)
    assume u: "untouched brk lim s" "U = {}"
    have "mp_magic (mparams s) = 0 \<or> tuned (mparams s)" using u(1) by (simp add: untouched_def)
    from tuned_init [OF this assms(2)] obtain mp m
      where t: "ensure_initialization S s = Some (s\<lparr>mparams := mp, mflags := m\<rparr>)" and mp: "tuned mp" by blast
    have "untouched brk lim (s\<lparr>mparams := mp, mflags := m, enomem := enomem s\<rparr>)"
      using mp by (intro untouched_fields [OF u(1)]) simp
    then show ?thesis using t mp u(2) by (auto simp: owns_def tuned_def)
  next
    fix lay assume a: "arena s lay" "sited brk lim s" "useds lay = U"
    then show ?thesis by (auto simp: owns_def ensure_initialization_def sited_def)
  qed
qed

lemma victim_small:
  assumes "owns brk lim s U"
  shows "dvsize s < MAX_SIZE_T"
  using assms unfolding owns_def
proof (elim disjE exE conjE)
  assume "untouched brk lim s"
  then show ?thesis by (simp add: untouched_def word_less_nat_alt unat_minus_1_u64)
next
  fix lay assume a: "arena s lay"
  have g: "gap s False lay (topc s) 0 True []" using arena_end [OF a] by (simp add: hole_def)
  have "dvsize s = 0 \<or> unat (dvsize s) + 8 < 2 ^ 64"
    using g gap_range(4) [OF g, of "dv s" "dvsize s" False] by (auto simp: gap_def victim_def)
  then show ?thesis by (auto simp: word_less_nat_alt unat_minus_1_u64)
qed

text \<open>A request above the largest one is refused.\<close>

lemma dlmalloc_too_big:
  assumes S: "brk_only S brk lim" and o: "owns brk lim s U" and b: "MAX_REQUEST \<le> bytes"
  shows "\<exists>s'. dlmalloc S s bytes = Some (0, s') \<and> owns brk lim s' U \<and> heap s' = heap s"
proof -
  have pg: "sys_getpagesize S = 4096" using S by (simp add: brk_only_def)
  obtain t where t: "ensure_initialization S s = Some t" "granularity (mparams t) = 4096" "owns brk lim t U" "heap t = heap s"
    using owns_init [OF o pg] by blast
  have "\<not> MAX_SIZE_T \<le> dvsize s" using victim_small [OF o] by (simp only: not_le)
  moreover have "\<not> MAX_SIZE_T < topsize s" by (simp add: not_less)
  ultimately have "malloc_tail S s MAX_SIZE_T = sys_alloc S s MAX_SIZE_T" unfolding malloc_tail_def by (simp only: if_False)
  moreover have "dlmalloc S s bytes = malloc_tail S s MAX_SIZE_T"
    using b by (auto simp: dlmalloc_def word_le_nat_alt)
  ultimately show ?thesis using huge_request [OF S t(1,2)] t(3,4) by simp
qed

lemma dlmalloc_owns:
  assumes S: "brk_only S brk lim" and o: "owns brk lim s U" and b39: "unat bytes < 2 ^ 39"
  shows "outcome brk lim s U (request2size bytes) (dlmalloc S s bytes)"
proof -
  note rb = request_bound [OF b39] and rs = request_size(1,2) [OF request_bound(1) [OF b39]]
  have n62: "unat (request2size bytes) < 2 ^ 62" using rb(2) by simp
  from o show ?thesis unfolding owns_def
  proof (elim disjE exE conjE)
    assume u: "untouched brk lim s" "U = {}"
    have "dlmalloc S s bytes = sys_alloc S s (request2size bytes)"
      using u(1) rb(1) rs(1)
      by (simp add: dlmalloc_no_bins untouched_def malloc_tail_def word_le_nat_alt word_less_nat_alt not_le)
    then show ?thesis using sys_alloc_untouched [OF S u(1) rs n62] u(2) by simp
  next
    fix lay assume a: "arena s lay" "sited brk lim s" "useds lay = U"
    from dlmalloc_served [OF a(1) rb, of S] show ?thesis unfolding served_def
    proof (elim disjE exE conjE)
      fix mem s' assume "dlmalloc S s bytes = Some (mem, s')" and al: "allocated s lay (request2size bytes) mem s'"
      then show ?thesis using outcome_allocated [OF al a(2) contents_refl] a(3) by simp
    next
      assume "topsize s \<le> request2size bytes" "dlmalloc S s bytes = sys_alloc S s (request2size bytes)"
      then show ?thesis using sys_alloc_arena [OF S a(1,2) rs n62] a(3) by simp
    qed
  qed
qed

lemma dlfree_owns:
  assumes o: "owns brk lim s U" and m: "(p, n) \<in> U"
  shows "\<exists>s'. dlfree S s (chunk2mem p) = Some s' \<and> owns brk lim s' (U - {(p, n)}) \<and> contents_kept s s' (U - {(p, n)})"
proof -
  obtain lay where a: "arena s lay" "sited brk lim s" "useds lay = U" using o m by (auto simp: owns_def)
  obtain s' lay' where s': "dlfree S s (chunk2mem p) = Some s'" "arena s' lay'" "useds lay' = U - {(p, n)}" "keeps s s' lay'"
    using dlfree_ok [OF a(1), of p n S] m a(3) by (auto simp: freed_def)
  have "sited brk lim s'" using a(2) sited_settings [OF keeps_settings [OF s'(4)]] by blast
  then show ?thesis using s' keeps_contents [OF s'(4)] unfolding owns_def by auto
qed

end
