(* ===== verification/DlRuns.thy ===== *)
theory DlRuns
  imports DlStart
begin

text \<open>
  What a client of the allocator sees: the blocks that it owns, which are apart from each other and
  keep their contents. The laws are those of the locale \<open>allocator\<close>; the model of
  \<open>dlmalloc.c\<close> on a system with a break satisfies them, and so do all runs of
  calls of a client that frees and writes only what it owns.
\<close>

section \<open>The client's blocks\<close>

text \<open>Blocks in use: aligned, with a size, mapped and apart from each other.\<close>

definition block_ok :: "'o dl \<Rightarrow> u64 \<Rightarrow> u64 \<Rightarrow> bool" where
  "block_ok s p n \<longleftrightarrow> unat (chunk2mem p) mod 16 = 0 \<and> chunk2mem p \<noteq> 0 \<and> 32 \<le> unat n
     \<and> chunksize s p = Some n \<and> is_inuse s p = Some True \<and> (\<forall>a \<in> payload p n. has s a)"

definition blocks_ok :: "'o dl \<Rightarrow> (u64 \<times> u64) set \<Rightarrow> bool" where
  "blocks_ok s U \<longleftrightarrow> (\<forall>(p, n) \<in> U. block_ok s p n)
     \<and> (\<forall>(p, n) \<in> U. \<forall>(q, m) \<in> U. (p, n) \<noteq> (q, m) \<longrightarrow> own p n \<inter> own q m = {})"

lemma blocks_okD:
  assumes "blocks_ok s U" "(p, n) \<in> U"
  shows "block_ok s p n" and "(q, m) \<in> U \<Longrightarrow> (p, n) \<noteq> (q, m) \<Longrightarrow> own p n \<inter> own q m = {}"
  using assms unfolding blocks_ok_def by blast+

lemma payload_own: "payload p n \<subseteq> own p n"
  by (auto simp: payload_def own_def)

lemma arena_block_ok:
  assumes a: "arena s lay" and m: "(p, n) \<in> useds lay"
  shows "block_ok s p n"
proof -
  note r = used_block [OF a m]
  have g: "gap s False lay (topc s) 0 True []" using arena_end [OF a] by (simp add: hole_def)
  have ml: "(p, n, True) \<in> set lay" using m by (simp add: useds_def)
  then have ml': "(p, n, True) \<in> set (lay @ [])" by simp
  have n16: "unat n mod 16 = 0" using gap_range(4) [OF g ml'] by simp
  have t: "tiled (heap s) (least_addr s) True lay (topc s) True" using a by (simp add: arena_def)
  obtain pu where h: "heap s (head_at p) = Some (head_word n pu True)" using tiled_head [OF t ml] by blast
  then have "chunksize s p = Some n" "is_inuse s p = Some True"
    using head_word_fields [OF n16, of pu True] by (simp_all add: chunksize_def is_inuse_def ld_def)
  moreover have "has s c" if "c \<in> payload p n" for c
    using that a r by (auto simp: arena_def segment_def payload_def top_end_def)
  moreover have "unat (chunk2mem p) mod 16 = 0" using r(4) by (simp add: r(5))
  ultimately show ?thesis using r(1,6) by (simp add: block_ok_def)
qed

lemma owns_blocks:
  assumes "owns brk lim s U"
  shows "blocks_ok s U"
proof -
  from assms [unfolded owns_def] show ?thesis
  proof (elim disjE exE conjE)
    fix lay assume a: "arena s lay" and U: "useds lay = U"
    have t: "tiled (heap s) (least_addr s) True lay (topc s) True" using a by (simp add: arena_def)
    have "own p n \<inter> own q m = {}" if "(p, n) \<in> U" "(q, m) \<in> U" "(p, n) \<noteq> (q, m)" for p n q m
      using tiled_disjoint [OF t, of p n True q m True] that U by (auto simp: useds_def)
    moreover have "block_ok s p n" if "(p, n) \<in> U" for p n using arena_block_ok [OF a] that U by blast
    ultimately show ?thesis unfolding blocks_ok_def by blast
  qed (simp add: blocks_ok_def)
qed

text \<open>A store of the client into one of its blocks.\<close>

lemma tiled_heads:
  "tiled h a pu bs e eu \<Longrightarrow>
    \<forall>(p, n, u) \<in> set bs. h' (head_at p) = h (head_at p) \<and> (\<not> u \<longrightarrow> h' (p + n) = h (p + n)) \<Longrightarrow> tiled h' a pu bs e eu"
  by (induction h a pu bs e eu rule: tiled.induct) auto

lemma arena_store:
  assumes a: "arena s lay" and m: "(p, n) \<in> useds lay" and x: "x \<in> payload p n"
  shows "arena (upd s x v) lay"
proof -
  have g: "gap s False lay (topc s) 0 True []" using arena_end [OF a] by (simp add: hole_def)
  have m': "(p, n, True) \<in> set (lay @ [])" using m by (simp add: useds_def)
  note dj = gap_disjoint [OF g m'] and rg = gap_range(4) [OF g m']
  have xo: "x \<in> own p n" using x payload_own by blast
  have t: "tiled (heap s) (least_addr s) True lay (topc s) True" using a by (simp add: arena_def)
  have hd: "head_at q \<noteq> x \<and> (\<not> u \<longrightarrow> q + k \<noteq> x)" if q: "(q, k, u) \<in> set lay" for q k u
  proof (cases "(q, k, u) = (p, n, True)")
    case True
    have "unat (head_at p) = unat p + 8" using rg by (simp add: head_at_def unat_word_ariths)
    then show ?thesis using True x by (auto simp: payload_def)
  next
    case False
    have q': "(q, k, u) \<in> set (lay @ [])" using q by simp
    note rq = gap_range(4) [OF g q']
    have "own p n \<inter> own q k = {}" using dj(5) [OF q'] False by simp
    moreover have "head_at q \<in> own q k" "q + k \<in> own q k" using links_inner(3) [of k q] foot_own(1) [of k q] rq by blast+
    ultimately show ?thesis using xo by blast
  qed
  let ?s = "upd s x v"
  have sel: "top_end ?s = top_end s" "seg_at ?s = seg_at s" by (simp_all add: top_end_def seg_at_def)
  have "tiled (heap ?s) (least_addr s) True lay (topc s) True"
    using hd by (intro tiled_heads [OF t]) auto
  moreover have "segment ?s"
  proof -
    have u: "unat (gm s) + 920 \<le> 2 ^ 64" "seg_rec s" using a by (simp_all add: arena_def segment_def)
    have "heap ?s c = heap s c" if "c \<in> seg_words s" for c using dj(4) xo that by auto
    from seg_rec_cong [OF u(2,1) _ _ sel(1) this] have "seg_rec ?s" by simp
    then show ?thesis using a by (simp add: arena_def segment_def sel)
  qed
  moreover have "top_ok ?s" using a dj(3) xo by (auto simp: arena_def top_ok_def)
  moreover have "pool ?s (frees lay - {(dv s, dvsize s)})"
  proof (rule pool_frame [OF arena_pool [OF a]])
    fix y assume y: "y \<in> statics s \<union> words_of (frees lay - {(dv s, dvsize s)})"
    have "x \<notin> statics s" using dj(2) xo by blast
    moreover have "x \<notin> words_of (frees lay)" using dj(5) [of _ _ False] xo by (fastforce simp: words_of_def frees_def)
    ultimately have "y \<noteq> x" using y words_of_mono [of "frees lay - {(dv s, dvsize s)}" "frees lay"] by blast
    then show "heap ?s y = heap s y" by simp
  qed simp_all
  moreover have "victim False ?s lay" using a by (simp add: arena_def victim_def)
  ultimately show ?thesis by (simp add: arena_def)
qed

lemma owns_store:
  assumes o: "owns brk lim s U" and m: "(p, n) \<in> U" and x: "x \<in> payload p n"
  shows "st s x v = Some (upd s x v)" and "owns brk lim (upd s x v) U"
proof -
  obtain lay where a: "arena s lay" "sited brk lim s" "useds lay = U" using o m by (auto simp: owns_def)
  have "has s x" using owns_blocks [OF o] m x by (auto simp: blocks_ok_def block_ok_def)
  then show "st s x v = Some (upd s x v)" by (rule st_has)
  have "arena (upd s x v) lay" using arena_store [OF a(1) _ x] m a(3) by blast
  moreover have "sited brk lim (upd s x v)" using a(2) sited_settings [of "upd s x v" s] by simp
  ultimately show "owns brk lim (upd s x v) U" using a(3) unfolding owns_def by blast
qed

section \<open>Clients\<close>

text \<open>What a client does: requests, giving back, and stores of a word. A step changes the state and the
  set of blocks that the client owns; \<open>alloc\<close>, \<open>release\<close>, \<open>store\<close> and \<open>sz\<close> are the operations of
  the allocator. A client gives back only blocks that it owns and writes only inside them.\<close>

datatype call = Malloc u64 | Free u64 | Store u64 u64

inductive client_step ::
    "('s \<Rightarrow> u64 \<Rightarrow> (u64 \<times> 's) option) \<Rightarrow> ('s \<Rightarrow> u64 \<Rightarrow> 's option) \<Rightarrow> ('s \<Rightarrow> u64 \<Rightarrow> u64 \<Rightarrow> 's option) \<Rightarrow>
      ('s \<Rightarrow> u64 \<Rightarrow> u64 option) \<Rightarrow> 's \<times> (u64 \<times> u64) set \<Rightarrow> call \<Rightarrow> 's \<times> (u64 \<times> u64) set \<Rightarrow> bool"
  for alloc release store sz where
  got: "alloc s k = Some (mem, s') \<Longrightarrow> mem \<noteq> 0 \<Longrightarrow> sz s' (mem2chunk mem) = Some n \<Longrightarrow>
    client_step alloc release store sz (s, U) (Malloc k) (s', insert (mem2chunk mem, n) U)"
| refused: "alloc s k = Some (0, s') \<Longrightarrow> client_step alloc release store sz (s, U) (Malloc k) (s', U)"
| gave_back: "(p, n) \<in> U \<Longrightarrow> release s (chunk2mem p) = Some s' \<Longrightarrow>
    client_step alloc release store sz (s, U) (Free (chunk2mem p)) (s', U - {(p, n)})"
| wrote: "(p, n) \<in> U \<Longrightarrow> a \<in> payload p n \<Longrightarrow> store s a v = Some s' \<Longrightarrow>
    client_step alloc release store sz (s, U) (Store a v) (s', U)"

inductive client_run ::
    "('s \<Rightarrow> u64 \<Rightarrow> (u64 \<times> 's) option) \<Rightarrow> ('s \<Rightarrow> u64 \<Rightarrow> 's option) \<Rightarrow> ('s \<Rightarrow> u64 \<Rightarrow> u64 \<Rightarrow> 's option) \<Rightarrow>
      ('s \<Rightarrow> u64 \<Rightarrow> u64 option) \<Rightarrow> 's \<times> (u64 \<times> u64) set \<Rightarrow> call list \<Rightarrow> 's \<times> (u64 \<times> u64) set \<Rightarrow> bool"
  for alloc release store sz where
  ends: "client_run alloc release store sz x [] x"
| step: "client_step alloc release store sz x c y \<Longrightarrow> client_run alloc release store sz y cs z \<Longrightarrow>
    client_run alloc release store sz x (c # cs) z"

inductive_cases malloc_stepE: "client_step alloc release store sz (s, U) (Malloc k) y"
inductive_cases free_stepE: "client_step alloc release store sz (s, U) (Free a) y"
inductive_cases store_stepE: "client_step alloc release store sz (s, U) (Store a v) y"
inductive_simps client_run_Nil [simp]: "client_run alloc release store sz x [] y"
inductive_simps client_run_Cons: "client_run alloc release store sz x (c # cs) y"

text \<open>The last value that a run stores at \<open>a\<close>, or else the value \<open>w\<close> before it.\<close>

fun written :: "u64 \<Rightarrow> u64 option \<Rightarrow> call list \<Rightarrow> u64 option" where
  "written a w [] = w"
| "written a w (Store b v # cs) = written a (if b = a then Some v else w) cs"
| "written a w (Malloc k # cs) = written a w cs"
| "written a w (Free b # cs) = written a w cs"

section \<open>The laws of an allocator\<close>

text \<open>Memory that a client owns: its blocks are apart, and a store in one changes that word only.
  \<open>e\<close> is the environment, what the system provides.\<close>

locale owned_memory =
  fixes owns :: "'e \<Rightarrow> 's \<Rightarrow> (u64 \<times> u64) set \<Rightarrow> bool"
    and store :: "'s \<Rightarrow> u64 \<Rightarrow> u64 \<Rightarrow> 's option"
    and load :: "'s \<Rightarrow> u64 \<Rightarrow> u64 option"
  assumes store: "owns e s U \<Longrightarrow> (p, n) \<in> U \<Longrightarrow> a \<in> payload p n \<Longrightarrow>
      \<exists>s'. store s a v = Some s' \<and> owns e s' U \<and> load s' a = Some v \<and> (\<forall>b. b \<noteq> a \<longrightarrow> load s' b = load s b)"
    and apart: "owns e s U \<Longrightarrow> (p, n) \<in> U \<Longrightarrow> (q, m) \<in> U \<Longrightarrow> (p, n) \<noteq> (q, m) \<Longrightarrow> own p n \<inter> own q m = {}"
begin

lemma store_local:
  assumes "owns e s U" and "(p, n) \<in> U" "a \<in> payload p n" and "(q, m) \<in> U" "(q, m) \<noteq> (p, n)" "b \<in> payload q m"
  shows "\<exists>s'. store s a v = Some s' \<and> owns e s' U \<and> load s' a = Some v \<and> load s' b = load s b"
proof -
  have "a \<noteq> b" using apart [OF assms(1,2,4)] assms(3,5,6) payload_own by blast
  then show ?thesis using store [OF assms(1-3), of v] by auto
qed

end

text \<open>An allocator in addition hands out blocks apart from the others, and takes them back; neither
  changes the contents of the other blocks. It may refuse with a null pointer.\<close>

locale allocator = owned_memory owns store load
  for owns :: "'e \<Rightarrow> 's \<Rightarrow> (u64 \<times> u64) set \<Rightarrow> bool"
    and store :: "'s \<Rightarrow> u64 \<Rightarrow> u64 \<Rightarrow> 's option" and load :: "'s \<Rightarrow> u64 \<Rightarrow> u64 option" +
  fixes alloc :: "'e \<Rightarrow> 's \<Rightarrow> u64 \<Rightarrow> (u64 \<times> 's) option"
    and release :: "'e \<Rightarrow> 's \<Rightarrow> u64 \<Rightarrow> 's option"
    and sz :: "'s \<Rightarrow> u64 \<Rightarrow> u64 option"
    and good :: "'e \<Rightarrow> bool" and legal :: "u64 \<Rightarrow> bool"
  assumes alloc: "good e \<Longrightarrow> owns e s U \<Longrightarrow> legal k \<Longrightarrow>
      \<exists>mem s'. alloc e s k = Some (mem, s') \<and> (\<forall>(p, n) \<in> U. \<forall>a \<in> payload p n. load s' a = load s a)
        \<and> (mem = 0 \<and> owns e s' U \<or> (\<exists>p n. mem = chunk2mem p \<and> mem \<noteq> 0 \<and> unat k + 8 \<le> unat n \<and> (p, n) \<notin> U
             \<and> owns e s' (insert (p, n) U)))"
    and release: "good e \<Longrightarrow> owns e s U \<Longrightarrow> (p, n) \<in> U \<Longrightarrow>
      \<exists>s'. release e s (chunk2mem p) = Some s' \<and> owns e s' (U - {(p, n)})
        \<and> (\<forall>(q, m) \<in> U - {(p, n)}. \<forall>a \<in> payload q m. load s' a = load s a)"
    and sz_ok: "owns e s U \<Longrightarrow> (p, n) \<in> U \<Longrightarrow> sz s p = Some n"
begin

lemma alloc_apart:
  assumes "good e" "owns e s U" "legal k"
  shows "\<exists>mem s'. alloc e s k = Some (mem, s') \<and> (\<forall>(p, n) \<in> U. \<forall>a \<in> payload p n. load s' a = load s a)
    \<and> (mem = 0 \<and> owns e s' U \<or> (\<exists>p n. mem = chunk2mem p \<and> mem \<noteq> 0 \<and> unat k + 8 \<le> unat n
         \<and> owns e s' (insert (p, n) U) \<and> (\<forall>(q, m) \<in> U. own p n \<inter> own q m = {})))"
proof -
  have "\<forall>(q, m) \<in> U. own p n \<inter> own q m = {}" if "owns e s' (insert (p, n) U)" "(p, n) \<notin> U" for s' p n
    using apart [OF that(1), of p n] that(2) by auto
  then show ?thesis using alloc [OF assms] by blast
qed

lemma alloc_release:
  assumes "good e" "owns e s U" "legal k"
  shows "\<exists>mem s1. alloc e s k = Some (mem, s1) \<and> (mem = 0 \<and> owns e s1 U
    \<or> (\<exists>s2. release e s1 mem = Some s2 \<and> owns e s2 U \<and> (\<forall>(p, n) \<in> U. \<forall>a \<in> payload p n. load s2 a = load s a)))"
proof -
  obtain mem s1 where s1: "alloc e s k = Some (mem, s1)" "\<forall>(p, n) \<in> U. \<forall>a \<in> payload p n. load s1 a = load s a"
    "mem = 0 \<and> owns e s1 U \<or> (\<exists>p n. mem = chunk2mem p \<and> mem \<noteq> 0 \<and> unat k + 8 \<le> unat n \<and> (p, n) \<notin> U
      \<and> owns e s1 (insert (p, n) U))"
    using alloc [OF assms] by blast
  show ?thesis
  proof (cases "mem = 0 \<and> owns e s1 U")
    case False
    then obtain p n where p: "mem = chunk2mem p" "(p, n) \<notin> U" "owns e s1 (insert (p, n) U)" using s1(3) by blast
    have "insert (p, n) U - {(p, n)} = U" using p(2) by blast
    then obtain s2 where s2: "release e s1 mem = Some s2" "owns e s2 U"
      "\<forall>(q, m) \<in> U. \<forall>a \<in> payload q m. load s2 a = load s1 a"
      using release [OF assms(1) p(3), of p n] p(1) by auto
    have "\<forall>(q, m) \<in> U. \<forall>a \<in> payload q m. load s2 a = load s a" using s2(3) s1(2) by fastforce
    then show ?thesis using s1(1) s2(1,2) by blast
  qed (use s1(1) in blast)
qed

lemma step_owns:
  assumes g: "good e" and o: "owns e s U" and st: "client_step (alloc e) (release e) store sz (s, U) c (s', U')"
    and c: "\<And>k. c = Malloc k \<Longrightarrow> legal k"
  shows "owns e s' U'" and "(q, m) \<in> U \<Longrightarrow> c \<noteq> Free (chunk2mem q) \<Longrightarrow> (q, m) \<in> U'
    \<and> (\<forall>a \<in> payload q m. load s' a = written a (load s a) [c])"
proof -
  have "owns e s' U' \<and> (\<forall>(q, m) \<in> U. c \<noteq> Free (chunk2mem q) \<longrightarrow> (q, m) \<in> U'
    \<and> (\<forall>a \<in> payload q m. load s' a = written a (load s a) [c]))"
  proof (cases c)
    case (Malloc k)
    obtain mem s1 where s1: "alloc e s k = Some (mem, s1)" "\<forall>(p, n) \<in> U. \<forall>a \<in> payload p n. load s1 a = load s a"
      "mem = 0 \<and> owns e s1 U \<or> (\<exists>p n. mem = chunk2mem p \<and> mem \<noteq> 0 \<and> unat k + 8 \<le> unat n \<and> (p, n) \<notin> U
        \<and> owns e s1 (insert (p, n) U))"
      using alloc [OF g o c [OF Malloc]] by blast
    have "s' = s1 \<and> owns e s1 U' \<and> U \<subseteq> U'"
    proof (rule malloc_stepE [OF st [unfolded Malloc]])
      fix mem' s'' n assume y: "(s', U') = (s'', insert (mem2chunk mem', n) U)" "alloc e s k = Some (mem', s'')" "mem' \<noteq> 0"
        "sz s'' (mem2chunk mem') = Some n"
      then obtain p n' where p: "mem = chunk2mem p" "owns e s1 (insert (p, n') U)" using s1 by auto
      have "mem2chunk mem = p" by (simp add: p(1) mem2chunk_def chunk2mem_def)
      then show ?thesis using y s1(1) p(2) sz_ok [OF p(2), of p n'] by auto
    next
      fix s'' assume "(s', U') = (s'', U)" "alloc e s k = Some (0, s'')"
      then show ?thesis using s1(1,3) by auto
    qed
    then show ?thesis using s1(2) Malloc by auto
  next
    case (Free b)
    show ?thesis
    proof (rule free_stepE [OF st [unfolded Free]])
      fix s'' p n assume "(s', U') = (s'', U - {(p, n)})" "b = chunk2mem p" "(p, n) \<in> U" "release e s (chunk2mem p) = Some s''"
      then show ?thesis using release [OF g o, of p n] Free by fastforce
    qed
  next
    case (Store a v)
    show ?thesis
    proof (rule store_stepE [OF st [unfolded Store]])
      fix s'' p n assume "(s', U') = (s'', U)" "(p, n) \<in> U" "a \<in> payload p n" "store s a v = Some s''"
      then show ?thesis using store [OF o, of p n a v] Store by fastforce
    qed
  qed
  then show "owns e s' U'" "(q, m) \<in> U \<Longrightarrow> c \<noteq> Free (chunk2mem q) \<Longrightarrow> (q, m) \<in> U'
    \<and> (\<forall>a \<in> payload q m. load s' a = written a (load s a) [c])" by blast+
qed

lemma written_Cons: "written a w (c # cs) = written a (written a w [c]) cs"
  by (cases c) simp_all

lemma run_owns:
  assumes "good e"
  shows "client_run (alloc e) (release e) store sz x cs y \<Longrightarrow> owns e (fst x) (snd x) \<Longrightarrow> \<forall>k. Malloc k \<in> set cs \<longrightarrow> legal k \<Longrightarrow>
    owns e (fst y) (snd y) \<and> (\<forall>(q, m) \<in> snd x. Free (chunk2mem q) \<notin> set cs \<longrightarrow> (q, m) \<in> snd y
      \<and> (\<forall>a \<in> payload q m. load (fst y) a = written a (load (fst x) a) cs))"
proof (induction rule: client_run.induct)
  case (step x c y cs z)
  obtain s U s' U' where xy: "x = (s, U)" "y = (s', U')" by (metis prod.exhaust)
  have lg: "\<And>k. c = Malloc k \<Longrightarrow> legal k" "\<forall>k. Malloc k \<in> set cs \<longrightarrow> legal k" using step.prems(2) by auto
  have o: "owns e s U" using step.prems(1) xy by simp
  have s1: "owns e s' U'" by (rule step_owns(1) [OF assms o step.hyps(1) [unfolded xy] lg(1)])
  note IH = step.IH [unfolded xy fst_conv snd_conv, OF s1 lg(2)]
  have "(q, m) \<in> snd z \<and> (\<forall>a \<in> payload q m. load (fst z) a = written a (load s a) (c # cs))"
    if q: "(q, m) \<in> U" "Free (chunk2mem q) \<notin> set (c # cs)" for q m
  proof -
    have c: "c \<noteq> Free (chunk2mem q)" "Free (chunk2mem q) \<notin> set cs" using q(2) by auto
    have "(q, m) \<in> U' \<and> (\<forall>a \<in> payload q m. load s' a = written a (load s a) [c])"
      by (rule step_owns(2) [OF assms o step.hyps(1) [unfolded xy] lg(1) q(1) c(1)])
    then show ?thesis using IH c(2) unfolding written_Cons [of _ _ c cs] by fastforce
  qed
  then show ?case using IH xy by auto
qed simp

lemma step_possible:
  assumes g: "good e" and o: "owns e s U"
  shows "legal k \<Longrightarrow> \<exists>y. client_step (alloc e) (release e) store sz (s, U) (Malloc k) y"
    and "(p, n) \<in> U \<Longrightarrow> \<exists>y. client_step (alloc e) (release e) store sz (s, U) (Free (chunk2mem p)) y"
    and "(p, n) \<in> U \<Longrightarrow> a \<in> payload p n \<Longrightarrow> \<exists>y. client_step (alloc e) (release e) store sz (s, U) (Store a v) y"
proof -
  assume k: "legal k"
  obtain mem s1 where s1: "alloc e s k = Some (mem, s1)" 
    "mem = 0 \<or> (\<exists>p n. mem = chunk2mem p \<and> mem \<noteq> 0 \<and> owns e s1 (insert (p, n) U))"
    using alloc [OF g o k] by blast
  from s1(2) show "\<exists>y. client_step (alloc e) (release e) store sz (s, U) (Malloc k) y"
  proof (elim disjE exE conjE)
    assume "mem = 0"
    then have "alloc e s k = Some (0, s1)" using s1(1) by simp
    then show ?thesis by (intro exI) (rule refused [where alloc = "alloc e"])
  next
    fix p n assume p: "mem = chunk2mem p" "mem \<noteq> 0" "owns e s1 (insert (p, n) U)"
    have "mem2chunk mem = p" by (simp add: p(1) mem2chunk_def chunk2mem_def)
    then have "sz s1 (mem2chunk mem) = Some n" using sz_ok [OF p(3)] by simp
    then show ?thesis by (intro exI) (rule got [where alloc = "alloc e", OF s1(1) p(2)])
  qed
next
  assume m: "(p, n) \<in> U"
  obtain s' where "release e s (chunk2mem p) = Some s'" using release [OF g o m] by blast
  then show "\<exists>y. client_step (alloc e) (release e) store sz (s, U) (Free (chunk2mem p)) y"
    by (intro exI) (rule gave_back [where release = "release e", OF m])
  assume a: "a \<in> payload p n"
  obtain s' where "store s a v = Some s'" using store [OF o m a] by blast
  then show "\<exists>y. client_step (alloc e) (release e) store sz (s, U) (Store a v) y"
    by (intro exI) (rule wrote [where store = store, OF m a])
qed

end

section \<open>The model is an allocator\<close>

definition legal_size :: "u64 \<Rightarrow> bool" where
  "legal_size k \<longleftrightarrow> unat k < 2 ^ 39 \<or> MAX_REQUEST \<le> k"

lemma dlmalloc_law:
  assumes S: "brk_only S brk lim" and o: "owns brk lim s U" and k: "legal_size k"
  shows "\<exists>mem s'. dlmalloc S s k = Some (mem, s') \<and> (\<forall>(p, n) \<in> U. \<forall>a \<in> payload p n. ld s' a = ld s a)
    \<and> (mem = 0 \<and> owns brk lim s' U \<or> (\<exists>p n. mem = chunk2mem p \<and> mem \<noteq> 0 \<and> unat k + 8 \<le> unat n \<and> (p, n) \<notin> U
         \<and> owns brk lim s' (insert (p, n) U)))"
proof (cases "MAX_REQUEST \<le> k")
  case True
  then obtain s' where "dlmalloc S s k = Some (0, s')" "owns brk lim s' U" "heap s' = heap s"
    using dlmalloc_too_big [OF S o] by blast
  then show ?thesis by (intro exI [of _ 0] exI [of _ s']) (auto simp: ld_def)
next
  case False
  then have b: "unat k < 2 ^ 39" using k by (simp add: legal_size_def)
  have n: "unat k + 8 \<le> unat n" if "request2size k \<le> n" for n
    using that unat_request2size [OF request_bound(1) [OF b]] by (simp add: word_le_nat_alt) linarith
  obtain mem s' where s': "dlmalloc S s k = Some (mem, s')" "contents_kept s s' U"
    "mem = 0 \<and> owns brk lim s' U \<or> (\<exists>p n. mem = chunk2mem p \<and> mem \<noteq> 0 \<and> request2size k \<le> n \<and> (p, n) \<notin> U
      \<and> owns brk lim s' (insert (p, n) U))"
    using dlmalloc_owns [OF S o b] unfolding outcome_def by blast
  have "\<forall>(p, n) \<in> U. \<forall>a \<in> payload p n. ld s' a = ld s a" using s'(2) by (simp add: contents_kept_def ld_def)
  then show ?thesis using s'(1,3) n by blast
qed

interpretation dl: allocator "\<lambda>e. owns (fst (snd e)) (snd (snd e))" st ld "\<lambda>e. dlmalloc (fst e)" "\<lambda>e. dlfree (fst e)"
  chunksize "\<lambda>e. brk_only (fst e) (fst (snd e)) (snd (snd e))" legal_size
proof unfold_locales
  fix e :: "'o sys \<times> ('o \<Rightarrow> u64) \<times> nat" and s :: "'o dl" and U p n a and v :: u64
  assume o: "owns (fst (snd e)) (snd (snd e)) s U" and m: "(p, n) \<in> U" "a \<in> payload p n"
  show "\<exists>s'. st s a v = Some s' \<and> owns (fst (snd e)) (snd (snd e)) s' U \<and> ld s' a = Some v \<and> (\<forall>b. b \<noteq> a \<longrightarrow> ld s' b = ld s b)"
    using owns_store [OF o m, of v] by simp
next
  fix e :: "'o sys \<times> ('o \<Rightarrow> u64) \<times> nat" and s :: "'o dl" and U p n q m
  assume o: "owns (fst (snd e)) (snd (snd e)) s U" and b: "(p, n) \<in> U" "(q, m) \<in> U" "(p, n) \<noteq> (q, m)"
  show "own p n \<inter> own q m = {}" by (rule blocks_okD(2) [OF owns_blocks [OF o] b])
next
  fix e :: "'o sys \<times> ('o \<Rightarrow> u64) \<times> nat" and s :: "'o dl" and U k
  assume "brk_only (fst e) (fst (snd e)) (snd (snd e))" "owns (fst (snd e)) (snd (snd e)) s U" "legal_size k"
  from dlmalloc_law [OF this] show "\<exists>mem s'. dlmalloc (fst e) s k = Some (mem, s')
    \<and> (\<forall>(p, n) \<in> U. \<forall>a \<in> payload p n. ld s' a = ld s a)
    \<and> (mem = 0 \<and> owns (fst (snd e)) (snd (snd e)) s' U \<or> (\<exists>p n. mem = chunk2mem p \<and> mem \<noteq> 0 \<and> unat k + 8 \<le> unat n
         \<and> (p, n) \<notin> U \<and> owns (fst (snd e)) (snd (snd e)) s' (insert (p, n) U)))" .
next
  fix e :: "'o sys \<times> ('o \<Rightarrow> u64) \<times> nat" and s :: "'o dl" and U p n
  assume o: "owns (fst (snd e)) (snd (snd e)) s U" and m: "(p, n) \<in> U"
  show "\<exists>s'. dlfree (fst e) s (chunk2mem p) = Some s' \<and> owns (fst (snd e)) (snd (snd e)) s' (U - {(p, n)})
    \<and> (\<forall>(q, m) \<in> U - {(p, n)}. \<forall>a \<in> payload q m. ld s' a = ld s a)"
    using dlfree_owns [OF o m, of "fst e"] by (simp add: contents_kept_def ld_def)
next
  fix e :: "'o sys \<times> ('o \<Rightarrow> u64) \<times> nat" and s :: "'o dl" and U p n
  assume o: "owns (fst (snd e)) (snd (snd e)) s U" and m: "(p, n) \<in> U"
  show "chunksize s p = Some n" using blocks_okD(1) [OF owns_blocks [OF o] m] by (simp add: block_ok_def)
qed

section \<open>A machine\<close>

text \<open>A process with 64-bit break, 15 pages of which can be had, and its memory before the first request.\<close>

definition brk_machine :: "u64 sys" where
  "brk_machine = \<lparr>sys_mmap = (\<lambda>n ho. (MFAIL, ho)), sys_munmap = (\<lambda>a n ho. (0, ho)),
     sys_mremap = (\<lambda>a n n' mv ho. (MFAIL, ho)),
     sys_sbrk = (\<lambda>n (h, b). if n = 0 then (b, (h, b))
       else if unat n < 2 ^ 63 \<and> unat b + unat n \<le> 0x2F000
       then (b, (\<lambda>a. if unat b \<le> unat a \<and> unat a < unat b + unat n then Some 0 else h a, b + n))
       else (MFAIL, (h, b))),
     sys_getpagesize = 4096, sys_time = 0\<rparr>"

definition first_process :: "u64 dl" where
  "first_process = \<lparr>heap = (\<lambda>a. if unat a < 0x20000 then Some 0 else None), gm = 4096, smallmap = 0, treemap = 0,
     dvsize = 0, topsize = 0, least_addr = 0, dv = 0, topc = 0, trim_check = 0, release_checks = 0, gm_magic = 0,
     footprint = 0, max_footprint = 0, footprint_limit = 0, mflags = 0,
     mparams = \<lparr>mp_magic = 0, page_size = 0, granularity = 0, mmap_threshold = 0, trim_threshold = 0, default_mflags = 0\<rparr>,
     enomem = False, os = 0x20000\<rparr>"

lemma brk_machine_ok: "brk_only brk_machine id 0x2F000"
  unfolding brk_only_def by (auto simp: brk_machine_def mem_range_def)

lemma first_process_words:
  assumes "i < 32"
  shows "unat (bin_node first_process i) = 4168 + 16 * i" "unat (slot_of first_process i) = 4696 + 8 * i"
proof -
  show "unat (bin_node first_process i) = 4168 + 16 * i"
    using assms by (simp add: bin_node_eq unat_word_ariths unat_of_nat first_process_def)
  show "unat (slot_of first_process i) = 4696 + 8 * i"
    using assms unfolding slot_of_eq [OF assms] by (simp add: unat_word_ariths unat_of_nat first_process_def)
qed

lemma first_process_untouched: "untouched id 0x2F000 first_process"
proof -
  have sg: "seg_at first_process = 4984" by (simp add: seg_at_def first_process_def)
  have h: "heap first_process a = Some 0" if "unat a < 0x20000" for a using that by (simp add: first_process_def)
  have "has first_process (fd_at (bin_node first_process i)) \<and> has first_process (bk_at (bin_node first_process i))
    \<and> heap first_process (slot_of first_process i) = Some 0" if i: "i < 32" for i
  proof -
    note w = first_process_words [OF i]
    have "unat (fd_at (bin_node first_process i)) = 4184 + 16 * i" "unat (bk_at (bin_node first_process i)) = 4192 + 16 * i"
      using i by (simp_all add: fd_at_def bk_at_def unat_word_ariths w)
    then show ?thesis using i w by (simp add: has_def h)
  qed
  then show ?thesis
    unfolding untouched_def sg
    by (simp add: has_def ld_def h ssize_at_def snext_at_def sflags_at_def) (simp add: first_process_def)
qed

text \<open>What the first calls of a client do on this machine.\<close>

abbreviation machine_run where
  "machine_run \<equiv> client_run (dlmalloc brk_machine) (dlfree brk_machine) st chunksize"

lemma machine_malloc:
  "\<exists>s. dlmalloc brk_machine first_process 100 = Some (0x20010, s) \<and> chunksize s 0x20000 = Some 112
    \<and> owns id 0x2F000 s {(0x20000, 112)}"
proof -
  have r: "request2size 100 = 112" by (simp add: request2size_def pad_request_def)
  have u: "untouched id 0x2F000 first_process" by (rule first_process_untouched)
  have f: "fresh first_process"
    using u unfolding fresh_def untouched_def by (simp add: first_process_def)
  have b: "brk_at brk_machine (heap first_process, os first_process) 0x20000 0x1000"
    by (simp add: brk_at_def brk_machine_def mapped_range_def first_process_def word_le_nat_alt)
  have h: "sys_getpagesize brk_machine = 4096" "(100 :: u64) < MAX_REQUEST"
    "unat (request2size 100) + 96 + 4095 < 2 ^ 63"
    by (simp_all add: brk_machine_def word_less_nat_alt r)
  have "brk_at brk_machine (heap first_process, os first_process) 0x20000
    ((request2size 100 + 96 + 4095) AND NOT 4095)"
    unfolding r using b by simp
  from first_malloc_eq [OF f h this] obtain s where
    s: "dlmalloc brk_machine first_process 100 = Some (0x20010, s)" "ld s (head_at 0x20000) = Some (112 OR PINUSE_BIT OR CINUSE_BIT)"
    unfolding r by (auto simp: chunk2mem_def)
  have z: "chunksize s 0x20000 = Some 112" using s(2) by (simp add: chunksize_def head_size_def)
  have "owns id 0x2F000 first_process {}" using u by (simp add: owns_def)
  from dlmalloc_law [OF brk_machine_ok this, of 100] obtain p n where
    p: "0x20010 = chunk2mem p" "owns id 0x2F000 s {(p, n)}"
    using s(1) by (auto simp: legal_size_def)
  have "p = 0x20000" using p(1) by (simp add: chunk2mem_def eq_diff_eq [symmetric])
  moreover have "chunksize s p = Some n" using blocks_okD(1) [OF owns_blocks [OF p(2)]] by (simp add: block_ok_def)
  ultimately show ?thesis using s(1) z p(2) by auto
qed

lemma machine_runs:
  "\<exists>s s'. owns id 0x2F000 s {(0x20000, 112)} \<and> machine_run (first_process, {}) [Malloc 100] (s, {(0x20000, 112)})
    \<and> machine_run (s, {(0x20000, 112)}) [Store 0x20010 7] (s', {(0x20000, 112)})"
proof -
  obtain s where s: "dlmalloc brk_machine first_process 100 = Some (0x20010, s)" "chunksize s 0x20000 = Some 112"
    "owns id 0x2F000 s {(0x20000, 112)}" using machine_malloc by blast
  have "client_step (dlmalloc brk_machine) (dlfree brk_machine) st chunksize (first_process, {}) (Malloc 100) (s, {(0x20000, 112)})"
    using got [where alloc = "dlmalloc brk_machine", OF s(1), of chunksize 112 "dlfree brk_machine" st "{}"] s(2)
    by (simp add: mem2chunk_def)
  moreover have pl: "0x20010 \<in> payload 0x20000 112" by (simp add: payload_def)
  then have "st s 0x20010 7 = Some (upd s 0x20010 7)" using owns_store(1) [OF s(3)] by simp
  then have "client_step (dlmalloc brk_machine) (dlfree brk_machine) st chunksize (s, {(0x20000, 112)}) (Store 0x20010 7)
      (upd s 0x20010 7, {(0x20000, 112)})"
    using pl by (intro wrote) auto
  ultimately show ?thesis using s(3) by (auto simp: client_run_Cons)
qed

section \<open>Properties\<close>

text \<open>C4. On a system whose only memory is the break, at any time of the process, from before the first
  call on, \<open>dlmalloc\<close> returns: either a null pointer, the client owning what it owned, or
  a block large enough for the request that overlaps no other block. The
  contents of the client's blocks are unchanged.\<close>

theorem dlmalloc_sound:
  assumes "brk_only S brk lim" and "owns brk lim s U" and "legal_size bytes"
  shows "\<exists>mem s'. dlmalloc S s bytes = Some (mem, s') \<and> (\<forall>(p, n) \<in> U. \<forall>a \<in> payload p n. ld s' a = ld s a)
    \<and> (mem = 0 \<and> owns brk lim s' U
       \<or> (\<exists>p n. mem = chunk2mem p \<and> mem \<noteq> 0 \<and> unat bytes + 8 \<le> unat n \<and> owns brk lim s' (insert (p, n) U)
            \<and> (\<forall>(q, m) \<in> U. own p n \<inter> own q m = {})))"
  using dl.alloc_apart [of "(S, brk, lim)"] assms by simp

theorem dlmalloc_sound_witness:
  "\<exists>mem s'. dlmalloc brk_machine first_process 100 = Some (mem, s')
    \<and> (mem = 0 \<and> owns id 0x2F000 s' {} \<or> (\<exists>p n. mem = chunk2mem p \<and> 108 \<le> unat n \<and> owns id 0x2F000 s' {(p, n)}))"
proof -
  have "owns id 0x2F000 first_process {}" using first_process_untouched by (simp add: owns_def)
  from dlmalloc_sound [OF brk_machine_ok this, of 100] show ?thesis by (auto simp: legal_size_def)
qed

text \<open>C5. \<open>dlfree\<close> of a block that the client owns returns, whatever the state of its neighbours, the bins and
  the top chunk; the client owns the other blocks, with their contents.\<close>

theorem dlfree_sound:
  assumes "owns brk lim s U" and "(p, n) \<in> U"
  shows "\<exists>s'. dlfree S s (chunk2mem p) = Some s' \<and> owns brk lim s' (U - {(p, n)})
    \<and> (\<forall>(q, m) \<in> U - {(p, n)}. \<forall>a \<in> payload q m. ld s' a = ld s a)"
  using dlfree_owns [OF assms, of S] by (simp add: contents_kept_def ld_def)

theorem dlfree_sound_witness:
  "\<exists>s s'. owns id 0x2F000 s {(0x20000, 112)} \<and> dlfree brk_machine s 0x20010 = Some s' \<and> owns id 0x2F000 s' {}"
proof -
  obtain s where s: "owns id 0x2F000 s {(0x20000, 112)}" using machine_malloc by blast
  from dlfree_sound [OF s, of "0x20000" 112 brk_machine] s show ?thesis by (auto simp: chunk2mem_def)
qed

text \<open>A block that is freed right after it was allocated: the client owns what it owned, with the
  same contents.\<close>

theorem malloc_free_cancel:
  assumes "brk_only S brk lim" and "owns brk lim s U" and "legal_size bytes"
  shows "\<exists>mem s1. dlmalloc S s bytes = Some (mem, s1) \<and> (mem = 0 \<and> owns brk lim s1 U
    \<or> (\<exists>s2. dlfree S s1 mem = Some s2 \<and> owns brk lim s2 U \<and> (\<forall>(p, n) \<in> U. \<forall>a \<in> payload p n. ld s2 a = ld s a)))"
  using dl.alloc_release [of "(S, brk, lim)"] assms by simp

theorem malloc_free_cancel_witness:
  "\<exists>s. owns id 0x2F000 s {(0x20000, 112)} \<and> (\<exists>mem s1. dlmalloc brk_machine s 5000 = Some (mem, s1)
    \<and> (mem = 0 \<or> (\<exists>s2. dlfree brk_machine s1 mem = Some s2 \<and> owns id 0x2F000 s2 {(0x20000, 112)})))"
proof -
  obtain s where s: "owns id 0x2F000 s {(0x20000, 112)}" using machine_malloc by blast
  from malloc_free_cancel [OF brk_machine_ok s, of 5000] s show ?thesis by (fastforce simp: legal_size_def)
qed

text \<open>C2. Any client, from the start of the process: after every run of calls its blocks are aligned, marked in
  use with their size, mapped and apart from each other, and no call that it may make next gets stuck: requests, giving
  back a block it owns and storing in one neither abort nor fault.\<close>

theorem heap_type_sound:
  assumes S: "brk_only S brk lim" and u: "untouched brk lim s"
    and run: "client_run (dlmalloc S) (dlfree S) st chunksize (s, {}) cs (s', U)"
    and legal: "\<forall>k. Malloc k \<in> set cs \<longrightarrow> legal_size k"
  shows "blocks_ok s' U
    \<and> (\<forall>k. legal_size k \<longrightarrow> (\<exists>y. client_step (dlmalloc S) (dlfree S) st chunksize (s', U) (Malloc k) y))
    \<and> (\<forall>(p, n) \<in> U. (\<exists>y. client_step (dlmalloc S) (dlfree S) st chunksize (s', U) (Free (chunk2mem p)) y)
        \<and> (\<forall>a \<in> payload p n. \<forall>v. \<exists>y. client_step (dlmalloc S) (dlfree S) st chunksize (s', U) (Store a v) y))"
proof -
  have "owns brk lim s {}" using u by (simp add: owns_def)
  with dl.run_owns [of "(S, brk, lim)" "(s, {})" cs "(s', U)"] S run legal have o: "owns brk lim s' U" by simp
  show ?thesis
    using owns_blocks [OF o] dl.step_possible [of "(S, brk, lim)" s' U] S o by auto
qed

theorem heap_type_sound_witness:
  "\<exists>s. machine_run (first_process, {}) [Malloc 100] (s, {(0x20000, 112)}) \<and> blocks_ok s {(0x20000, 112)}
    \<and> (\<exists>y. client_step (dlmalloc brk_machine) (dlfree brk_machine) st chunksize (s, {(0x20000, 112)}) (Free 0x20010) y)"
proof -
  obtain s where s: "machine_run (first_process, {}) [Malloc 100] (s, {(0x20000, 112)})" using machine_runs by blast
  from heap_type_sound [OF brk_machine_ok first_process_untouched s] s show ?thesis
    by (auto simp: legal_size_def chunk2mem_def)
qed

text \<open>C3. The heap is memory: through any run of calls, a block that is not given back stays the client's, and
  each of its words holds what the client stored there last, or what it held before.\<close>

theorem heap_contents:
  assumes S: "brk_only S brk lim" and o: "owns brk lim s U"
    and run: "client_run (dlmalloc S) (dlfree S) st chunksize (s, U) cs (s', U')"
    and legal: "\<forall>k. Malloc k \<in> set cs \<longrightarrow> legal_size k"
    and b: "(p, n) \<in> U" "Free (chunk2mem p) \<notin> set cs"
  shows "owns brk lim s' U' \<and> (p, n) \<in> U' \<and> (\<forall>a \<in> payload p n. ld s' a = written a (ld s a) cs)"
  using dl.run_owns [of "(S, brk, lim)" "(s, U)" cs "(s', U')"] S o run legal b by auto

theorem heap_contents_witness:
  "\<exists>s s'. machine_run (s, {(0x20000, 112)}) [Store 0x20010 7] (s', {(0x20000, 112)}) \<and> ld s' 0x20010 = Some 7
    \<and> ld s' 0x20018 = ld s 0x20018"
proof -
  obtain s s' where s: "owns id 0x2F000 s {(0x20000, 112)}"
    "machine_run (s, {(0x20000, 112)}) [Store 0x20010 7] (s', {(0x20000, 112)})" using machine_runs by blast
  have "0x20010 \<in> payload 0x20000 112" "0x20018 \<in> payload 0x20000 112" by (simp_all add: payload_def)
  then have "ld s' 0x20010 = Some 7" "ld s' 0x20018 = ld s 0x20018"
    using heap_contents [OF brk_machine_ok s, of "0x20000" 112] by auto
  then show ?thesis using s(2) by blast
qed

end
