(* ===== verification/DlReshape.thy ===== *)
theory DlReshape
  imports DlApi DlRuns
begin

text \<open>
  A block in use that changes its size in place: \<open>try_realloc_chunk\<close> gives back the end of a block
  that shrinks, and takes what it needs of the free block or of the top chunk after a block that grows.
\<close>

section \<open>The hole after a block\<close>

text \<open>What a client keeps of a block that has a new size.\<close>

lemma keeps_narrow:
  assumes "keeps s s' (zs @ (p, n, True) # ys)" and "x \<le> n"
  shows "keeps s s' (zs @ (p, x, True) # ys)"
proof -
  have "payload p x \<subseteq> payload p n" using assms(2) by (auto simp: payload_def word_le_nat_alt)
  then show ?thesis using assms(1) unfolding keeps_def by fastforce
qed

lemma arena_after:
  assumes a: "arena s (zs @ (p, n, True) # ys)"
  shows "hole s False (zs @ [(p, n, True)]) (p + n) 0 True ys"
proof (cases ys)
  case Nil
  have "topc s = p + n" using a by (auto simp: Nil arena_def tiled_append)
  then show ?thesis using arena_end [OF a] by (simp add: Nil)
next
  case (Cons c rest)
  obtain q m u where c: "c = (q, m, u)" by (cases c)
  have a': "arena s ((zs @ [(p, n, True)]) @ (q, m, u) # rest)" using a Cons c by simp
  have "q = p + n" using a by (auto simp: Cons c arena_def tiled_append)
  moreover have "pin (zs @ [(p, n, True)])" by (simp add: pin_def)
  ultimately show ?thesis using arena_open [OF a'] by (simp add: Cons c)
qed

lemma hole_nothing:
  assumes "hole s False xs b 0 True ys"
  shows "arena s (xs @ ys)"
  using assms unfolding hole_def gap_def arena_def tiled_append by auto

text \<open>The head of the block before the hole is rewritten with another size.\<close>

lemma hole_resize:
  fixes m :: u64
  assumes h: "hole s d (zs @ [(p, n, True)]) (p + n) k v ys"
    and m: "32 \<le> unat m" "unat m mod 16 = 0" "unat m \<le> unat n + unat k"
  defines "s' \<equiv> upd s (head_at p) (head_word m (pin zs) True)" and "j \<equiv> n + k - m"
  shows "hole s' d (zs @ [(p, m, True)]) (p + m) j v ys" and "keeps s s' (zs @ (p, n, True) # ys)"
    and "ld s (head_at p) = Some (head_word n (pin zs) True)" and "unat n mod 16 = 0"
    and "unat j = unat n + unat k - unat m" and "unat p + unat n + unat k + 8 < 2 ^ 64" and "p + m + j = p + n + k"
proof -
  let ?xs = "zs @ [(p, n, True)]" and ?x = "head_at p"
  have g: "gap s d ?xs (p + n) k v ys" and po: "pool s (frees (?xs @ ys) - {(dv s, dvsize s)})"
    using h by (auto simp: hole_def)
  have pm: "(p, n, True) \<in> set (?xs @ ys)" by simp
  note r = gap_range(4) [OF g pm] and dj = gap_disjoint [OF g pm]
  have kk: "unat k mod 16 = 0" "unat (p + n) + unat k + 8 < 2 ^ 64" using g by (simp_all add: gap_def)
  have pn: "unat (p + n) = unat p + unat n" using r by (intro unat_sum) simp
  show bound: "unat p + unat n + unat k + 8 < 2 ^ 64" using kk(2) pn by simp
  have nk: "unat (n + k) = unat n + unat k" using bound by (intro unat_sum') simp
  show uj: "unat j = unat n + unat k - unat m" unfolding j_def using m(3) nk by (simp add: unat_sub word_le_nat_alt)
  show e: "p + m + j = p + n + k" by (simp add: j_def)
  show "unat n mod 16 = 0" using r by simp
  have t: "tiled (heap s) (least_addr s) True ?xs (p + n) True" "tiled (heap s) (p + n + k) v ys (topc s) True"
    using g by (simp_all add: gap_def)
  obtain a mu where z: "tiled (heap s) (least_addr s) True zs a mu" "tiled (heap s) a mu [(p, n, True)] (p + n) True"
    using t(1) unfolding tiled_append by blast
  then have z': "a = p" "mu = pin zs" "heap s ?x = Some (head_word n (pin zs) True)" using tiled_pin [OF z(1)] by auto
  then show "ld s ?x = Some (head_word n (pin zs) True)" by (simp add: ld_def)
  have xo: "?x \<in> own p n" using r links_inner(3) [of n p] by blast
  have hs: "heap s' c = heap s c" if "c \<noteq> ?x" for c using that by (simp add: s'_def)
  have ud: "(p, n, True) \<noteq> (q, i, u)" if "(q, i, u) \<in> set zs \<or> (q, i, u) \<in> set ys" for q i u
  proof -
    have "q \<noteq> p" using that tiled_range [OF z(1)] tiled_range [OF t(2)] r pn kk(2) z'(1) unat_sum [of "p + n" k]
      by fastforce
    then show ?thesis by simp
  qed
  have firm: "?x \<notin> firm c" if c: "c \<in> set zs \<or> c \<in> set ys" for c
  proof -
    obtain q i u where cc: "c = (q, i, u)" by (cases c)
    have mem: "(q, i, u) \<in> set (?xs @ ys)" using c cc by auto
    have "own p n \<inter> own q i = {}" using dj(5) [OF mem] ud c cc by blast
    moreover have "firm (q, i, u) \<subseteq> own q i" using gap_range(4) [OF g mem] firm_own(1) [of i q u] by blast
    ultimately show ?thesis using xo cc by blast
  qed
  have tz: "tiled (heap s') (least_addr s) True zs p (pin zs)" "tiled (heap s') (p + n + k) v ys (topc s) True"
    using tiled_cong [OF z(1) [unfolded z'(1,2)]] tiled_cong [OF t(2)] firm hs by metis+
  have "tiled (heap s') (least_addr s) True (zs @ [(p, m, True)]) (p + m) True"
    unfolding tiled_append using tz(1) m bound by (intro exI [of _ p] exI [of _ "pin zs"]) (simp add: s'_def)
  moreover have sel: "least_addr s' = least_addr s" "topc s' = topc s" "topsize s' = topsize s" "top_end s' = top_end s"
    "trim_check s' = trim_check s" "gm s' = gm s" "dv s' = dv s" "dvsize s' = dvsize s"
    by (simp_all add: s'_def top_end_def)
  moreover have "segment s'"
  proof -
    have u: "unat (gm s) + 920 \<le> 2 ^ 64" "seg_rec s" using g by (simp_all add: gap_def segment_def)
    have "heap s' c = heap s c" if "c \<in> seg_words s" for c using dj(4) xo that by (intro hs) blast
    from seg_rec_cong [OF u(2,1) sel(6,1,4) this] have "seg_rec s'" .
    moreover have "has s c \<Longrightarrow> has s' c" for c by (simp add: s'_def)
    ultimately show ?thesis using g by (simp add: gap_def segment_def sel)
  qed
  moreover have "top_ok s'"
  proof -
    have "head_at (topc s) \<noteq> ?x" using dj(3) xo by auto
    then show ?thesis using g hs by (simp add: gap_def top_ok_def sel ld_def)
  qed
  moreover have "victim d s' ((zs @ [(p, m, True)]) @ ys)"
    using g by (auto simp: gap_def victim_def sel split: if_splits)
  moreover have "unat j mod 16 = 0"
  proof -
    have "16 dvd unat n + unat k - unat m"
      using r kk(1) m(2) by (intro dvd_diff_nat dvd_add) (simp_all add: dvd_eq_mod_eq_0)
    then show ?thesis by (simp add: uj dvd_eq_mod_eq_0)
  qed
  moreover have "unat (p + m) = unat p + unat m" using m(3) bound by (intro unat_sum') simp
  then have "unat (p + m) + unat j + 8 < 2 ^ 64" using uj m(3) bound by simp
  ultimately have g': "gap s' d (zs @ [(p, m, True)]) (p + m) j v ys"
    using tz(2) unfolding gap_def sel e by blast
  have "pool s' (frees (?xs @ ys) - {(dv s, dvsize s)})"
  proof (rule pool_frame [OF po])
    fix y assume y: "y \<in> statics s \<union> words_of (frees (?xs @ ys) - {(dv s, dvsize s)})"
    have "?x \<notin> statics s" using dj(2) xo by blast
    moreover have "?x \<notin> words_of (frees (?xs @ ys))" using dj(5) [of _ _ False] xo by (fastforce simp: words_of_def frees_def)
    ultimately have "y \<noteq> ?x" using y words_of_mono [of "frees (?xs @ ys) - {(dv s, dvsize s)}" "frees (?xs @ ys)"] by blast
    then show "heap s' y = heap s y" by (rule hs)
  qed (simp_all add: s'_def)
  then show "hole s' d (zs @ [(p, m, True)]) (p + m) j v ys" using g' by (simp add: hole_def sel)
  show "keeps s s' (zs @ (p, n, True) # ys)"
  proof (intro keepsI hs)
    show "settings s' = settings s" by (simp add: s'_def)
    fix q i a assume qa: "(q, i, True) \<in> set (zs @ (p, n, True) # ys)" "a \<in> payload q i"
    show "a \<noteq> ?x"
    proof (cases "(q, i, True) = (p, n, True)")
      case True
      have "unat ?x = unat p + 8" using r by (simp add: head_at_def unat_word_ariths)
      then show ?thesis using True qa(2) by (auto simp: payload_def)
    next
      case False
      then have "?x \<notin> firm (q, i, True)" using qa(1) by (intro firm) auto
      then show ?thesis using qa(2) by auto
    qed
  qed
qed

section \<open>Marking a block in use\<close>

lemma head_word_inuse:
  assumes "unat n mod 16 = 0"
  shows "(head_word n pu u AND PINUSE_BIT) OR m OR CINUSE_BIT = head_word m pu True"
proof -
  have "head_word n pu u AND PINUSE_BIT = (if pu then PINUSE_BIT else 0)"
    using head_words(3) [OF size_AND_7 [OF assms], of "flags pu u"]
    by (cases pu; cases u) (simp_all add: head_word_def flags_values)
  then show ?thesis by (cases pu) (simp_all add: head_word_def flags_def ac_simps del: flag_values)
qed

text \<open>\<open>set_inuse\<close> gives the block before the hole another size; what is left of the hole is nothing or a
  chunk of its own.\<close>

lemma hole_set_inuse:
  fixes m :: u64
  assumes h: "hole s d (zs @ [(p, n, True)]) (p + n) k v ys"
    and m: "32 \<le> unat m" "unat m mod 16 = 0" "unat m \<le> unat n + unat k"
  defines "j \<equiv> n + k - m"
  assumes j: "j = 0 \<or> 32 \<le> unat j"
  shows "\<exists>s'. set_inuse s p m = Some s' \<and> hole s' d (zs @ [(p, m, True)]) (p + m) j (v \<or> j = 0) ys
    \<and> (j = 0 \<or> (\<exists>w. ld s' (head_at (p + m)) = Some w \<and> w AND PINUSE_BIT = PINUSE_BIT))
    \<and> (\<forall>x. x \<le> n \<longrightarrow> x \<le> m \<longrightarrow> keeps s s' (zs @ (p, x, True) # ys))"
proof -
  let ?s = "upd s (head_at p) (head_word m (pin zs) True)"
  note r = hole_resize [OF h m, folded j_def]
  have st: "st s (head_at p) ((head_word n (pin zs) True AND PINUSE_BIT) OR m OR CINUSE_BIT) = Some ?s"
    unfolding head_word_inuse [OF r(4)] by (rule st_has [OF ld_has [OF r(3)]])
  have si: "set_inuse s p m = or_pinuse ?s (p + m)"
    unfolding set_inuse_def r(3) by (simp add: st del: flag_values)
  have ke: "keeps s s' (zs @ (p, x, True) # ys)"
    if k: "keeps ?s s' ((zs @ [(p, m, True)]) @ ys)" and x: "x \<le> n" "x \<le> m" for s' x
  proof -
    have "keeps ?s s' (zs @ (p, m, True) # ys)" using k by simp
    from keeps_trans [OF keeps_narrow [OF r(2) x(1)] keeps_narrow [OF this x(2)]] show ?thesis .
  qed
  show ?thesis
  proof (cases "j = 0")
    case True
    obtain s' where s': "or_pinuse ?s (p + m) = Some s'" "hole s' d (zs @ [(p, m, True)]) (p + m) j True ys"
      "keeps ?s s' ((zs @ [(p, m, True)]) @ ys)"
      using hole_or_next [OF r(1)] True by auto
    then show ?thesis using si ke True by auto
  next
    case False
    then have j32: "32 \<le> unat j" using j by simp
    note o = hole_own(1) [OF r(1) j32]
    have "has ?s (head_at (p + m))" by (rule hole_upd(3) [OF r(1) o])
    then obtain w where w: "ld ?s (head_at (p + m)) = Some w" by (auto simp: has_def ld_def)
    let ?t = "upd ?s (head_at (p + m)) (w OR PINUSE_BIT)"
    note u = hole_upd(1,2) [OF r(1) o, of "w OR PINUSE_BIT"]
    have "set_inuse s p m = Some ?t"
      unfolding si or_pinuse_def w using st_has [OF ld_has [OF w]] by (simp del: flag_values)
    moreover have "(w OR PINUSE_BIT) AND PINUSE_BIT = PINUSE_BIT" by (simp add: bit.conj_disj_distrib2)
    moreover have "ld ?t (head_at (p + m)) = Some (w OR PINUSE_BIT)" by simp
    ultimately show ?thesis using u(1) ke [OF u(2)] False by (intro exI [of _ ?t]) (simp del: ld_upd flag_values)
  qed
qed

section \<open>Giving back the end of a block\<close>

text \<open>The block at \<open>p\<close> has a new size, at least \<open>nb\<close>; the contents up to the smaller size are kept, and so are
  all other blocks.\<close>

definition resized :: "'o dl \<Rightarrow> block list \<Rightarrow> u64 \<Rightarrow> u64 \<Rightarrow> block list \<Rightarrow> u64 \<Rightarrow> 'o dl \<Rightarrow> bool" where
  "resized s zs p n ys nb s' \<longleftrightarrow> (\<exists>m lay'. nb \<le> m \<and> arena s' lay' \<and> useds lay' = insert (p, m) (useds (zs @ ys))
     \<and> (\<forall>x. x \<le> n \<longrightarrow> x \<le> m \<longrightarrow> keeps s s' (zs @ (p, x, True) # ys)))"

lemma set_inuse_pinuse:
  assumes "ld s (head_at r) = Some w" and "w AND PINUSE_BIT = PINUSE_BIT"
  shows "set_inuse s r n = set_inuse_and_pinuse s r n"
proof -
  have "(w AND PINUSE_BIT) OR n OR CINUSE_BIT = n OR PINUSE_BIT OR CINUSE_BIT"
    unfolding assms(2) by (simp add: ac_simps del: flag_values)
  then show ?thesis by (simp add: set_inuse_def set_inuse_and_pinuse_def assms(1) del: flag_values)
qed

lemma split_off_ok:
  fixes m :: u64
  assumes h: "hole s False (zs @ [(p, n, True)]) (p + n) k v ys"
    and m: "32 \<le> unat m" "unat m mod 16 = 0" "unat m + 32 \<le> unat n + unat k"
  shows "\<exists>s'. split_off S s p m (n + k - m) = Some s' \<and> resized s zs p n ys m s'"
proof -
  define j where "j = n + k - m"
  have m3: "unat m \<le> unat n + unat k" using m(3) by simp
  note r = hole_resize(5) [OF h m(1,2) m3, folded j_def]
  have j: "32 \<le> unat j" "j \<noteq> 0" using r m(3) by auto
  then have j': "j = 0 \<or> 32 \<le> unat j" by simp
  let ?xs = "zs @ [(p, m, True)]"
  obtain s1 w where s1: "set_inuse s p m = Some s1" "hole s1 False ?xs (p + m) j v ys"
    "ld s1 (head_at (p + m)) = Some w" "w AND PINUSE_BIT = PINUSE_BIT"
    "\<forall>x. x \<le> n \<longrightarrow> x \<le> m \<longrightarrow> keeps s s1 (zs @ (p, x, True) # ys)"
    using hole_set_inuse [OF h m(1,2) m3, folded j_def, OF j'] j(2) by auto
  obtain s2 where s2: "set_inuse s1 (p + m) j = Some s2" "arena s2 (?xs @ (p + m, j, True) # ys)" "keeps s1 s2 (?xs @ ys)"
    using hole_use [OF s1(2) j(1)] unfolding set_inuse_pinuse [OF s1(3,4)] by blast
  have "(p + m, j) \<in> useds (?xs @ (p + m, j, True) # ys)" by simp
  from dispose_chunk_ok [OF s2(2) this, of S]
  obtain s3 lay' where s3: "dispose_chunk S s2 (p + m) j = Some s3" "arena s3 lay'"
    "useds lay' = useds (?xs @ (p + m, j, True) # ys) - {(p + m, j)}" "keeps s2 s3 lay'"
    unfolding freed_def by blast
  have "(p + m, j) \<notin> useds (?xs @ ys)" using hole_not_block [OF s1(2) j(1)] by (auto simp: useds_def)
  then have u: "useds lay' = useds (?xs @ ys)" unfolding s3(3) by auto
  have "keeps s s3 (zs @ (p, x, True) # ys)" if x: "x \<le> n" "x \<le> m" for x
  proof -
    have "keeps s2 s3 (?xs @ ys)" using s3(4) u unfolding keeps_def by simp
    from keeps_trans [OF s2(3) this] have "keeps s1 s3 (zs @ (p, m, True) # ys)" by simp
    from keeps_trans [OF _ keeps_narrow [OF this x(2)]] s1(5) x show ?thesis by blast
  qed
  then have "resized s zs p n ys m s3" using s3(2) u unfolding resized_def by (intro exI [of _ m] exI [of _ lay']) simp
  moreover have "split_off S s p m j = Some s3" using s1(1) s2(1) s3(1) by (simp add: split_off_def)
  ultimately show ?thesis unfolding j_def by blast
qed

section \<open>Growing in place\<close>

lemma hole_sum:
  assumes h: "hole s d (zs @ [(p, n, True)]) (p + n) k v ys"
  shows "unat (n + k) = unat n + unat k" "32 \<le> unat n" "unat n mod 16 = 0" "unat k mod 16 = 0"
    and "unat (n + k) mod 16 = 0" "unat p + unat n + unat k + 8 < 2 ^ 64"
proof -
  have g: "gap s d (zs @ [(p, n, True)]) (p + n) k v ys" using h by (simp add: hole_def)
  have "(p, n, True) \<in> set ((zs @ [(p, n, True)]) @ ys)" by simp
  note r = gap_range(4) [OF g this]
  then show "32 \<le> unat n" "unat n mod 16 = 0" by simp_all
  show k: "unat k mod 16 = 0" using g by (simp add: gap_def)
  have "unat (p + n) = unat p + unat n" using r by (intro unat_sum) simp
  then show b: "unat p + unat n + unat k + 8 < 2 ^ 64" using g by (simp add: gap_def)
  then show s: "unat (n + k) = unat n + unat k" by (intro unat_sum') simp
  show "unat (n + k) mod 16 = 0" using k r by (simp add: s mod_add_eq [symmetric])
qed

lemma extend_into_next_ok:
  fixes nb :: u64
  assumes h: "hole s False (zs @ [(p, n, True)]) (p + n) 0 True ((q, k, False) # ys)" and q: "q \<noteq> dv s"
    and nb: "32 \<le> unat nb" "unat nb mod 16 = 0"
  shows "extend_into_next S s p q n nb = Some (0, s)
    \<or> (\<exists>s'. extend_into_next S s p q n nb = Some (p, s') \<and> resized s zs p n ((q, k, False) # ys) nb s')"
proof (cases "n + k \<ge> nb")
  case False
  have "unat k mod 16 = 0" "heap s (head_at q) = Some (head_word k True False)" using h by (auto simp: hole_def gap_def)
  then have "chunksize s q = Some k" by (simp add: chunksize_def ld_def head_word_fields)
  then show ?thesis using False by (simp add: extend_into_next_def)
next
  case True
  let ?xs = "zs @ [(p, n, True)]"
  have "unat k mod 16 = 0" "heap s (head_at q) = Some (head_word k True False)" using h by (auto simp: hole_def gap_def)
  then have c: "chunksize s q = Some k" by (simp add: chunksize_def ld_def head_word_fields)
  obtain s1 where s1: "unlink_chunk s q k = Some s1" "hole s1 False ?xs (p + n) k False ys" "keeps s s1 (?xs @ ys)"
    using hole_unlink [OF h q] by auto
  have re: "resized s zs p n ((q, k, False) # ys) nb s'" if s': "resized s1 zs p n ys m s'" "nb \<le> m" for s' m
  proof -
    obtain i lay' where i: "m \<le> i" "arena s' lay'" "useds lay' = insert (p, i) (useds (zs @ ys))"
      "\<forall>x. x \<le> n \<longrightarrow> x \<le> i \<longrightarrow> keeps s1 s' (zs @ (p, x, True) # ys)"
      using s'(1) unfolding resized_def by blast
    have "keeps s s' (zs @ (p, x, True) # (q, k, False) # ys)" if x: "x \<le> n" "x \<le> i" for x
    proof -
      have "keeps s s1 (zs @ (p, n, True) # ys)" using s1(3) by simp
      from keeps_trans [OF keeps_narrow [OF this x(1)]] i(4) x have "keeps s s' (zs @ (p, x, True) # ys)" by blast
      then show ?thesis by (rule keeps_mono) auto
    qed
    then show ?thesis using i(2,3) order_trans [OF s'(2) i(1)] unfolding resized_def
      by (intro exI [of _ i] exI [of _ lay']) simp
  qed
  note r = hole_sum [OF s1(2)]
  have nk: "unat nb \<le> unat n + unat k" using True r(1) by (simp add: word_le_nat_alt)
  have rs: "unat (n + k - nb) = unat n + unat k - unat nb" using True r(1) by (simp add: unat_sub)
  obtain s2 m where s2: "(if n + k - nb < MIN_CHUNK_SIZE then set_inuse s1 p (n + k)
      else split_off S s1 p nb (n + k - nb)) = Some s2" "resized s1 zs p n ys m s2" "nb \<le> m"
  proof (cases "n + k - nb < MIN_CHUNK_SIZE")
    case small: True
    have "unat (n + k) mod 16 = 0" "32 \<le> unat (n + k)" using r by auto
    then obtain s2 where "set_inuse s1 p (n + k) = Some s2" "hole s2 False (zs @ [(p, n + k, True)]) (p + (n + k)) 0 True ys"
      "\<forall>x. x \<le> n \<longrightarrow> x \<le> n + k \<longrightarrow> keeps s1 s2 (zs @ (p, x, True) # ys)"
      using hole_set_inuse [OF s1(2), of "n + k"] r(1) by auto
    moreover from hole_nothing [OF this(2)] have "arena s2 (zs @ (p, n + k, True) # ys)" by simp
    ultimately have "set_inuse s1 p (n + k) = Some s2" "resized s1 zs p n ys (n + k) s2"
      unfolding resized_def by (auto intro!: exI [of _ "n + k"] exI [of _ "zs @ (p, n + k, True) # ys"])
    then show ?thesis using that [of s2 "n + k"] small True by simp
  next
    case False
    then have "unat nb + 32 \<le> unat n + unat k" using rs nk by (simp add: word_less_nat_alt)
    from split_off_ok [OF s1(2) nb this, of S] show ?thesis using that [of _ nb] False by auto
  qed
  have "extend_into_next S s p q n nb = Some (p, s2)"
    using True c s1(1) s2(1) by (simp add: extend_into_next_def Let_def)
  then show ?thesis using re [OF s2(2,3)] by blast
qed

text \<open>Out of the designated victim.\<close>

lemma hole_no_dv:
  assumes h: "hole s True xs b k v ys"
  shows "hole (s\<lparr>dv := 0, dvsize := 0\<rparr>) False xs b k v ys"
proof -
  have g: "gap s True xs b k v ys" using h by (simp add: hole_def)
  have nz: "(0, m, u) \<notin> set (xs @ ys)" for m u
    using gap_range(4) [OF g, of 0 m u] g by (auto simp: gap_def segment_def)
  have old: "(dv s, m, u) \<notin> set (xs @ ys)" for m u using g by (auto simp: gap_def victim_def)
  have fr: "frees (xs @ ys) - {(x, y)} = frees (xs @ ys)" if "\<And>u. (x, y, u) \<notin> set (xs @ ys)" for x y
    using that [of False] by (auto simp: frees_def)
  show ?thesis
    by (rule hole_dv_update(1) [OF h refl]) (simp add: victim_def, simp only: fr [OF nz] fr [OF old])
qed

lemma hole_next_inuse:
  assumes "hole s d xs b k False ys"
  shows "clear_pinuse s (b + k) = Some s"
proof -
  obtain q m rest where ys: "ys = (q, m, True) # rest"
  proof (cases ys)
    case Nil
    then show ?thesis using hole_top_next assms by fast
  next
    case (Cons c rest)
    obtain q m u where "c = (q, m, u)" by (cases c)
    then show ?thesis using that assms Cons by (auto simp: hole_def gap_def)
  qed
  note r = hole_mark_next(1-3) [OF assms [unfolded ys]]
  show ?thesis
    using r(2) st_has [OF ld_has [OF r(2)]] upd_same [OF r(2)] unfolding r(1)
    by (simp add: clear_pinuse_def head_word_pinuse(1) [OF r(3)] del: flag_values)
qed

lemma keeps_dv: "keeps s (s'\<lparr>dv := x, dvsize := y\<rparr>) bs \<longleftrightarrow> keeps s s' bs"
  by (simp add: keeps_def)

lemma extend_into_dv_ok:
  fixes nb :: u64
  assumes h: "hole s False (zs @ [(p, n, True)]) (p + n) 0 True ((q, k, False) # ys)" and q: "q = dv s"
    and nb: "32 \<le> unat nb" "unat nb mod 16 = 0"
  shows "extend_into_dv s p n nb = Some (0, s)
    \<or> (\<exists>s'. extend_into_dv s p n nb = Some (p, s') \<and> resized s zs p n ((q, k, False) # ys) nb s')"
proof (cases "n + k \<ge> nb")
  case False
  then show ?thesis using hole_victim(2) [OF h q] by (simp add: extend_into_dv_def)
next
  case True
  let ?xs = "zs @ [(p, n, True)]"
  note hv = hole_victim [OF h q]
  have h1: "hole s True ?xs (p + n) k False ys" using hv(1) by simp
  note r = hole_sum [OF h1]
  have nk: "unat nb \<le> unat n + unat k" using True r(1) by (simp add: word_le_nat_alt)
  define j where "j = n + k - nb"
  have rs: "unat j = unat n + unat k - unat nb" using True r(1) by (simp add: j_def unat_sub)
  have re: "resized s zs p n ((q, k, False) # ys) nb s'" if s': "arena s' lay'" "nb \<le> m" "useds lay' = insert (p, m) (useds (zs @ ys))"
    "\<forall>x. x \<le> n \<longrightarrow> x \<le> m \<longrightarrow> keeps s s' (zs @ (p, x, True) # ys)" for s' m lay'
  proof -
    have "keeps s s' (zs @ (p, x, True) # (q, k, False) # ys)" if x: "x \<le> n" "x \<le> m" for x
    proof -
      have "keeps s s' (zs @ (p, x, True) # ys)" using s'(4) x by blast
      then show ?thesis by (rule keeps_mono) auto
    qed
    then show ?thesis using s'(1-3) unfolding resized_def
      by (intro exI [of _ m] exI [of _ lay']) simp
  qed
  show ?thesis
  proof (cases "j \<ge> MIN_CHUNK_SIZE")
    case big: True
    then have j: "32 \<le> unat j" by (simp add: word_le_nat_alt)
    then have j0: "j = 0 \<or> 32 \<le> unat j" "j \<noteq> 0" by auto
    let ?ys = "zs @ [(p, nb, True)]"
    obtain s1 where s1: "set_inuse s p nb = Some s1" "hole s1 True ?ys (p + nb) j False ys"
      "\<forall>x. x \<le> n \<longrightarrow> x \<le> nb \<longrightarrow> keeps s s1 (zs @ (p, x, True) # ys)"
      using hole_set_inuse [OF h1 nb nk, folded j_def, OF j0(1)] j0(2) by auto
    obtain s2 where s2: "set_size_and_pinuse_of_free_chunk s1 (p + nb) j = Some s2" "hole s2 True ?ys (p + nb) j False ys"
      "filled s2 (p + nb) j" "keeps s1 s2 (?ys @ ys)"
      using hole_fill [OF s1(2) j] by blast
    let ?s = "s2\<lparr>dv := p + nb, dvsize := j\<rparr>"
    have "hole ?s True ?ys (p + nb) j False ys" by (rule hole_set_dv(1) [OF s2(2) j]) simp
    then have a: "arena ?s (?ys @ (p + nb, j, False) # ys)" using s2(3) by (intro hole_close_dv [OF _ j]) simp_all
    have "extend_into_dv s p n nb = Some (p, ?s)"
      using True big s1(1) s2(1) hole_next_inuse [OF s2(2)] hv(2) by (simp add: extend_into_dv_def Let_def j_def dv_swap)
    moreover have "keeps s ?s (zs @ (p, x, True) # ys)" if x: "x \<le> n" "x \<le> nb" for x
    proof -
      have "keeps s1 s2 (zs @ (p, nb, True) # ys)" using s2(4) by simp
      from keeps_trans [OF _ keeps_narrow [OF this x(2)]] s1(3) x show ?thesis unfolding keeps_dv by blast
    qed
    then have "resized s zs p n ((q, k, False) # ys) nb ?s" by (intro re [OF a, of nb]) auto
    ultimately show ?thesis by blast
  next
    case False
    obtain s1 where s1: "set_inuse s p (n + k) = Some s1" "hole s1 True (zs @ [(p, n + k, True)]) (p + (n + k)) 0 True ys"
      "\<forall>x. x \<le> n \<longrightarrow> x \<le> n + k \<longrightarrow> keeps s s1 (zs @ (p, x, True) # ys)"
      using hole_set_inuse [OF h1, of "n + k"] r by auto
    let ?s = "s1\<lparr>dv := 0, dvsize := 0\<rparr>"
    have a: "arena ?s (zs @ (p, n + k, True) # ys)" using hole_nothing [OF hole_no_dv [OF s1(2)]] by simp
    have "extend_into_dv s p n nb = Some (p, ?s)"
      using True False s1(1) hv(2) by (simp add: extend_into_dv_def Let_def j_def dv_swap)
    moreover have "resized s zs p n ((q, k, False) # ys) nb ?s"
      using s1(3) True by (intro re [OF a, of "n + k"]) (auto simp: keeps_dv)
    ultimately show ?thesis by blast
  qed
qed

text \<open>Out of the top chunk.\<close>

lemma extend_into_top_ok:
  fixes nb :: u64
  assumes h: "hole s False (zs @ [(p, n, True)]) (p + n) 0 True []"
    and nb: "32 \<le> unat nb" "unat nb mod 16 = 0" "n \<le> nb"
  shows "extend_into_top s p n nb = Some (0, s)
    \<or> (\<exists>s'. extend_into_top s p n nb = Some (p, s') \<and> resized s zs p n [] nb s')"
proof (cases "n + topsize s > nb")
  case False
  then show ?thesis by (simp add: extend_into_top_def)
next
  case True
  let ?xs = "zs @ [(p, n, True)]" and ?t = "p + nb"
  define z where "z = n + topsize s - nb"
  note r = hole_sum [OF h]
  have g: "segment s" "top_ok s" "topc s = p + n" using h by (auto simp: hole_def gap_def)
  have pn: "unat (p + n) = unat p + unat n" using r(6) by (intro unat_sum) simp
  have te: "top_end s = unat p + unat n + unat (topsize s)" by (simp add: top_end_def g(3) pn)
  have tb: "top_end s + 80 < 2 ^ 64" using g(1) by (simp add: segment_def)
  have ts: "unat (topsize s) mod 16 = 0" using g(2) by (simp add: top_ok_def)
  have un: "unat (n + topsize s) = unat n + unat (topsize s)" using te tb by (intro unat_sum') simp
  have lt: "unat nb < unat n + unat (topsize s)" using True un by (simp add: word_less_nat_alt)
  then have uz: "unat z = unat n + unat (topsize s) - unat nb" using un by (simp add: z_def unat_sub word_le_nat_alt)
  have z16: "unat z mod 16 = 0"
    unfolding uz using r(3) ts nb(2) by (metis dvd_diff_nat dvd_add dvd_eq_mod_eq_0)
  have uj: "unat (nb - n) = unat nb - unat n" using nb(3) by (simp add: unat_sub)
  have j16: "unat (nb - n) mod 16 = 0" unfolding uj using r(3) nb(2) by (metis dvd_diff_nat dvd_eq_mod_eq_0)
  have nn: "unat n \<le> unat nb" using nb(3) by (simp add: word_le_nat_alt)
  let ?s1 = "upd (s\<lparr>topsize := z, topc := ?t\<rparr>) (head_at ?t) (head_word z True False)"
  have "hole ?s1 False ?xs (p + n) (nb - n) True []" and k1: "keeps s ?s1 ?xs" and ht: "has s (head_at ?t)"
    by (rule hole_retop [OF h, of ?t "nb - n" z]; use te uz uj lt nn z16 j16 pn in \<open>simp\<close>)+
  note h1 = this(1)
  have "unat nb \<le> unat n + unat (nb - n)" using uj nn by simp
  note r2 = hole_resize(1-3) [OF h1 nb(1,2) this]
  let ?hp = "head_at p" and ?ht = "head_at ?t" and ?X = "head_word nb (pin zs) True" and ?Z = "head_word z True False"
  have "p \<noteq> ?t" using nb(1) by auto
  then have ne: "?hp \<noteq> ?ht" by (simp add: head_at_def)
  have hp: "ld s ?hp = Some (head_word n (pin zs) True)" using r2(3) ne by simp
  obtain w where w: "ld s ?ht = Some w" using ht by (auto simp: has_def ld_def)
  let ?s2 = "upd ?s1 ?hp ?X"
  have a: "arena ?s2 (zs @ [(p, nb, True)])" using hole_nothing [of ?s2 "zs @ [(p, nb, True)]"] r2(1) by simp
  have "set_inuse s p nb = Some (upd (upd s ?hp ?X) ?ht (w OR PINUSE_BIT))"
    unfolding set_inuse_def hp
    by (simp add: head_word_inuse [OF r(3)] st_has [OF ld_has [OF hp]] or_pinuse_def w ne [symmetric] st_has ht del: flag_values)
  moreover have "(upd (upd (upd s ?hp ?X) ?ht (w OR PINUSE_BIT)) ?ht ?Z)\<lparr>topc := ?t, topsize := z\<rparr> = ?s2"
    using ne by (simp add: upd_def fun_upd_twist)
  ultimately have "extend_into_top s p n nb = Some (p, ?s2)"
    using True by (simp add: extend_into_top_def Let_def st_has z_def head_word_eqs del: flag_values)
  moreover have "keeps s ?s2 (zs @ [(p, x, True)])" if x: "x \<le> n" for x
    by (rule keeps_narrow [OF keeps_trans [OF k1 r2(2)] x])
  then have "resized s zs p n [] nb ?s2"
    using a unfolding resized_def by (intro exI [of _ nb] exI [of _ "zs @ [(p, nb, True)]"]) simp
  ultimately show ?thesis by blast
qed

section \<open>try_realloc_chunk\<close>

lemma resized_same:
  assumes "arena s (zs @ (p, n, True) # ys)" and "nb \<le> n"
  shows "resized s zs p n ys nb s"
  using assms unfolding resized_def by (intro exI [of _ n] exI [of _ "zs @ (p, n, True) # ys"]) simp

lemma try_realloc_chunk_ok:
  fixes nb :: u64
  assumes a: "arena s (zs @ (p, n, True) # ys)" and nb: "32 \<le> unat nb" "unat nb mod 16 = 0"
  shows "try_realloc_chunk S s p nb cm = Some (0, s)
    \<or> (\<exists>s'. try_realloc_chunk S s p nb cm = Some (p, s') \<and> resized s zs p n ys nb s')"
proof -
  have h: "hole s False (zs @ [(p, n, True)]) (p + n) 0 True ys" by (rule arena_after [OF a])
  note r = hole_sum [OF h] and ap = arena_pin [OF a]
  have hd: "chunksize s p = Some n" "is_inuse s p = Some True" "is_mmapped s p = Some False"
    using ap(1) by (simp_all add: chunksize_def is_inuse_def is_mmapped_def ld_def head_word_fields [OF r(3)])
  obtain w where w: "ld s (head_at (p + n)) = Some w" "head_pinuse w" "head_cinuse w = (\<exists>q j rest. ys = (q, j, True) # rest)"
    using hole_next_head [OF h] by auto
  have un: "unat (p + n) = unat p + unat n" using r(6) by (intro unat_sum) simp
  then have okn: "ok_next p (p + n)" using r(2) by (simp add: ok_next_def word_less_nat_alt)
  have tr: "try_realloc_chunk S s p nb cm =
     (if n \<ge> nb then do { s \<leftarrow> (if n - nb \<ge> MIN_CHUNK_SIZE then split_off S s p nb (n - nb) else Some s); Some (p, s) }
      else if p + n = topc s then extend_into_top s p n nb
      else if p + n = dv s then extend_into_dv s p n nb
      else if \<not> head_cinuse w then extend_into_next S s p (p + n) n nb else Some (0, s))"
    using hd okn ap(5) w(1,2) by (simp add: try_realloc_chunk_def pinuse_def cinuse_def Let_def cong: if_cong)
  show ?thesis
  proof (cases "n \<ge> nb")
    case True
    show ?thesis
    proof (cases "n - nb \<ge> MIN_CHUNK_SIZE")
      case big: True
      have "unat (n - nb) = unat n - unat nb" using True by (simp add: unat_sub)
      then have "unat nb + 32 \<le> unat n + unat (0 :: u64)" using True big by (simp add: word_le_nat_alt)
      from split_off_ok [OF h nb this, of S] show ?thesis unfolding tr using True big by auto
    next
      case False
      then show ?thesis unfolding tr using True resized_same [OF a True] by simp
    qed
  next
    case False
    show ?thesis
    proof (cases ys)
      case Nil
      then have "p + n = topc s" using hole_top_next h by fastforce
      then show ?thesis unfolding tr using False extend_into_top_ok [OF h [unfolded Nil] nb] Nil by simp
    next
      case (Cons c rest)
      obtain q k u where c: "c = (q, k, u)" by (cases c)
      have g: "gap s False (zs @ [(p, n, True)]) (p + n) 0 True ((q, k, u) # rest)" using h by (simp add: hole_def Cons c)
      have q: "q = p + n" "32 \<le> unat k" using gap_grow(1,4) [OF g] by simp_all
      have nt: "p + n \<noteq> topc s" using gap_range(4) [OF g, of q k u] q by auto
      show ?thesis
      proof (cases u)
        case True
        have "p + n \<noteq> dv s"
        proof
          assume e: "p + n = dv s"
          have m: "(q, k, True) \<in> set ((zs @ [(p, n, True)]) @ (q, k, u) # rest)" using True by simp
          have "p + n \<noteq> 0" using un r(2) by auto
          then have "(q, dvsize s, False) \<in> set ((zs @ [(p, n, True)]) @ (q, k, u) # rest)"
            using g e q(1) by (simp add: gap_def victim_def)
          from gap_unique(2) [OF g m this] show False by simp
        qed
        moreover have "head_cinuse w" using w(3) Cons c True by simp
        ultimately show ?thesis unfolding tr using False nt by simp
      next
        case fr: False
        have h': "hole s False (zs @ [(p, n, True)]) (p + n) 0 True ((q, k, False) # rest)" using h Cons c fr by simp
        have "\<not> head_cinuse w" using w(3) Cons c fr by simp
        then show ?thesis
          unfolding tr using False nt extend_into_dv_ok [OF h' _ nb] extend_into_next_ok [OF h' _ nb, of S] Cons c fr q(1)
          by (cases "p + n = dv s") simp_all
      qed
    qed
  qed
qed

text \<open>The same for the client's set of blocks.\<close>

definition reshaped :: "('o \<Rightarrow> u64) \<Rightarrow> nat \<Rightarrow> 'o dl \<Rightarrow> (u64 \<times> u64) set \<Rightarrow> u64 \<Rightarrow> u64 \<Rightarrow> u64 \<Rightarrow> 'o dl \<Rightarrow> bool" where
  "reshaped brk lim s U p n nb s' \<longleftrightarrow> (\<exists>m. nb \<le> m \<and> owns brk lim s' (insert (p, m) (U - {(p, n)}))
     \<and> contents_kept s s' (U - {(p, n)}) \<and> (\<forall>a \<in> payload p n \<inter> payload p m. heap s' a = heap s a))"

lemma owns_block:
  assumes "owns brk lim s U" and "(p, n) \<in> U"
  obtains zs ys where "arena s (zs @ (p, n, True) # ys)" and "sited brk lim s" and "useds (zs @ ys) = U - {(p, n)}"
proof -
  obtain lay where a: "arena s lay" "sited brk lim s" "useds lay = U" using assms by (auto simp: owns_def)
  obtain zs ys where lay: "lay = zs @ (p, n, True) # ys" using used_split [OF a(1), of p n] assms(2) a(3) by blast
  have "useds (zs @ ys) = U - {(p, n)}" unfolding a(3) [symmetric] lay by (rule used_once [OF a(1) [unfolded lay]])
  with a(1,2) show ?thesis unfolding lay by (rule that)
qed

lemma resized_reshaped:
  assumes s: "sited brk lim s" and U: "useds (zs @ ys) = U - {(p, n)}" and re: "resized s zs p n ys nb s'"
  shows "reshaped brk lim s U p n nb s'"
proof -
  obtain i lay' where i: "nb \<le> i" "arena s' lay'" "useds lay' = insert (p, i) (useds (zs @ ys))"
    "\<forall>x. x \<le> n \<longrightarrow> x \<le> i \<longrightarrow> keeps s s' (zs @ (p, x, True) # ys)"
    using re unfolding resized_def by blast
  have "keeps s s' (zs @ (p, min n i, True) # ys)" using i(4) by simp
  then have "contents_kept s s' (useds (zs @ (p, min n i, True) # ys))" and se: "settings s' = settings s"
    unfolding keeps_def contents_kept_def by blast+
  then have c: "contents_kept s s' (insert (p, min n i) (U - {(p, n)}))" using U by simp
  have "sited brk lim s'" using s sited_settings [OF se] by simp
  then have "owns brk lim s' (insert (p, i) (U - {(p, n)}))" using i(2,3) U unfolding owns_def by auto
  moreover have "payload p n \<inter> payload p i \<subseteq> payload p (min n i)" by (auto simp: payload_def min_def)
  then have "heap s' a = heap s a" if "a \<in> payload p n \<inter> payload p i" for a
    using c that unfolding contents_kept_def by blast
  moreover have "contents_kept s s' (U - {(p, n)})" using c unfolding contents_kept_def by blast
  ultimately show ?thesis using i(1) unfolding reshaped_def by blast
qed

lemma try_realloc_owns:
  fixes nb :: u64
  assumes o: "owns brk lim s U" and m: "(p, n) \<in> U" and nb: "32 \<le> unat nb" "unat nb mod 16 = 0"
  shows "try_realloc_chunk S s p nb cm = Some (0, s)
    \<or> (\<exists>s'. try_realloc_chunk S s p nb cm = Some (p, s') \<and> reshaped brk lim s U p n nb s')"
proof -
  obtain zs ys where a: "arena s (zs @ (p, n, True) # ys)" "sited brk lim s" "useds (zs @ ys) = U - {(p, n)}"
    using owns_block [OF o m] .
  then show ?thesis using try_realloc_chunk_ok [OF a(1) nb, of S cm] resized_reshaped [OF a(2,3)] by blast
qed

end
