(* ===== verification/DlRealloc.thy ===== *)
theory DlRealloc
  imports DlReshape
begin

text \<open>
  The routines that look inside the client's blocks: \<open>dlrealloc\<close> keeps or copies the bytes that the
  old block and the new one have in common, and \<open>dlcalloc\<close> clears the block it returns.
\<close>

section \<open>Bytes\<close>

text \<open>Byte \<open>k\<close> of the memory at \<open>a\<close>, which is aligned to words.\<close>

definition word_byte :: "u64 \<Rightarrow> nat \<Rightarrow> u64" where
  "word_byte w k = take_bit 8 (drop_bit (8 * (k mod 8)) w)"

definition byte_at :: "'o dl \<Rightarrow> u64 \<Rightarrow> nat \<Rightarrow> u64 option" where
  "byte_at s a k = map_option (\<lambda>w. word_byte w k) (ld s (a + of_nat (8 * (k div 8))))"

definition span :: "u64 \<Rightarrow> nat \<Rightarrow> u64 set" where
  "span a n = {a + of_nat (8 * i) |i. 8 * i < n}"

lemma bit_word_byte: "bit (word_byte w k) i \<longleftrightarrow> i < 8 \<and> bit w (8 * (k mod 8) + i)"
  by (auto simp: word_byte_def bit_take_bit_iff bit_drop_bit_eq)

lemma bit_low_bytes: "bit (low_bytes n) i \<longleftrightarrow> i < 64 \<and> i < 8 * n"
  by (auto simp: low_bytes_def bit_mask_iff)

lemma word_byte_merge:
  assumes "k < n" "n < 8"
  shows "word_byte ((w AND NOT (low_bytes n)) OR (x AND low_bytes n)) k = word_byte x k"
    and "word_byte (w AND NOT (low_bytes n)) k = 0"
proof -
  have k: "8 * (k mod 8) + i < 8 * n" "8 * (k mod 8) + i < 64" if "i < 8" for i using that assms by auto
  show "word_byte ((w AND NOT (low_bytes n)) OR (x AND low_bytes n)) k = word_byte x k"
    by (rule bit_word_eqI) (use k in \<open>auto simp: bit_word_byte bit_and_iff bit_or_iff bit_not_iff bit_low_bytes\<close>)
  show "word_byte (w AND NOT (low_bytes n)) k = 0"
    by (rule bit_word_eqI) (use k in \<open>auto simp: bit_word_byte bit_and_iff bit_not_iff bit_low_bytes\<close>)
qed

lemma byte_at_0: "k < 8 \<Longrightarrow> byte_at s a k = map_option (\<lambda>w. word_byte w k) (ld s a)"
  by (simp add: byte_at_def)

lemma byte_at_8:
  assumes "8 \<le> k"
  shows "byte_at s a k = byte_at s (a + 8) (k - 8)"
proof -
  obtain j where j: "k = 8 + j" using assms le_Suc_ex by blast
  have d: "k div 8 = Suc (j div 8)" "k mod 8 = j mod 8" by (simp_all add: j)
  have "a + of_nat (8 * Suc (j div 8)) = a + 8 + of_nat (8 * (j div 8))" by (simp add: ac_simps)
  then show ?thesis unfolding byte_at_def word_byte_def d by (simp add: j add.assoc)
qed

lemma span_iff: "x \<in> span a n \<longleftrightarrow> (0 < n \<and> x = a) \<or> (\<exists>i. x = a + 8 + of_nat (8 * i) \<and> 8 * i + 8 < n)"
proof -
  have ex: "(\<exists>i. Q i) \<longleftrightarrow> Q 0 \<or> (\<exists>i. Q (Suc i))" for Q :: "nat \<Rightarrow> bool" by (metis not0_implies_Suc)
  have s: "a + of_nat (8 * Suc i) = a + 8 + of_nat (8 * i)" "8 * Suc i = 8 * i + 8" for i by (simp_all add: ac_simps)
  show ?thesis unfolding span_def mem_Collect_eq by (subst ex) (simp only: s, auto)
qed

lemma span_8:
  assumes "8 \<le> n" "n < 2 ^ 64"
  shows "span a n = insert a (span (a + 8) (n - 8))" and "a \<notin> span (a + 8) (n - 8)"
proof -
  have e: "8 * i < n - 8 \<longleftrightarrow> 8 * i + 8 < n" for i :: nat using assms(1) by linarith
  have sp: "x \<in> span (a + 8) (n - 8) \<longleftrightarrow> (\<exists>i. x = a + 8 + of_nat (8 * i) \<and> 8 * i + 8 < n)" for x
    unfolding span_def mem_Collect_eq e ..
  show "span a n = insert a (span (a + 8) (n - 8))"
    using assms(1) by (intro set_eqI) (simp only: insert_iff sp span_iff [of _ a], simp)
  show "a \<notin> span (a + 8) (n - 8)"
  proof
    assume "a \<in> span (a + 8) (n - 8)"
    then obtain i where i: "a = a + (8 + of_nat (8 * i))" "8 * i + 8 < n" unfolding sp add.assoc by blast
    then have "8 + of_nat (8 * i) = (0 :: u64)" by (metis add_cancel_left_right)
    then have "of_nat (8 * i + 8) = (0 :: u64)" by (simp add: ac_simps)
    moreover have "unat (of_nat (8 * i + 8) :: u64) = 8 * i + 8"
      using i(2) assms(2) by (intro of_nat_inverse) auto
    ultimately show False by simp
  qed
qed

lemma span_byte: "k < n \<Longrightarrow> a + of_nat (8 * (k div 8)) \<in> span a n"
  unfolding span_def by (intro CollectI exI [of _ "k div 8"] conjI refl) linarith

lemma span_small: "0 < n \<Longrightarrow> n < 8 \<Longrightarrow> span a n = {a}"
  by (auto simp: span_iff)

text \<open>What \<open>memcpy\<close> does, with an invariant that the stores keep.\<close>

lemma memcpy_words_ok:
  assumes "\<And>s x v. P s \<Longrightarrow> x \<in> D \<Longrightarrow> has s x \<and> P (upd s x v)" and "P s" and "n < 2 ^ 64"
    and "span d n \<subseteq> D" and "\<And>x. x \<in> span a n \<Longrightarrow> has s x \<and> x \<notin> D"
  shows "\<exists>s'. memcpy_words s d a n = Some s' \<and> P s' \<and> (\<forall>x. x \<notin> span d n \<longrightarrow> heap s' x = heap s x)
    \<and> (\<forall>k < n. byte_at s' d k = byte_at s a k)"
  using assms(2-)
proof (induction s d a n rule: memcpy_words.induct)
  case (1 s d a n)
  consider "n = 0" | "0 < n" "n < 8" | "8 \<le> n" by linarith
  then show ?case
  proof cases
    case 1
    then show ?thesis using \<open>P s\<close> by (auto simp: memcpy_words.simps)
  next
    case 2
    then have sp: "span d n = {d}" "span a n = {a}" by (simp_all add: span_small)
    then have d: "d \<in> D" "has s d" "has s a" using 1 assms(1) by auto
    then obtain w x where w: "ld s d = Some w" "ld s a = Some x" by (auto simp: has_def ld_def)
    let ?v = "(w AND NOT (low_bytes n)) OR (x AND low_bytes n)"
    have "memcpy_words s d a n = Some (upd s d ?v)" using 2 w d by (simp add: memcpy_words.simps [of s] st_has)
    moreover have "byte_at (upd s d ?v) d k = byte_at s a k" if k: "k < n" for k
      using word_byte_merge(1) [OF k 2(2)] k 2 w by (simp add: byte_at_0)
    ultimately show ?thesis using assms(1) [OF 1(2) d(1)] sp by auto
  next
    case 3
    have sp: "span x n = insert x (span (x + 8) (n - 8))" "x \<notin> span (x + 8) (n - 8)" for x
      using span_8 [OF 3 1(3)] .
   
    have d: "d \<in> D" using 1(4) sp(1) [of d] by blast
    have a: "has s a" "a \<notin> D" using 1(5) [of a] sp(1) [of a] by blast+
    have hd: "has s d" using assms(1) [OF 1(2) d] by blast
    obtain x where x: "ld s a = Some x" using a by (auto simp: has_def ld_def)
    let ?s = "upd s d x"
    have "\<exists>s'. memcpy_words ?s (d + 8) (a + 8) (n - 8) = Some s' \<and> P s'
      \<and> (\<forall>x. x \<notin> span (d + 8) (n - 8) \<longrightarrow> heap s' x = heap ?s x)
      \<and> (\<forall>k < n - 8. byte_at s' (d + 8) k = byte_at ?s (a + 8) k)"
      using 1(1) [OF _ _ x st_has [OF hd]] 3 assms(1) [OF 1(2) d] 1(3-5) sp(1) [of d] sp(1) [of a] by simp
    then obtain s' where s': "memcpy_words ?s (d + 8) (a + 8) (n - 8) = Some s'" "P s'"
      "\<forall>y. y \<notin> span (d + 8) (n - 8) \<longrightarrow> heap s' y = heap ?s y"
      "\<forall>k < n - 8. byte_at s' (d + 8) k = byte_at ?s (a + 8) k" by blast
    have "memcpy_words s d a n = Some s'" using 3 x hd s'(1) by (simp add: memcpy_words.simps [of s] st_has)
    moreover have "byte_at s' d k = byte_at s a k" if k: "k < n" for k
    proof (cases "k < 8")
      case True
      have "ld s' d = Some x" using s'(3) sp(2) by (simp add: ld_def)
      then show ?thesis using x True by (simp add: byte_at_0)
    next
      case False
      then have "byte_at s' d k = byte_at ?s (a + 8) (k - 8)" using s'(4) k by (simp add: byte_at_8)
      also have "\<dots> = byte_at s (a + 8) (k - 8)"
      proof -
        have "a + 8 + of_nat (8 * ((k - 8) div 8)) \<in> span a n"
          using span_byte [of "k - 8" "n - 8" "a + 8"] k False sp(1) [of a] by simp
        then have "a + 8 + of_nat (8 * ((k - 8) div 8)) \<noteq> d" using 1(5) d by blast
        then show ?thesis by (simp add: byte_at_def)
      qed
      finally show ?thesis using False by (simp add: byte_at_8)
    qed
    ultimately show ?thesis using s'(2,3) sp(1) by auto
  qed
qed

text \<open>And \<open>memset\<close> with zeros.\<close>

lemma memset_zero_ok:
  assumes "\<And>s x v. P s \<Longrightarrow> x \<in> D \<Longrightarrow> has s x \<and> P (upd s x v)" and "P s" and "n < 2 ^ 64" and "span a n \<subseteq> D"
  shows "\<exists>s'. memset_zero s a n = Some s' \<and> P s' \<and> (\<forall>x. x \<notin> span a n \<longrightarrow> heap s' x = heap s x)
    \<and> (\<forall>k < n. byte_at s' a k = Some 0)"
  using assms(2-)
proof (induction s a n rule: memset_zero.induct)
  case (1 s a n)
  consider "n = 0" | "0 < n" "n < 8" | "8 \<le> n" by linarith
  then show ?case
  proof cases
    case 1
    then show ?thesis using \<open>P s\<close> by (auto simp: memset_zero.simps)
  next
    case 2
    then have sp: "span a n = {a}" by (simp add: span_small)
    then have d: "a \<in> D" "has s a" using 1 assms(1) by auto
    then obtain w where w: "ld s a = Some w" by (auto simp: has_def ld_def)
    let ?v = "w AND NOT (low_bytes n)"
    have "memset_zero s a n = Some (upd s a ?v)" using 2 w d by (simp add: memset_zero.simps [of s] st_has)
    moreover have "byte_at (upd s a ?v) a k = Some 0" if k: "k < n" for k
      using word_byte_merge(2) [OF k 2(2)] k 2 w by (simp add: byte_at_0)
    ultimately show ?thesis using assms(1) [OF 1(2) d(1)] sp by auto
  next
    case 3
    have sp: "span x n = insert x (span (x + 8) (n - 8))" "x \<notin> span (x + 8) (n - 8)" for x
      using span_8 [OF 3 1(3)] .
    have d: "a \<in> D" using 1(4) sp(1) [of a] by blast
    have hd: "has s a" using assms(1) [OF 1(2) d] by blast
    let ?s = "upd s a 0"
    have "\<exists>s'. memset_zero ?s (a + 8) (n - 8) = Some s' \<and> P s'
      \<and> (\<forall>x. x \<notin> span (a + 8) (n - 8) \<longrightarrow> heap s' x = heap ?s x) \<and> (\<forall>k < n - 8. byte_at s' (a + 8) k = Some 0)"
      using 1(1) [OF _ _ st_has [OF hd]] 3 assms(1) [OF 1(2) d] 1(3-4) sp(1) [of a] by simp
    then obtain s' where s': "memset_zero ?s (a + 8) (n - 8) = Some s'" "P s'"
      "\<forall>y. y \<notin> span (a + 8) (n - 8) \<longrightarrow> heap s' y = heap ?s y"
      "\<forall>k < n - 8. byte_at s' (a + 8) k = Some 0" by blast
    have "memset_zero s a n = Some s'" using 3 hd s'(1) by (simp add: memset_zero.simps [of s] st_has)
    moreover have "byte_at s' a k = Some 0" if k: "k < n" for k
    proof (cases "k < 8")
      case True
      have "ld s' a = Some 0" using s'(3) sp(2) by (simp add: ld_def)
      then show ?thesis using True by (simp add: byte_at_0 word_byte_def)
    next
      case False
      then show ?thesis using s'(4) k by (simp add: byte_at_8)
    qed
    ultimately show ?thesis using s'(2,3) sp(1) by auto
  qed
qed

section \<open>The bytes of a block\<close>

lemma owns_used:
  assumes "owns brk lim s U" and "(p, n) \<in> U"
  shows "unat (chunk2mem p) = unat p + 16" "chunk2mem p \<noteq> 0" "unat p + unat n + 8 < 2 ^ 64" "32 \<le> unat n"
    and "chunksize s p = Some n" "is_mmapped s p = Some False" "mem2chunk (chunk2mem p) = p"
    and "a \<in> payload p n \<Longrightarrow> has s a" and "p \<noteq> 0" and "unat n < 2 ^ 40"
proof -
  obtain lay where a: "arena s lay" "useds lay = U" using assms by (auto simp: owns_def)
  have m: "(p, n) \<in> useds lay" using a(2) assms(2) by simp
  show "unat (chunk2mem p) = unat p + 16" "chunk2mem p \<noteq> 0" "unat p + unat n + 8 < 2 ^ 64" "32 \<le> unat n"
    using used_block [OF a(1) m] by simp_all
  have "0 < unat (least_addr s)" "unat (topc s) < unat (least_addr s) + 2 ^ 40"
    using a(1) by (simp_all add: arena_def segment_def top_end_def)
  then show "p \<noteq> 0" "unat n < 2 ^ 40" using used_block(2,3) [OF a(1) m] by auto
  obtain zs ys where "lay = zs @ (p, n, True) # ys" and n: "unat n mod 16 = 0" "unat p + unat n + 8 < 2 ^ 64" "32 \<le> unat n"
    and hw: "heap s (head_at p) = Some (head_word n (pin zs) True)" "ok_address s p"
    using used_split [OF a(1) m] .
  show "chunksize s p = Some n" "is_mmapped s p = Some False"
    using hw(1) by (simp_all add: chunksize_def is_mmapped_def ld_def head_word_fields [OF n(1)])
  show "mem2chunk (chunk2mem p) = p" by (simp add: chunk2mem_def mem2chunk_def)
  show "a \<in> payload p n \<Longrightarrow> has s a"
    using blocks_okD(1) [OF owns_blocks [OF assms(1)] assms(2)] by (simp add: block_ok_def)
qed

lemma same_address:
  assumes o: "owns brk lim s U" "(p, n) \<in> U"
  shows "(p, m) \<notin> U - {(p, n)}"
proof
  assume pu: "(p, m) \<in> U - {(p, n)}"
  then have "own p n \<inter> own p m = {}" using blocks_okD(2) [OF owns_blocks [OF o(1)] o(2), of p m] by auto
  moreover have "head_at p \<in> own p n" "head_at p \<in> own p m"
    using owns_used(3,4) [OF o] owns_used(3,4) [OF o(1), of p m] pu links_inner(3) [of n p] links_inner(3) [of m p] by auto
  ultimately show False by blast
qed

lemma span_payload:
  assumes o: "owns brk lim s U" "(p, n) \<in> U" and k: "k \<le> unat n - 8"
  shows "span (chunk2mem p) k \<subseteq> payload p n"
proof
  fix x assume "x \<in> span (chunk2mem p) k"
  then obtain i where i: "x = chunk2mem p + of_nat (8 * i)" "8 * i < k" by (auto simp: span_def)
  note r = owns_used [OF o]
  have "unat (of_nat (8 * i) :: u64) = 8 * i" using i(2) k r(3) by (intro of_nat_inverse) auto
  moreover have "unat x = unat (chunk2mem p) + unat (of_nat (8 * i) :: u64)"
    unfolding i(1) using calculation i(2) k r(1,3) by (intro unat_sum') simp
  ultimately show "x \<in> payload p n" using r(1) i(2) k by (simp add: payload_def)
qed

lemma bytes_kept:
  assumes o: "owns brk lim s U" "(p, n) \<in> U" and k: "k < unat n - 8"
    and h: "\<And>a. a \<in> span (chunk2mem p) (Suc k) \<Longrightarrow> heap s' a = heap s a"
  shows "byte_at s' (chunk2mem p) k = byte_at s (chunk2mem p) k"
  using h [OF span_byte [OF lessI]] by (simp add: byte_at_def ld_def)

text \<open>Writes into one block leave the others alone.\<close>

lemma write_owns:
  assumes "owns brk lim s U" "(q, m) \<in> U" and "x \<in> payload q m"
  shows "has s x \<and> owns brk lim (upd s x v) U"
  using owns_used(8) [OF assms] owns_store(2) [OF assms] by blast

lemma others_kept:
  assumes o: "owns brk lim s (insert (q, m) U)" "(q, m) \<notin> U" and h: "\<And>x. x \<notin> payload q m \<Longrightarrow> heap s' x = heap s x"
  shows "contents_kept s s' U"
proof -
  have "own p n \<inter> own q m = {}" if "(p, n) \<in> U" for p n
    using blocks_okD(2) [OF owns_blocks [OF o(1)], of p n q m] that o(2) by auto
  then show ?thesis using h payload_own unfolding contents_kept_def by blast
qed

section \<open>dlcalloc\<close>

lemma dlcalloc_owns:
  assumes S: "brk_only S brk lim" and o: "owns brk lim s U" and k: "legal_size (calloc_request e z)"
  shows "\<exists>mem s'. dlcalloc S s e z = Some (mem, s') \<and> contents_kept s s' U
    \<and> (mem = 0 \<and> owns brk lim s' U \<or> (\<exists>p n. mem = chunk2mem p \<and> mem \<noteq> 0 \<and> unat (calloc_request e z) + 8 \<le> unat n
         \<and> (p, n) \<notin> U \<and> owns brk lim s' (insert (p, n) U) \<and> (\<forall>i < unat (calloc_request e z). byte_at s' mem i = Some 0)))"
proof -
  let ?r = "calloc_request e z"
  obtain mem s1 where s1: "dlmalloc S s ?r = Some (mem, s1)" "contents_kept s s1 U"
    "mem = 0 \<and> owns brk lim s1 U \<or> (\<exists>p n. mem = chunk2mem p \<and> mem \<noteq> 0 \<and> unat ?r + 8 \<le> unat n \<and> (p, n) \<notin> U
       \<and> owns brk lim s1 (insert (p, n) U))"
    using dlmalloc_law [OF S o k] by (auto simp: contents_kept_def ld_def)
  from s1(3) show ?thesis
  proof (elim disjE exE conjE)
    assume "mem = 0" "owns brk lim s1 U"
    then show ?thesis using s1(1,2) by (simp add: dlcalloc_def Let_def)
  next
    fix p n assume m: "mem = chunk2mem p" "mem \<noteq> 0" "unat ?r + 8 \<le> unat n" "(p, n) \<notin> U"
      and o1: "owns brk lim s1 (insert (p, n) U)"
    have pn: "(p, n) \<in> insert (p, n) U" by simp
    note u = owns_used [OF o1 pn]
    have sp: "span mem (unat ?r) \<subseteq> payload p n" unfolding m(1) using m(3) by (intro span_payload [OF o1 pn]) simp
    have "unat ?r < 2 ^ 64" using unsigned_less [of ?r] by simp
    from memset_zero_ok [where P = "\<lambda>s. owns brk lim s (insert (p, n) U)" and D = "payload p n", OF write_owns [OF _ pn] o1 this sp]
    obtain s2 where s2: "memset_zero s1 mem (unat ?r) = Some s2" "owns brk lim s2 (insert (p, n) U)"
      "\<forall>x. x \<notin> span mem (unat ?r) \<longrightarrow> heap s2 x = heap s1 x" "\<forall>i < unat ?r. byte_at s2 mem i = Some 0" by blast
    have "heap s2 x = heap s1 x" if "x \<notin> payload p n" for x using s2(3) sp that by blast
    from others_kept [OF o1 m(4) this] have "contents_kept s1 s2 U" .
    then have "contents_kept s s2 U" by (rule contents_trans [OF s1(2)])
    moreover have "dlcalloc S s e z = Some (mem, s2)"
      using s1(1) s2(1) m(1,2) u(6,7) by (simp add: dlcalloc_def Let_def calloc_must_clear_def)
    ultimately show ?thesis using s2(2,4) m by blast
  qed
qed

section \<open>dlrealloc\<close>

text \<open>The block \<open>(p, n)\<close> has become the block at \<open>mem\<close>, large enough for \<open>bytes\<close>; the bytes that both have are
  the same, and so are all other blocks.\<close>

definition resettled :: "('o \<Rightarrow> u64) \<Rightarrow> nat \<Rightarrow> 'o dl \<Rightarrow> (u64 \<times> u64) set \<Rightarrow> u64 \<Rightarrow> u64 \<Rightarrow> u64 \<Rightarrow> u64 \<Rightarrow> 'o dl \<Rightarrow> bool" where
  "resettled brk lim s U p n bytes mem s' \<longleftrightarrow> (\<exists>q m. mem = chunk2mem q \<and> mem \<noteq> 0 \<and> unat bytes + 8 \<le> unat m
     \<and> (q, m) \<notin> U - {(p, n)} \<and> owns brk lim s' (insert (q, m) (U - {(p, n)})) \<and> contents_kept s s' (U - {(p, n)})
     \<and> (\<forall>k < min (unat bytes) (unat n - 8). byte_at s' mem k = byte_at s (chunk2mem p) k))"

lemma reshaped_resettled:
  assumes o: "owns brk lim s U" "(p, n) \<in> U" and r: "reshaped brk lim s U p n nb s'" and nb: "unat bytes + 8 \<le> unat nb"
  shows "resettled brk lim s U p n bytes (chunk2mem p) s'"
proof -
  obtain m where m: "nb \<le> m" "owns brk lim s' (insert (p, m) (U - {(p, n)}))" "contents_kept s s' (U - {(p, n)})"
    "\<forall>a \<in> payload p n \<inter> payload p m. heap s' a = heap s a" using r unfolding reshaped_def by blast
  have pm: "(p, m) \<in> insert (p, m) (U - {(p, n)})" by simp
  have nm: "unat bytes + 8 \<le> unat m" using m(1) nb by (simp add: word_le_nat_alt)
  have "(p, m) \<notin> U - {(p, n)}" by (rule same_address [OF o])
  moreover have "byte_at s' (chunk2mem p) k = byte_at s (chunk2mem p) k" if k: "k < min (unat bytes) (unat n - 8)" for k
  proof (rule bytes_kept [OF o])
    fix a assume a: "a \<in> span (chunk2mem p) (Suc k)"
    have "Suc k \<le> unat n - 8" "Suc k \<le> unat m - 8" using k nm by auto
    then have "a \<in> payload p n" "a \<in> payload p m"
      using span_payload [OF o, of "Suc k"] span_payload [OF m(2) pm, of "Suc k"] a by auto
    then show "heap s' a = heap s a" using m(4) by blast
  qed (use k in simp)
  ultimately show ?thesis
    using m(2,3) nm owns_used(2) [OF o] unfolding resettled_def by (intro exI [of _ p] exI [of _ m]) simp
qed

lemma copy_owns:
  assumes o: "owns brk lim s (insert (q, m) U)" "(q, m) \<notin> U" "(p, n) \<in> U" and k: "k \<le> unat n - 8" "k \<le> unat m - 8"
  shows "\<exists>s'. memcpy_words s (chunk2mem q) (chunk2mem p) k = Some s' \<and> owns brk lim s' (insert (q, m) U)
    \<and> contents_kept s s' U \<and> (\<forall>i < k. byte_at s' (chunk2mem q) i = byte_at s (chunk2mem p) i)"
proof -
  have qm: "(q, m) \<in> insert (q, m) U" and pn: "(p, n) \<in> insert (q, m) U" using o(3) by simp_all
  have sp: "span (chunk2mem q) k \<subseteq> payload q m" "span (chunk2mem p) k \<subseteq> payload p n"
    using span_payload [OF o(1) qm k(2)] span_payload [OF o(1) pn k(1)] .
  have "own p n \<inter> own q m = {}" using blocks_okD(2) [OF owns_blocks [OF o(1)] pn qm] o(2,3) by auto
  then have src: "has s x \<and> x \<notin> payload q m" if "x \<in> span (chunk2mem p) k" for x
    using that sp(2) payload_own owns_used(8) [OF o(1) pn] by blast
  have "unat n < 2 ^ 64" using unsigned_less [of n] by simp
  then have "k < 2 ^ 64" using k(1) by simp
  from memcpy_words_ok [where P = "\<lambda>s. owns brk lim s (insert (q, m) U)" and D = "payload q m", OF write_owns [OF _ qm] o(1) this sp(1) src]
  obtain s' where s': "memcpy_words s (chunk2mem q) (chunk2mem p) k = Some s'" "owns brk lim s' (insert (q, m) U)"
    "\<forall>x. x \<notin> span (chunk2mem q) k \<longrightarrow> heap s' x = heap s x" "\<forall>i < k. byte_at s' (chunk2mem q) i = byte_at s (chunk2mem p) i"
    by blast
  have "heap s' x = heap s x" if "x \<notin> payload q m" for x using s'(3) sp(1) that by blast
  from others_kept [OF o(1,2) this] show ?thesis using s' by blast
qed

text \<open>The way through a new block: allocate, copy, free.\<close>

lemma realloc_move:
  assumes S: "brk_only S brk lim" and o: "owns brk lim s U" "(p, n) \<in> U" and k: "legal_size bytes"
  shows "\<exists>mem s'. do {
      (mem, s) \<leftarrow> dlmalloc S s bytes;
      if mem \<noteq> 0 then do {
        n \<leftarrow> chunksize s p;
        ov \<leftarrow> overhead_for s p;
        let oc = n - ov;
        s \<leftarrow> memcpy_words s mem (chunk2mem p) (unat (if oc < bytes then oc else bytes));
        s \<leftarrow> dlfree S s (chunk2mem p);
        Some (mem, s) }
      else Some (0, s) } = Some (mem, s')
    \<and> (mem = 0 \<and> owns brk lim s' U \<and> contents_kept s s' U \<or> resettled brk lim s U p n bytes mem s')"
proof -
  obtain mem s1 where s1: "dlmalloc S s bytes = Some (mem, s1)" "contents_kept s s1 U"
    "mem = 0 \<and> owns brk lim s1 U \<or> (\<exists>q m. mem = chunk2mem q \<and> mem \<noteq> 0 \<and> unat bytes + 8 \<le> unat m \<and> (q, m) \<notin> U
       \<and> owns brk lim s1 (insert (q, m) U))"
    using dlmalloc_law [OF S o(1) k] by (auto simp: contents_kept_def ld_def)
  from s1(3) show ?thesis
  proof (elim disjE exE conjE)
    assume "mem = 0" "owns brk lim s1 U"
    then show ?thesis using s1(1,2) by simp
  next
    fix q m assume m: "mem = chunk2mem q" "mem \<noteq> 0" "unat bytes + 8 \<le> unat m" "(q, m) \<notin> U"
      and o1: "owns brk lim s1 (insert (q, m) U)"
    have pn: "(p, n) \<in> insert (q, m) U" using o(2) by simp
    note u = owns_used [OF o1 pn]
    define c where "c = unat (if n - 8 < bytes then n - 8 else bytes)"
    have n8: "unat (n - 8) = unat n - 8" using u(4) by (simp add: unat_sub word_le_nat_alt)
    then have c: "c = min (unat bytes) (unat n - 8)" by (simp add: c_def word_less_nat_alt)
    have cn: "c \<le> unat n - 8" "c \<le> unat m - 8" using m(3) unfolding c by auto
    obtain s2 where s2: "memcpy_words s1 mem (chunk2mem p) c = Some s2" "owns brk lim s2 (insert (q, m) U)" "contents_kept s1 s2 U"
      "\<forall>i < c. byte_at s2 mem i = byte_at s1 (chunk2mem p) i"
      using copy_owns [OF o1 m(4) o(2) cn] m(1) by blast
    obtain s3 where s3: "dlfree S s2 (chunk2mem p) = Some s3" "owns brk lim s3 (insert (q, m) U - {(p, n)})"
      "contents_kept s2 s3 (insert (q, m) U - {(p, n)})"
      using dlfree_owns [OF s2(2) pn] by blast
    have i: "insert (q, m) U - {(p, n)} = insert (q, m) (U - {(p, n)})" using m(4) o(2) by auto
    have "contents_kept s s2 (U - {(p, n)})"
      by (rule contents_subset [OF contents_trans [OF s1(2) s2(3)]]) blast
    moreover have "contents_kept s2 s3 (U - {(p, n)})"
      by (rule contents_subset [OF s3(3)]) (auto simp: i)
    ultimately have "contents_kept s s3 (U - {(p, n)})" by (rule contents_trans)
    moreover have "byte_at s3 mem k = byte_at s (chunk2mem p) k" if k: "k < c" for k
    proof -
      have qm: "(q, m) \<in> insert (q, m) U" by simp
      have "Suc k \<le> unat m - 8" using k m(3) unfolding c by auto
      then have "span mem (Suc k) \<subseteq> payload q m" unfolding m(1) by (intro span_payload [OF o1 qm])
      then have "heap s3 a = heap s2 a" if "a \<in> span mem (Suc k)" for a
        using that s3(3) unfolding i contents_kept_def by blast
      then have "byte_at s3 mem k = byte_at s2 mem k" using span_byte [OF lessI] by (simp add: byte_at_def ld_def)
      moreover have "byte_at s1 (chunk2mem p) k = byte_at s (chunk2mem p) k"
      proof (rule bytes_kept [OF o])
        fix a assume a: "a \<in> span (chunk2mem p) (Suc k)"
        have "a \<in> payload p n" using span_payload [OF o, of "Suc k"] a k c by auto
        then show "heap s1 a = heap s a" using s1(2) o(2) unfolding contents_kept_def by blast
      qed (use k c in simp)
      ultimately show ?thesis using s2(4) k by simp
    qed
    ultimately have "resettled brk lim s U p n bytes mem s3"
      using m s3(2) unfolding i resettled_def c by (intro exI [of _ q] exI [of _ m]) simp
    moreover have "overhead_for s1 p = Some 8" using u(6) by (simp add: overhead_for_def CHUNK_OVERHEAD_def)
    ultimately show ?thesis using s1(1) m(2) u(5) s2(1) s3(1) unfolding c_def by (simp add: Let_def)
  qed
qed

lemma dlrealloc_owns:
  assumes S: "brk_only S brk lim" and o: "owns brk lim s U" "(p, n) \<in> U" and k: "legal_size bytes"
  shows "\<exists>mem s'. dlrealloc S s (chunk2mem p) bytes = Some (mem, s')
    \<and> (mem = 0 \<and> owns brk lim s' U \<and> contents_kept s s' U \<or> resettled brk lim s U p n bytes mem s')"
proof (cases "MAX_REQUEST \<le> bytes")
  case True
  obtain lay where a: "arena s lay" "sited brk lim s" "useds lay = U" using o by (auto simp: owns_def)
  have "arena (s\<lparr>enomem := True\<rparr>) lay" by (rule arena_same [OF a(1)]) simp_all
  moreover have "sited brk lim (s\<lparr>enomem := True\<rparr>)" using a(2) by (simp add: sited_def top_end_def)
  ultimately have "owns brk lim (s\<lparr>enomem := True\<rparr>) U" using a(3) unfolding owns_def by blast
  then show ?thesis
    using True owns_used(2) [OF o] by (simp add: dlrealloc_def malloc_failure_action_def contents_kept_def)
next
  case False
  note u = owns_used [OF o]
  have b: "unat bytes < 2 ^ 39" using k False by (simp add: legal_size_def)
  note rs = request_size(1,2) [OF request_bound(1) [OF b]]
  have n8: "unat bytes + 8 \<le> unat (request2size bytes)"
    using unat_request2size [OF request_bound(1) [OF b]] by linarith
  have unf: "dlrealloc S s (chunk2mem p) bytes = do {
      (newp, s) \<leftarrow> try_realloc_chunk S s p (request2size bytes) 1;
      if newp \<noteq> 0 then Some (chunk2mem newp, s)
      else do {
        (mem, s) \<leftarrow> dlmalloc S s bytes;
        if mem \<noteq> 0 then do {
          n \<leftarrow> chunksize s p;
          ov \<leftarrow> overhead_for s p;
          let oc = n - ov;
          s \<leftarrow> memcpy_words s mem (chunk2mem p) (unat (if oc < bytes then oc else bytes));
          s \<leftarrow> dlfree S s (chunk2mem p);
          Some (mem, s) }
        else Some (0, s) } }"
    using u(2,7) False by (simp add: dlrealloc_def Let_def)
  from try_realloc_owns [OF o rs, of S 1] show ?thesis
  proof (elim disjE exE conjE)
    assume "try_realloc_chunk S s p (request2size bytes) 1 = Some (0, s)"
    then show ?thesis using realloc_move [OF S o k] unfolding unf by simp
  next
    fix s' assume s': "try_realloc_chunk S s p (request2size bytes) 1 = Some (p, s')"
      "reshaped brk lim s U p n (request2size bytes) s'"
    then show ?thesis using reshaped_resettled [OF o s'(2) n8] u(9) unfolding unf by simp
  qed
qed

text \<open>In place, or not at all.\<close>

lemma realloc_in_place_owns:
  assumes o: "owns brk lim s U" "(p, n) \<in> U" and b: "unat bytes < 2 ^ 39"
  shows "dlrealloc_in_place S s (chunk2mem p) bytes = Some (0, s)
    \<or> (\<exists>s'. dlrealloc_in_place S s (chunk2mem p) bytes = Some (chunk2mem p, s')
         \<and> reshaped brk lim s U p n (request2size bytes) s')"
proof -
  note u = owns_used [OF o]
  note rs = request_size(1,2) [OF request_bound(1) [OF b]]
  have "\<not> MAX_REQUEST \<le> bytes" using request_bound(1) [OF b] by simp
  then show ?thesis
    using try_realloc_owns [OF o rs, of S 0] u(2,7,9) by (auto simp: dlrealloc_in_place_def Let_def)
qed

section \<open>Properties\<close>

text \<open>C13. \<open>dlrealloc\<close> of a block that the client owns returns. With a null pointer the client has what
  it had; otherwise it has, in place of the block, one that is large enough, with the same bytes up to the
  smaller of the old size and the request, whether the block has shrunk, has grown into the top chunk, the
  designated victim or the free block after it, or has moved. All other blocks are as before.\<close>

theorem dlrealloc_sound:
  assumes "brk_only S brk lim" and "owns brk lim s U" and "(p, n) \<in> U" and "legal_size bytes"
  shows "\<exists>mem s'. dlrealloc S s (chunk2mem p) bytes = Some (mem, s')
    \<and> (mem = 0 \<and> owns brk lim s' U \<and> (\<forall>(q, m) \<in> U. \<forall>a \<in> payload q m. ld s' a = ld s a)
       \<or> (\<exists>q m. mem = chunk2mem q \<and> mem \<noteq> 0 \<and> unat bytes + 8 \<le> unat m \<and> (q, m) \<notin> U - {(p, n)}
            \<and> owns brk lim s' (insert (q, m) (U - {(p, n)})) \<and> (\<forall>(r, j) \<in> U - {(p, n)}. \<forall>a \<in> payload r j. ld s' a = ld s a)
            \<and> (\<forall>k < min (unat bytes) (unat n - 8). byte_at s' mem k = byte_at s (chunk2mem p) k)))"
  using dlrealloc_owns [OF assms] unfolding resettled_def contents_kept_def ld_def .

theorem dlrealloc_sound_witness:
  "\<exists>s mem s'. owns id 0x2F000 s {(0x20000, 112)} \<and> dlrealloc brk_machine s 0x20010 5000 = Some (mem, s')
    \<and> (mem = 0 \<or> (\<exists>q m. 5008 \<le> unat m \<and> owns id 0x2F000 s' {(q, m)}
         \<and> (\<forall>k < 104. byte_at s' mem k = byte_at s 0x20010 k)))"
proof -
  obtain s where s: "owns id 0x2F000 s {(0x20000, 112)}" using machine_malloc by blast
  have "legal_size 5000" by (simp add: legal_size_def)
  from dlrealloc_sound [OF brk_machine_ok s singletonI this] obtain mem s' where
    "dlrealloc brk_machine s 0x20010 5000 = Some (mem, s')"
    "mem = 0 \<or> (\<exists>q m. 5008 \<le> unat m \<and> owns id 0x2F000 s' {(q, m)} \<and> (\<forall>k < 104. byte_at s' mem k = byte_at s 0x20010 k))"
    by (auto simp: chunk2mem_def)
  then show ?thesis using s by blast
qed

text \<open>C14. \<open>dlcalloc\<close> returns a null pointer or a new block with room for all elements in which every one of their
  bytes is 0. A product above the largest request, one that does not fit in \<open>size_t\<close> included, gives a
  null pointer and never a small block.\<close>

theorem dlcalloc_sound:
  assumes "brk_only S brk lim" and "owns brk lim s U"
    and "unat e * unat z < 2 ^ 39 \<or> unat MAX_REQUEST \<le> unat e * unat z"
  shows "\<exists>mem s'. dlcalloc S s e z = Some (mem, s') \<and> (\<forall>(p, n) \<in> U. \<forall>a \<in> payload p n. ld s' a = ld s a)
    \<and> (unat MAX_REQUEST \<le> unat e * unat z \<longrightarrow> mem = 0)
    \<and> (mem = 0 \<and> owns brk lim s' U
       \<or> (\<exists>p n. mem = chunk2mem p \<and> mem \<noteq> 0 \<and> unat e * unat z + 8 \<le> unat n \<and> (p, n) \<notin> U
            \<and> owns brk lim s' (insert (p, n) U) \<and> (\<forall>i < unat e * unat z. byte_at s' mem i = Some 0)))"
proof (cases "unat e * unat z < 2 ^ 39")
  case True
  then have lt: "unat e * unat z < 2 ^ 64" by simp
  have r: "unat (calloc_request e z) = unat e * unat z"
    using calloc_request_exact [of e z, THEN conjunct2] by (simp only: lt if_True)
  then have "legal_size (calloc_request e z)" using True by (simp add: legal_size_def)
  note c = dlcalloc_owns [OF assms(1,2) this, unfolded contents_kept_def ld_def r]
  have b: "unat (calloc_request e z) < 2 ^ 39" using True r by simp
  have "\<not> MAX_REQUEST \<le> calloc_request e z" unfolding not_le by (rule request_bound(1) [OF b])
  then have big: "(unat MAX_REQUEST \<le> unat e * unat z) = False" unfolding word_le_nat_alt r by simp
  from c show ?thesis unfolding big ld_def simp_thms .
next
  case False
  have "unat MAX_REQUEST \<le> 2 ^ 64 - 1" using unsigned_less [of MAX_REQUEST] by simp
  moreover have "unat MAX_REQUEST \<le> unat e * unat z" using assms(3) False by blast
  ultimately have "unat MAX_REQUEST \<le> unat (calloc_request e z)"
    unfolding calloc_request_exact [of e z, THEN conjunct2] by (simp only: simp_thms split: if_split)
  then have "MAX_REQUEST \<le> calloc_request e z" by (simp only: word_le_nat_alt)
  from dlmalloc_too_big [OF assms(1,2) this] obtain s' where
    s': "dlmalloc S s (calloc_request e z) = Some (0, s')" "owns brk lim s' U" "heap s' = heap s" by blast
  then have "dlcalloc S s e z = Some (0, s')" by (simp add: dlcalloc_def Let_def)
  then show ?thesis using s'(2,3) by (simp add: ld_def)
qed

theorem dlcalloc_sound_witness:
  "\<exists>mem s'. dlcalloc brk_machine first_process 10 20 = Some (mem, s')
    \<and> (mem = 0 \<or> (\<exists>p n. 208 \<le> unat n \<and> owns id 0x2F000 s' {(p, n)} \<and> (\<forall>i < 200. byte_at s' mem i = Some 0)))"
proof -
  have "owns id 0x2F000 first_process {}" using first_process_untouched by (simp add: owns_def)
  from dlcalloc_sound [OF brk_machine_ok this, of 10 20] show ?thesis by auto
qed

end
