(* ===== verification/DlAligned.thy ===== *)
theory DlAligned
  imports DlRealloc
begin

text \<open>
  Aligned allocation: \<open>internal_memalign\<close> takes a block that is too large, gives back what is before the
  aligned spot and what is behind the request, and returns the block between them.
\<close>

section \<open>A block cut in two\<close>









section \<open>dlmemalign\<close>





section \<open>Properties\<close>



end
